(* ===== verification/Prelude.thy ===== *)
theory Prelude
  imports Complex_Main
begin

text \<open>
  Shared vocabulary of the development: the Go values that occur in every component
  (64-bit integers, durations, instants, strings), the collections of rules that the
  component theories extend, and the generic facts about lists and sums that they share.

  Go's \<open>int\<close> and \<open>int64\<close> are read as unbounded integers. The components state, as
  lemmas, the bounds that keep their counters inside the 64-bit range; where the code
  relies on wrap-around (hashes and seeds) the theories use words instead.
\<close>

section \<open>Collections\<close>

named_theorems inv_simps \<open>equations that unfold the state invariants of the components\<close>
named_theorems step_simps \<open>equations that describe one operation of a component\<close>
named_theorems bound_intros \<open>introduction rules for numeric bounds\<close>

section \<open>Types shared by all components\<close>

text \<open>\<open>time.Duration\<close> counts nanoseconds; \<open>time.Time\<close> counts nanoseconds since Go's
  zero time, so that \<open>IsZero\<close> is the test for \<open>0\<close> and \<open>After\<close> is \<open>>\<close>.\<close>

type_synonym duration = int
type_synonym instant = int

definition nanosecond :: duration where "nanosecond = 1"
definition microsecond :: duration where "microsecond = 1000"
definition millisecond :: duration where "millisecond = 1000000"
definition second :: duration where "second = 1000000000"
definition hour :: duration where "hour = 3600000000000"

lemmas duration_defs = nanosecond_def microsecond_def millisecond_def second_def hour_def

definition is_zero_time :: "instant \<Rightarrow> bool" where
  "is_zero_time t \<longleftrightarrow> t = 0"

definition int64_min :: int where "int64_min = - (2 ^ 63)"
definition int64_max :: int where "int64_max = 2 ^ 63 - 1"

definition in_int64 :: "int \<Rightarrow> bool" where
  "in_int64 n \<longleftrightarrow> int64_min \<le> n \<and> n \<le> int64_max"

lemmas int64_defs = in_int64_def int64_min_def int64_max_def

section \<open>Go's integer division\<close>

text \<open>Division truncates towards zero and the remainder takes the sign of the dividend.\<close>

definition go_quot :: "int \<Rightarrow> int \<Rightarrow> int" where
  "go_quot a b = sgn a * sgn b * (\<bar>a\<bar> div \<bar>b\<bar>)"

definition go_rem :: "int \<Rightarrow> int \<Rightarrow> int" where
  "go_rem a b = a - b * go_quot a b"

lemma go_quot_nonneg [simp]: "0 \<le> a \<Longrightarrow> 0 < b \<Longrightarrow> go_quot a b = a div b"
  by (cases "a = 0") (auto simp: go_quot_def)

lemma go_rem_nonneg [simp]: "0 \<le> a \<Longrightarrow> 0 < b \<Longrightarrow> go_rem a b = a mod b"
  by (simp add: go_rem_def minus_mult_div_eq_mod)

section \<open>Lists\<close>

lemma butlast_last_split: "xs \<noteq> [] \<Longrightarrow> xs = butlast xs @ [last xs]"
  by simp

lemma sum_list_butlast_last:
  fixes f :: "'a \<Rightarrow> int"
  assumes "xs \<noteq> []"
  shows "sum_list (map f xs) = sum_list (map f (butlast xs)) + f (last xs)"
proof -
  have "sum_list (map f (butlast xs @ [last xs])) = sum_list (map f (butlast xs)) + f (last xs)"
    by (simp del: append_butlast_last_id)
  with assms show ?thesis by simp
qed

lemma sum_list_nonneg_map:
  fixes f :: "'a \<Rightarrow> int"
  shows "(\<And>x. x \<in> set xs \<Longrightarrow> 0 \<le> f x) \<Longrightarrow> 0 \<le> sum_list (map f xs)"
  by (induction xs) auto

lemma sum_list_map_mem_le:
  fixes f :: "'a \<Rightarrow> int"
  shows "x \<in> set xs \<Longrightarrow> (\<And>y. y \<in> set xs \<Longrightarrow> 0 \<le> f y) \<Longrightarrow> f x \<le> sum_list (map f xs)"
proof (induction xs)
  case (Cons y ys)
  have "0 \<le> sum_list (map f ys)" by (rule sum_list_nonneg_map) (simp add: Cons.prems(2))
  with Cons show ?case by (cases "x = y") fastforce+
qed simp

lemma sum_list_filter_split:
  fixes f :: "'a \<Rightarrow> int"
  shows "sum_list (map f xs) = sum_list (map f (filter P xs)) + sum_list (map f (filter (\<lambda>x. \<not> P x) xs))"
  by (induction xs) auto

lemma distinct_map_filter_neq:
  "distinct (map f xs) \<Longrightarrow> x \<in> set xs \<Longrightarrow> filter (\<lambda>y. f y = f x) xs = [x]"
  by (induction xs) (auto simp: filter_empty_conv intro: rev_image_eqI)

lemma distinct_map_Cons_neq: "distinct (map f (x # xs)) \<Longrightarrow> y \<in> set xs \<Longrightarrow> f y \<noteq> f x"
  by (auto simp: image_iff)

lemma find_Some_mem: "find P xs = Some x \<Longrightarrow> x \<in> set xs \<and> P x"
  by (induction xs) (auto split: if_splits)

lemma find_None_iff_ball: "find P xs = None \<longleftrightarrow> (\<forall>x\<in>set xs. \<not> P x)"
  by (induction xs) auto

lemma find_map_fst_eq:
  "distinct (map k xs) \<Longrightarrow> x \<in> set xs \<Longrightarrow> find (\<lambda>y. k y = k x) xs = Some x"
  by (induction xs) (auto intro: rev_image_eqI)

end
