(* ===== verification/Float64.thy ===== *)
theory Float64
  imports Prelude "HOL-Library.Log_Nat"
begin

text \<open>
  Go's \<open>float64\<close>, as the reals with binary64 rounding: every arithmetic operation is the
  exact result rounded to 53 significant bits, ties to even, which is what IEEE 754 and
  the Go specification prescribe for \<open>+\<close>, \<open>-\<close>, \<open>*\<close>, \<open>/\<close> and \<open>math.Sqrt\<close> (no fused
  multiply-add, as on amd64). The exponent is unbounded: overflow to infinity, subnormal
  numbers and NaN are outside the model, and a definition whose source can divide by zero
  tests for it. Conversions from \<open>float64\<close> to \<open>int64\<close> truncate and give the smallest
  \<open>int64\<close> when the value does not fit, which is what amd64 does.
\<close>

section \<open>Rounding to the nearest integer, ties to even\<close>

definition rne :: "real \<Rightarrow> int" where
  "rne x = (let n = \<lfloor>x\<rfloor>; d = x - of_int n in
     if d < 1 / 2 then n else if 1 / 2 < d then n + 1 else if even n then n else n + 1)"

lemma rne_of_int [simp]: "rne (of_int i) = i"
  by (simp add: rne_def)

lemma rne_bounds: "of_int \<lfloor>x\<rfloor> \<le> (of_int (rne x) :: real) \<and> rne x \<le> \<lfloor>x\<rfloor> + 1"
  by (simp add: rne_def Let_def)

lemma rne_ge: "of_int i \<le> x \<Longrightarrow> i \<le> rne x"
proof -
  assume "of_int i \<le> x"
  then have "i \<le> \<lfloor>x\<rfloor>" by (simp add: le_floor_iff)
  moreover have "\<lfloor>x\<rfloor> \<le> rne x" by (simp add: rne_def Let_def)
  ultimately show ?thesis by simp
qed

lemma rne_error: "\<bar>of_int (rne x) - x\<bar> \<le> (1 / 2 :: real)"
  using floor_correct [of x] by (auto simp: rne_def Let_def)

lemma rne_le: "x \<le> of_int i \<Longrightarrow> rne x \<le> i"
proof (cases "x = of_int i")
  case False
  assume "x \<le> of_int i"
  with False have "\<lfloor>x\<rfloor> < i" by (simp add: floor_less_iff)
  moreover have "rne x \<le> \<lfloor>x\<rfloor> + 1" by (simp add: rne_def Let_def)
  ultimately show ?thesis by simp
qed simp

lemma rne_mono: "x \<le> y \<Longrightarrow> rne x \<le> rne y"
proof (cases "\<lfloor>x\<rfloor> = \<lfloor>y\<rfloor>")
  case True
  assume "x \<le> y"
  with True show ?thesis by (simp add: rne_def Let_def)
next
  case False
  assume "x \<le> y"
  then have "\<lfloor>x\<rfloor> \<le> \<lfloor>y\<rfloor>" by (rule floor_mono)
  with False have "\<lfloor>x\<rfloor> + 1 \<le> \<lfloor>y\<rfloor>" by simp
  moreover have "rne x \<le> \<lfloor>x\<rfloor> + 1" "\<lfloor>y\<rfloor> \<le> rne y" by (simp_all add: rne_def Let_def)
  ultimately show ?thesis by linarith
qed

lemma rne_minus: "rne (- x) = - rne x"
proof (cases "x = of_int \<lfloor>x\<rfloor>")
  case True
  then have "rne (- x) = rne (of_int (- \<lfloor>x\<rfloor>))" by simp
  also have "\<dots> = - \<lfloor>x\<rfloor>" by (rule rne_of_int)
  also have "\<lfloor>x\<rfloor> = rne x" using True by (metis rne_of_int)
  finally show ?thesis .
next
  case False
  then have "of_int \<lfloor>x\<rfloor> < x" "x < of_int \<lfloor>x\<rfloor> + 1"
    using floor_correct [of x] by (auto simp: less_le)
  then have fl: "\<lfloor>- x\<rfloor> = - \<lfloor>x\<rfloor> - 1"
    by (intro floor_unique; (simp only: of_int_diff of_int_minus of_int_1)?; linarith)
  show ?thesis unfolding rne_def Let_def fl by (auto simp: field_simps)
qed

section \<open>Rounding to 53 bits\<close>

definition fexp :: "real \<Rightarrow> int" where
  "fexp x = \<lfloor>log 2 \<bar>x\<bar>\<rfloor> - 52"

definition fl :: "real \<Rightarrow> real" where
  "fl x = (if x = 0 then 0 else of_int (rne (x / 2 powi fexp x)) * 2 powi fexp x)"

definition float_rep :: "real \<Rightarrow> bool" where
  "float_rep x \<longleftrightarrow> (\<exists>m e. \<bar>m\<bar> \<le> 2 ^ 53 \<and> x = of_int m * 2 powi e)"

lemma fl_0 [simp]: "fl 0 = 0"
  by (simp add: fl_def)

lemma fl_minus: "fl (- x) = - fl x"
  by (simp add: fl_def fexp_def rne_minus)

lemma powi_floor_log:
  assumes "0 < x"
  shows "2 powi \<lfloor>log 2 x\<rfloor> \<le> x \<and> x < 2 powi (\<lfloor>log 2 x\<rfloor> + 1)"
proof -
  have "(2::real) powi \<lfloor>log 2 x\<rfloor> = 2 powr of_int \<lfloor>log 2 x\<rfloor>"
    by (simp add: powr_real_of_int')
  also have "\<dots> \<le> 2 powr log 2 x" by (rule powr_mono) simp_all
  finally have lo: "2 powi \<lfloor>log 2 x\<rfloor> \<le> x" using assms by simp
  have "x = 2 powr log 2 x" using assms by simp
  also have "\<dots> < 2 powr of_int (\<lfloor>log 2 x\<rfloor> + 1)"
    by (rule powr_less_mono) (simp_all add: less_floor_iff)
  also have "\<dots> = 2 powi (\<lfloor>log 2 x\<rfloor> + 1)" by (simp add: powr_real_of_int' del: of_int_add)
  finally show ?thesis using lo by simp
qed

text \<open>The significand before rounding lies in \<open>[2 ^ 52, 2 ^ 53)\<close>.\<close>

lemma fl_significand:
  assumes "0 < x"
  shows "2 ^ 52 \<le> x / 2 powi fexp x \<and> x / 2 powi fexp x < 2 ^ 53"
proof -
  let ?k = "\<lfloor>log 2 x\<rfloor>"
  have e: "fexp x = ?k - 52" using assms by (simp add: fexp_def)
  have "(2::real) powi ?k = 2 ^ 52 * 2 powi fexp x"
    and "(2::real) powi (?k + 1) = 2 ^ 53 * 2 powi fexp x"
    unfolding e by (simp_all add: power_int_diff power_int_add)
  with powi_floor_log [OF assms] show ?thesis
    by (simp add: pos_le_divide_eq pos_divide_less_eq)
qed

lemma fl_pos_bounds:
  assumes "0 < x"
  shows "2 powi \<lfloor>log 2 x\<rfloor> \<le> fl x \<and> fl x \<le> 2 powi (\<lfloor>log 2 x\<rfloor> + 1)"
proof -
  let ?k = "\<lfloor>log 2 x\<rfloor>" and ?m = "rne (x / 2 powi fexp x)"
  have e: "fexp x = ?k - 52" using assms by (simp add: fexp_def)
  have pw: "(2::real) powi ?k = 2 ^ 52 * 2 powi fexp x" "(2::real) powi (?k + 1) = 2 ^ 53 * 2 powi fexp x"
    unfolding e by (simp_all add: power_int_diff power_int_add)
  have "2 ^ 52 \<le> ?m" using fl_significand [OF assms] by (intro rne_ge) simp
  moreover have "?m \<le> 2 ^ 53" using fl_significand [OF assms] by (intro rne_le) simp
  ultimately have "(2 ^ 52 :: real) \<le> of_int ?m" "of_int ?m \<le> (2 ^ 53 :: real)"
    by (metis of_int_le_iff of_int_numeral of_int_power)+
  with assms show ?thesis unfolding pw by (simp add: fl_def)
qed

text \<open>The relative error of rounding is at most half a unit in the last place.\<close>

lemma fl_error:
  assumes "0 \<le> x"
  shows "\<bar>fl x - x\<bar> \<le> x / 2 ^ 53"
proof (cases "x = 0")
  case False
  with assms have x: "0 < x" by simp
  let ?e = "2 powi fexp x :: real"
  have e: "0 < ?e" by simp
  have "fl x - x = (of_int (rne (x / ?e)) - x / ?e) * ?e" using x by (simp add: fl_def algebra_simps)
  then have "\<bar>fl x - x\<bar> = \<bar>of_int (rne (x / ?e)) - x / ?e\<bar> * ?e" by (simp add: abs_mult)
  also have "\<dots> \<le> 1 / 2 * ?e" using rne_error e by (intro mult_right_mono) simp_all
  also have "\<dots> \<le> x / 2 ^ 53" using fl_significand [OF x] by (simp add: pos_le_divide_eq)
  finally show ?thesis .
qed simp

lemma fl_pos: "0 < x \<Longrightarrow> 0 < fl x"
  using fl_pos_bounds [of x] by (meson less_le_trans zero_less_numeral zero_less_power_int)

lemma fl_mono_pos:
  assumes "0 < x" "x \<le> y"
  shows "fl x \<le> fl y"
proof (cases "\<lfloor>log 2 x\<rfloor> = \<lfloor>log 2 y\<rfloor>")
  case True
  with assms have "fexp x = fexp y" by (simp add: fexp_def)
  with assms show ?thesis
    by (auto simp: fl_def intro!: mult_right_mono rne_mono divide_right_mono)
next
  case False
  have "\<lfloor>log 2 x\<rfloor> \<le> \<lfloor>log 2 y\<rfloor>" using assms by (intro floor_mono) simp
  with False have "\<lfloor>log 2 x\<rfloor> + 1 \<le> \<lfloor>log 2 y\<rfloor>" by simp
  then have "(2::real) powi (\<lfloor>log 2 x\<rfloor> + 1) \<le> 2 powi \<lfloor>log 2 y\<rfloor>"
    by (rule power_int_increasing) simp
  moreover have "0 < y" using assms by simp
  ultimately show ?thesis using fl_pos_bounds [of x] fl_pos_bounds [of y] assms by linarith
qed

lemma fl_mono: "x \<le> y \<Longrightarrow> fl x \<le> fl y"
proof (cases "0 < x")
  case True
  assume "x \<le> y"
  with True show ?thesis by (rule fl_mono_pos)
next
  case False
  assume le: "x \<le> y"
  show ?thesis
  proof (cases "0 < y")
    case True
    have "fl x \<le> 0" using False fl_pos [of "- x"] fl_minus [of x] by (cases "x = 0") auto
    with fl_pos [OF True] show ?thesis by linarith
  next
    case y: False
    have "fl (- y) \<le> fl (- x)"
      using y le fl_mono_pos [of "- y" "- x"] fl_pos [of "- x"]
      by (cases "y = 0"; cases "x = 0") auto
    then show ?thesis by (simp add: fl_minus)
  qed
qed

lemma fl_nonneg: "0 \<le> x \<Longrightarrow> 0 \<le> fl x"
  using fl_mono [of 0 x] by simp

text \<open>Rounding keeps every value that has a significand of at most 53 bits.\<close>

lemma powi_split: "(2::real) powi (a + b) = 2 powi a * 2 powi b"
  by (simp add: power_int_add)

lemma fl_exact_pos:
  assumes "0 < m" "m \<le> 2 ^ 53"
  shows "fl (of_int m * 2 powi e) = of_int m * 2 powi e"
proof -
  let ?x = "of_int m * 2 powi e :: real" and ?k = "\<lfloor>log 2 (of_int m)\<rfloor> :: int"
  have pos: "0 < ?x" and mpos: "0 < (of_int m :: real)" using assms by simp_all
  have "log 2 ?x = log 2 (of_int m) + of_int e"
    using assms by (simp add: log_mult log_def ln_mult ln_powr powr_real_of_int' [symmetric] field_simps)
  then have k: "\<lfloor>log 2 ?x\<rfloor> = ?k + e" by (simp del: floor_add_int flip: floor_add_int)
  then have ex: "fexp ?x = (?k - 52) + e" using pos by (simp add: fexp_def)
  have rep: "\<exists>i::int. (of_int m :: real) / 2 powi (?k - 52) = of_int i"
  proof (cases "?k \<le> 52")
    case True
    then have "(2::real) powi (?k - 52) = inverse (2 ^ nat (52 - ?k))"
      by (subst minus_diff_eq [symmetric], subst power_int_minus) (simp add: power_int_def)
    then have "(of_int m :: real) / 2 powi (?k - 52) = of_int (m * 2 ^ nat (52 - ?k))"
      by (simp add: divide_inverse)
    then show ?thesis by blast
  next
    case False
    then have "(2::real) powi 53 \<le> 2 powi ?k" by (intro power_int_increasing) simp_all
    also have "\<dots> \<le> of_int m" using powi_floor_log [OF mpos] by simp
    finally have "(2 ^ 53 :: real) \<le> of_int m" by simp
    then have "2 ^ 53 \<le> m" by (metis of_int_le_iff of_int_numeral of_int_power)
    with assms have "m = 2 ^ 53" by simp
    then have "(of_int m :: real) = 2 powr 53" by simp
    then have "?k = 53" by (simp only: log_powr_cancel) simp
    with \<open>m = 2 ^ 53\<close> have "(of_int m :: real) / 2 powi (?k - 52) = of_int (2 ^ 52)" by simp
    then show ?thesis by blast
  qed
  then obtain i :: int where i: "(of_int m :: real) / 2 powi (?k - 52) = of_int i" ..
  have "?x / 2 powi fexp ?x = (of_int m :: real) / 2 powi (?k - 52)"
    unfolding ex by (simp only: powi_split) simp
  also have "\<dots> = of_int i" by (rule i)
  finally have q: "?x / 2 powi fexp ?x = of_int i" .
  have "fl ?x = of_int (rne (?x / 2 powi fexp ?x)) * 2 powi fexp ?x"
    using pos unfolding fl_def by (metis less_irrefl)
  also have "\<dots> = of_int i * 2 powi fexp ?x" by (simp only: q rne_of_int)
  also have "\<dots> = ?x / 2 powi fexp ?x * 2 powi fexp ?x" by (simp only: q)
  also have "\<dots> = ?x" by simp
  finally show ?thesis .
qed

lemma fl_exact: "float_rep x \<Longrightarrow> fl x = x"
proof -
  assume "float_rep x"
  then obtain m e where m: "\<bar>m\<bar> \<le> 2 ^ 53" and x: "x = of_int m * 2 powi e"
    by (auto simp: float_rep_def)
  consider "m = 0" | "0 < m" | "m < 0" by linarith
  then show ?thesis
  proof cases
    case 3
    have "fl (of_int (- m) * 2 powi e) = of_int (- m) * 2 powi e"
      using 3 m by (intro fl_exact_pos) auto
    then have "fl (- x) = - x" by (simp add: x)
    then show ?thesis by (simp add: fl_minus)
  qed (use m in \<open>simp_all add: x fl_exact_pos\<close>)
qed

lemma float_rep_int: "\<bar>i\<bar> \<le> 2 ^ 53 \<Longrightarrow> float_rep (of_int i)"
  unfolding float_rep_def by (rule exI [of _ i], rule exI [of _ 0]) simp

lemma fl_int: "\<bar>i\<bar> \<le> 2 ^ 53 \<Longrightarrow> fl (of_int i) = of_int i"
  by (intro fl_exact float_rep_int)

lemma fl_numeral [simp]: "numeral n \<le> (2 ^ 53 :: int) \<Longrightarrow> fl (numeral n) = numeral n"
  using fl_int [of "numeral n"] by simp

lemma fl_1 [simp]: "fl 1 = 1"
  using fl_int [of 1] by simp

lemma float_rep_fl: "float_rep (fl x)"
proof -
  have pos: "float_rep (fl x)" if "0 < x" for x
  proof -
    have "2 ^ 52 \<le> rne (x / 2 powi fexp x)" "rne (x / 2 powi fexp x) \<le> 2 ^ 53"
      using fl_significand [OF that] by (auto intro!: rne_ge rne_le)
    then have "\<bar>rne (x / 2 powi fexp x)\<bar> \<le> 2 ^ 53" by simp
    with that show ?thesis unfolding float_rep_def fl_def by auto
  qed
  consider "x = 0" | "0 < x" | "x < 0" by linarith
  then show ?thesis
  proof cases
    case 1
    then show ?thesis using float_rep_int [of 0] by simp
  next
    case 3
    then have "float_rep (fl (- x))" by (intro pos) simp
    then obtain m e where "\<bar>m\<bar> \<le> 2 ^ 53" "fl (- x) = of_int m * 2 powi e"
      by (auto simp: float_rep_def)
    then have "\<bar>- m\<bar> \<le> 2 ^ 53" "fl x = of_int (- m) * 2 powi e" by (auto simp: fl_minus)
    then show ?thesis unfolding float_rep_def by blast
  qed (rule pos)
qed

lemma fl_fl [simp]: "fl (fl x) = fl x"
  by (intro fl_exact float_rep_fl)

lemma fl_le_rep: "x \<le> y \<Longrightarrow> float_rep y \<Longrightarrow> fl x \<le> y"
  using fl_mono [of x y] fl_exact [of y] by simp

lemma fl_ge_rep: "y \<le> x \<Longrightarrow> float_rep y \<Longrightarrow> y \<le> fl x"
  using fl_mono [of y x] fl_exact [of y] by simp

lemma fl_le_int: "x \<le> of_int i \<Longrightarrow> \<bar>i\<bar> \<le> 2 ^ 53 \<Longrightarrow> fl x \<le> of_int i"
  by (intro fl_le_rep float_rep_int)

section \<open>Evaluation\<close>

text \<open>
  The exponent is found from the bit lengths of numerator and denominator, so closed
  floating-point terms evaluate with \<open>code_simp\<close>.
\<close>

definition rat_exp2 :: "int \<Rightarrow> int \<Rightarrow> int" where
  "rat_exp2 n d = (let e = bitlen n - bitlen d in
     if (if 0 \<le> e then d * 2 ^ nat e \<le> n else d \<le> n * 2 ^ nat (- e)) then e else e - 1)"

lemma bitlen_powi_bounds:
  assumes "0 < n"
  shows "2 powi (bitlen n - 1) \<le> (of_int n :: real) \<and> (of_int n :: real) < 2 powi bitlen n"
proof -
  have "0 < bitlen n" using assms by (simp add: bitlen_def floorlog_def add_pos_nonneg)
  moreover have "2 ^ nat (bitlen n - 1) \<le> n \<and> n < 2 ^ nat (bitlen n)"
    using bitlen_bounds [OF assms] .
  then have "(2 ^ nat (bitlen n - 1) :: real) \<le> of_int n \<and> (of_int n :: real) < 2 ^ nat (bitlen n)"
    by (metis of_int_le_iff of_int_less_iff of_int_numeral of_int_power)
  ultimately show ?thesis by (simp add: power_int_def)
qed

lemma powi_le_quotient:
  assumes "0 < d"
  shows "2 powi e \<le> (of_int n / of_int d :: real) \<longleftrightarrow>
    (if 0 \<le> e then d * 2 ^ nat e \<le> n else d \<le> n * 2 ^ nat (- e))"
proof (cases "0 \<le> e")
  case True
  have "2 powi e \<le> (of_int n / of_int d :: real) \<longleftrightarrow> of_int (d * 2 ^ nat e) \<le> (of_int n :: real)"
    using True assms by (simp add: power_int_def pos_le_divide_eq mult.commute)
  with True show ?thesis by (simp only: of_int_le_iff if_True)
next
  case False
  have "2 powi e \<le> (of_int n / of_int d :: real) \<longleftrightarrow> of_int d \<le> (of_int (n * 2 ^ nat (- e)) :: real)"
    using False assms by (simp add: power_int_def pos_le_divide_eq field_simps)
  with False show ?thesis by (simp only: of_int_le_iff if_False)
qed

lemma floor_log2_quotient:
  assumes "0 < n" "0 < d"
  shows "\<lfloor>log 2 (of_int n / of_int d)\<rfloor> = rat_exp2 n d"
proof -
  let ?q = "of_int n / of_int d :: real" and ?e = "bitlen n - bitlen d"
  have q: "0 < ?q" using assms by simp
  have hi: "?q < 2 powi (?e + 1)"
  proof -
    have "of_int n < (2::real) powi bitlen n" using bitlen_powi_bounds [OF assms(1)] by simp
    also have "(2::real) powi bitlen n = 2 powi (?e + 1) * 2 powi (bitlen d - 1)"
      by (simp flip: powi_split)
    also have "\<dots> \<le> 2 powi (?e + 1) * of_int d"
      using bitlen_powi_bounds [OF assms(2)] by (intro mult_left_mono) simp_all
    finally show ?thesis using assms by (simp add: pos_divide_less_eq)
  qed
  have lo: "2 powi (?e - 1) \<le> ?q"
  proof -
    have "2 powi (?e - 1) * of_int d \<le> (2::real) powi (?e - 1) * 2 powi bitlen d"
      using bitlen_powi_bounds [OF assms(2)] by (intro mult_left_mono) simp_all
    also have "\<dots> = 2 powi (bitlen n - 1)" by (simp flip: powi_split)
    also have "\<dots> \<le> of_int n" using bitlen_powi_bounds [OF assms(1)] by simp
    finally show ?thesis using assms by (simp add: pos_le_divide_eq)
  qed
  have uniq: "\<lfloor>log 2 ?q\<rfloor> = k" if "2 powi k \<le> ?q" "?q < 2 powi (k + 1)" for k
  proof (rule floor_unique)
    show "of_int k \<le> log 2 ?q"
      using q that(1) by (subst le_log_iff) (simp_all add: powr_real_of_int')
    have "?q < 2 powr (of_int k + 1)"
      using that(2) by (simp add: powr_real_of_int' [symmetric])
    then show "log 2 ?q < of_int k + 1" using q by (subst log_less_iff) simp_all
  qed
  show ?thesis
  proof (cases "2 powi ?e \<le> ?q")
    case True
    with hi have "\<lfloor>log 2 ?q\<rfloor> = ?e" by (intro uniq)
    with True show ?thesis using powi_le_quotient [OF assms(2), of ?e n] by (simp add: rat_exp2_def Let_def)
  next
    case False
    with lo have "\<lfloor>log 2 ?q\<rfloor> = ?e - 1" by (intro uniq) simp_all
    with False show ?thesis using powi_le_quotient [OF assms(2), of ?e n] by (simp add: rat_exp2_def Let_def)
  qed
qed

definition fl_pos_rat :: "int \<Rightarrow> int \<Rightarrow> real" where
  "fl_pos_rat n d = (let e = rat_exp2 n d - 52 in
     of_int (rne (of_int n / of_int d / 2 powi e)) * 2 powi e)"

lemma fl_pos_rat: "0 < n \<Longrightarrow> 0 < d \<Longrightarrow> fl (of_int n / of_int d) = fl_pos_rat n d"
  by (simp add: fl_def fexp_def fl_pos_rat_def Let_def floor_log2_quotient)

lemma fl_code [code]:
  "fl (Ratreal r) = (case quotient_of r of (n, d) \<Rightarrow>
     if n = 0 then 0 else if 0 < n then fl_pos_rat n d else - fl_pos_rat (- n) d)"
proof (cases "quotient_of r")
  case (Pair n d)
  have d: "0 < d" using quotient_of_denom_pos [OF Pair] .
  have r: "Ratreal r = of_int n / of_int d"
    using quotient_of_div [OF Pair] by (simp add: of_rat_divide)
  consider "n = 0" | "0 < n" | "n < 0" by linarith
  then show ?thesis
  proof cases
    case 3
    then have "fl (of_int (- n) / of_int d) = fl_pos_rat (- n) d" using d by (intro fl_pos_rat) simp_all
    then have "fl (of_int n / of_int d) = - fl_pos_rat (- n) d"
      using fl_minus [of "of_int n / of_int d"] by simp
    with 3 Pair show ?thesis by (simp add: r del: Ratreal_def)
  qed (use d Pair in \<open>simp_all add: r fl_pos_rat del: Ratreal_def\<close>)
qed

section \<open>The operations of the code\<close>

definition fadd :: "real \<Rightarrow> real \<Rightarrow> real" where "fadd x y = fl (x + y)"
definition fsub :: "real \<Rightarrow> real \<Rightarrow> real" where "fsub x y = fl (x - y)"
definition fmul :: "real \<Rightarrow> real \<Rightarrow> real" where "fmul x y = fl (x * y)"
definition fdiv :: "real \<Rightarrow> real \<Rightarrow> real" where "fdiv x y = fl (x / y)"
definition fsqrt :: "real \<Rightarrow> real" where "fsqrt x = fl (sqrt x)"

text \<open>\<open>float64(n)\<close> for an integer and \<open>int64(x)\<close> for a float.\<close>

definition i2f :: "int \<Rightarrow> real" where "i2f n = fl (of_int n)"

definition trunc :: "real \<Rightarrow> int" where "trunc x = (if 0 \<le> x then \<lfloor>x\<rfloor> else \<lceil>x\<rceil>)"

definition f2i :: "real \<Rightarrow> int" where
  "f2i x = (if in_int64 (trunc x) then trunc x else int64_min)"

definition fceil :: "real \<Rightarrow> real" where "fceil x = of_int \<lceil>x\<rceil>"

lemmas float_ops = fadd_def fsub_def fmul_def fdiv_def i2f_def

lemma fmul_nonneg [bound_intros]: "0 \<le> x \<Longrightarrow> 0 \<le> y \<Longrightarrow> 0 \<le> fmul x y"
  by (simp add: fmul_def fl_nonneg)

lemma fdiv_nonneg [bound_intros]: "0 \<le> x \<Longrightarrow> 0 \<le> y \<Longrightarrow> 0 \<le> fdiv x y"
  by (simp add: fdiv_def fl_nonneg)

lemma fadd_nonneg [bound_intros]: "0 \<le> x \<Longrightarrow> 0 \<le> y \<Longrightarrow> 0 \<le> fadd x y"
  by (simp add: fadd_def fl_nonneg)

lemma i2f_nonneg [bound_intros]: "0 \<le> n \<Longrightarrow> 0 \<le> i2f n"
  by (simp add: i2f_def fl_nonneg)

lemma i2f_0 [simp]: "i2f 0 = 0"
  by (simp add: i2f_def)

lemma i2f_pos: "0 < n \<Longrightarrow> 0 < i2f n"
  by (simp add: i2f_def fl_pos)

lemma i2f_exact: "\<bar>n\<bar> \<le> 2 ^ 53 \<Longrightarrow> i2f n = of_int n"
  by (simp add: i2f_def fl_int)

lemma i2f_mono: "m \<le> n \<Longrightarrow> i2f m \<le> i2f n"
  by (simp add: i2f_def fl_mono)

lemma fdiv_le_1: "0 \<le> x \<Longrightarrow> x \<le> y \<Longrightarrow> fdiv x y \<le> 1"
proof -
  assume "0 \<le> x" "x \<le> y"
  then have "x / y \<le> 1" by (cases "y = 0") (auto simp: divide_le_eq_1)
  then show ?thesis using fl_mono [of "x / y" 1] by (simp add: fdiv_def)
qed

lemma fmul_le_left:
  assumes "0 \<le> x" "float_rep x" "y \<le> 1"
  shows "fmul x y \<le> x"
proof -
  have "x * y \<le> x" using assms by (simp add: mult_left_le)
  then show ?thesis using assms by (simp add: fmul_def fl_le_rep)
qed

lemma float_rep_i2f: "float_rep (i2f n)"
  by (simp add: i2f_def float_rep_fl)

lemma trunc_mono: "x \<le> y \<Longrightarrow> trunc x \<le> trunc y"
  unfolding trunc_def by (auto intro: floor_mono ceiling_mono order_trans [of _ 0])

lemma trunc_of_int [simp]: "trunc (of_int i) = i"
  by (simp add: trunc_def)

lemma trunc_numeral [simp]: "trunc (numeral n) = numeral n"
  by (simp add: trunc_def)

lemma trunc_0 [simp]: "trunc 0 = 0"
  by (simp add: trunc_def)

lemma trunc_nonneg: "0 \<le> x \<Longrightarrow> 0 \<le> trunc x"
  by (simp add: trunc_def)

text \<open>A non-negative value that is small enough converts without surprise.\<close>

lemma f2i_nonneg:
  assumes "0 \<le> x" "x \<le> of_int n" "n \<le> int64_max"
  shows "0 \<le> f2i x \<and> f2i x \<le> n"
proof -
  have "0 \<le> trunc x" using assms(1) by (rule trunc_nonneg)
  moreover have "trunc x \<le> n" using trunc_mono [OF assms(2)] by simp
  moreover have "in_int64 (trunc x)" using calculation assms(3) by (simp add: int64_defs)
  ultimately show ?thesis by (simp add: f2i_def)
qed

lemma trunc_f2i: "0 \<le> x \<Longrightarrow> x \<le> y \<Longrightarrow> y \<le> of_int n \<Longrightarrow> n \<le> int64_max \<Longrightarrow> 0 \<le> f2i x \<and> f2i x \<le> f2i y"
  using f2i_nonneg [of x n] f2i_nonneg [of y n] trunc_mono [of x y] trunc_mono [of y "of_int n"] trunc_nonneg [of x] trunc_nonneg [of y]
  by (auto simp: f2i_def int64_defs split: if_splits)

lemma f2i_of_int: "in_int64 n \<Longrightarrow> f2i (of_int n) = n"
  by (simp add: f2i_def)

section \<open>Durations as floats\<close>

text \<open>\<open>Duration.Seconds\<close> and \<open>Duration.Milliseconds\<close> of the standard library.\<close>

definition dur_seconds :: "duration \<Rightarrow> real" where
  "dur_seconds d = fadd (i2f (go_quot d second)) (fdiv (i2f (go_rem d second)) 1000000000)"

definition dur_milliseconds :: "duration \<Rightarrow> int" where
  "dur_milliseconds d = go_quot d millisecond"

lemma dur_seconds_nonneg: "0 \<le> d \<Longrightarrow> 0 \<le> dur_seconds d"
  by (auto simp: dur_seconds_def second_def intro!: bound_intros pos_imp_zdiv_nonneg_iff [THEN iffD2])

end
