(* ===== verification/Cache.thy ===== *)
theory Cache
  imports Float64
begin

text \<open>
  Package \<open>cache\<close>: the cached item, the counters, the element lists both caches are built
  on (Go's \<open>container/list\<close>), and the interface \<open>Cache\<close> as a locale. The locale's clients
  see a cache through its resident map; \<open>Lru\<close> and \<open>Arc\<close> provide it.
\<close>

section \<open>Items and statistics\<close>

text \<open>The payload \<open>Value any\<close> is an opaque handle, \<open>None\<close> for Go's \<open>nil\<close>.\<close>

record item =
  item_key :: string
  size_bytes :: int
  expiry :: instant
  item_value :: "nat option"

definition zero_item :: item where
  "zero_item = \<lparr>item_key = [], size_bytes = 0, expiry = 0, item_value = None\<rparr>"

record cache_stats =
  hits :: int
  misses :: int
  evictions :: int
  bytes_used :: int
  bytes_max :: int

definition fresh_stats :: "int \<Rightarrow> cache_stats" where
  "fresh_stats mx = \<lparr>hits = 0, misses = 0, evictions = 0, bytes_used = 0, bytes_max = mx\<rparr>"

definition hit_rate :: "cache_stats \<Rightarrow> real" where
  "hit_rate s = (let total = hits s + misses s in
     if total = 0 then 0 else fdiv (i2f (hits s)) (i2f total))"

text \<open>The test \<open>!Expiry.IsZero() && now.After(Expiry)\<close> of both \<open>Get\<close> methods.\<close>

definition expired :: "instant \<Rightarrow> item \<Rightarrow> bool" where
  "expired now it \<longleftrightarrow> \<not> is_zero_time (expiry it) \<and> expiry it < now"

definition total_size :: "(nat \<times> item) list \<Rightarrow> int" where
  "total_size xs = sum_list (map (\<lambda>e. size_bytes (snd e)) xs)"

section \<open>Element lists (container/list)\<close>

text \<open>
  A list element is its identity (the pointer the index maps keep) with the entry it
  carries; the head of the list is the front.
\<close>

type_synonym elem = "nat \<times> item"

definition l_remove :: "nat \<Rightarrow> elem list \<Rightarrow> elem list" where
  "l_remove i xs = filter (\<lambda>e. fst e \<noteq> i) xs"

definition l_to_front :: "nat \<Rightarrow> elem list \<Rightarrow> elem list" where
  "l_to_front i xs = filter (\<lambda>e. fst e = i) xs @ filter (\<lambda>e. fst e \<noteq> i) xs"

definition l_back :: "elem list \<Rightarrow> elem option" where
  "l_back xs = (if xs = [] then None else Some (last xs))"

definition l_value :: "nat \<Rightarrow> elem list \<Rightarrow> item" where
  "l_value i xs = (case find (\<lambda>e. fst e = i) xs of None \<Rightarrow> zero_item | Some e \<Rightarrow> snd e)"

definition l_set :: "nat \<Rightarrow> item \<Rightarrow> elem list \<Rightarrow> elem list" where
  "l_set i v xs = map (\<lambda>e. if fst e = i then (i, v) else e) xs"

abbreviation ids :: "elem list \<Rightarrow> nat list" where "ids xs \<equiv> map fst xs"
abbreviation keys :: "elem list \<Rightarrow> string list" where "keys xs \<equiv> map (\<lambda>e. item_key (snd e)) xs"

definition key_index :: "elem list \<Rightarrow> string \<rightharpoonup> nat" where
  "key_index xs = map_of (map (\<lambda>e. (item_key (snd e), fst e)) xs)"

definition key_items :: "elem list \<Rightarrow> string \<rightharpoonup> item" where
  "key_items xs = map_of (map (\<lambda>e. (item_key (snd e), snd e)) xs)"

lemma total_size_simps [simp]:
  "total_size [] = 0"
  "total_size (e # xs) = size_bytes (snd e) + total_size xs"
  "total_size (xs @ ys) = total_size xs + total_size ys"
  by (simp_all add: total_size_def)

lemma total_size_nonneg:
  "(\<And>e. e \<in> set xs \<Longrightarrow> 0 \<le> size_bytes (snd e)) \<Longrightarrow> 0 \<le> total_size xs"
  unfolding total_size_def by (rule sum_list_nonneg_map)

lemma total_size_mem:
  "e \<in> set xs \<Longrightarrow> (\<And>e. e \<in> set xs \<Longrightarrow> 0 \<le> size_bytes (snd e)) \<Longrightarrow> size_bytes (snd e) \<le> total_size xs"
  unfolding total_size_def by (rule sum_list_map_mem_le)

lemma set_l_remove [simp]: "set (l_remove i xs) = {e \<in> set xs. fst e \<noteq> i}"
  by (auto simp: l_remove_def)

lemma l_remove_notin [simp]: "i \<notin> fst ` set xs \<Longrightarrow> l_remove i xs = xs"
  by (auto simp: l_remove_def filter_id_conv)

lemma l_remove_simps [simp]:
  "l_remove i [] = []"
  "l_remove i (e # xs) = (if fst e = i then l_remove i xs else e # l_remove i xs)"
  "l_remove i (xs @ ys) = l_remove i xs @ l_remove i ys"
  by (simp_all add: l_remove_def)

lemma length_l_remove_last: "xs \<noteq> [] \<Longrightarrow> length (l_remove (fst (last xs)) xs) < length xs"
  unfolding l_remove_def by (rule length_filter_less [of "last xs"]) simp_all

lemma l_remove_last: "distinct (ids xs) \<Longrightarrow> xs \<noteq> [] \<Longrightarrow> l_remove (fst (last xs)) xs = butlast xs"
proof (induction xs rule: rev_induct)
  case (snoc x xs)
  then have "fst x \<notin> fst ` set xs" by auto
  then show ?case by simp
qed simp

text \<open>Under distinct identities an element splits its list.\<close>

lemma elem_split:
  assumes "distinct (ids xs)" "(i, it) \<in> set xs"
  obtains ys zs where "xs = ys @ (i, it) # zs" "i \<notin> fst ` set ys" "i \<notin> fst ` set zs"
proof -
  from assms(2) obtain ys zs where "xs = ys @ (i, it) # zs" by (meson split_list)
  with assms(1) have "i \<notin> fst ` set ys" "i \<notin> fst ` set zs" by auto
  with \<open>xs = _\<close> show thesis by (rule that)
qed

lemma l_value_mem:
  assumes "distinct (ids xs)" "(i, it) \<in> set xs"
  shows "l_value i xs = it"
  using assms find_map_fst_eq [of fst xs "(i, it)"] by (simp add: l_value_def)

lemma filter_other_ids:
  assumes "i \<notin> fst ` set ys"
  shows "filter (\<lambda>e. fst e = i) ys = []" and "filter (\<lambda>e. fst e \<noteq> i) ys = ys"
  using assms by (auto simp: filter_empty_conv filter_id_conv)

lemma l_to_front_split:
  "i \<notin> fst ` set ys \<Longrightarrow> i \<notin> fst ` set zs \<Longrightarrow> l_to_front i (ys @ (i, it) # zs) = (i, it) # ys @ zs"
  by (simp add: l_to_front_def filter_other_ids)

lemma l_set_split:
  "i \<notin> fst ` set ys \<Longrightarrow> i \<notin> fst ` set zs \<Longrightarrow> l_set i v (ys @ (i, it) # zs) = ys @ (i, v) # zs"
  by (force simp: l_set_def intro!: map_idI)

lemma set_l_to_front [simp]: "set (l_to_front i xs) = set xs"
  by (auto simp: l_to_front_def)

lemma l_back_eq_None [simp]: "l_back xs = None \<longleftrightarrow> xs = []"
  by (simp add: l_back_def)

lemma l_back_SomeD: "l_back xs = Some e \<Longrightarrow> xs \<noteq> [] \<and> e = last xs"
  by (auto simp: l_back_def split: if_splits)

section \<open>Key indexes\<close>

lemma key_index_simps [simp]:
  "key_index [] = Map.empty"
  "key_index (e # xs) = (key_index xs)(item_key (snd e) \<mapsto> fst e)"
  by (simp_all add: key_index_def)

lemma key_items_simps [simp]:
  "key_items [] = Map.empty"
  "key_items (e # xs) = (key_items xs)(item_key (snd e) \<mapsto> snd e)"
  by (simp_all add: key_items_def)

lemma key_items_append: "key_items (xs @ ys) = key_items ys ++ key_items xs"
  by (simp add: key_items_def)

lemma dom_key_index: "dom (key_index xs) = set (keys xs)"
  by (simp add: key_index_def dom_map_of_conv_image_fst image_image)

lemma key_index_SomeD: "key_index xs k = Some i \<Longrightarrow> \<exists>it. (i, it) \<in> set xs \<and> item_key it = k"
  by (force simp: key_index_def dest: map_of_SomeD)

lemma key_items_SomeD: "key_items xs k = Some it \<Longrightarrow> (\<exists>i. (i, it) \<in> set xs) \<and> item_key it = k"
  by (force simp: key_items_def dest: map_of_SomeD)

lemma key_items_None: "key_items xs k = None \<longleftrightarrow> k \<notin> set (keys xs)"
  by (auto simp: key_items_def map_of_eq_None_iff image_image)

lemma key_index_None: "key_index xs k = None \<longleftrightarrow> k \<notin> set (keys xs)"
  by (auto simp: key_index_def map_of_eq_None_iff image_image)

lemma key_items_split:
  "item_key it = k \<Longrightarrow> k \<notin> set (keys ys) \<Longrightarrow> key_items (ys @ (i, it) # zs) k = Some it"
  by (auto simp: key_items_append map_add_Some_iff key_items_None)

lemma filter_key_id: "k \<notin> set (keys xs) \<Longrightarrow> filter (\<lambda>e. item_key (snd e) \<noteq> k) xs = xs"
  by (induction xs) auto

lemma key_index_mid:
  assumes "item_key it \<notin> set (keys ys)"
  shows "key_index (ys @ (i, it) # zs) = (key_index (ys @ zs))(item_key it \<mapsto> i)"
  using assms by (induction ys) (auto simp: fun_upd_twist)

lemma key_items_mid:
  assumes "item_key it \<notin> set (keys ys)"
  shows "key_items (ys @ (i, it) # zs) = (key_items (ys @ zs))(item_key it \<mapsto> it)"
  using assms by (induction ys) (auto simp: fun_upd_twist)

lemma key_index_del:
  assumes "item_key it \<notin> set (keys ys)" "item_key it \<notin> set (keys zs)"
  shows "(key_index (ys @ (i, it) # zs))(item_key it := None) = key_index (ys @ zs)"
proof -
  have "key_index (ys @ zs) (item_key it) = None" using assms by (auto simp: key_index_None)
  then show ?thesis by (simp add: key_index_mid [OF assms(1)] fun_upd_idem)
qed

lemma key_items_del:
  assumes "item_key it \<notin> set (keys ys)" "item_key it \<notin> set (keys zs)"
  shows "(key_items (ys @ (i, it) # zs))(item_key it := None) = key_items (ys @ zs)"
proof -
  have "key_items (ys @ zs) (item_key it) = None" using assms by (auto simp: key_items_None)
  then show ?thesis by (simp add: key_items_mid [OF assms(1)] fun_upd_idem)
qed

section \<open>Well-formed element lists\<close>

text \<open>Distinct identities below the allocator, distinct keys, sizes not negative.\<close>

definition elems_ok :: "nat \<Rightarrow> elem list \<Rightarrow> bool" where
  "elems_ok n xs \<longleftrightarrow> distinct (ids xs) \<and> distinct (keys xs) \<and> (\<forall>e\<in>set xs. fst e < n \<and> 0 \<le> size_bytes (snd e))"

lemma elems_ok_simps [simp]:
  "elems_ok n []"
  "elems_ok n (e # xs) \<longleftrightarrow> fst e \<notin> fst ` set xs \<and> item_key (snd e) \<notin> set (keys xs) \<and> fst e < n \<and>
     0 \<le> size_bytes (snd e) \<and> elems_ok n xs"
  by (auto simp: elems_ok_def)

lemma elems_ok_mono: "elems_ok n xs \<Longrightarrow> n \<le> m \<Longrightarrow> elems_ok m xs"
  by (auto simp: elems_ok_def)

lemma elems_ok_perm: "elems_ok n (xs @ ys @ zs) = elems_ok n (xs @ zs @ ys)"
  by (auto simp: elems_ok_def)

lemma elems_ok_mid:
  "elems_ok n (ys @ (i, it) # zs) \<longleftrightarrow> i \<notin> fst ` set (ys @ zs) \<and> item_key it \<notin> set (keys (ys @ zs)) \<and> i < n \<and>
     0 \<le> size_bytes it \<and> elems_ok n (ys @ zs)"
  by (auto simp: elems_ok_def)

lemma elems_ok_fresh: "elems_ok n xs \<Longrightarrow> n \<notin> fst ` set xs"
  by (auto simp: elems_ok_def)

lemma elems_ok_size: "elems_ok n xs \<Longrightarrow> e \<in> set xs \<Longrightarrow> 0 \<le> size_bytes (snd e)"
  by (auto simp: elems_ok_def)

lemma elems_ok_total: "elems_ok n xs \<Longrightarrow> 0 \<le> total_size xs"
  by (rule total_size_nonneg) (rule elems_ok_size)

lemma elems_ok_appendD: "elems_ok n (xs @ ys) \<Longrightarrow> elems_ok n xs \<and> elems_ok n ys"
  by (auto simp: elems_ok_def)

lemma elems_ok_split:
  assumes "elems_ok n (ys @ (i, it) # zs)"
  shows "i \<notin> fst ` set ys" "i \<notin> fst ` set zs" "item_key it \<notin> set (keys ys)" "item_key it \<notin> set (keys zs)"
    "l_value i (ys @ (i, it) # zs) = it" "l_remove i (ys @ (i, it) # zs) = ys @ zs" "elems_ok n (ys @ zs)"
    "0 \<le> size_bytes it" "i < n"
proof -
  show n: "i \<notin> fst ` set ys" "i \<notin> fst ` set zs" "item_key it \<notin> set (keys ys)" "item_key it \<notin> set (keys zs)"
    "elems_ok n (ys @ zs)" "0 \<le> size_bytes it" "i < n"
    using assms by (auto simp: elems_ok_def)
  show "l_remove i (ys @ (i, it) # zs) = ys @ zs" using n by simp
  show "l_value i (ys @ (i, it) # zs) = it"
    using assms by (intro l_value_mem) (simp_all add: elems_ok_def)
qed

text \<open>The entry of an element is replaced in place (\<open>ent.item = item\<close>).\<close>

lemma elems_ok_set:
  assumes "elems_ok n (ys @ (i, it) # zs)" "item_key v = item_key it" "0 \<le> size_bytes v"
  shows "l_set i v (ys @ (i, it) # zs) = ys @ (i, v) # zs" "elems_ok n (ys @ (i, v) # zs)"
    "key_index (ys @ (i, v) # zs) = key_index (ys @ (i, it) # zs)"
proof -
  note sp = elems_ok_split [OF assms(1)]
  show "l_set i v (ys @ (i, it) # zs) = ys @ (i, v) # zs" using sp by (intro l_set_split)
  show "elems_ok n (ys @ (i, v) # zs)" using assms by (auto simp: elems_ok_def)
  show "key_index (ys @ (i, v) # zs) = key_index (ys @ (i, it) # zs)"
    using sp assms(2) by (simp add: key_index_mid)
qed

lemma elems_ok_lookup:
  assumes "elems_ok n xs" "key_index xs k = Some i"
  obtains it ys zs where "xs = ys @ (i, it) # zs" "item_key it = k"
proof -
  from assms(2) obtain it where it: "(i, it) \<in> set xs" "item_key it = k" by (blast dest: key_index_SomeD)
  from it(1) obtain ys zs where "xs = ys @ (i, it) # zs" by (meson split_list)
  from this it(2) show thesis by (rule that)
qed

section \<open>Sequences of requests\<close>

text \<open>
  A client's requests in the order the cache's lock serialises them, and what they answer.
  \<open>latest\<close> is the reference: a map that remembers, for every key, the last item that was
  small enough to be stored. \<open>answers_ok\<close> says that every hit returns exactly that item,
  and one that had not expired.
\<close>

datatype cache_op = OpGet string instant | OpPut item instant | OpClear

fun run_ops :: "(string \<Rightarrow> instant \<Rightarrow> 'c \<Rightarrow> item option \<times> 'c) \<Rightarrow> (item \<Rightarrow> instant \<Rightarrow> 'c \<Rightarrow> 'c) \<Rightarrow>
    ('c \<Rightarrow> 'c) \<Rightarrow> cache_op list \<Rightarrow> 'c \<Rightarrow> item option list \<times> 'c" where
  "run_ops get put clear [] c = ([], c)"
| "run_ops get put clear (OpGet k now # ops) c =
     (let (a, c1) = get k now c; (as, c2) = run_ops get put clear ops c1 in (a # as, c2))"
| "run_ops get put clear (OpPut it now # ops) c = run_ops get put clear ops (put it now c)"
| "run_ops get put clear (OpClear # ops) c = run_ops get put clear ops (clear c)"

lemma run_ops_OpGet [simp]:
  "run_ops get put clear (OpGet k now # ops) c =
     (fst (get k now c) # fst (run_ops get put clear ops (snd (get k now c))),
      snd (run_ops get put clear ops (snd (get k now c))))"
  by (simp split: prod.split)

declare run_ops.simps(2) [simp del]

fun latest :: "int \<Rightarrow> (string \<rightharpoonup> item) \<Rightarrow> cache_op \<Rightarrow> string \<rightharpoonup> item" where
  "latest mx m (OpGet k now) = m"
| "latest mx m (OpPut it now) = (if size_bytes it \<le> mx then m(item_key it \<mapsto> it) else m)"
| "latest mx m OpClear = Map.empty"

fun answers_ok :: "int \<Rightarrow> (string \<rightharpoonup> item) \<Rightarrow> cache_op list \<Rightarrow> item option list \<Rightarrow> bool" where
  "answers_ok mx m [] as \<longleftrightarrow> as = []"
| "answers_ok mx m (OpGet k now # ops) as \<longleftrightarrow>
     (case as of [] \<Rightarrow> False
      | a # as' \<Rightarrow> (case a of None \<Rightarrow> True | Some it \<Rightarrow> m k = Some it \<and> \<not> expired now it)
                  \<and> answers_ok mx m ops as')"
| "answers_ok mx m (op # ops) as \<longleftrightarrow> answers_ok mx (latest mx m op) ops as"

fun op_ok :: "cache_op \<Rightarrow> bool" where
  "op_ok (OpPut it now) \<longleftrightarrow> 0 \<le> size_bytes it"
| "op_ok _ \<longleftrightarrow> True"

fun is_get :: "cache_op \<Rightarrow> bool" where
  "is_get (OpGet k now) \<longleftrightarrow> True"
| "is_get _ \<longleftrightarrow> False"

section \<open>The interface\<close>

text \<open>
  The contract of Go's interface \<open>Cache\<close>, over the map of resident items: \<open>Get\<close> answers
  from that map and drops an expired item, \<open>Put\<close> makes its item resident unless it is
  larger than the whole cache, may evict others and never changes them, \<open>Clear\<close> empties
  the map, and each \<open>Get\<close> moves exactly one of the two request counters.
\<close>

locale cache_iface =
  fixes get :: "string \<Rightarrow> instant \<Rightarrow> 'c \<Rightarrow> item option \<times> 'c"
    and put :: "item \<Rightarrow> instant \<Rightarrow> 'c \<Rightarrow> 'c"
    and clear :: "'c \<Rightarrow> 'c"
    and stats :: "'c \<Rightarrow> cache_stats"
    and resident :: "'c \<Rightarrow> string \<rightharpoonup> item"
    and inv :: "'c \<Rightarrow> bool"
  assumes get_inv: "inv c \<Longrightarrow> inv (snd (get k now c))"
    and put_inv: "inv c \<Longrightarrow> 0 \<le> size_bytes it \<Longrightarrow> inv (put it now c)"
    and clear_inv: "inv c \<Longrightarrow> inv (clear c)"
    and get_result: "inv c \<Longrightarrow> fst (get k now c) =
          (case resident c k of None \<Rightarrow> None | Some it \<Rightarrow> if expired now it then None else Some it)"
    and get_resident: "inv c \<Longrightarrow> resident (snd (get k now c)) =
          (case resident c k of None \<Rightarrow> resident c
           | Some it \<Rightarrow> if expired now it then (resident c)(k := None) else resident c)"
    and put_stored: "inv c \<Longrightarrow> 0 \<le> size_bytes it \<Longrightarrow> size_bytes it \<le> bytes_max (stats c) \<Longrightarrow>
          resident (put it now c) (item_key it) = Some it"
    and put_others: "inv c \<Longrightarrow> 0 \<le> size_bytes it \<Longrightarrow> k \<noteq> item_key it \<Longrightarrow>
          resident (put it now c) k = Some x \<Longrightarrow> resident c k = Some x"
    and put_too_big: "bytes_max (stats c) < size_bytes it \<Longrightarrow> inv c \<Longrightarrow> put it now c = c"
    and clear_resident: "resident (clear c) = Map.empty"
    and stats_get: "inv c \<Longrightarrow>
          hits (stats (snd (get k now c))) = hits (stats c) + (if fst (get k now c) = None then 0 else 1)
          \<and> misses (stats (snd (get k now c))) = misses (stats c) + (if fst (get k now c) = None then 1 else 0)
          \<and> bytes_max (stats (snd (get k now c))) = bytes_max (stats c)"
    and stats_put: "inv c \<Longrightarrow> 0 \<le> size_bytes it \<Longrightarrow>
          hits (stats (put it now c)) = hits (stats c) \<and> misses (stats (put it now c)) = misses (stats c)
          \<and> bytes_max (stats (put it now c)) = bytes_max (stats c)"
    and stats_clear: "inv c \<Longrightarrow> stats (clear c) = fresh_stats (bytes_max (stats c))"
begin

text \<open>A stored item is found until its time-to-live has passed.\<close>

lemma put_then_get:
  assumes "inv c" "0 \<le> size_bytes it" "size_bytes it \<le> bytes_max (stats c)" "\<not> expired now' it"
  shows "fst (get (item_key it) now' (put it now c)) = Some it"
  using get_result [OF put_inv [OF assms(1,2)], of "item_key it" now' now] put_stored [OF assms(1,2,3), of now] assms(4)
  by simp

lemma get_hit_miss:
  assumes "inv c"
  shows "hits (stats (snd (get k now c))) + misses (stats (snd (get k now c)))
    = hits (stats c) + misses (stats c) + 1"
  using stats_get [OF assms, of k now] by simp

lemma get_bytes_max: "inv c \<Longrightarrow> bytes_max (stats (snd (get k now c))) = bytes_max (stats c)"
  by (simp add: stats_get)

lemma get_answer:
  assumes "inv c" "fst (get k now c) = Some it"
  shows "resident c k = Some it \<and> \<not> expired now it"
  using get_result [OF assms(1), of k now] assms(2) by (auto split: option.splits if_splits)

lemma get_resident_le: "inv c \<Longrightarrow> resident (snd (get k now c)) \<subseteq>\<^sub>m resident c"
  by (auto simp: get_resident map_le_def split: option.splits if_splits)

lemma put_resident_le:
  assumes "inv c" "0 \<le> size_bytes it" "resident c \<subseteq>\<^sub>m m"
  shows "resident (put it now c) \<subseteq>\<^sub>m latest (bytes_max (stats c)) m (OpPut it now)"
proof (cases "size_bytes it \<le> bytes_max (stats c)")
  case True
  have "resident (put it now c) k = (m(item_key it \<mapsto> it)) k" if "k \<in> dom (resident (put it now c))" for k
  proof (cases "k = item_key it")
    case False
    from that obtain x where x: "resident (put it now c) k = Some x" by blast
    then have "resident c k = Some x" by (rule put_others [OF assms(1,2) False])
    with assms(3) have "m k = Some x" by (metis domI map_le_def)
    with x False show ?thesis by simp
  qed (simp add: put_stored [OF assms(1,2) True])
  with True show ?thesis by (simp add: map_le_def)
next
  case False
  then show ?thesis using assms by (simp add: put_too_big)
qed

text \<open>A cache never answers with an item it was not given, nor with an outdated one.\<close>

lemma run_coherent:
  assumes "inv c" "resident c \<subseteq>\<^sub>m m" "\<forall>op\<in>set ops. op_ok op" "bytes_max (stats c) = mx"
  shows "answers_ok mx m ops (fst (run_ops get put clear ops c)) \<and> inv (snd (run_ops get put clear ops c))"
  using assms
proof (induction ops arbitrary: c m)
  case (Cons op ops)
  show ?case
  proof (cases op)
    case (OpGet k now)
    let ?a = "fst (get k now c)" and ?c1 = "snd (get k now c)"
    have c1: "inv ?c1" "bytes_max (stats ?c1) = mx"
      using get_inv get_bytes_max Cons.prems by simp_all
    have "resident ?c1 \<subseteq>\<^sub>m m" using get_resident_le Cons.prems(1,2) map_le_trans by blast
    then have rest: "answers_ok mx m ops (fst (run_ops get put clear ops ?c1))
        \<and> inv (snd (run_ops get put clear ops ?c1))"
      using Cons.IH [OF c1(1)] Cons.prems(3) c1(2) by simp
    have "m k = Some it \<and> \<not> expired now it" if "?a = Some it" for it
      using get_answer [OF Cons.prems(1) that] Cons.prems(2) by (metis domI map_le_def)
    with rest show ?thesis by (simp add: OpGet split: option.split)
  next
    case (OpPut it now)
    then have "0 \<le> size_bytes it" using Cons.prems(3) by simp
    with Cons.prems show ?thesis
      using Cons.IH [of "put it now c" "latest mx m (OpPut it now)"] put_inv put_resident_le [of c it m now] stats_put
      by (simp add: OpPut)
  next
    case OpClear
    with Cons.prems show ?thesis
      using Cons.IH [of "clear c" Map.empty] clear_inv by (simp add: clear_resident stats_clear fresh_stats_def)
  qed
qed simp

text \<open>The counters account for every request since the last \<open>Clear\<close>.\<close>

lemma run_counts:
  assumes "inv c" "\<forall>op\<in>set ops. op_ok op" "OpClear \<notin> set ops"
  shows "hits (stats (snd (run_ops get put clear ops c))) + misses (stats (snd (run_ops get put clear ops c)))
    = hits (stats c) + misses (stats c) + int (length (filter is_get ops))"
  using assms
proof (induction ops arbitrary: c)
  case (Cons op ops)
  show ?case
  proof (cases op)
    case (OpGet k now)
    with Cons.prems Cons.IH [of "snd (get k now c)"] get_hit_miss [of c k now] get_inv [of c k now]
    show ?thesis by simp
  next
    case (OpPut it now)
    with Cons.prems Cons.IH [of "put it now c"] put_inv [of c it now] stats_put [of c it now]
    show ?thesis by simp
  qed (use Cons.prems in simp)
qed simp

end

end
