(* ===== verification/Lru.thy ===== *)
theory Lru
  imports Cache
begin

text \<open>
  \<open>internal/cache/lru.go\<close>: the byte-bounded LRU cache. The state keeps the index of list
  elements and the recency list of the code apart; \<open>lru_wf\<close> says how they agree. Every
  operation is refined to one on a plain list of items, most recent first, and the cache
  interface is interpreted. \<open>lru_next\<close> is the allocator of list elements.
\<close>

section \<open>State and operations\<close>

record lru =
  max_size :: int
  current_size :: int
  lru_items :: "string \<rightharpoonup> nat"
  evict_list :: "elem list"
  lru_counters :: cache_stats
  lru_next :: nat

definition new_lru :: "int \<Rightarrow> lru" where
  "new_lru mx = \<lparr>max_size = mx, current_size = 0, lru_items = Map.empty, evict_list = [],
     lru_counters = fresh_stats mx, lru_next = 0\<rparr>"

definition lru_hit :: "lru \<Rightarrow> lru" where
  "lru_hit c = c\<lparr>lru_counters := (lru_counters c)\<lparr>hits := hits (lru_counters c) + 1\<rparr>\<rparr>"

definition lru_miss :: "lru \<Rightarrow> lru" where
  "lru_miss c = c\<lparr>lru_counters := (lru_counters c)\<lparr>misses := misses (lru_counters c) + 1\<rparr>\<rparr>"

definition lru_evicted :: "lru \<Rightarrow> lru" where
  "lru_evicted c = c\<lparr>lru_counters := (lru_counters c)\<lparr>evictions := evictions (lru_counters c) + 1\<rparr>\<rparr>"

definition lru_remove_element :: "nat \<Rightarrow> lru \<Rightarrow> lru" where
  "lru_remove_element el c = (let ent = l_value el (evict_list c) in
     c\<lparr>current_size := current_size c - size_bytes ent,
       lru_items := (lru_items c)(item_key ent := None),
       evict_list := l_remove el (evict_list c)\<rparr>)"

definition lru_get :: "string \<Rightarrow> instant \<Rightarrow> lru \<Rightarrow> item option \<times> lru" where
  "lru_get key now c = (case lru_items c key of
       None \<Rightarrow> (None, lru_miss c)
     | Some el \<Rightarrow> let ent = l_value el (evict_list c) in
         if expired now ent then (None, lru_miss (lru_remove_element el c))
         else (Some ent, lru_hit (c\<lparr>evict_list := l_to_front el (evict_list c)\<rparr>)))"

text \<open>The loop \<open>for c.currentSize > c.maxSizeBytes\<close> of \<open>Put\<close>.\<close>

function lru_evict :: "lru \<Rightarrow> lru" where
  "lru_evict c = (if max_size c < current_size c then
       (case l_back (evict_list c) of
          None \<Rightarrow> c
        | Some b \<Rightarrow> lru_evict (lru_evicted (lru_remove_element (fst b) c)))
     else c)"
  by pat_completeness auto
termination
proof (relation "measure (\<lambda>c. length (evict_list c))")
  fix c :: lru and b assume "l_back (evict_list c) = Some b"
  then show "(lru_evicted (lru_remove_element (fst b) c), c) \<in> measure (\<lambda>c. length (evict_list c))"
    using length_l_remove_last [of "evict_list c"]
    by (auto dest!: l_back_SomeD simp: lru_evicted_def lru_remove_element_def Let_def)
qed simp

definition lru_insert :: "item \<Rightarrow> lru \<Rightarrow> lru" where
  "lru_insert item c = (case lru_items c (item_key item) of
       Some el \<Rightarrow> c\<lparr>current_size := current_size c - size_bytes (l_value el (evict_list c)) + size_bytes item,
                     evict_list := l_to_front el (l_set el item (evict_list c))\<rparr>
     | None \<Rightarrow> c\<lparr>evict_list := (lru_next c, item) # evict_list c,
                   lru_items := (lru_items c)(item_key item \<mapsto> lru_next c),
                   current_size := current_size c + size_bytes item,
                   lru_next := Suc (lru_next c)\<rparr>)"

definition lru_put :: "item \<Rightarrow> instant \<Rightarrow> lru \<Rightarrow> lru" where
  "lru_put item now c = (if max_size c < size_bytes item then c
     else let c' = lru_evict (lru_insert item c)
          in c'\<lparr>lru_counters := (lru_counters c')\<lparr>bytes_used := current_size c'\<rparr>\<rparr>)"

definition lru_stats :: "lru \<Rightarrow> cache_stats" where
  "lru_stats c = (lru_counters c)\<lparr>bytes_used := current_size c\<rparr>"

definition lru_clear :: "lru \<Rightarrow> lru" where
  "lru_clear c = c\<lparr>lru_items := Map.empty, evict_list := [], current_size := 0,
     lru_counters := fresh_stats (max_size c)\<rparr>"

definition lru_name :: string where "lru_name = ''lru''"

declare lru_evict.simps [simp del]

section \<open>Well-formed states\<close>

definition lru_wf :: "lru \<Rightarrow> bool" where
  "lru_wf c \<longleftrightarrow> elems_ok (lru_next c) (evict_list c) \<and> lru_items c = key_index (evict_list c) \<and>
     current_size c = total_size (evict_list c) \<and> bytes_max (lru_counters c) = max_size c"

definition lru_inv :: "lru \<Rightarrow> bool" where
  "lru_inv c \<longleftrightarrow> lru_wf c \<and> current_size c \<le> max_size c"

definition lru_resident :: "lru \<Rightarrow> string \<rightharpoonup> item" where
  "lru_resident c = key_items (evict_list c)"

text \<open>The abstract view: the items, most recently used first.\<close>

definition lru_entries :: "lru \<Rightarrow> item list" where
  "lru_entries c = map snd (evict_list c)"

lemmas lru_state_defs = lru_wf_def elems_ok_def lru_hit_def lru_miss_def lru_evicted_def

lemma lru_frames [simp]:
  "evict_list (lru_hit c) = evict_list c" "evict_list (lru_miss c) = evict_list c"
  "evict_list (lru_evicted c) = evict_list c" "max_size (lru_evicted c) = max_size c"
  "current_size (lru_hit c) = current_size c" "current_size (lru_miss c) = current_size c"
  "max_size (lru_hit c) = max_size c" "max_size (lru_miss c) = max_size c"
  "lru_wf (lru_hit c) = lru_wf c" "lru_wf (lru_miss c) = lru_wf c" "lru_wf (lru_evicted c) = lru_wf c"
  "max_size (lru_remove_element i c) = max_size c"
  "lru_counters (lru_remove_element i c) = lru_counters c"
  by (simp_all add: lru_state_defs lru_remove_element_def Let_def)

text \<open>A resident key names an element that splits the recency list.\<close>

lemma lru_lookup:
  assumes "lru_wf c" "lru_items c k = Some i"
  obtains it ys zs where "evict_list c = ys @ (i, it) # zs" "item_key it = k"
proof -
  from assms have "elems_ok (lru_next c) (evict_list c)" "key_index (evict_list c) k = Some i"
    by (simp_all add: lru_wf_def)
  with that show thesis by (elim elems_ok_lookup)
qed

lemma lru_wf_split:
  "lru_wf c \<Longrightarrow> evict_list c = ys @ (i, it) # zs \<Longrightarrow> elems_ok (lru_next c) (ys @ (i, it) # zs)"
  by (simp add: lru_wf_def)

lemma lru_resident_lookup:
  assumes "lru_wf c"
  shows "lru_resident c k = map_option (\<lambda>i. l_value i (evict_list c)) (lru_items c k)"
proof (cases "lru_items c k")
  case None
  with assms have "key_items (evict_list c) k = None"
    by (simp add: lru_wf_def key_index_None key_items_None)
  with None show ?thesis by (simp add: lru_resident_def)
next
  case (Some i)
  with assms obtain it ys zs where s: "evict_list c = ys @ (i, it) # zs" "item_key it = k"
    by (elim lru_lookup)
  note sp = elems_ok_split [OF lru_wf_split [OF assms s(1)]]
  have "key_items (ys @ (i, it) # zs) k = Some it" using s(2) sp(3) by (intro key_items_split) simp_all
  with Some s(1) sp(5) show ?thesis by (simp add: lru_resident_def)
qed

lemma lru_wf_remove:
  assumes "lru_wf c" "evict_list c = ys @ (i, it) # zs"
  shows "lru_wf (lru_remove_element i c)" "evict_list (lru_remove_element i c) = ys @ zs"
    "current_size (lru_remove_element i c) = current_size c - size_bytes it"
proof -
  note sp = elems_ok_split [OF lru_wf_split [OF assms]]
  have rm: "lru_remove_element i c = c\<lparr>current_size := current_size c - size_bytes it,
      lru_items := (lru_items c)(item_key it := None), evict_list := ys @ zs\<rparr>"
    by (simp only: lru_remove_element_def Let_def assms(2) sp(5,6))
  show "evict_list (lru_remove_element i c) = ys @ zs"
    "current_size (lru_remove_element i c) = current_size c - size_bytes it"
    by (simp_all add: rm)
  show "lru_wf (lru_remove_element i c)"
    using assms sp(7) key_index_del [OF sp(3,4), of i] by (simp add: lru_wf_def rm)
qed

lemma lru_insert_eq:
  assumes "lru_wf c" "evict_list c = ys @ (i, it) # zs" "item_key it = item_key item" "0 \<le> size_bytes item"
  shows "lru_insert item c = c\<lparr>current_size := current_size c - size_bytes it + size_bytes item,
      evict_list := (i, item) # ys @ zs\<rparr>"
proof -
  have ok: "elems_ok (lru_next c) (ys @ (i, it) # zs)" using assms(1,2) by (rule lru_wf_split)
  note sp = elems_ok_split [OF ok]
  have "lru_items c (item_key item) = Some i"
    using assms sp(3) by (simp add: lru_wf_def key_index_mid)
  moreover have "l_to_front i (l_set i item (ys @ (i, it) # zs)) = (i, item) # ys @ zs"
    using elems_ok_set(1) [OF ok assms(3) [symmetric] assms(4)] sp(1,2) by (simp add: l_to_front_split)
  ultimately show ?thesis using assms(2) sp(5) by (simp add: lru_insert_def)
qed

lemma lru_insert_fresh:
  assumes "lru_wf c" "item_key item \<notin> set (keys (evict_list c))"
  shows "lru_insert item c = c\<lparr>evict_list := (lru_next c, item) # evict_list c,
      lru_items := (lru_items c)(item_key item \<mapsto> lru_next c),
      current_size := current_size c + size_bytes item, lru_next := Suc (lru_next c)\<rparr>"
proof -
  have "lru_items c (item_key item) = None" using assms by (simp add: lru_wf_def key_index_None)
  then show ?thesis by (simp add: lru_insert_def)
qed

lemma lru_wf_insert:
  assumes "lru_wf c" "0 \<le> size_bytes item"
  shows "lru_wf (lru_insert item c) \<and> (\<exists>i. evict_list (lru_insert item c) =
           (i, item) # filter (\<lambda>e. item_key (snd e) \<noteq> item_key item) (evict_list c))"
proof (cases "item_key item \<in> set (keys (evict_list c))")
  case False
  have "elems_ok (Suc (lru_next c)) (evict_list c)" "lru_next c \<notin> fst ` set (evict_list c)"
    using assms by (auto simp: lru_wf_def intro: elems_ok_mono dest: elems_ok_fresh)
  then show ?thesis using False assms
    by (auto simp: lru_insert_fresh [OF assms(1) False] lru_wf_def filter_key_id [OF False])
next
  case True
  then obtain i it where "(i, it) \<in> set (evict_list c)" and k: "item_key it = item_key item" by auto
  then obtain ys zs where s: "evict_list c = ys @ (i, it) # zs" by (meson split_list)
  note ok = lru_wf_split [OF assms(1) s]
  note sp = elems_ok_split [OF ok]
  have "elems_ok (lru_next c) ((i, item) # ys @ zs)" using sp k assms(2) by auto
  moreover have "key_index ((i, item) # ys @ zs) = key_index (evict_list c)"
    using sp(3) k by (simp add: s key_index_mid)
  moreover have "filter (\<lambda>e. item_key (snd e) \<noteq> item_key item) (evict_list c) = ys @ zs"
    using sp(3,4) k by (simp add: s filter_key_id)
  ultimately show ?thesis using assms s
    by (auto simp: lru_insert_eq [OF assms(1) s k assms(2)] lru_wf_def)
qed

lemma lru_insert_frames [simp]:
  "max_size (lru_insert item c) = max_size c" "lru_counters (lru_insert item c) = lru_counters c"
  by (simp_all add: lru_insert_def split: option.split)

section \<open>Eviction\<close>

text \<open>The reference: drop items from the old end until the rest fits.\<close>

function trim :: "int \<Rightarrow> item list \<Rightarrow> item list" where
  "trim mx xs = (if mx < sum_list (map size_bytes xs) \<and> xs \<noteq> [] then trim mx (butlast xs) else xs)"
  by pat_completeness auto
termination by (relation "measure (\<lambda>(mx, xs). length xs)") auto

declare trim.simps [simp del]

lemma trim_fits: "0 \<le> mx \<Longrightarrow> sum_list (map size_bytes (trim mx xs)) \<le> mx"
proof (induction mx xs rule: trim.induct)
  case (1 mx xs)
  then show ?case by (subst trim.simps) (auto simp: trim.simps [of mx xs])
qed

lemma trim_prefix: "\<exists>ys. xs = trim mx xs @ ys"
proof (induction mx xs rule: trim.induct)
  case (1 mx xs)
  show ?case
  proof (cases "mx < sum_list (map size_bytes xs) \<and> xs \<noteq> []")
    case True
    with 1 obtain ys where "butlast xs = trim mx (butlast xs) @ ys" by blast
    then have "xs = trim mx (butlast xs) @ ys @ [last xs]"
      using True by (metis append.assoc append_butlast_last_id)
    with True show ?thesis by (auto simp: trim.simps [of mx xs])
  next
    case False
    then show ?thesis by (auto simp: trim.simps [of mx xs])
  qed
qed

text \<open>No longer prefix would fit: eviction stops as soon as it can.\<close>

lemma trim_maximal:
  assumes "xs = ys @ zs" "sum_list (map size_bytes ys) \<le> mx" "\<forall>x\<in>set xs. 0 \<le> size_bytes x"
  shows "length ys \<le> length (trim mx xs)"
  using assms
proof (induction mx xs arbitrary: zs rule: trim.induct)
  case (1 mx xs)
  show ?case
  proof (cases "mx < sum_list (map size_bytes xs) \<and> xs \<noteq> []")
    case True
    with "1.prems" have "zs \<noteq> []" by auto
    with "1.prems"(1) have "butlast xs = ys @ butlast zs" by (simp add: butlast_append)
    moreover have "\<forall>x\<in>set (butlast xs). 0 \<le> size_bytes x"
      using "1.prems"(3) by (meson in_set_butlastD)
    ultimately have "length ys \<le> length (trim mx (butlast xs))" using "1.IH" True "1.prems"(2) by blast
    with True show ?thesis by (simp add: trim.simps [of mx xs])
  next
    case False
    then have "trim mx xs = xs" by (subst trim.simps) (simp only: if_False)
    moreover have "length ys \<le> length xs" using "1.prems"(1) by simp
    ultimately show ?thesis by simp
  qed
qed

lemma total_size_entries: "total_size xs = sum_list (map size_bytes (map snd xs))"
  by (simp add: total_size_def comp_def)

lemma lru_evict_spec:
  assumes "lru_wf c"
  shows "lru_wf (lru_evict c) \<and> lru_entries (lru_evict c) = trim (max_size c) (lru_entries c)
    \<and> max_size (lru_evict c) = max_size c
    \<and> lru_counters (lru_evict c) = (lru_counters c)\<lparr>evictions := evictions (lru_counters c)
         + int (length (lru_entries c)) - int (length (lru_entries (lru_evict c)))\<rparr>
    \<and> (\<exists>ys. evict_list c = evict_list (lru_evict c) @ ys)"
  using assms
proof (induction c rule: lru_evict.induct)
  case (1 c)
  have size: "current_size c = sum_list (map size_bytes (lru_entries c))"
    using "1.prems" by (simp add: lru_wf_def lru_entries_def total_size_entries)
  show ?case
  proof (cases "max_size c < current_size c \<and> evict_list c \<noteq> []")
    case False
    then have "lru_evict c = c" by (auto simp: lru_evict.simps [of c] l_back_def)
    have nt: "\<not> (max_size c < sum_list (map size_bytes (lru_entries c)) \<and> lru_entries c \<noteq> [])"
      using False size by (auto simp: lru_entries_def)
    have "trim (max_size c) (lru_entries c) = lru_entries c"
      by (subst trim.simps) (simp only: nt if_False)
    with \<open>lru_evict c = c\<close> show ?thesis using "1.prems" by simp
  next
    case True
    let ?b = "last (evict_list c)"
    let ?d = "lru_evicted (lru_remove_element (fst ?b) c)"
    have split: "evict_list c = butlast (evict_list c) @ (fst ?b, snd ?b) # []" using True by simp
    note rem = lru_wf_remove [OF "1.prems" split, simplified append_Nil2]
    have bk: "l_back (evict_list c) = Some ?b" using True by (simp add: l_back_def)
    then have step: "lru_evict c = lru_evict ?d" using True bk by (simp add: lru_evict.simps [of c])
    have ent: "lru_entries ?d = butlast (lru_entries c)"
      using rem by (simp add: lru_entries_def map_butlast)
    have yt: "max_size c < sum_list (map size_bytes (lru_entries c)) \<and> lru_entries c \<noteq> []"
      using True size by (auto simp: lru_entries_def)
    have tr: "trim (max_size c) (lru_entries c) = trim (max_size c) (butlast (lru_entries c))"
      by (subst trim.simps) (simp only: yt if_True simp_thms)
    have ctr: "lru_counters ?d = (lru_counters c)\<lparr>evictions := evictions (lru_counters c) + 1\<rparr>"
      by (simp add: lru_evicted_def)
    have len: "int (length (lru_entries c)) = int (length (butlast (lru_entries c))) + 1"
      using True by (cases "evict_list c" rule: rev_cases) (simp_all add: lru_entries_def)
    have ih: "lru_wf (lru_evict ?d) \<and> lru_entries (lru_evict ?d) = trim (max_size ?d) (lru_entries ?d)
      \<and> max_size (lru_evict ?d) = max_size ?d
      \<and> lru_counters (lru_evict ?d) = (lru_counters ?d)\<lparr>evictions := evictions (lru_counters ?d)
         + int (length (lru_entries ?d)) - int (length (lru_entries (lru_evict ?d)))\<rparr>
      \<and> (\<exists>ys. evict_list ?d = evict_list (lru_evict ?d) @ ys)"
      by (rule "1.IH" [OF _ bk]) (use True rem in simp_all)
    note ih_wf = ih [THEN conjunct1] and ih_ent = ih [THEN conjunct2, THEN conjunct1]
      and ih_max = ih [THEN conjunct2, THEN conjunct2, THEN conjunct1]
      and ih_ctr = ih [THEN conjunct2, THEN conjunct2, THEN conjunct2, THEN conjunct1]
      and ih_app = ih [THEN conjunct2, THEN conjunct2, THEN conjunct2, THEN conjunct2]
    from ih_app obtain ys where ys: "evict_list ?d = evict_list (lru_evict ?d) @ ys" ..
    have app: "evict_list c = evict_list (lru_evict ?d) @ ys @ [?b]"
      using split rem(2) ys by simp
    have ent': "lru_entries (lru_evict ?d) = trim (max_size c) (lru_entries c)"
      using ih_ent ent by (simp add: tr)
    have ctr': "lru_counters (lru_evict ?d) = (lru_counters c)\<lparr>evictions := evictions (lru_counters c)
         + int (length (lru_entries c)) - int (length (lru_entries (lru_evict ?d)))\<rparr>"
      by (subst ih_ctr) (simp add: ctr ent len)
    show ?thesis unfolding step
      by (intro conjI ih_wf ent' ctr' exI [of _ "ys @ [?b]"] app) (simp add: ih_max)
  qed
qed

section \<open>Refinement to a list of items\<close>

text \<open>
  The abstract cache is the list of items, most recently used first: \<open>Get\<close> moves its item to
  the head or drops it when expired, \<open>Put\<close> places the item at the head in place of any item
  with its key and drops items from the old end until the rest fits.
\<close>

definition spec_get :: "string \<Rightarrow> instant \<Rightarrow> item list \<Rightarrow> item option \<times> item list" where
  "spec_get key now xs = (case find (\<lambda>it. item_key it = key) xs of
       None \<Rightarrow> (None, xs)
     | Some it \<Rightarrow> let rest = filter (\<lambda>it. item_key it \<noteq> key) xs in
         if expired now it then (None, rest) else (Some it, it # rest))"

definition spec_put :: "int \<Rightarrow> item \<Rightarrow> item list \<Rightarrow> item list" where
  "spec_put mx item xs = (if mx < size_bytes item then xs
     else trim mx (item # filter (\<lambda>it. item_key it \<noteq> item_key item) xs))"

lemma map_snd_filter_key:
  "map snd (filter (\<lambda>e. item_key (snd e) \<noteq> k) xs) = filter (\<lambda>it. item_key it \<noteq> k) (map snd xs)"
  by (induction xs) auto

lemma lru_get_hit_front:
  assumes "lru_wf c" "evict_list c = ys @ (i, it) # zs"
  shows "lru_wf (c\<lparr>evict_list := (i, it) # ys @ zs\<rparr>)"
proof -
  note sp = elems_ok_split [OF lru_wf_split [OF assms]]
  have "key_index ((i, it) # ys @ zs) = key_index (evict_list c)"
    using sp(3) by (simp add: assms(2) key_index_mid)
  with assms sp show ?thesis by (auto simp: lru_wf_def)
qed

lemma lru_get_cases:
  assumes "lru_wf c"
  obtains (absent) "key \<notin> set (keys (evict_list c))" "lru_get key now c = (None, lru_miss c)"
  | (old) i it ys zs where "evict_list c = ys @ (i, it) # zs" "item_key it = key" "expired now it"
      "lru_get key now c = (None, lru_miss (lru_remove_element i c))"
  | (live) i it ys zs where "evict_list c = ys @ (i, it) # zs" "item_key it = key" "\<not> expired now it"
      "lru_get key now c = (Some it, lru_hit (c\<lparr>evict_list := (i, it) # ys @ zs\<rparr>))"
proof (cases "lru_items c key")
  case None
  with assms have "key \<notin> set (keys (evict_list c))" by (simp add: lru_wf_def key_index_None)
  with None show thesis by (intro absent) (simp_all add: lru_get_def)
next
  case (Some i)
  with assms obtain it ys zs where s: "evict_list c = ys @ (i, it) # zs" "item_key it = key"
    by (elim lru_lookup)
  note sp = elems_ok_split [OF lru_wf_split [OF assms s(1)]]
  show thesis
  proof (cases "expired now it")
    case True
    with Some s(1) sp(5) have "lru_get key now c = (None, lru_miss (lru_remove_element i c))"
      by (simp add: lru_get_def)
    with s True show thesis by (rule old)
  next
    case False
    with Some s(1) sp(1,2,5)
    have "lru_get key now c = (Some it, lru_hit (c\<lparr>evict_list := (i, it) # ys @ zs\<rparr>))"
      by (simp add: lru_get_def l_to_front_split)
    with s False show thesis by (rule live)
  qed
qed

lemma find_key_split:
  assumes "item_key it = key" "key \<notin> set (keys ys)"
  shows "find (\<lambda>it. item_key it = key) (map snd (ys @ (i, it) # zs)) = Some it"
  using assms by (induction ys) auto

lemma find_key_absent:
  "key \<notin> set (keys xs) \<Longrightarrow> find (\<lambda>it. item_key it = key) (map snd xs) = None"
  by (induction xs) auto

lemma lru_wf_get:
  assumes wf: "lru_wf c"
  shows "lru_wf (snd (lru_get key now c))"
  using wf by (cases rule: lru_get_cases [of c key now])
    (use wf in \<open>simp_all add: lru_wf_remove lru_get_hit_front\<close>)

lemma lru_get_refines:
  assumes "lru_wf c"
  shows "fst (lru_get key now c) = fst (spec_get key now (lru_entries c))
    \<and> lru_entries (snd (lru_get key now c)) = snd (spec_get key now (lru_entries c))"
  using assms
proof (cases rule: lru_get_cases [of c key now])
  case absent
  then show ?thesis by (simp add: lru_entries_def spec_get_def find_key_absent)
next
  case (old i it ys zs)
  note sp = elems_ok_split [OF lru_wf_split [OF assms old(1)]]
  have rest: "filter (\<lambda>it. item_key it \<noteq> key) (map snd (evict_list c)) = map snd (ys @ zs)"
    using sp(3,4) old(1,2) by (simp add: map_snd_filter_key [symmetric] filter_key_id)
  show ?thesis
    using old find_key_split [OF old(2), of ys i zs] sp(3) rest lru_wf_remove(2) [OF assms old(1)]
    by (simp add: lru_entries_def spec_get_def)
next
  case (live i it ys zs)
  note sp = elems_ok_split [OF lru_wf_split [OF assms live(1)]]
  have rest: "filter (\<lambda>it. item_key it \<noteq> key) (map snd (evict_list c)) = map snd (ys @ zs)"
    using sp(3,4) live(1,2) by (simp add: map_snd_filter_key [symmetric] filter_key_id)
  show ?thesis
    using live find_key_split [OF live(2), of ys i zs] sp(3) rest
    by (simp add: lru_entries_def spec_get_def)
qed

lemma lru_wf_bytes [simp]:
  "lru_wf c \<Longrightarrow> lru_wf (c\<lparr>lru_counters := (lru_counters c)\<lparr>bytes_used := b\<rparr>\<rparr>)"
  by (simp add: lru_wf_def)

lemma lru_put_result:
  assumes "lru_wf c" "0 \<le> size_bytes item"
  shows "lru_wf (lru_put item now c) \<and> lru_entries (lru_put item now c) = spec_put (max_size c) item (lru_entries c)
    \<and> max_size (lru_put item now c) = max_size c"
proof (cases "max_size c < size_bytes item")
  case False
  from lru_wf_insert [OF assms] obtain i where wf: "lru_wf (lru_insert item c)"
    and ins: "evict_list (lru_insert item c) = (i, item) # filter (\<lambda>e. item_key (snd e) \<noteq> item_key item) (evict_list c)"
    by blast
  have ent: "lru_entries (lru_insert item c) = item # filter (\<lambda>it. item_key it \<noteq> item_key item) (lru_entries c)"
    by (simp add: lru_entries_def ins map_snd_filter_key)
  have "lru_entries (lru_put item now c) = lru_entries (lru_evict (lru_insert item c))"
    using False by (simp add: lru_put_def Let_def lru_entries_def)
  moreover have "lru_wf (lru_put item now c)" "max_size (lru_put item now c) = max_size c"
    using False lru_evict_spec [OF wf, THEN conjunct1] lru_evict_spec [OF wf, THEN conjunct2, THEN conjunct2, THEN conjunct1]
    by (simp_all add: lru_put_def Let_def)
  ultimately show ?thesis using False ent lru_evict_spec [OF wf] by (simp add: spec_put_def)
qed (use assms in \<open>simp_all add: lru_put_def spec_put_def\<close>)

lemma lru_current_entries: "lru_wf c \<Longrightarrow> current_size c = sum_list (map size_bytes (lru_entries c))"
  by (simp add: lru_wf_def lru_entries_def total_size_entries)

lemma lru_inv_max: "lru_inv c \<Longrightarrow> 0 \<le> max_size c"
  using elems_ok_total by (force simp: lru_inv_def lru_wf_def)

lemma lru_inv_put:
  assumes "lru_inv c" "0 \<le> size_bytes item"
  shows "lru_inv (lru_put item now c)"
proof -
  have wf: "lru_wf c" using assms by (simp add: lru_inv_def)
  note p = lru_put_result [OF wf assms(2), of now]
  show ?thesis
  proof (cases "max_size c < size_bytes item")
    case True
    with assms show ?thesis by (simp add: lru_put_def)
  next
    case False
    then have "lru_entries (lru_put item now c) =
        trim (max_size c) (item # filter (\<lambda>it. item_key it \<noteq> item_key item) (lru_entries c))"
      using p by (simp add: spec_put_def)
    with trim_fits [OF lru_inv_max [OF assms(1)]]
    have "sum_list (map size_bytes (lru_entries (lru_put item now c))) \<le> max_size c" by simp
    with p show ?thesis by (simp add: lru_inv_def lru_current_entries del: lru_wf_bytes)
  qed
qed

lemma lru_inv_get: "lru_inv c \<Longrightarrow> lru_inv (snd (lru_get key now c))"
  unfolding lru_inv_def
proof (elim conjE)
  assume wf: "lru_wf c" and le: "current_size c \<le> max_size c"
  show "lru_wf (snd (lru_get key now c)) \<and> current_size (snd (lru_get key now c)) \<le> max_size (snd (lru_get key now c))"
    using wf
  proof (cases rule: lru_get_cases [of c key now])
    case (old i it ys zs)
    then have "0 \<le> size_bytes it" using lru_wf_split [OF wf old(1)] elems_ok_split(8) by blast
    with old le wf show ?thesis by (simp add: lru_wf_remove)
  qed (use wf le lru_wf_get [OF wf] in \<open>simp_all add: lru_get_hit_front\<close>)
qed

section \<open>The cache interface\<close>

lemma lru_put_counters:
  assumes "lru_wf c" "0 \<le> size_bytes item"
  shows "hits (lru_counters (lru_put item now c)) = hits (lru_counters c)
    \<and> misses (lru_counters (lru_put item now c)) = misses (lru_counters c)
    \<and> bytes_max (lru_counters (lru_put item now c)) = bytes_max (lru_counters c)"
proof -
  have "lru_wf (lru_insert item c)" using lru_wf_insert [OF assms] by blast
  from lru_evict_spec [OF this, THEN conjunct2, THEN conjunct2, THEN conjunct2, THEN conjunct1]
  show ?thesis by (simp add: lru_put_def Let_def)
qed

lemma lru_resident_entries:
  assumes "elems_ok n (evict_list c)"
  shows "lru_resident c k = Some it \<longleftrightarrow> it \<in> set (lru_entries c) \<and> item_key it = k"
proof
  assume "lru_resident c k = Some it"
  then show "it \<in> set (lru_entries c) \<and> item_key it = k"
    by (force simp: lru_resident_def lru_entries_def dest: key_items_SomeD)
next
  assume "it \<in> set (lru_entries c) \<and> item_key it = k"
  then obtain i where "(i, it) \<in> set (evict_list c)" "item_key it = k" by (auto simp: lru_entries_def)
  moreover from this obtain ys zs where s: "evict_list c = ys @ (i, it) # zs" by (meson split_list)
  moreover have "item_key it \<notin> set (keys ys)" using assms elems_ok_split(3) unfolding s by blast
  ultimately show "lru_resident c k = Some it" by (simp add: lru_resident_def key_items_split)
qed

lemma lru_wf_elems: "lru_wf c \<Longrightarrow> elems_ok (lru_next c) (evict_list c)"
  by (simp add: lru_wf_def)

lemma trim_subset: "set (trim mx xs) \<subseteq> set xs"
  using trim_prefix [of xs mx] by (metis Un_iff set_append subsetI)

lemma trim_keeps_head:
  assumes "size_bytes x \<le> mx" "\<forall>y\<in>set (x # xs). 0 \<le> size_bytes y"
  shows "x \<in> set (trim mx (x # xs))"
proof -
  have "length [x] \<le> length (trim mx (x # xs))"
    using assms by (intro trim_maximal [of _ _ xs]) auto
  moreover obtain ys where "x # xs = trim mx (x # xs) @ ys" using trim_prefix by blast
  ultimately show ?thesis by (cases "trim mx (x # xs)") auto
qed

lemma lru_entries_nonneg: "lru_wf c \<Longrightarrow> it \<in> set (lru_entries c) \<Longrightarrow> 0 \<le> size_bytes it"
  using elems_ok_size [OF lru_wf_elems] by (auto simp: lru_entries_def)

lemma lru_put_stored:
  assumes "lru_wf c" "0 \<le> size_bytes it" "size_bytes it \<le> max_size c"
  shows "lru_resident (lru_put it now c) (item_key it) = Some it"
proof -
  note p = lru_put_result [OF assms(1,2), of now]
  have "it \<in> set (lru_entries (lru_put it now c))"
    using p assms trim_keeps_head [of it "max_size c"] lru_entries_nonneg [OF assms(1)]
    by (auto simp: spec_put_def)
  then show ?thesis using p by (simp add: lru_resident_entries [OF lru_wf_elems])
qed

lemma lru_put_others:
  assumes "lru_wf c" "0 \<le> size_bytes it" "k \<noteq> item_key it" "lru_resident (lru_put it now c) k = Some x"
  shows "lru_resident c k = Some x"
proof -
  note p = lru_put_result [OF assms(1,2), of now]
  from assms(4) p have "x \<in> set (lru_entries (lru_put it now c))" "item_key x = k"
    by (simp_all add: lru_resident_entries [OF lru_wf_elems])
  with p assms(3) have "x \<in> set (lru_entries c)"
    using trim_subset [of "max_size c"] by (fastforce simp: spec_put_def split: if_splits)
  with \<open>item_key x = k\<close> show ?thesis by (simp add: lru_resident_entries [OF lru_wf_elems [OF assms(1)]])
qed

lemma lru_get_result:
  assumes "lru_wf c"
  shows "fst (lru_get k now c) =
    (case lru_resident c k of None \<Rightarrow> None | Some it \<Rightarrow> if expired now it then None else Some it)"
  using assms
proof (cases rule: lru_get_cases [of c k now])
  case absent
  then show ?thesis by (simp add: lru_resident_def key_items_None [THEN iffD2])
next
  case (old i it ys zs)
  then have "lru_resident c k = Some it"
    using lru_resident_entries [OF lru_wf_elems [OF assms], of k it] by (simp add: lru_entries_def)
  with old show ?thesis by simp
next
  case (live i it ys zs)
  then have "lru_resident c k = Some it"
    using lru_resident_entries [OF lru_wf_elems [OF assms], of k it] by (simp add: lru_entries_def)
  with live show ?thesis by simp
qed

lemma lru_get_resident:
  assumes "lru_wf c"
  shows "lru_resident (snd (lru_get k now c)) = (case lru_resident c k of None \<Rightarrow> lru_resident c
    | Some it \<Rightarrow> if expired now it then (lru_resident c)(k := None) else lru_resident c)"
  using assms
proof (cases rule: lru_get_cases [of c k now])
  case absent
  then show ?thesis by (simp add: lru_resident_def key_items_None [THEN iffD2])
next
  case (old i it ys zs)
  note sp = elems_ok_split [OF lru_wf_split [OF assms old(1)]]
  have "lru_resident c k = Some it"
    using lru_resident_entries [OF lru_wf_elems [OF assms], of k it] old by (simp add: lru_entries_def)
  with old key_items_del [OF sp(3,4), of i] lru_wf_remove(2) [OF assms old(1)]
  show ?thesis by (simp add: lru_resident_def)
next
  case (live i it ys zs)
  note sp = elems_ok_split [OF lru_wf_split [OF assms live(1)]]
  have "lru_resident c k = Some it"
    using lru_resident_entries [OF lru_wf_elems [OF assms], of k it] live by (simp add: lru_entries_def)
  with live key_items_mid [OF sp(3), of i zs] show ?thesis by (simp add: lru_resident_def)
qed

lemma lru_stats_get:
  assumes "lru_wf c"
  shows "hits (lru_stats (snd (lru_get k now c))) = hits (lru_stats c) + (if fst (lru_get k now c) = None then 0 else 1)
    \<and> misses (lru_stats (snd (lru_get k now c))) = misses (lru_stats c) + (if fst (lru_get k now c) = None then 1 else 0)
    \<and> bytes_max (lru_stats (snd (lru_get k now c))) = bytes_max (lru_stats c)"
  using assms by (cases rule: lru_get_cases [of c k now]) (simp_all add: lru_stats_def lru_hit_def lru_miss_def)

lemma lru_inv_wf: "lru_inv c \<Longrightarrow> lru_wf c"
  by (simp add: lru_inv_def)

lemma lru_bytes_max: "lru_inv c \<Longrightarrow> bytes_max (lru_stats c) = max_size c"
  by (simp add: lru_inv_def lru_wf_def lru_stats_def)

lemma lru_inv_new: "0 \<le> mx \<Longrightarrow> lru_inv (new_lru mx)"
  by (simp add: lru_inv_def lru_wf_def new_lru_def fresh_stats_def)

lemma lru_inv_clear: "lru_inv c \<Longrightarrow> lru_inv (lru_clear c)"
  using lru_inv_max [of c] by (simp add: lru_inv_def lru_wf_def lru_clear_def fresh_stats_def)

lemma lru_put_too_big: "max_size c < size_bytes it \<Longrightarrow> lru_put it now c = c"
  by (simp add: lru_put_def)

lemma lru_stats_put:
  "lru_wf c \<Longrightarrow> 0 \<le> size_bytes it \<Longrightarrow>
    hits (lru_stats (lru_put it now c)) = hits (lru_stats c)
    \<and> misses (lru_stats (lru_put it now c)) = misses (lru_stats c)
    \<and> bytes_max (lru_stats (lru_put it now c)) = bytes_max (lru_stats c)"
  using lru_put_counters [of c it now] by (simp add: lru_stats_def)

interpretation lru: cache_iface lru_get lru_put lru_clear lru_stats lru_resident lru_inv
proof
  fix c :: lru and it k now
  assume inv: "lru_inv c"
  note wf = lru_inv_wf [OF inv]
  show "lru_inv (snd (lru_get k now c))" using inv by (rule lru_inv_get)
  show "lru_inv (lru_clear c)" using inv by (rule lru_inv_clear)
  show "fst (lru_get k now c) = (case lru_resident c k of None \<Rightarrow> None
      | Some it \<Rightarrow> if expired now it then None else Some it)"
    using wf by (rule lru_get_result)
  show "lru_resident (snd (lru_get k now c)) = (case lru_resident c k of None \<Rightarrow> lru_resident c
      | Some it \<Rightarrow> if expired now it then (lru_resident c)(k := None) else lru_resident c)"
    using wf by (rule lru_get_resident)
  show "hits (lru_stats (snd (lru_get k now c))) = hits (lru_stats c) + (if fst (lru_get k now c) = None then 0 else 1)
      \<and> misses (lru_stats (snd (lru_get k now c))) = misses (lru_stats c) + (if fst (lru_get k now c) = None then 1 else 0)
      \<and> bytes_max (lru_stats (snd (lru_get k now c))) = bytes_max (lru_stats c)"
    using wf by (rule lru_stats_get)
  show "lru_stats (lru_clear c) = fresh_stats (bytes_max (lru_stats c))"
    by (simp add: lru_bytes_max [OF inv]) (simp add: lru_clear_def lru_stats_def fresh_stats_def)
  show "lru_put it now c = c" if "bytes_max (lru_stats c) < size_bytes it"
    using that by (simp add: lru_bytes_max [OF inv] lru_put_too_big)
  assume sz: "0 \<le> size_bytes it"
  show "lru_inv (lru_put it now c)" using inv sz by (rule lru_inv_put)
  show "lru_resident (lru_put it now c) (item_key it) = Some it" if "size_bytes it \<le> bytes_max (lru_stats c)"
    using wf sz that by (intro lru_put_stored) (simp_all add: lru_bytes_max [OF inv])
  show "lru_resident c k = Some x" if "k \<noteq> item_key it" "lru_resident (lru_put it now c) k = Some x" for x
    using wf sz that by (rule lru_put_others)
  show "hits (lru_stats (lru_put it now c)) = hits (lru_stats c)
      \<and> misses (lru_stats (lru_put it now c)) = misses (lru_stats c)
      \<and> bytes_max (lru_stats (lru_put it now c)) = bytes_max (lru_stats c)"
    using wf sz by (rule lru_stats_put)
next
  show "lru_resident (lru_clear c) = Map.empty" for c
    by (simp add: lru_resident_def lru_clear_def)
qed

section \<open>Sequences of requests\<close>

lemma lru_clear_entries: "lru_entries (lru_clear c) = [] \<and> max_size (lru_clear c) = max_size c"
  by (simp add: lru_clear_def lru_entries_def)

lemma lru_get_max: "lru_wf c \<Longrightarrow> max_size (snd (lru_get k now c)) = max_size c"
  by (erule lru_get_cases [of c k now]) simp_all

abbreviation spec_ops :: "int \<Rightarrow> cache_op list \<Rightarrow> item list \<Rightarrow> item option list \<times> item list" where
  "spec_ops mx \<equiv> run_ops spec_get (\<lambda>it now. spec_put mx it) (\<lambda>xs. [])"

lemma lru_ops_refine:
  assumes "lru_inv c" "\<forall>op\<in>set ops. op_ok op" "max_size c = mx"
  shows "fst (run_ops lru_get lru_put lru_clear ops c) = fst (spec_ops mx ops (lru_entries c))
    \<and> lru_entries (snd (run_ops lru_get lru_put lru_clear ops c)) = snd (spec_ops mx ops (lru_entries c))
    \<and> lru_inv (snd (run_ops lru_get lru_put lru_clear ops c))
    \<and> max_size (snd (run_ops lru_get lru_put lru_clear ops c)) = mx"
  using assms
proof (induction ops arbitrary: c)
  case (Cons op ops)
  note wf = lru_inv_wf [OF Cons.prems(1)]
  show ?case
  proof (cases op)
    case (OpGet k now)
    with Cons.prems Cons.IH [of "snd (lru_get k now c)"] lru_get_refines [OF wf, of k now]
      lru_inv_get [of c k now] lru_get_max [OF wf, of k now]
    show ?thesis by simp
  next
    case (OpPut it now)
    with Cons.prems Cons.IH [of "lru_put it now c"] lru_put_result [OF wf, of it now]
      lru_inv_put [of c it now]
    show ?thesis by simp
  next
    case OpClear
    with Cons.prems Cons.IH [of "lru_clear c"] lru_clear_entries [of c] lru_inv_clear [of c]
    show ?thesis by simp
  qed
qed simp

text \<open>C6: The LRU cache is the abstract recency list. From an empty cache, any sequence of gets, puts
  and clears is answered exactly as by a plain list of items, most recent first, in which a get moves
  its item to the head (or drops it when expired) and a put places its item at the head and drops
  items from the old end until the rest fits; the final contents agree as well.\<close>

theorem lru_refines_recency_list:
  assumes "0 \<le> mx" "\<forall>op\<in>set ops. op_ok op"
  shows "fst (run_ops lru_get lru_put lru_clear ops (new_lru mx)) = fst (spec_ops mx ops [])
    \<and> lru_entries (snd (run_ops lru_get lru_put lru_clear ops (new_lru mx))) = snd (spec_ops mx ops [])"
  using lru_ops_refine [OF lru_inv_new [OF assms(1)] assms(2) refl]
  by (simp add: new_lru_def lru_entries_def)

definition demo_item :: "string \<Rightarrow> int \<Rightarrow> item" where
  "demo_item k n = \<lparr>item_key = k, size_bytes = n, expiry = 0, item_value = None\<rparr>"

definition demo_ops :: "cache_op list" where
  "demo_ops = [OpPut (demo_item ''a'' 4) 1, OpPut (demo_item ''b'' 4) 2, OpGet ''a'' 3,
     OpPut (demo_item ''c'' 4) 4, OpGet ''b'' 5, OpGet ''a'' 6]"

lemma demo_ops_ok: "\<forall>op\<in>set demo_ops. op_ok op"
  by (simp add: demo_ops_def demo_item_def)

theorem lru_refines_recency_list_witness:
  "fst (run_ops lru_get lru_put lru_clear demo_ops (new_lru 10)) = fst (spec_ops 10 demo_ops [])
   \<and> lru_entries (snd (run_ops lru_get lru_put lru_clear demo_ops (new_lru 10))) = snd (spec_ops 10 demo_ops [])"
  by (rule lru_refines_recency_list [OF _ demo_ops_ok]) simp

text \<open>C11: The byte budget holds at all times: after any sequence of requests the byte counter equals
  the sizes of the items held, no two of which share a key, and it is between zero and the capacity.\<close>

theorem lru_within_budget:
  assumes "0 \<le> mx" "\<forall>op\<in>set ops. op_ok op"
  defines "c \<equiv> snd (run_ops lru_get lru_put lru_clear ops (new_lru mx))"
  shows "bytes_used (lru_stats c) = sum_list (map size_bytes (lru_entries c))
    \<and> distinct (map item_key (lru_entries c))
    \<and> 0 \<le> bytes_used (lru_stats c) \<and> bytes_used (lru_stats c) \<le> mx"
proof -
  have "lru_inv c" "max_size c = mx"
    using lru_ops_refine [OF lru_inv_new [OF assms(1)] assms(2), of mx]
    unfolding c_def by (simp_all add: new_lru_def)
  then have wf: "lru_wf c" and le: "current_size c \<le> mx" by (simp_all add: lru_inv_def)
  have "distinct (map item_key (lru_entries c))"
    using lru_wf_elems [OF wf] by (simp add: elems_ok_def lru_entries_def comp_def)
  moreover have "0 \<le> current_size c" using elems_ok_total [OF lru_wf_elems [OF wf]] wf by (simp add: lru_wf_def)
  ultimately show ?thesis using le lru_current_entries [OF wf] by (simp add: lru_stats_def)
qed

theorem lru_within_budget_witness:
  "bytes_used (lru_stats (snd (run_ops lru_get lru_put lru_clear demo_ops (new_lru 10)))) \<le> 10"
  using lru_within_budget [OF _ demo_ops_ok, of 10] by simp

text \<open>The LRU cache is coherent: whatever the interleaving of requests and evictions, a hit
  returns the item most recently stored under that key and not cleared since, and never one whose
  time-to-live has passed.\<close>

lemma lru_coherent:
  assumes "0 \<le> mx" "\<forall>op\<in>set ops. op_ok op"
  shows "answers_ok mx Map.empty ops (fst (run_ops lru_get lru_put lru_clear ops (new_lru mx)))"
proof -
  have "lru_resident (new_lru mx) \<subseteq>\<^sub>m Map.empty" by (simp add: lru_resident_def new_lru_def)
  moreover have "bytes_max (lru_stats (new_lru mx)) = mx" using lru_bytes_max [OF lru_inv_new [OF assms(1)]]
    by (simp add: new_lru_def)
  ultimately show ?thesis using lru.run_coherent [OF lru_inv_new [OF assms(1)] _ assms(2)] by blast
qed

text \<open>Eviction is minimal and in recency order. A put of an item that fits keeps that item at the
  head, followed by the other items in their order cut to the longest prefix that fits.\<close>

lemma lru_put_evicts_minimally:
  assumes "lru_inv c" "0 \<le> size_bytes item" "size_bytes item \<le> max_size c"
    and "others = filter (\<lambda>x. item_key x \<noteq> item_key item) (lru_entries c)"
  shows "\<exists>kept dropped. lru_entries (lru_put item now c) = item # kept \<and> others = kept @ dropped
    \<and> (\<forall>ys zs. others = ys @ zs \<longrightarrow> size_bytes item + sum_list (map size_bytes ys) \<le> max_size c
         \<longrightarrow> length ys \<le> length kept)"
proof -
  let ?t = "trim (max_size c) (item # others)"
  note wf = lru_inv_wf [OF assms(1)]
  have ent: "lru_entries (lru_put item now c) = ?t"
    using lru_put_result [OF wf assms(2)] assms(3,4) by (simp add: spec_put_def)
  have nn: "\<forall>y\<in>set (item # others). 0 \<le> size_bytes y"
    using lru_entries_nonneg [OF wf] assms(2,4) by auto
  from trim_prefix obtain dropped where d: "item # others = ?t @ dropped" by blast
  moreover have "item \<in> set ?t" using assms(3) nn by (rule trim_keeps_head)
  ultimately obtain kept where k: "?t = item # kept" by (cases ?t) auto
  have "length ys \<le> length kept"
    if "others = ys @ zs" "size_bytes item + sum_list (map size_bytes ys) \<le> max_size c" for ys zs
    using trim_maximal [of "item # others" "item # ys" zs "max_size c"] that nn k by simp
  with ent k d show ?thesis by auto
qed

end
