(* ===== verification/Arc.thy ===== *)
theory Arc
  imports Cache
begin

text \<open>
  \<open>internal/cache/arc.go\<close>: the byte-bounded adaptive replacement cache. Two recency lists of
  resident items (\<open>T1\<close>, \<open>T2\<close>) and two of ghosts (\<open>B1\<close>, \<open>B2\<close>), one index and one owner map for
  all four, a byte counter each, and the adaptive target \<open>p\<close>. \<open>arc_next\<close> is the allocator of
  list elements, as in \<open>Lru\<close>.
\<close>

section \<open>State\<close>

text \<open>The owner bytes \<open>'t'\<close>, \<open>'T'\<close>, \<open>'b'\<close>, \<open>'B'\<close> of the code.\<close>

datatype owner = T1 | T2 | B1 | B2

record arc =
  arc_max :: int
  arc_p :: int
  t1 :: "elem list"
  t2 :: "elem list"
  b1 :: "elem list"
  b2 :: "elem list"
  arc_index :: "string \<rightharpoonup> nat"
  owner_of :: "string \<rightharpoonup> owner"
  t1_bytes :: int
  t2_bytes :: int
  b1_bytes :: int
  b2_bytes :: int
  arc_counters :: cache_stats
  arc_next :: nat

definition new_arc :: "int \<Rightarrow> arc" where
  "new_arc mx = \<lparr>arc_max = mx, arc_p = 0, t1 = [], t2 = [], b1 = [], b2 = [],
     arc_index = Map.empty, owner_of = Map.empty, t1_bytes = 0, t2_bytes = 0, b1_bytes = 0,
     b2_bytes = 0, arc_counters = fresh_stats mx, arc_next = 0\<rparr>"

definition arc_name :: string where "arc_name = ''arc''"

definition arc_stats :: "arc \<Rightarrow> cache_stats" where
  "arc_stats c = (arc_counters c)\<lparr>bytes_used := t1_bytes c + t2_bytes c\<rparr>"

definition arc_clear :: "arc \<Rightarrow> arc" where
  "arc_clear c = c\<lparr>t1 := [], t2 := [], b1 := [], b2 := [], arc_index := Map.empty,
     owner_of := Map.empty, t1_bytes := 0, t2_bytes := 0, b1_bytes := 0, b2_bytes := 0, arc_p := 0,
     arc_counters := fresh_stats (arc_max c)\<rparr>"

fun lst :: "owner \<Rightarrow> arc \<Rightarrow> elem list" where
  "lst T1 c = t1 c" | "lst T2 c = t2 c" | "lst B1 c = b1 c" | "lst B2 c = b2 c"

fun bytes_of :: "owner \<Rightarrow> arc \<Rightarrow> int" where
  "bytes_of T1 c = t1_bytes c" | "bytes_of T2 c = t2_bytes c"
| "bytes_of B1 c = b1_bytes c" | "bytes_of B2 c = b2_bytes c"

text \<open>One list and its byte counter change together everywhere in the code.\<close>

fun upd_list :: "owner \<Rightarrow> elem list \<Rightarrow> int \<Rightarrow> arc \<Rightarrow> arc" where
  "upd_list T1 xs d c = c\<lparr>t1 := xs, t1_bytes := t1_bytes c + d\<rparr>"
| "upd_list T2 xs d c = c\<lparr>t2 := xs, t2_bytes := t2_bytes c + d\<rparr>"
| "upd_list B1 xs d c = c\<lparr>b1 := xs, b1_bytes := b1_bytes c + d\<rparr>"
| "upd_list B2 xs d c = c\<lparr>b2 := xs, b2_bytes := b2_bytes c + d\<rparr>"

text \<open>\<open>l.Remove(el); bytes -= size\<close>; \<open>delete(index, key); delete(ownerOf, key)\<close>; and
  \<open>newEl := l.PushFront(entry); bytes += size; index[key] = newEl; ownerOf[key] = o\<close>.\<close>

definition unlink :: "owner \<Rightarrow> elem \<Rightarrow> arc \<Rightarrow> arc" where
  "unlink own e c = upd_list own (l_remove (fst e) (lst own c)) (- size_bytes (snd e)) c"

definition forget :: "string \<Rightarrow> arc \<Rightarrow> arc" where
  "forget key c = c\<lparr>arc_index := (arc_index c)(key := None), owner_of := (owner_of c)(key := None)\<rparr>"

definition link :: "owner \<Rightarrow> item \<Rightarrow> arc \<Rightarrow> arc" where
  "link own it c = (let c' = upd_list own ((arc_next c, it) # lst own c) (size_bytes it) c in
     c'\<lparr>arc_index := (arc_index c)(item_key it \<mapsto> arc_next c),
        owner_of := (owner_of c)(item_key it \<mapsto> own), arc_next := Suc (arc_next c)\<rparr>)"

text \<open>The entry an element pointer carries, in whichever list the element is.\<close>

definition arc_elems :: "arc \<Rightarrow> elem list" where
  "arc_elems c = t1 c @ t2 c @ b1 c @ b2 c"

definition entry_of :: "nat \<Rightarrow> arc \<Rightarrow> item" where
  "entry_of el c = l_value el (arc_elems c)"

definition ghost :: "item \<Rightarrow> item" where
  "ghost it = zero_item\<lparr>item_key := item_key it, size_bytes := size_bytes it\<rparr>"

definition arc_hit :: "arc \<Rightarrow> arc" where
  "arc_hit c = c\<lparr>arc_counters := (arc_counters c)\<lparr>hits := hits (arc_counters c) + 1\<rparr>\<rparr>"

definition arc_miss :: "arc \<Rightarrow> arc" where
  "arc_miss c = c\<lparr>arc_counters := (arc_counters c)\<lparr>misses := misses (arc_counters c) + 1\<rparr>\<rparr>"

definition arc_evicted :: "arc \<Rightarrow> arc" where
  "arc_evicted c = c\<lparr>arc_counters := (arc_counters c)\<lparr>evictions := evictions (arc_counters c) + 1\<rparr>\<rparr>"

section \<open>Operations\<close>

definition remove_from_active :: "string \<Rightarrow> nat \<Rightarrow> arc \<Rightarrow> arc" where
  "remove_from_active key el c = (let ent = entry_of el c in
     forget key (case owner_of c key of
         Some T1 \<Rightarrow> unlink T1 (el, ent) c
       | Some T2 \<Rightarrow> unlink T2 (el, ent) c
       | _ \<Rightarrow> c))"

definition arc_get :: "string \<Rightarrow> instant \<Rightarrow> arc \<Rightarrow> item option \<times> arc" where
  "arc_get key now c = (case arc_index c key of
       None \<Rightarrow> (None, arc_miss c)
     | Some el \<Rightarrow>
         if owner_of c key \<noteq> Some T1 \<and> owner_of c key \<noteq> Some T2 then (None, arc_miss c)
         else let ent = entry_of el c in
           if expired now ent then (None, arc_miss (remove_from_active key el c))
           else if owner_of c key = Some T1
             then (Some ent, arc_hit (link T2 ent (unlink T1 (el, ent) c)))
             else (Some ent, arc_hit (c\<lparr>t2 := l_to_front el (t2 c)\<rparr>)))"

text \<open>The LRU end of a resident list becomes the newest ghost (\<open>moveT1LRUToB1\<close> and the two
  branches of \<open>replace\<close>).\<close>

definition ghost_out :: "owner \<Rightarrow> owner \<Rightarrow> elem \<Rightarrow> arc \<Rightarrow> arc" where
  "ghost_out own gh e c = arc_evicted (link gh (ghost (snd e)) (unlink own e c))"

definition move_t1_lru_to_b1 :: "arc \<Rightarrow> arc" where
  "move_t1_lru_to_b1 c = (case l_back (t1 c) of None \<Rightarrow> c | Some e \<Rightarrow> ghost_out T1 B1 e c)"

definition evict_lru_list :: "owner \<Rightarrow> arc \<Rightarrow> arc" where
  "evict_lru_list own c = (case l_back (lst own c) of
       None \<Rightarrow> c | Some e \<Rightarrow> forget (item_key (snd e)) (unlink own e c))"

lemma unlink_fields [simp]:
  "t1 (unlink T1 e c) = l_remove (fst e) (t1 c)" "t2 (unlink T1 e c) = t2 c"
  "t1 (unlink T2 e c) = t1 c" "t2 (unlink T2 e c) = l_remove (fst e) (t2 c)"
  by (simp_all add: unlink_def)

lemma link_ghost_fields [simp]:
  "t1 (link B1 it c) = t1 c" "t2 (link B1 it c) = t2 c" "t1 (link B2 it c) = t1 c" "t2 (link B2 it c) = t2 c"
  by (simp_all add: link_def)

text \<open>The loop of \<open>replace\<close>; \<open>in_b2\<close> is its flag \<open>inB2\<close>.\<close>

function arc_replace :: "int \<Rightarrow> bool \<Rightarrow> arc \<Rightarrow> arc" where
  "arc_replace incoming in_b2 c = (if t1_bytes c + t2_bytes c + incoming > arc_max c then
      if t1_bytes c > 0 \<and> (t1_bytes c > arc_p c \<or> in_b2 \<and> t1_bytes c = arc_p c) then
        (case l_back (t1 c) of None \<Rightarrow> c | Some e \<Rightarrow> arc_replace incoming in_b2 (ghost_out T1 B1 e c))
      else if t2_bytes c > 0 then
        (case l_back (t2 c) of None \<Rightarrow> c | Some e \<Rightarrow> arc_replace incoming in_b2 (ghost_out T2 B2 e c))
      else c
    else c)"
  by pat_completeness auto
termination
proof (relation "measure (\<lambda>(n, b, c). length (t1 c) + length (t2 c))")
  fix c :: arc and e :: elem and n :: int and b
  show "((n, b, ghost_out T1 B1 e c), n, b, c) \<in> measure (\<lambda>(n, b, c). length (t1 c) + length (t2 c))"
    if "l_back (t1 c) = Some e"
    using that length_l_remove_last [of "t1 c"] by (auto dest!: l_back_SomeD simp: ghost_out_def arc_evicted_def)
  show "((n, b, ghost_out T2 B2 e c), n, b, c) \<in> measure (\<lambda>(n, b, c). length (t1 c) + length (t2 c))"
    if "l_back (t2 c) = Some e"
    using that length_l_remove_last [of "t2 c"] by (auto dest!: l_back_SomeD simp: ghost_out_def arc_evicted_def)
qed simp

declare arc_replace.simps [simp del]

text \<open>The step of the adaptation: the size of the ghost, times the ratio of the opposite ghost
  list to this one when that is larger (\<open>delta\<close>).\<close>

definition adapt_step :: "int \<Rightarrow> int \<Rightarrow> int \<Rightarrow> int" where
  "adapt_step own_bytes other_bytes ghost_size =
     (if other_bytes > own_bytes \<and> own_bytes > 0 then go_quot other_bytes own_bytes else 1) * ghost_size"

definition note_used :: "arc \<Rightarrow> arc" where
  "note_used c = c\<lparr>arc_counters := (arc_counters c)\<lparr>bytes_used := t1_bytes c + t2_bytes c\<rparr>\<rparr>"

definition put_resident :: "owner \<Rightarrow> nat \<Rightarrow> item \<Rightarrow> arc \<Rightarrow> arc" where
  "put_resident own el item c =
     upd_list own (l_set el item (lst own c)) (size_bytes item - size_bytes (entry_of el c)) c"

definition put_b1_hit :: "nat \<Rightarrow> item \<Rightarrow> arc \<Rightarrow> arc" where
  "put_b1_hit el item c = (let g = entry_of el c;
       p = arc_p c + adapt_step (b1_bytes c) (b2_bytes c) (size_bytes g);
       c1 = c\<lparr>arc_p := (if p > arc_max c then arc_max c else p)\<rparr>;
       c2 = forget (item_key item) (unlink B1 (el, g) c1)
     in note_used (link T2 item (arc_replace (size_bytes item) False c2)))"

definition put_b2_hit :: "nat \<Rightarrow> item \<Rightarrow> arc \<Rightarrow> arc" where
  "put_b2_hit el item c = (let g = entry_of el c;
       p = arc_p c - adapt_step (b2_bytes c) (b1_bytes c) (size_bytes g);
       c1 = c\<lparr>arc_p := (if p < 0 then 0 else p)\<rparr>;
       c2 = forget (item_key item) (unlink B2 (el, g) c1)
     in note_used (link T2 item (arc_replace (size_bytes item) True c2)))"

text \<open>Case IV of the algorithm, on a key no list holds: the ghost eviction it starts with.\<close>

definition case_iv :: "int \<Rightarrow> arc \<Rightarrow> arc" where
  "case_iv n c = (if t1_bytes c + b1_bytes c + n > arc_max c then
       (if t1_bytes c < arc_max c then evict_lru_list B1 c else move_t1_lru_to_b1 c)
     else if t1_bytes c + t2_bytes c + b1_bytes c + b2_bytes c + n \<ge> 2 * arc_max c
       then evict_lru_list B2 c else c)"

definition put_fresh :: "item \<Rightarrow> arc \<Rightarrow> arc" where
  "put_fresh item c =
     note_used (link T1 item (arc_replace (size_bytes item) False (case_iv (size_bytes item) c)))"

definition arc_put :: "item \<Rightarrow> instant \<Rightarrow> arc \<Rightarrow> arc" where
  "arc_put item now c = (if size_bytes item > arc_max c then c
     else case arc_index c (item_key item) of
         None \<Rightarrow> put_fresh item c
       | Some el \<Rightarrow> (case owner_of c (item_key item) of
             Some T1 \<Rightarrow> put_resident T1 el item c
           | Some T2 \<Rightarrow> put_resident T2 el item c
           | Some B1 \<Rightarrow> put_b1_hit el item c
           | Some B2 \<Rightarrow> put_b2_hit el item c
           | None \<Rightarrow> put_fresh item c))"

section \<open>Well-formed states\<close>

definition arc_wf :: "arc \<Rightarrow> bool" where
  "arc_wf c \<longleftrightarrow> elems_ok (arc_next c) (arc_elems c) \<and> arc_index c = key_index (arc_elems c) \<and>
     (\<forall>own k. owner_of c k = Some own \<longleftrightarrow> k \<in> set (keys (lst own c))) \<and>
     (\<forall>own. bytes_of own c = total_size (lst own c)) \<and>
     0 \<le> arc_p c \<and> arc_p c \<le> arc_max c \<and> bytes_max (arc_counters c) = arc_max c"

definition arc_resident :: "arc \<Rightarrow> string \<rightharpoonup> item" where
  "arc_resident c = key_items (t1 c @ t2 c)"

lemma arc_frames [simp]:
  "lst own (arc_hit c) = lst own c" "lst own (arc_miss c) = lst own c" "lst own (arc_evicted c) = lst own c"
  "lst own (note_used c) = lst own c" "lst own (forget k c) = lst own c"
  "arc_elems (arc_hit c) = arc_elems c" "arc_elems (arc_miss c) = arc_elems c"
  "arc_elems (arc_evicted c) = arc_elems c" "arc_elems (note_used c) = arc_elems c"
  "arc_elems (forget k c) = arc_elems c"
  "bytes_of own (arc_hit c) = bytes_of own c" "bytes_of own (arc_miss c) = bytes_of own c"
  "bytes_of own (arc_evicted c) = bytes_of own c" "bytes_of own (note_used c) = bytes_of own c"
  "bytes_of own (forget k c) = bytes_of own c"
  by (cases own; simp add: arc_hit_def arc_miss_def arc_evicted_def note_used_def forget_def arc_elems_def)+

lemma lst_upd [simp]:
  "lst o1 (upd_list o2 xs d c) = (if o1 = o2 then xs else lst o1 c)"
  "bytes_of o1 (upd_list o2 xs d c) = bytes_of o1 c + (if o1 = o2 then d else 0)"
  by (cases o1; cases o2; simp)+

lemma upd_frames [simp]:
  "arc_max (upd_list own xs d c) = arc_max c" "arc_p (upd_list own xs d c) = arc_p c"
  "arc_index (upd_list own xs d c) = arc_index c" "owner_of (upd_list own xs d c) = owner_of c"
  "arc_counters (upd_list own xs d c) = arc_counters c" "arc_next (upd_list own xs d c) = arc_next c"
  by (cases own; simp)+

lemma lst_unlink [simp]:
  "lst o1 (unlink o2 e c) = (if o1 = o2 then l_remove (fst e) (lst o2 c) else lst o1 c)"
  "bytes_of o1 (unlink o2 e c) = bytes_of o1 c - (if o1 = o2 then size_bytes (snd e) else 0)"
  by (simp_all add: unlink_def)

lemma lst_link [simp]:
  "lst o1 (link o2 it c) = (if o1 = o2 then (arc_next c, it) # lst o2 c else lst o1 c)"
  "bytes_of o1 (link o2 it c) = bytes_of o1 c + (if o1 = o2 then size_bytes it else 0)"
  by (cases o1; cases o2; simp add: link_def)+

lemma link_frames [simp]:
  "arc_max (link own it c) = arc_max c" "arc_p (link own it c) = arc_p c"
  "arc_counters (link own it c) = arc_counters c" "arc_next (link own it c) = Suc (arc_next c)"
  "arc_index (link own it c) = (arc_index c)(item_key it \<mapsto> arc_next c)"
  "owner_of (link own it c) = (owner_of c)(item_key it \<mapsto> own)"
  by (simp_all add: link_def Let_def)

lemma unlink_frames [simp]:
  "arc_max (unlink own e c) = arc_max c" "arc_p (unlink own e c) = arc_p c"
  "arc_counters (unlink own e c) = arc_counters c" "arc_next (unlink own e c) = arc_next c"
  "arc_index (unlink own e c) = arc_index c" "owner_of (unlink own e c) = owner_of c"
  by (simp_all add: unlink_def)

lemma forget_frames [simp]:
  "arc_max (forget k c) = arc_max c" "arc_p (forget k c) = arc_p c"
  "arc_counters (forget k c) = arc_counters c" "arc_next (forget k c) = arc_next c"
  "arc_index (forget k c) = (arc_index c)(k := None)" "owner_of (forget k c) = (owner_of c)(k := None)"
  by (simp_all add: forget_def)

text \<open>Removing or replacing an element of one list is doing so in the concatenation.\<close>

lemma elems_split:
  assumes "lst own c = ys @ (i, it) # zs"
  obtains P S where "arc_elems c = P @ (i, it) # S"
    "\<And>xs d. arc_elems (upd_list own (ys @ xs @ zs) d c) = P @ xs @ S"
    "\<And>k xs. k \<in> set (keys xs) \<Longrightarrow> k \<in> set (keys (ys @ xs @ zs))"
proof (cases own)
  case T1 with assms that [of ys "zs @ t2 c @ b1 c @ b2 c"] show thesis by (simp add: arc_elems_def)
next
  case T2 with assms that [of "t1 c @ ys" "zs @ b1 c @ b2 c"] show thesis by (simp add: arc_elems_def)
next
  case B1 with assms that [of "t1 c @ t2 c @ ys" "zs @ b2 c"] show thesis by (simp add: arc_elems_def)
next
  case B2 with assms that [of "t1 c @ t2 c @ b1 c @ ys" zs] show thesis by (simp add: arc_elems_def)
qed

lemma elems_cons:
  obtains P S where "arc_elems c = P @ S" "\<And>e d. arc_elems (upd_list own (e # lst own c) d c) = P @ e # S"
proof (cases own)
  case T1 with that [of "[]" "arc_elems c"] show thesis by (simp add: arc_elems_def)
next
  case T2 with that [of "t1 c" "t2 c @ b1 c @ b2 c"] show thesis by (simp add: arc_elems_def)
next
  case B1 with that [of "t1 c @ t2 c" "b1 c @ b2 c"] show thesis by (simp add: arc_elems_def)
next
  case B2 with that [of "t1 c @ t2 c @ b1 c" "b2 c"] show thesis by (simp add: arc_elems_def)
qed

lemma arc_elems_cong:
  "(\<And>own. lst own c = lst own d) \<Longrightarrow> arc_elems c = arc_elems d"
  using lst.simps by (metis arc_elems_def)

lemma lst_elems: "set (lst own c) \<subseteq> set (arc_elems c)"
  by (cases own) (auto simp: arc_elems_def)

lemma arc_lookup:
  assumes "arc_wf c" "arc_index c k = Some i"
  obtains own it ys zs where "owner_of c k = Some own" "lst own c = ys @ (i, it) # zs" "item_key it = k"
    "entry_of i c = it"
proof -
  from assms have "key_index (arc_elems c) k = Some i" and ok: "elems_ok (arc_next c) (arc_elems c)"
    by (simp_all add: arc_wf_def)
  then obtain it where it: "(i, it) \<in> set (arc_elems c)" "item_key it = k" by (blast dest: key_index_SomeD)
  then obtain own where own: "(i, it) \<in> set (lst own c)"
    by (metis UnE arc_elems_def lst.simps set_append)
  then obtain ys zs where "lst own c = ys @ (i, it) # zs" by (meson split_list)
  moreover have "owner_of c k = Some own" using own it(2) assms(1) by (force simp: arc_wf_def)
  moreover have "entry_of i c = it" using ok it(1) by (simp add: entry_of_def elems_ok_def l_value_mem)
  ultimately show thesis using that it(2) by blast
qed

lemma ex_owner: "(\<exists>own. P own) \<longleftrightarrow> P T1 \<or> P T2 \<or> P B1 \<or> P B2"
  by (metis owner.exhaust)

lemma all_owner: "(\<forall>own. P own) \<longleftrightarrow> P T1 \<and> P T2 \<and> P B1 \<and> P B2"
  by (metis owner.exhaust)

lemma arc_owner_index: "arc_wf c \<Longrightarrow> arc_index c k = None \<longleftrightarrow> owner_of c k = None"
proof
  assume wf: "arc_wf c"
  have "k \<in> set (keys (arc_elems c)) \<longleftrightarrow> (\<exists>own. k \<in> set (keys (lst own c)))" (is "?l \<longleftrightarrow> ?r")
    by (auto simp: arc_elems_def ex_owner)
  then have iff: "arc_index c k = None \<longleftrightarrow> (\<forall>own. owner_of c k \<noteq> Some own)"
    using wf by (simp add: arc_wf_def key_index_None)
  show "owner_of c k = None" if "arc_index c k = None" using that iff by (cases "owner_of c k") auto
  show "arc_index c k = None" if "owner_of c k = None" using that iff by auto
qed

text \<open>The two elementary steps keep the state well formed.\<close>

lemma unlink_wf:
  assumes wf: "arc_wf c" and s: "lst own c = ys @ (i, it) # zs"
  shows "arc_wf (forget (item_key it) (unlink own (i, it) c))"
    and "l_remove i (lst own c) = ys @ zs" and "0 \<le> size_bytes it"
    and "item_key it \<notin> set (keys (arc_elems (unlink own (i, it) c)))"
proof -
  let ?d = "forget (item_key it) (unlink own (i, it) c)"
  obtain P S where e: "arc_elems c = P @ (i, it) # S"
    and u: "\<And>xs d. arc_elems (upd_list own (ys @ xs @ zs) d c) = P @ xs @ S"
    using elems_split [OF s] by metis
  have ok: "elems_ok (arc_next c) (P @ (i, it) # S)" using wf by (simp add: arc_wf_def e)
  note sp = elems_ok_split [OF ok]
  show rm: "l_remove i (lst own c) = ys @ zs"
  proof -
    have "i \<notin> fst ` set ys" "i \<notin> fst ` set zs"
    proof -
      have "distinct (ids (lst own c))"
        using ok unfolding e [symmetric] by (cases own) (auto simp: elems_ok_def arc_elems_def)
      then show "i \<notin> fst ` set ys" "i \<notin> fst ` set zs" by (auto simp: s)
    qed
    then show ?thesis by (simp add: s)
  qed
  have el: "arc_elems (unlink own (i, it) c) = P @ S" using u [of "[]"] rm by (simp add: unlink_def)
  show "0 \<le> size_bytes it" by (rule sp(8))
  show "item_key it \<notin> set (keys (arc_elems (unlink own (i, it) c)))" using sp(3,4) by (simp add: el)
  have "owner_of ?d k = Some o1 \<longleftrightarrow> k \<in> set (keys (lst o1 ?d))" for o1 k
  proof (cases "k = item_key it")
    case True
    have "set (lst o1 ?d) \<subseteq> set (P @ S)"
      using lst_elems [of o1 "unlink own (i, it) c"] by (simp only: el arc_frames)
    then have "k \<notin> set (keys (lst o1 ?d))" using True sp(3,4) by (fastforce simp del: arc_frames lst_unlink)
    then show ?thesis using True by simp
  next
    case False
    then have "k \<in> set (keys (lst o1 ?d)) \<longleftrightarrow> k \<in> set (keys (lst o1 c))" using rm by (auto simp: s)
    then show ?thesis using False wf by (simp add: arc_wf_def)
  qed
  moreover have "bytes_of o1 ?d = total_size (lst o1 ?d)" for o1
    using wf rm by (auto simp: arc_wf_def s)
  moreover have "arc_index ?d = key_index (arc_elems ?d)"
    using wf key_index_del [OF sp(3,4), of i] by (simp add: arc_wf_def e el)
  ultimately show "arc_wf ?d" using wf sp(7) by (simp add: arc_wf_def el)
qed

lemma link_wf:
  assumes wf: "arc_wf c" and new: "item_key it \<notin> set (keys (arc_elems c))" and sz: "0 \<le> size_bytes it"
  shows "arc_wf (link own it c)"
proof -
  let ?d = "link own it c"
  obtain P S where e: "arc_elems c = P @ S"
    and u: "\<And>e d. arc_elems (upd_list own (e # lst own c) d c) = P @ e # S" using elems_cons by metis
  have el: "arc_elems ?d = P @ (arc_next c, it) # S"
    using u [of "(arc_next c, it)" "size_bytes it"] by (simp add: link_def arc_elems_def Let_def)
  have ok: "elems_ok (arc_next c) (P @ S)" using wf by (simp add: arc_wf_def e)
  have "elems_ok (arc_next ?d) (arc_elems ?d)"
  proof -
    have "arc_next ?d = Suc (arc_next c)" by simp
    moreover have "elems_ok (Suc (arc_next c)) (P @ S)" using ok by (rule elems_ok_mono) simp
    ultimately show ?thesis using elems_ok_fresh [OF ok] new sz by (simp add: el e elems_ok_mid)
  qed
  moreover have "arc_index ?d = key_index (arc_elems ?d)"
    using wf new by (simp add: el e arc_wf_def key_index_mid)
  moreover have "owner_of ?d k = Some o1 \<longleftrightarrow> k \<in> set (keys (lst o1 ?d))" for o1 k
  proof (cases "k = item_key it")
    case True
    then have "k \<notin> set (keys (lst o1 c))" using new lst_elems [of o1 c] by auto
    then show ?thesis using True by auto
  next
    case False
    then show ?thesis using wf by (auto simp: arc_wf_def)
  qed
  moreover have "bytes_of o1 ?d = total_size (lst o1 ?d)" for o1 using wf by (simp add: arc_wf_def)
  ultimately show ?thesis using wf by (simp add: arc_wf_def)
qed

text \<open>A move of a key between lists overwrites its index entries instead of deleting them first.\<close>

lemma link_forget: "item_key it = k \<Longrightarrow> link own it (forget k c) = link own it c"
  by (cases own) (simp_all add: link_def forget_def)

lemma unlink_resident:
  assumes wf: "arc_wf c" and s: "lst own c = ys @ (i, it) # zs"
  shows "arc_resident (unlink own (i, it) c) =
    (if own = T1 \<or> own = T2 then (arc_resident c)(item_key it := None) else arc_resident c)"
proof -
  note u = unlink_wf [OF assms]
  have ok: "elems_ok (arc_next c) (t1 c @ t2 c @ b1 c @ b2 c)" using wf by (simp add: arc_wf_def arc_elems_def)
  show ?thesis
  proof (cases own)
    case T1
    with s ok have "item_key it \<notin> set (keys ys)" "item_key it \<notin> set (keys (zs @ t2 c))" by (auto simp: elems_ok_def)
    from key_items_del [OF this, of i] show ?thesis using T1 s u(2) by (simp add: arc_resident_def)
  next
    case T2
    with s ok have "item_key it \<notin> set (keys (t1 c @ ys))" "item_key it \<notin> set (keys zs)" by (auto simp: elems_ok_def)
    from key_items_del [OF this, of i] show ?thesis using T2 s u(2) by (simp add: arc_resident_def)
  qed (simp_all add: arc_resident_def unlink_def)
qed

lemma link_resident:
  assumes "item_key it \<notin> set (keys (arc_elems c))"
  shows "arc_resident (link own it c) =
    (if own = T1 \<or> own = T2 then (arc_resident c)(item_key it \<mapsto> it) else arc_resident c)"
proof (cases own)
  case T2
  have "item_key it \<notin> set (keys (t1 c))" using assms by (auto simp: arc_elems_def)
  from key_items_mid [OF this] show ?thesis using T2 by (simp add: arc_resident_def link_def Let_def)
qed (simp_all add: arc_resident_def link_def Let_def)

lemma resident_frames [simp]:
  "arc_resident (arc_hit c) = arc_resident c" "arc_resident (arc_miss c) = arc_resident c"
  "arc_resident (arc_evicted c) = arc_resident c" "arc_resident (note_used c) = arc_resident c"
  "arc_resident (forget k c) = arc_resident c"
  "arc_wf (arc_hit c) = arc_wf c" "arc_wf (arc_miss c) = arc_wf c" "arc_wf (arc_evicted c) = arc_wf c"
  "arc_wf (note_used c) = arc_wf c"
  by (simp_all add: arc_resident_def arc_hit_def arc_miss_def arc_evicted_def note_used_def forget_def
      arc_wf_def arc_elems_def ex_owner all_owner)

section \<open>Steps that only evict\<close>

text \<open>
  What an eviction may change: the result is well formed, resident items may only disappear, no key
  becomes known, and capacity, target and request counters stay.
\<close>

definition known :: "arc \<Rightarrow> string set" where
  "known c = set (keys (arc_elems c))"

definition shrinks :: "arc \<Rightarrow> arc \<Rightarrow> bool" where
  "shrinks c d \<longleftrightarrow> arc_wf d \<and> arc_resident d \<subseteq>\<^sub>m arc_resident c \<and> known d \<subseteq> known c \<and>
     arc_max d = arc_max c \<and> arc_p d = arc_p c \<and> hits (arc_counters d) = hits (arc_counters c) \<and>
     misses (arc_counters d) = misses (arc_counters c)"

lemma shrinks_refl: "arc_wf c \<Longrightarrow> shrinks c c"
  by (simp add: shrinks_def)

lemma shrinks_trans: "shrinks c d \<Longrightarrow> shrinks d e \<Longrightarrow> shrinks c e"
  unfolding shrinks_def by (metis map_le_trans subset_trans)

lemma map_le_del: "m(k := None) \<subseteq>\<^sub>m m"
  by (simp add: map_le_def)

lemma unlink_keys: "known (unlink own e c) \<subseteq> known c"
  by (cases own) (auto simp: known_def arc_elems_def unlink_def)

lemma link_keys: "known (link own it c) = insert (item_key it) (known c)"
  by (cases own) (auto simp: known_def arc_elems_def link_def Let_def)

lemma known_frames [simp]:
  "known (arc_evicted c) = known c" "known (forget k c) = known c" "known (note_used c) = known c"
  by (simp_all add: known_def)

lemma known_lst: "lst own c = ys @ (i, it) # zs \<Longrightarrow> item_key it \<in> known c"
  using lst_elems [of own c] by (force simp: known_def)

lemma shrinks_drop:
  assumes "arc_wf c" "lst own c = ys @ (i, it) # zs"
  shows "shrinks c (forget (item_key it) (unlink own (i, it) c))"
  using unlink_wf(1) [OF assms] unlink_resident [OF assms] unlink_keys [of own "(i, it)" c]
  by (auto simp: shrinks_def map_le_del)

lemma move_wf:
  assumes "arc_wf c" "lst own c = ys @ (i, it) # zs" "item_key it' = item_key it" "0 \<le> size_bytes it'"
  shows "arc_wf (link dst it' (unlink own (i, it) c))"
proof -
  note u = unlink_wf [OF assms(1,2)]
  have "arc_wf (link dst it' (forget (item_key it) (unlink own (i, it) c)))"
    using u(4) assms(3,4) by (intro link_wf [OF u(1)]) simp_all
  then show ?thesis by (simp add: link_forget assms(3))
qed

lemma ghost_simps [simp]: "item_key (ghost it) = item_key it" "size_bytes (ghost it) = size_bytes it"
  by (simp_all add: ghost_def)

lemma shrinks_ghost_out:
  assumes "arc_wf c" "lst own c = ys @ (i, it) # zs" "gh = B1 \<or> gh = B2"
  shows "shrinks c (ghost_out own gh (i, it) c)"
proof -
  note u = unlink_wf [OF assms(1,2)]
  have "arc_wf (ghost_out own gh (i, it) c)"
    using assms u(3) by (simp add: ghost_out_def move_wf)
  moreover have "arc_resident (ghost_out own gh (i, it) c) = arc_resident (unlink own (i, it) c)"
    using assms(3) u(4) by (auto simp: ghost_out_def link_resident)
  moreover have "item_key it \<in> known c" using assms(2) by (rule known_lst)
  ultimately show ?thesis
    using unlink_resident [OF assms(1,2)] unlink_keys [of own "(i, it)" c]
    by (auto simp: shrinks_def ghost_out_def link_keys map_le_del) (auto simp: arc_evicted_def)
qed

lemma back_split: "l_back xs = Some e \<Longrightarrow> xs = butlast xs @ (fst e, snd e) # []"
  by (auto dest: l_back_SomeD)

lemma shrinks_back:
  assumes "arc_wf c" "l_back (lst own c) = Some e"
  shows "shrinks c (forget (item_key (snd e)) (unlink own e c))"
    "gh = B1 \<or> gh = B2 \<Longrightarrow> shrinks c (ghost_out own gh e c)"
  using shrinks_drop [OF assms(1) back_split [OF assms(2)]]
    shrinks_ghost_out [OF assms(1) back_split [OF assms(2)]] by simp_all

lemma shrinks_move_t1: "arc_wf c \<Longrightarrow> shrinks c (move_t1_lru_to_b1 c)"
  using shrinks_back(2) [of c T1 _ B1] by (auto simp: move_t1_lru_to_b1_def shrinks_refl split: option.split)

lemma shrinks_evict_lru: "arc_wf c \<Longrightarrow> shrinks c (evict_lru_list own c)"
  using shrinks_back(1) [of c own] by (auto simp: evict_lru_list_def shrinks_refl split: option.split)

text \<open>The loop's test for an eviction from \<open>T1\<close>, and the ways one round can go.\<close>

definition from_t1 :: "bool \<Rightarrow> arc \<Rightarrow> bool" where
  "from_t1 b c \<longleftrightarrow> t1_bytes c > 0 \<and> (t1_bytes c > arc_p c \<or> b \<and> t1_bytes c = arc_p c)"

lemma replace_unfold:
  "arc_replace n b c = (if t1_bytes c + t2_bytes c + n > arc_max c then
      if from_t1 b c then
        (case l_back (t1 c) of None \<Rightarrow> c | Some e \<Rightarrow> arc_replace n b (ghost_out T1 B1 e c))
      else if t2_bytes c > 0 then
        (case l_back (t2 c) of None \<Rightarrow> c | Some e \<Rightarrow> arc_replace n b (ghost_out T2 B2 e c))
      else c
    else c)"
  unfolding from_t1_def by (rule arc_replace.simps)

lemma wf_bytes: "arc_wf c \<Longrightarrow> bytes_of own c = total_size (lst own c)"
  by (simp add: arc_wf_def)

lemma wf_bytes_nonneg: "arc_wf c \<Longrightarrow> 0 \<le> bytes_of own c"
  using lst_elems [of own c] by (auto simp: arc_wf_def elems_ok_def intro!: total_size_nonneg)

lemma wf_back: "arc_wf c \<Longrightarrow> 0 < bytes_of own c \<Longrightarrow> \<exists>e. l_back (lst own c) = Some e"
  by (cases "lst own c") (auto simp: wf_bytes l_back_def)

lemma replace_cases:
  assumes "arc_wf c"
  obtains (t1) e where "t1_bytes c + t2_bytes c + n > arc_max c" "from_t1 b c" "l_back (t1 c) = Some e"
      "arc_replace n b c = arc_replace n b (ghost_out T1 B1 e c)"
  | (t2) e where "t1_bytes c + t2_bytes c + n > arc_max c" "\<not> from_t1 b c" "t2_bytes c > 0"
      "l_back (t2 c) = Some e" "arc_replace n b c = arc_replace n b (ghost_out T2 B2 e c)"
  | (room) "t1_bytes c + t2_bytes c + n \<le> arc_max c" "arc_replace n b c = c"
  | (stuck) "t1_bytes c + t2_bytes c + n > arc_max c" "\<not> from_t1 b c" "t2_bytes c \<le> 0" "arc_replace n b c = c"
proof (cases "t1_bytes c + t2_bytes c + n > arc_max c")
  case over: True
  show thesis
  proof (cases "from_t1 b c")
    case True
    then obtain e where "l_back (t1 c) = Some e" using wf_back [OF assms, of T1] by (auto simp: from_t1_def)
    with t1 over True show thesis by (simp add: replace_unfold [of n b c])
  next
    case False
    show thesis
    proof (cases "t2_bytes c > 0")
      case True
      then obtain e where "l_back (t2 c) = Some e" using wf_back [OF assms, of T2] by auto
      with t2 over False True show thesis by (simp add: replace_unfold [of n b c])
    next
      case False
      with stuck over \<open>\<not> from_t1 b c\<close> show thesis by (simp add: replace_unfold [of n b c])
    qed
  qed
qed (use room in \<open>simp add: replace_unfold [of n b c]\<close>)

text \<open>Induction over the rounds of \<open>replace\<close> on a well-formed state.\<close>

lemma replace_induct [consumes 1, case_names t1 t2 stop]:
  assumes "arc_wf c"
    and "\<And>c e. arc_wf c \<Longrightarrow> t1_bytes c + t2_bytes c + n > arc_max c \<Longrightarrow> from_t1 b c \<Longrightarrow> l_back (t1 c) = Some e \<Longrightarrow>
      arc_replace n b c = arc_replace n b (ghost_out T1 B1 e c) \<Longrightarrow> shrinks c (ghost_out T1 B1 e c) \<Longrightarrow>
      P (ghost_out T1 B1 e c) \<Longrightarrow> P c"
    and "\<And>c e. arc_wf c \<Longrightarrow> t1_bytes c + t2_bytes c + n > arc_max c \<Longrightarrow> \<not> from_t1 b c \<Longrightarrow> t2_bytes c > 0 \<Longrightarrow>
      l_back (t2 c) = Some e \<Longrightarrow> arc_replace n b c = arc_replace n b (ghost_out T2 B2 e c) \<Longrightarrow>
      shrinks c (ghost_out T2 B2 e c) \<Longrightarrow> P (ghost_out T2 B2 e c) \<Longrightarrow> P c"
    and "\<And>c. arc_wf c \<Longrightarrow> arc_replace n b c = c \<Longrightarrow>
      t1_bytes c + t2_bytes c + n \<le> arc_max c \<or> \<not> from_t1 b c \<and> t2_bytes c \<le> 0 \<Longrightarrow> P c"
  shows "P c"
  using assms(1)
proof (induction "length (t1 c) + length (t2 c)" arbitrary: c rule: less_induct)
  case less
  from less.prems show ?case
  proof (cases rule: replace_cases [of c n b])
    case (t1 e)
    have s: "shrinks c (ghost_out T1 B1 e c)" using shrinks_back(2) [of c T1 e B1] less.prems t1(3) by simp
    have "length (t1 (ghost_out T1 B1 e c)) < length (t1 c)" "t2 (ghost_out T1 B1 e c) = t2 c"
      using length_l_remove_last [of "t1 c"] l_back_SomeD [OF t1(3)] by (simp_all add: ghost_out_def arc_evicted_def)
    with less.hyps s have "P (ghost_out T1 B1 e c)" by (simp add: shrinks_def)
    with assms(2) less.prems t1 s show ?thesis by blast
  next
    case (t2 e)
    have s: "shrinks c (ghost_out T2 B2 e c)" using shrinks_back(2) [of c T2 e B2] less.prems t2(4) by simp
    have "length (t2 (ghost_out T2 B2 e c)) < length (t2 c)" "t1 (ghost_out T2 B2 e c) = t1 c"
      using length_l_remove_last [of "t2 c"] l_back_SomeD [OF t2(4)] by (simp_all add: ghost_out_def arc_evicted_def)
    with less.hyps s have "P (ghost_out T2 B2 e c)" by (simp add: shrinks_def)
    with assms(3) less.prems t2 s show ?thesis by blast
  qed (use assms(4) less.prems in blast)+
qed

lemma shrinks_replace:
  assumes "arc_wf c"
  shows "shrinks c (arc_replace n b c)"
  using assms
proof (induction rule: replace_induct [where n = n and b = b])
  case (t1 c e)
  then show ?case by (simp add: shrinks_trans)
next
  case (t2 c e)
  then show ?case by (simp add: shrinks_trans)
qed (simp add: shrinks_refl)

lemma shrinks_case_iv: "arc_wf c \<Longrightarrow> shrinks c (case_iv n c)"
  by (simp add: case_iv_def shrinks_move_t1 shrinks_evict_lru shrinks_refl)

section \<open>Get\<close>

lemma arc_owned_resident:
  assumes wf: "arc_wf c" and s: "lst own c = ys @ (i, it) # zs"
  shows "arc_resident c (item_key it) = (if own = T1 \<or> own = T2 then Some it else None)"
proof -
  have ok: "elems_ok (arc_next c) (t1 c @ t2 c @ b1 c @ b2 c)" using wf by (simp add: arc_wf_def arc_elems_def)
  show ?thesis
  proof (cases own)
    case T1
    with s ok have "item_key it \<notin> set (keys ys)" by (auto simp: elems_ok_def)
    with T1 s show ?thesis by (simp add: arc_resident_def key_items_split)
  next
    case T2
    with s ok have "item_key it \<notin> set (keys (t1 c @ ys))" by (auto simp: elems_ok_def)
    with T2 s show ?thesis using key_items_split [of it "item_key it" "t1 c @ ys" i zs] by (simp add: arc_resident_def)
  next
    case B1
    with s ok have "item_key it \<notin> set (keys (t1 c @ t2 c))" by (auto simp: elems_ok_def)
    with B1 show ?thesis by (simp add: arc_resident_def key_items_None)
  next
    case B2
    with s ok have "item_key it \<notin> set (keys (t1 c @ t2 c))" by (auto simp: elems_ok_def)
    with B2 show ?thesis by (simp add: arc_resident_def key_items_None)
  qed
qed

lemma arc_absent_resident: "arc_wf c \<Longrightarrow> arc_index c k = None \<Longrightarrow> arc_resident c k = None \<and> k \<notin> known c"
  by (auto simp: arc_wf_def arc_resident_def known_def arc_elems_def key_index_None key_items_None)

lemma arc_get_cases:
  assumes wf: "arc_wf c"
  obtains (absent) "arc_resident c key = None" "arc_get key now c = (None, arc_miss c)"
  | (old) own i it ys zs where "own = T1 \<or> own = T2" "lst own c = ys @ (i, it) # zs" "item_key it = key"
      "expired now it" "arc_get key now c = (None, arc_miss (forget key (unlink own (i, it) c)))"
  | (first) i it ys zs where "t1 c = ys @ (i, it) # zs" "item_key it = key" "\<not> expired now it"
      "arc_get key now c = (Some it, arc_hit (link T2 it (unlink T1 (i, it) c)))"
  | (again) i it ys zs where "t2 c = ys @ (i, it) # zs" "item_key it = key" "\<not> expired now it"
      "arc_get key now c = (Some it, arc_hit (c\<lparr>t2 := (i, it) # ys @ zs\<rparr>))"
proof (cases "arc_index c key")
  case None
  with wf show thesis by (intro absent) (simp_all add: arc_absent_resident arc_get_def)
next
  case (Some i)
  with wf obtain own it ys zs where o: "owner_of c key = Some own" and s: "lst own c = ys @ (i, it) # zs"
    and k: "item_key it = key" and v: "entry_of i c = it" by (elim arc_lookup) blast
  show thesis
  proof (cases "own = T1 \<or> own = T2")
    case False
    with o s k Some arc_owned_resident [OF wf s] show thesis by (intro absent) (simp_all add: arc_get_def)
  next
    case live: True
    show thesis
    proof (cases "expired now it")
      case True
      with live s k show thesis
        by (rule old) (use Some o v True live in \<open>auto simp: arc_get_def remove_from_active_def Let_def\<close>)
    next
      case False
      show thesis
      proof (cases "own = T1")
        case True
        with s k False Some o v show thesis by (intro first [of ys i it zs]) (simp_all add: arc_get_def)
      next
        case f: False
        with live have "own = T2" by simp
        then have s2: "t2 c = ys @ (i, it) # zs" using s by simp
        have "distinct (ids (t2 c))" using wf by (auto simp: arc_wf_def arc_elems_def elems_ok_def)
        then have "i \<notin> fst ` set ys" "i \<notin> fst ` set zs" by (auto simp: s2)
        then have "l_to_front i (t2 c) = (i, it) # ys @ zs" by (simp add: s2 l_to_front_split)
        with s2 k False Some o v \<open>own = T2\<close> show thesis by (intro again [of ys i it zs]) (simp_all add: arc_get_def)
      qed
    qed
  qed
qed

lemma arc_wf_t2_front:
  assumes wf: "arc_wf c" and s: "t2 c = ys @ (i, it) # zs"
  shows "arc_wf (c\<lparr>t2 := (i, it) # ys @ zs\<rparr>)" "arc_resident (c\<lparr>t2 := (i, it) # ys @ zs\<rparr>) = arc_resident c"
proof -
  have ok: "elems_ok (arc_next c) (t1 c @ t2 c @ b1 c @ b2 c)" and
    ix: "arc_index c = key_index (t1 c @ t2 c @ b1 c @ b2 c)"
    using wf by (simp_all add: arc_wf_def arc_elems_def)
  have k1: "item_key it \<notin> set (keys (t1 c))" and k2: "item_key it \<notin> set (keys (t1 c @ ys))"
    using ok by (auto simp: s elems_ok_def)
  have "arc_resident (c\<lparr>t2 := (i, it) # ys @ zs\<rparr>) = key_items (t1 c @ (i, it) # ys @ zs)"
    by (simp add: arc_resident_def)
  also have "\<dots> = key_items ((t1 c @ ys) @ (i, it) # zs)"
    using key_items_mid [OF k1, of i "ys @ zs"] key_items_mid [OF k2, of i zs] by simp
  also have "\<dots> = arc_resident c" by (simp add: arc_resident_def s)
  finally show "arc_resident (c\<lparr>t2 := (i, it) # ys @ zs\<rparr>) = arc_resident c" .
  have "key_index (t1 c @ (i, it) # ys @ zs @ b1 c @ b2 c) = key_index (t1 c @ t2 c @ b1 c @ b2 c)"
    using key_index_mid [OF k1, of i "ys @ zs @ b1 c @ b2 c"] key_index_mid [OF k2, of i "zs @ b1 c @ b2 c"]
    by (simp add: s)
  moreover have "elems_ok (arc_next c) (t1 c @ (i, it) # ys @ zs @ b1 c @ b2 c)"
    using ok elems_ok_mid [of "arc_next c" "t1 c" i it "ys @ zs @ b1 c @ b2 c"]
      elems_ok_mid [of "arc_next c" "t1 c @ ys" i it "zs @ b1 c @ b2 c"] by (simp add: s)
  ultimately show "arc_wf (c\<lparr>t2 := (i, it) # ys @ zs\<rparr>)"
    using wf ix s by (auto simp: arc_wf_def arc_elems_def all_owner)
qed

lemma arc_get_wf:
  assumes wf: "arc_wf c"
  shows "arc_wf (snd (arc_get key now c)) \<and> arc_max (snd (arc_get key now c)) = arc_max c
    \<and> arc_p (snd (arc_get key now c)) = arc_p c"
  using wf
proof (cases rule: arc_get_cases [of c key now])
  case absent
  with wf show ?thesis by (simp add: arc_miss_def) (simp add: arc_miss_def [symmetric])
next
  case (old own i it ys zs)
  with unlink_wf(1) [OF wf old(2)] show ?thesis by (simp add: old(3)) (simp add: arc_miss_def)
next
  case (first i it ys zs)
  then have s: "lst T1 c = ys @ (i, it) # zs" by simp
  with first unlink_wf(3) [OF wf s] move_wf [OF wf s refl] show ?thesis by simp (simp add: arc_hit_def)
next
  case (again i it ys zs)
  with arc_wf_t2_front [OF wf again(1)] show ?thesis by simp (simp add: arc_hit_def)
qed

lemma arc_get_result:
  assumes wf: "arc_wf c"
  shows "fst (arc_get k now c) =
    (case arc_resident c k of None \<Rightarrow> None | Some it \<Rightarrow> if expired now it then None else Some it)
   \<and> arc_resident (snd (arc_get k now c)) = (case arc_resident c k of None \<Rightarrow> arc_resident c
    | Some it \<Rightarrow> if expired now it then (arc_resident c)(k := None) else arc_resident c)"
  using wf
proof (cases rule: arc_get_cases [of c k now])
  case (old own i it ys zs)
  with arc_owned_resident [OF wf old(2)] unlink_resident [OF wf old(2)] show ?thesis by auto
next
  case (first i it ys zs)
  then have s: "lst T1 c = ys @ (i, it) # zs" by simp
  note u = unlink_wf [OF wf s]
  have r: "arc_resident c k = Some it" using arc_owned_resident [OF wf s] first(2) by simp
  with first u(4) link_resident [of it "unlink T1 (i, it) c" T2] unlink_resident [OF wf s]
  show ?thesis by (simp add: fun_upd_idem)
next
  case (again i it ys zs)
  then have s: "lst T2 c = ys @ (i, it) # zs" by simp
  have r: "arc_resident c k = Some it" using arc_owned_resident [OF wf s] again(2) by simp
  with again arc_wf_t2_front(2) [OF wf again(1)] show ?thesis by simp
qed simp

lemma arc_stats_get:
  assumes "arc_wf c"
  shows "hits (arc_stats (snd (arc_get k now c))) = hits (arc_stats c) + (if fst (arc_get k now c) = None then 0 else 1)
    \<and> misses (arc_stats (snd (arc_get k now c))) = misses (arc_stats c) + (if fst (arc_get k now c) = None then 1 else 0)
    \<and> bytes_max (arc_stats (snd (arc_get k now c))) = bytes_max (arc_stats c)"
  using assms by (cases rule: arc_get_cases [of c k now]) (simp_all add: arc_stats_def arc_hit_def arc_miss_def)

section \<open>Put\<close>

lemma adapt_step_nonneg: "0 \<le> other \<Longrightarrow> 0 \<le> g \<Longrightarrow> 0 \<le> adapt_step own other g"
  by (auto simp: adapt_step_def pos_imp_zdiv_nonneg_iff intro!: mult_nonneg_nonneg)

lemma set_p_wf: "arc_wf c \<Longrightarrow> 0 \<le> p \<Longrightarrow> p \<le> arc_max c \<Longrightarrow> arc_wf (c\<lparr>arc_p := p\<rparr>)"
  by (simp add: arc_wf_def arc_elems_def all_owner)

lemma set_p_frames [simp]:
  "lst own (c\<lparr>arc_p := p\<rparr>) = lst own c" "bytes_of own (c\<lparr>arc_p := p\<rparr>) = bytes_of own c"
  "arc_resident (c\<lparr>arc_p := p\<rparr>) = arc_resident c" "known (c\<lparr>arc_p := p\<rparr>) = known c"
  by (cases own; simp add: arc_resident_def known_def arc_elems_def)+

text \<open>The admission that ends every put of a key that is not resident.\<close>

lemma admit_wf:
  assumes d: "shrinks c d" and new: "item_key item \<notin> known c" and sz: "0 \<le> size_bytes item"
    and own: "own = T1 \<or> own = T2"
  shows "arc_wf (note_used (link own item d))"
    "arc_resident (note_used (link own item d)) = (arc_resident d)(item_key item \<mapsto> item)"
proof -
  have n: "item_key item \<notin> set (keys (arc_elems d))" using d new by (auto simp: shrinks_def known_def)
  have "arc_wf d" using d by (simp add: shrinks_def)
  with n sz show "arc_wf (note_used (link own item d))" by (simp add: link_wf)
  show "arc_resident (note_used (link own item d)) = (arc_resident d)(item_key item \<mapsto> item)"
    using n own by (simp add: link_resident)
qed

text \<open>A put either updates a resident entry in place, re-admits a ghost to \<open>T2\<close> with a new target,
  or admits a fresh key to \<open>T1\<close>; \<open>d\<close> is the state after the evictions.\<close>

definition b1_target :: "arc \<Rightarrow> int \<Rightarrow> int" where
  "b1_target c g = (let p = arc_p c + adapt_step (b1_bytes c) (b2_bytes c) g in if p > arc_max c then arc_max c else p)"

definition b2_target :: "arc \<Rightarrow> int \<Rightarrow> int" where
  "b2_target c g = (let p = arc_p c - adapt_step (b2_bytes c) (b1_bytes c) g in if p < 0 then 0 else p)"

lemma target_bounds:
  assumes "arc_wf c" "0 \<le> g"
  shows "arc_p c \<le> b1_target c g \<and> b1_target c g \<le> arc_max c" "0 \<le> b2_target c g \<and> b2_target c g \<le> arc_p c"
proof -
  note nn = wf_bytes_nonneg [OF assms(1)]
  have "0 \<le> adapt_step (b1_bytes c) (b2_bytes c) g" "0 \<le> adapt_step (b2_bytes c) (b1_bytes c) g"
    using nn [of B1] nn [of B2] assms(2) by (simp_all add: adapt_step_nonneg)
  then show "arc_p c \<le> b1_target c g \<and> b1_target c g \<le> arc_max c" "0 \<le> b2_target c g \<and> b2_target c g \<le> arc_p c"
    using assms(1) by (auto simp: b1_target_def b2_target_def Let_def arc_wf_def)
qed

lemma arc_put_cases:
  assumes wf: "arc_wf c" and sz: "0 \<le> size_bytes item" and fits: "size_bytes item \<le> arc_max c"
  obtains (resident) own i it ys zs where "own = T1 \<or> own = T2" "lst own c = ys @ (i, it) # zs"
      "item_key it = item_key item"
      "arc_put item now c = upd_list own (l_set i item (lst own c)) (size_bytes item - size_bytes it) c"
  | (b1_hit) i it ys zs d where "b1 c = ys @ (i, it) # zs" "item_key it = item_key item"
      "d = forget (item_key item) (unlink B1 (i, it) (c\<lparr>arc_p := b1_target c (size_bytes it)\<rparr>))"
      "arc_wf d" "item_key item \<notin> known d" "arc_resident d = arc_resident c" "arc_resident c (item_key item) = None"
      "arc_put item now c = note_used (link T2 item (arc_replace (size_bytes item) False d))"
  | (b2_hit) i it ys zs d where "b2 c = ys @ (i, it) # zs" "item_key it = item_key item"
      "d = forget (item_key item) (unlink B2 (i, it) (c\<lparr>arc_p := b2_target c (size_bytes it)\<rparr>))"
      "arc_wf d" "item_key item \<notin> known d" "arc_resident d = arc_resident c" "arc_resident c (item_key item) = None"
      "arc_put item now c = note_used (link T2 item (arc_replace (size_bytes item) True d))"
  | (fresh) "item_key item \<notin> known c" "arc_resident c (item_key item) = None"
      "arc_put item now c = note_used (link T1 item (arc_replace (size_bytes item) False (case_iv (size_bytes item) c)))"
proof (cases "arc_index c (item_key item)")
  case None
  with fits arc_absent_resident [OF wf None] show thesis by (intro fresh) (simp_all add: arc_put_def put_fresh_def)
next
  case (Some i)
  with wf obtain own it ys zs where o: "owner_of c (item_key item) = Some own"
    and s: "lst own c = ys @ (i, it) # zs" and k: "item_key it = item_key item" and v: "entry_of i c = it"
    by (elim arc_lookup) blast
  note u = unlink_wf [OF wf s]
  have ghost: "arc_wf (forget (item_key item) (unlink own (i, it) (c\<lparr>arc_p := p\<rparr>)))
      \<and> item_key item \<notin> known (forget (item_key item) (unlink own (i, it) (c\<lparr>arc_p := p\<rparr>)))
      \<and> arc_resident (forget (item_key item) (unlink own (i, it) (c\<lparr>arc_p := p\<rparr>))) = arc_resident c
      \<and> arc_resident c (item_key item) = None"
    if "0 \<le> p" "p \<le> arc_max c" "own = B1 \<or> own = B2" for p
  proof -
    have w: "arc_wf (c\<lparr>arc_p := p\<rparr>)" using wf that by (intro set_p_wf)
    have s': "lst own (c\<lparr>arc_p := p\<rparr>) = ys @ (i, it) # zs" using s by simp
    show ?thesis
      using unlink_wf [OF w s'] unlink_resident [OF w s'] that(3) arc_owned_resident [OF wf s]
      by (auto simp: k [symmetric] known_def)
  qed
  have p0: "0 \<le> arc_p c" "arc_p c \<le> arc_max c" using wf by (simp_all add: arc_wf_def)
  show thesis
  proof (cases own)
    case T1
    with Some o s k v fits show thesis
      by (intro resident [of own ys i it zs]) (simp_all add: arc_put_def put_resident_def)
  next
    case T2
    with Some o s k v fits show thesis
      by (intro resident [of own ys i it zs]) (simp_all add: arc_put_def put_resident_def)
  next
    case B1
    from ghost [of "b1_target c (size_bytes it)"] B1 target_bounds(1) [OF wf u(3)] p0 Some o s k v fits
    show thesis
      by (intro b1_hit [OF _ k refl]) (simp_all add: arc_put_def put_b1_hit_def b1_target_def Let_def)
  next
    case B2
    from ghost [of "b2_target c (size_bytes it)"] B2 target_bounds(2) [OF wf u(3)] p0 Some o s k v fits
    show thesis
      by (intro b2_hit [OF _ k refl]) (simp_all add: arc_put_def put_b2_hit_def b2_target_def Let_def)
  qed
qed

lemma update_wf:
  assumes wf: "arc_wf c" and s: "lst own c = ys @ (i, it) # zs" and k: "item_key item = item_key it"
    and sz: "0 \<le> size_bytes item" and own: "own = T1 \<or> own = T2"
  defines "d \<equiv> upd_list own (l_set i item (lst own c)) (size_bytes item - size_bytes it) c"
  shows "arc_wf d" "arc_resident d = (arc_resident c)(item_key item \<mapsto> item)" "known d = known c"
proof -
  obtain P S where e: "arc_elems c = P @ (i, it) # S"
    and u: "\<And>xs d. arc_elems (upd_list own (ys @ xs @ zs) d c) = P @ xs @ S"
    using elems_split [OF s] by metis
  have ok: "elems_ok (arc_next c) (P @ (i, it) # S)" using wf by (simp add: arc_wf_def e)
  have dist: "distinct (ids (lst own c))" "distinct (keys (lst own c))"
    using ok unfolding e [symmetric] by (cases own; auto simp: elems_ok_def arc_elems_def)+
  then have l: "l_set i item (lst own c) = ys @ (i, item) # zs" unfolding s by (intro l_set_split) auto
  have d: "d = upd_list own (ys @ (i, item) # zs) (size_bytes item - size_bytes it) c"
    by (simp only: d_def l)
  have el: "arc_elems d = P @ (i, item) # S" using u [of "[(i, item)]"] by (simp add: d)
  note st = elems_ok_set [OF ok k sz]
  have "owner_of d q = Some o1 \<longleftrightarrow> q \<in> set (keys (lst o1 d))" for o1 q
    using wf k by (auto simp: arc_wf_def d s)
  moreover have "bytes_of o1 d = total_size (lst o1 d)" for o1
    using wf by (simp add: arc_wf_def d s)
  ultimately show w: "arc_wf d" using wf st by (simp add: arc_wf_def el e) (simp add: d)
  show "known d = known c" using k by (simp add: known_def el e)
  show "arc_resident d = (arc_resident c)(item_key item \<mapsto> item)"
  proof (cases own)
    case T1
    have n: "item_key it \<notin> set (keys ys)" "item_key item \<notin> set (keys ys)" using dist k by (auto simp: s)
    show ?thesis
      using T1 s k key_items_mid [OF n(1), of i "zs @ t2 c"] key_items_mid [OF n(2), of i "zs @ t2 c"]
      by (simp add: arc_resident_def d)
  next
    case T2
    have "item_key it \<notin> set (keys (t1 c @ ys))"
      using ok unfolding e [symmetric] using s T2 by (auto simp: elems_ok_def arc_elems_def)
    then have n: "item_key it \<notin> set (keys (t1 c @ ys))" "item_key item \<notin> set (keys (t1 c @ ys))" using k by auto
    show ?thesis
      using T2 s k key_items_mid [OF n(1), of i zs] key_items_mid [OF n(2), of i zs]
      by (simp add: arc_resident_def d)
  qed (use own in simp_all)
qed

text \<open>What a put does to the resident map and the counters, whatever its branch.\<close>

lemma arc_put_result:
  assumes wf: "arc_wf c" and sz: "0 \<le> size_bytes item" and fits: "size_bytes item \<le> arc_max c"
  shows "arc_wf (arc_put item now c) \<and> arc_max (arc_put item now c) = arc_max c
    \<and> (\<exists>m. m \<subseteq>\<^sub>m arc_resident c \<and> arc_resident (arc_put item now c) = m(item_key item \<mapsto> item))
    \<and> hits (arc_counters (arc_put item now c)) = hits (arc_counters c)
    \<and> misses (arc_counters (arc_put item now c)) = misses (arc_counters c)"
    (is "?Q (arc_put item now c)")
proof -
  have admit: "?Q (note_used (link own item d))"
    if "shrinks c' d" "item_key item \<notin> known c'" "own = T1 \<or> own = T2" "arc_resident c' = arc_resident c"
      "arc_max c' = arc_max c" "arc_counters c' = arc_counters c" for own d c'
    using admit_wf [OF that(1,2) sz that(3)] that by (auto simp: shrinks_def) (simp_all add: note_used_def)
  show ?thesis
    using wf sz fits
  proof (cases rule: arc_put_cases [of c item now])
    case (resident own i it ys zs)
    note up = update_wf [OF wf resident(2) resident(3) [symmetric] sz resident(1)]
    with resident(4) show ?thesis by (auto intro!: exI [of _ "arc_resident c"])
  next
    case (b1_hit i it ys zs d)
    have "?Q (note_used (link T2 item (arc_replace (size_bytes item) False d)))"
      by (rule admit [OF shrinks_replace]) (use b1_hit in simp_all)
    then show ?thesis by (simp only: b1_hit(8))
  next
    case (b2_hit i it ys zs d)
    have "?Q (note_used (link T2 item (arc_replace (size_bytes item) True d)))"
      by (rule admit [OF shrinks_replace]) (use b2_hit in simp_all)
    then show ?thesis by (simp only: b2_hit(8))
  next
    case fresh
    have iv: "shrinks c (case_iv (size_bytes item) c)" using wf by (rule shrinks_case_iv)
    then have "arc_wf (case_iv (size_bytes item) c)" by (simp add: shrinks_def)
    from shrinks_trans [OF iv shrinks_replace [OF this]]
    have "?Q (note_used (link T1 item (arc_replace (size_bytes item) False (case_iv (size_bytes item) c))))"
      by (rule admit) (use fresh in simp_all)
    then show ?thesis by (simp only: fresh(3))
  qed
qed

lemma arc_put_too_big: "arc_max c < size_bytes item \<Longrightarrow> arc_put item now c = c"
  by (simp add: arc_put_def)

lemma arc_put_keeps:
  assumes "arc_wf c" "0 \<le> size_bytes item"
  shows "arc_wf (arc_put item now c)" "arc_max (arc_put item now c) = arc_max c"
    "hits (arc_counters (arc_put item now c)) = hits (arc_counters c)"
    "misses (arc_counters (arc_put item now c)) = misses (arc_counters c)"
    "k \<noteq> item_key item \<Longrightarrow> arc_resident (arc_put item now c) k = Some x \<Longrightarrow> arc_resident c k = Some x"
  using arc_put_result [OF assms, of now] arc_put_too_big [of c item now] assms(1)
  by (cases "size_bytes item \<le> arc_max c"; auto simp: map_le_def dom_def; metis)+

section \<open>The cache interface\<close>

lemma arc_bytes_max: "arc_wf c \<Longrightarrow> bytes_max (arc_stats c) = arc_max c"
  by (simp add: arc_wf_def arc_stats_def)

lemma arc_wf_new: "0 \<le> mx \<Longrightarrow> arc_wf (new_arc mx)"
  by (simp add: arc_wf_def new_arc_def arc_elems_def all_owner fresh_stats_def)

lemma arc_wf_clear: "arc_wf c \<Longrightarrow> arc_wf (arc_clear c)"
  by (simp add: arc_wf_def arc_clear_def arc_elems_def all_owner fresh_stats_def)

interpretation arc: cache_iface arc_get arc_put arc_clear arc_stats arc_resident arc_wf
proof
  fix c :: arc and it k now
  assume wf: "arc_wf c"
  show "arc_wf (snd (arc_get k now c))" using arc_get_wf [OF wf] by simp
  show "arc_wf (arc_clear c)" using wf by (rule arc_wf_clear)
  show "fst (arc_get k now c) = (case arc_resident c k of None \<Rightarrow> None
      | Some it \<Rightarrow> if expired now it then None else Some it)"
    using arc_get_result [OF wf] by (rule conjunct1)
  show "arc_resident (snd (arc_get k now c)) = (case arc_resident c k of None \<Rightarrow> arc_resident c
      | Some it \<Rightarrow> if expired now it then (arc_resident c)(k := None) else arc_resident c)"
    using arc_get_result [OF wf] by (rule conjunct2)
  show "hits (arc_stats (snd (arc_get k now c))) = hits (arc_stats c) + (if fst (arc_get k now c) = None then 0 else 1)
      \<and> misses (arc_stats (snd (arc_get k now c))) = misses (arc_stats c) + (if fst (arc_get k now c) = None then 1 else 0)
      \<and> bytes_max (arc_stats (snd (arc_get k now c))) = bytes_max (arc_stats c)"
    using wf by (rule arc_stats_get)
  show "arc_stats (arc_clear c) = fresh_stats (bytes_max (arc_stats c))"
    by (simp add: arc_bytes_max [OF wf]) (simp add: arc_clear_def arc_stats_def fresh_stats_def)
  show "arc_put it now c = c" if "bytes_max (arc_stats c) < size_bytes it"
    using that by (simp add: arc_bytes_max [OF wf] arc_put_too_big)
  assume sz: "0 \<le> size_bytes it"
  note keeps = arc_put_keeps [OF wf sz]
  show "arc_wf (arc_put it now c)" by (rule keeps)
  show "arc_resident (arc_put it now c) (item_key it) = Some it" if "size_bytes it \<le> bytes_max (arc_stats c)"
    using arc_put_result [OF wf sz, of now] that by (auto simp: arc_bytes_max [OF wf])
  show "arc_resident c k = Some x" if "k \<noteq> item_key it" "arc_resident (arc_put it now c) k = Some x" for x
    using that by (rule keeps)
  show "hits (arc_stats (arc_put it now c)) = hits (arc_stats c)
      \<and> misses (arc_stats (arc_put it now c)) = misses (arc_stats c)
      \<and> bytes_max (arc_stats (arc_put it now c)) = bytes_max (arc_stats c)"
    using keeps(2-4) [of now] by (simp add: arc_bytes_max wf keeps(1)) (simp add: arc_stats_def)
next
  show "arc_resident (arc_clear c) = Map.empty" for c
    by (simp add: arc_resident_def arc_clear_def)
qed

section \<open>Eviction, room and adaptation\<close>

text \<open>After \<open>replace\<close> the incoming item fits, or \<open>T2\<close> is empty of bytes and \<open>T1\<close> is within its target.\<close>

lemma replace_room:
  assumes "arc_wf c" "n \<le> arc_max c"
  shows "t1_bytes (arc_replace n b c) + t2_bytes (arc_replace n b c) + n \<le> arc_max c
    \<or> t2_bytes (arc_replace n b c) = 0 \<and> t1_bytes (arc_replace n b c) \<le> arc_p c"
  using assms
proof (induction rule: replace_induct [where n = n and b = b])
  case (stop c)
  have "0 \<le> t2_bytes c" "0 \<le> t1_bytes c"
    using wf_bytes_nonneg [OF stop(1), of T1] wf_bytes_nonneg [OF stop(1), of T2] by simp_all
  with stop show ?case by (auto simp: from_t1_def)
qed (auto simp: shrinks_def)

lemma ghost_out_fields [simp]:
  "t1 (ghost_out T1 B1 e c) = l_remove (fst e) (t1 c)" "t2 (ghost_out T1 B1 e c) = t2 c"
  "keys (b1 (ghost_out T1 B1 e c)) = item_key (snd e) # keys (b1 c)" "b2 (ghost_out T1 B1 e c) = b2 c"
  "t1 (ghost_out T2 B2 e c) = t1 c" "t2 (ghost_out T2 B2 e c) = l_remove (fst e) (t2 c)"
  "b1 (ghost_out T2 B2 e c) = b1 c" "keys (b2 (ghost_out T2 B2 e c)) = item_key (snd e) # keys (b2 c)"
  by (simp_all add: ghost_out_def arc_evicted_def link_def unlink_def Let_def)

lemma l_remove_back:
  assumes "arc_wf c" "l_back (lst own c) = Some e"
  shows "lst own c = l_remove (fst e) (lst own c) @ [e]"
proof -
  have "distinct (ids (lst own c))"
    using assms(1) by (cases own) (auto simp: arc_wf_def arc_elems_def elems_ok_def)
  with l_remove_last [of "lst own c"] l_back_SomeD [OF assms(2)] show ?thesis by simp
qed

text \<open>The evicted ends of the two resident lists are the new heads of the two ghost lists.\<close>

lemma replace_ghosts:
  assumes "arc_wf c"
  shows "\<exists>d1 d2. t1 c = t1 (arc_replace n b c) @ d1 \<and> keys (b1 (arc_replace n b c)) = keys d1 @ keys (b1 c)
    \<and> t2 c = t2 (arc_replace n b c) @ d2 \<and> keys (b2 (arc_replace n b c)) = keys d2 @ keys (b2 c)"
  using assms
proof (induction rule: replace_induct [where n = n and b = b])
  case (t1 c e)
  have "t1 c = l_remove (fst e) (t1 c) @ [e]" using l_remove_back [OF t1(1), of T1 e] t1(4) by simp
  with t1(7) show ?case unfolding t1(5)
    by (elim exE) (rule_tac x = "d1 @ [e]" in exI, rule_tac x = d2 in exI, simp)
next
  case (t2 c e)
  have "t2 c = l_remove (fst e) (t2 c) @ [e]" using l_remove_back [OF t2(1), of T2 e] t2(5) by simp
  with t2(8) show ?case unfolding t2(6)
    by (elim exE) (rule_tac x = d1 in exI, rule_tac x = "d2 @ [e]" in exI, simp)
qed simp

end
