(* ===== verification/Arc_Policy.thy ===== *)
theory Arc_Policy
  imports Arc
begin

text \<open>
  What the adaptive replacement cache of \<open>Arc\<close> guarantees: coherence of its answers, the state
  invariant over all request sequences, how much room a put leaves, how the target adapts, and how
  a scan treats the frequency list; and two states it can reach that its byte budget does not cover.
\<close>

section \<open>Coherence and consistency\<close>

definition demo_arc_ops :: "cache_op list" where
  "demo_arc_ops = [OpPut \<lparr>item_key = ''a'', size_bytes = 4, expiry = 0, item_value = None\<rparr> 1, OpGet ''a'' 2,
     OpPut \<lparr>item_key = ''b'', size_bytes = 4, expiry = 0, item_value = None\<rparr> 3,
     OpPut \<lparr>item_key = ''c'', size_bytes = 4, expiry = 9, item_value = None\<rparr> 4, OpGet ''b'' 5]"

lemma demo_arc_ops_ok: "\<forall>op\<in>set demo_arc_ops. op_ok op"
  by (simp add: demo_arc_ops_def)

lemma arc_run_wf:
  assumes "arc_wf c" "\<forall>op\<in>set ops. op_ok op" "arc_max c = mx"
  shows "arc_wf (snd (run_ops arc_get arc_put arc_clear ops c))
    \<and> arc_max (snd (run_ops arc_get arc_put arc_clear ops c)) = mx"
  using assms
proof (induction ops arbitrary: c)
  case (Cons op ops)
  show ?case
  proof (cases op)
    case (OpGet k now)
    with Cons.prems Cons.IH [of "snd (arc_get k now c)"] arc_get_wf [of c k now] show ?thesis by simp
  next
    case (OpPut it now)
    with Cons.prems Cons.IH [of "arc_put it now c"] arc_put_keeps(1,2) [of c it now] show ?thesis by simp
  next
    case OpClear
    with Cons.prems Cons.IH [of "arc_clear c"] arc_wf_clear [of c] show ?thesis by (simp add: arc_clear_def)
  qed
qed simp

text \<open>The ARC cache is coherent: over any sequence of requests, through promotions, ghosts and
  re-admissions, a hit returns the item most recently stored under that key and not cleared since,
  and never one whose time-to-live has passed.\<close>

lemma arc_coherent:
  assumes "0 \<le> mx" "\<forall>op\<in>set ops. op_ok op"
  shows "answers_ok mx Map.empty ops (fst (run_ops arc_get arc_put arc_clear ops (new_arc mx)))"
proof -
  have "arc_resident (new_arc mx) \<subseteq>\<^sub>m Map.empty" by (simp add: arc_resident_def new_arc_def)
  moreover have "bytes_max (arc_stats (new_arc mx)) = mx"
    using arc_bytes_max [OF arc_wf_new [OF assms(1)]] by (simp add: new_arc_def)
  ultimately show ?thesis using arc.run_coherent [OF arc_wf_new [OF assms(1)] _ assms(2)] by blast
qed

text \<open>C10: The four lists, the index, the owner map and the byte counters of ARC agree after any
  sequence of requests: no key is in two lists or twice in one, the owner of a key is the list that
  holds it, the index finds exactly the keys held, each counter is the sum of its list's sizes, and
  the target lies between zero and the capacity.\<close>

theorem arc_consistent:
  assumes "0 \<le> mx" "\<forall>op\<in>set ops. op_ok op"
  defines "c \<equiv> snd (run_ops arc_get arc_put arc_clear ops (new_arc mx))"
  shows "distinct (keys (t1 c @ t2 c @ b1 c @ b2 c))
    \<and> (\<forall>own k. owner_of c k = Some own \<longleftrightarrow> k \<in> set (keys (lst own c)))
    \<and> dom (arc_index c) = set (keys (t1 c @ t2 c @ b1 c @ b2 c))
    \<and> (\<forall>own. bytes_of own c = total_size (lst own c))
    \<and> 0 \<le> arc_p c \<and> arc_p c \<le> mx"
proof -
  have "arc_wf c" "arc_max c = mx"
    using arc_run_wf [OF arc_wf_new [OF assms(1)] assms(2), of mx]
    unfolding c_def by (simp_all add: new_arc_def)
  moreover from this have "arc_index c = key_index (t1 c @ t2 c @ b1 c @ b2 c)"
    "elems_ok (arc_next c) (t1 c @ t2 c @ b1 c @ b2 c)" by (simp_all add: arc_wf_def arc_elems_def)
  moreover from this(1) have "dom (arc_index c) = set (keys (t1 c @ t2 c @ b1 c @ b2 c))"
    by (simp only: dom_key_index)
  ultimately show ?thesis by (simp add: arc_wf_def elems_ok_def)
qed

theorem arc_consistent_witness:
  "arc_p (snd (run_ops arc_get arc_put arc_clear demo_arc_ops (new_arc 10))) \<le> 10"
  using arc_consistent [OF _ demo_arc_ops_ok, of 10] by simp

section \<open>Room and adaptation\<close>

lemma link_t1_bytes: "t1_bytes (link T1 it d) = t1_bytes d + size_bytes it" "t2_bytes (link T1 it d) = t2_bytes d"
  "t1_bytes (link T2 it d) = t1_bytes d" "t2_bytes (link T2 it d) = t2_bytes d + size_bytes it"
  by (simp_all add: link_def Let_def)

lemma note_used_fields [simp]:
  "t1 (note_used c) = t1 c" "t2 (note_used c) = t2 c" "b1 (note_used c) = b1 c" "b2 (note_used c) = b2 c"
  "t1_bytes (note_used c) = t1_bytes c" "t2_bytes (note_used c) = t2_bytes c"
  "b1_bytes (note_used c) = b1_bytes c" "b2_bytes (note_used c) = b2_bytes c"
  "arc_p (note_used c) = arc_p c" "arc_max (note_used c) = arc_max c" "arc_next (note_used c) = arc_next c"
  "owner_of (note_used c) = owner_of c" "arc_index (note_used c) = arc_index c"
  by (simp_all add: note_used_def)

text \<open>The shape of a put whose key is not resident.\<close>

lemma arc_put_admits:
  assumes wf: "arc_wf c" and sz: "0 \<le> size_bytes item" and fits: "size_bytes item \<le> arc_max c"
    and new: "arc_resident c (item_key item) = None"
  obtains own b d where "own = T1 \<or> own = T2" "arc_wf d" "arc_max d = arc_max c"
    "arc_put item now c = note_used (link own item (arc_replace (size_bytes item) b d))"
    "arc_p (arc_put item now c) = arc_p d"
  using wf sz fits
proof (cases rule: arc_put_cases [of c item now])
  case (resident own i it ys zs)
  then show thesis using arc_owned_resident [OF wf resident(2)] new by (auto split: if_splits)
next
  case (b1_hit i it ys zs d)
  have "arc_p (arc_replace (size_bytes item) False d) = arc_p d" "arc_max d = arc_max c"
    using shrinks_replace [OF b1_hit(4)] b1_hit(3) by (simp_all add: shrinks_def)
  with b1_hit show thesis by (intro that [of T2 d False]) simp_all
next
  case (b2_hit i it ys zs d)
  have "arc_p (arc_replace (size_bytes item) True d) = arc_p d" "arc_max d = arc_max c"
    using shrinks_replace [OF b2_hit(4)] b2_hit(3) by (simp_all add: shrinks_def)
  with b2_hit show thesis by (intro that [of T2 d True]) simp_all
next
  case fresh
  have iv: "shrinks c (case_iv (size_bytes item) c)" using wf by (rule shrinks_case_iv)
  then have w: "arc_wf (case_iv (size_bytes item) c)" by (simp add: shrinks_def)
  from shrinks_replace [OF w] iv fresh show thesis
    by (intro that [of T1 "case_iv (size_bytes item) c" False]) (simp_all add: shrinks_def)
qed

text \<open>How far a put can overrun the budget. Admitting a key that is not resident leaves at most
  the capacity in use, or at most the target plus the new item when the frequency list has nothing
  left to evict; so with a target of zero the budget holds, and it is never exceeded more than twofold.\<close>

lemma arc_put_room:
  assumes "arc_wf c" "0 \<le> size_bytes item" "size_bytes item \<le> arc_max c" "arc_resident c (item_key item) = None"
  shows "bytes_used (arc_stats (arc_put item now c)) \<le> max (arc_max c) (arc_p (arc_put item now c) + size_bytes item)
    \<and> bytes_used (arc_stats (arc_put item now c)) \<le> 2 * arc_max c"
proof -
  obtain own b d where d: "own = T1 \<or> own = T2" "arc_wf d" "arc_max d = arc_max c"
    "arc_put item now c = note_used (link own item (arc_replace (size_bytes item) b d))"
    "arc_p (arc_put item now c) = arc_p d" using arc_put_admits [OF assms] by metis
  let ?r = "arc_replace (size_bytes item) b d"
  have u: "bytes_used (arc_stats (arc_put item now c)) = t1_bytes ?r + t2_bytes ?r + size_bytes item"
    unfolding d(4) using d(1) by (auto simp: arc_stats_def link_t1_bytes)
  have "size_bytes item \<le> arc_max d" using assms(3) d(3) by simp
  from replace_room [OF d(2) this, of b] u d(3,5)
  have first: "bytes_used (arc_stats (arc_put item now c)) \<le> max (arc_max c) (arc_p (arc_put item now c) + size_bytes item)"
    by linarith
  moreover have "arc_p (arc_put item now c) \<le> arc_max c" "0 \<le> arc_max c"
    using d(2,3,5) by (simp_all add: arc_wf_def)
  ultimately show ?thesis using assms(3) by linarith
qed

text \<open>Adaptation of the target. A put of a key in ghost list \<open>B1\<close> raises the target by the ghost's
  size, times the ratio of the ghost lists' bytes when \<open>B2\<close> is the larger, up to the capacity; a put of
  a key in \<open>B2\<close> lowers it likewise, down to zero; every other put, and every get, leaves it alone.\<close>

lemma arc_target_adapts:
  assumes wf: "arc_wf c" and sz: "0 \<le> size_bytes item" "size_bytes item \<le> arc_max c"
  shows "arc_p (arc_put item now c) = (case owner_of c (item_key item) of
       Some B1 \<Rightarrow> min (arc_max c) (arc_p c + adapt_step (b1_bytes c) (b2_bytes c) (size_bytes (entry_of (the (arc_index c (item_key item))) c)))
     | Some B2 \<Rightarrow> max 0 (arc_p c - adapt_step (b2_bytes c) (b1_bytes c) (size_bytes (entry_of (the (arc_index c (item_key item))) c)))
     | _ \<Rightarrow> arc_p c)
    \<and> arc_p (snd (arc_get key now c)) = arc_p c"
proof -
  have elem: "owner_of c (item_key item) = Some own \<and> entry_of (the (arc_index c (item_key item))) c = it"
    if s: "lst own c = ys @ (i, it) # zs" and k: "item_key it = item_key item" for own i it ys zs
  proof -
    have o: "owner_of c (item_key item) = Some own" using wf s k by (force simp: arc_wf_def)
    have ok: "elems_ok (arc_next c) (arc_elems c)" and m: "(i, it) \<in> set (arc_elems c)"
      using wf lst_elems [of own c] s by (auto simp: arc_wf_def)
    then obtain P S where e: "arc_elems c = P @ (i, it) # S" by (meson split_list)
    with wf elems_ok_split(3) [OF ok [unfolded e]] k have "arc_index c (item_key item) = Some i"
      by (simp add: arc_wf_def key_index_mid)
    moreover have "entry_of i c = it" using ok m by (simp add: entry_of_def elems_ok_def l_value_mem)
    ultimately show ?thesis using o by simp
  qed
  have "arc_p (arc_put item now c) = (case owner_of c (item_key item) of
       Some B1 \<Rightarrow> b1_target c (size_bytes (entry_of (the (arc_index c (item_key item))) c))
     | Some B2 \<Rightarrow> b2_target c (size_bytes (entry_of (the (arc_index c (item_key item))) c))
     | _ \<Rightarrow> arc_p c)"
    using wf sz
  proof (cases rule: arc_put_cases [of c item now])
    case (resident own i it ys zs)
    with elem [OF resident(2,3)] show ?thesis by auto
  next
    case (b1_hit i it ys zs d)
    then have "lst B1 c = ys @ (i, it) # zs" by simp
    with elem [OF this b1_hit(2)] shrinks_replace [OF b1_hit(4)] b1_hit(3,8) show ?thesis by (simp add: shrinks_def)
  next
    case (b2_hit i it ys zs d)
    then have "lst B2 c = ys @ (i, it) # zs" by simp
    with elem [OF this b2_hit(2)] shrinks_replace [OF b2_hit(4)] b2_hit(3,8) show ?thesis by (simp add: shrinks_def)
  next
    case fresh
    have iv: "shrinks c (case_iv (size_bytes item) c)" using wf by (rule shrinks_case_iv)
    then have w: "arc_wf (case_iv (size_bytes item) c)" by (simp add: shrinks_def)
    have "arc_index c (item_key item) = None" using wf fresh(1) by (simp add: arc_wf_def known_def key_index_None)
    then have "owner_of c (item_key item) = None" using arc_owner_index [OF wf] by simp
    with shrinks_replace [OF w] iv fresh show ?thesis by (simp add: shrinks_def)
  qed
  moreover have "arc_p (snd (arc_get key now c)) = arc_p c" using arc_get_wf [OF wf] by simp
  ultimately show ?thesis
    by (auto simp: b1_target_def b2_target_def Let_def split: option.split owner.split)
qed

definition small :: "string \<Rightarrow> int \<Rightarrow> item" where
  "small k n = \<lparr>item_key = k, size_bytes = n, expiry = 0, item_value = None\<rparr>"

section \<open>Promotion and ghosts\<close>

text \<open>Frequency and history. A hit leaves its item at the head of the frequency list; a put of a
  ghost re-admits the key at the head of the frequency list, and \<open>replace\<close> takes only the old ends of
  the two resident lists, whose keys become the heads of the two ghost lists in the same order.\<close>

lemma arc_promotes_and_remembers:
  assumes wf: "arc_wf c"
  shows "(\<forall>it. fst (arc_get key now c) = Some it \<longrightarrow>
        item_key it = key \<and> (\<exists>i rest. t2 (snd (arc_get key now c)) = (i, it) # rest))
    \<and> (0 \<le> size_bytes item \<and> size_bytes item \<le> arc_max c \<and> owner_of c (item_key item) \<in> {Some B1, Some B2} \<longrightarrow>
        (\<exists>i rest. t2 (arc_put item now c) = (i, item) # rest) \<and> owner_of (arc_put item now c) (item_key item) = Some T2)
    \<and> (\<exists>d1 d2. t1 c = t1 (arc_replace n b c) @ d1 \<and> keys (b1 (arc_replace n b c)) = keys d1 @ keys (b1 c)
        \<and> t2 c = t2 (arc_replace n b c) @ d2 \<and> keys (b2 (arc_replace n b c)) = keys d2 @ keys (b2 c))"
proof -
  have hit: "\<forall>it. fst (arc_get key now c) = Some it \<longrightarrow>
      item_key it = key \<and> (\<exists>i rest. t2 (snd (arc_get key now c)) = (i, it) # rest)"
    using wf by (cases rule: arc_get_cases [of c key now]) (auto simp: arc_hit_def link_def Let_def)
  have lnk: "(\<exists>i rest. t2 (note_used (link T2 item d)) = (i, item) # rest)
      \<and> owner_of (note_used (link T2 item d)) (item_key item) = Some T2" for d
    by (simp add: link_def Let_def)
  have ghost: "(\<exists>i rest. t2 (arc_put item now c) = (i, item) # rest)
      \<and> owner_of (arc_put item now c) (item_key item) = Some T2"
    if a: "0 \<le> size_bytes item \<and> size_bytes item \<le> arc_max c \<and> owner_of c (item_key item) \<in> {Some B1, Some B2}"
    using wf a [THEN conjunct1] a [THEN conjunct2, THEN conjunct1]
  proof (cases rule: arc_put_cases [of c item now])
    case (resident own i it ys zs)
    then have "owner_of c (item_key item) = Some own" using wf by (force simp: arc_wf_def)
    with a resident(1) show ?thesis by auto
  next
    case (b1_hit i it ys zs d)
    show ?thesis unfolding b1_hit(8) by (rule lnk)
  next
    case (b2_hit i it ys zs d)
    show ?thesis unfolding b2_hit(8) by (rule lnk)
  next
    case fresh
    then have "arc_index c (item_key item) = None" using wf by (simp add: arc_wf_def known_def key_index_None)
    then have "owner_of c (item_key item) = None" using arc_owner_index [OF wf] by simp
    with a show ?thesis by simp
  qed
  show ?thesis by (rule conjI [OF hit conjI [OF impI [OF ghost] replace_ghosts [OF wf]]])
qed

section \<open>Scans\<close>

lemma move_t1_fields: "t2 (move_t1_lru_to_b1 c) = t2 c" "t2_bytes (move_t1_lru_to_b1 c) = t2_bytes c"
  by (simp_all add: move_t1_lru_to_b1_def ghost_out_def arc_evicted_def link_def unlink_def Let_def split: option.split)

lemma evict_ghost_fields:
  "own = B1 \<or> own = B2 \<Longrightarrow> t2 (evict_lru_list own c) = t2 c \<and> t2_bytes (evict_lru_list own c) = t2_bytes c"
  by (auto simp: evict_lru_list_def forget_def unlink_def split: option.split)

lemma case_iv_t2: "t2 (case_iv n c) = t2 c \<and> t2_bytes (case_iv n c) = t2_bytes c"
  by (simp add: case_iv_def move_t1_fields evict_ghost_fields)

lemma ghost_out_t2_bytes: "t2_bytes (ghost_out T1 B1 e c) = t2_bytes c"
  by (simp add: ghost_out_def arc_evicted_def link_def unlink_def Let_def)

text \<open>With a target of zero, \<open>replace\<close> reaches the frequency list only when that list alone is too big.\<close>

lemma replace_spares_t2:
  assumes "arc_wf c" "arc_p c = 0" "t2_bytes c + n \<le> arc_max c"
  shows "t2 (arc_replace n b c) = t2 c"
  using assms
proof (induction rule: replace_induct [where n = n and b = b])
  case (t1 c e)
  then show ?case by (simp add: ghost_out_t2_bytes shrinks_def)
next
  case (t2 c e)
  then have "t1_bytes c = 0" using wf_bytes_nonneg [OF t2(1), of T1] by (auto simp: from_t1_def)
  with t2 show ?case by simp
qed simp

lemma known_index: "arc_wf c \<Longrightarrow> k \<notin> known c \<Longrightarrow> arc_index c k = None"
  by (simp add: arc_wf_def known_def key_index_None)

lemma arc_put_unknown:
  assumes "arc_wf c" "item_key item \<notin> known c" "size_bytes item \<le> arc_max c"
  shows "arc_put item now c = note_used (link T1 item (arc_replace (size_bytes item) False (case_iv (size_bytes item) c)))"
  using assms by (simp add: arc_put_def put_fresh_def known_index)

lemma scan_step:
  assumes wf: "arc_wf c" and p: "arc_p c = 0" and used: "t1_bytes c + t2_bytes c \<le> arc_max c"
    and s: "0 < s" "s \<le> t1_bytes c" and it: "size_bytes item = s" "item_key item \<notin> known c"
  shows "arc_wf (arc_put item now c)" "arc_p (arc_put item now c) = 0" "arc_max (arc_put item now c) = arc_max c"
    "t1_bytes (arc_put item now c) + t2_bytes (arc_put item now c) \<le> arc_max c"
    "s \<le> t1_bytes (arc_put item now c)" "t2 (arc_put item now c) = t2 c"
    "known (arc_put item now c) \<subseteq> insert (item_key item) (known c)"
proof -
  have nn: "0 \<le> t2_bytes c" using wf_bytes_nonneg [OF wf, of T2] by simp
  have fits: "s \<le> arc_max c" using used s nn by linarith
  let ?d = "case_iv s c" let ?r = "arc_replace s False ?d"
  have put: "arc_put item now c = note_used (link T1 item ?r)"
    using arc_put_unknown [OF wf it(2)] it(1) fits by simp
  have iv: "shrinks c ?d" using wf by (rule shrinks_case_iv)
  then have wd: "arc_wf ?d" "arc_p ?d = 0" "arc_max ?d = arc_max c" using p by (simp_all add: shrinks_def)
  have r: "shrinks c ?r" by (rule shrinks_trans [OF iv shrinks_replace [OF wd(1)]])
  have "t2_bytes ?d + s \<le> arc_max ?d" using used s wd(3) case_iv_t2 [of s c] by simp
  from replace_spares_t2 [OF wd(1,2) this] have t2r: "t2 ?r = t2 c" using case_iv_t2 [of s c] by simp
  then show "t2 (arc_put item now c) = t2 c" by (simp add: put link_def Let_def)
  have sz: "0 \<le> size_bytes item" using it(1) s(1) by simp
  show w: "arc_wf (arc_put item now c)" "arc_max (arc_put item now c) = arc_max c"
    using arc_put_keeps [OF wf sz] by simp_all
  show p': "arc_p (arc_put item now c) = 0" using r p by (simp add: put shrinks_def)
  have "arc_resident c (item_key item) = None" using arc_absent_resident [OF wf known_index [OF wf it(2)]] by simp
  from arc_put_room [OF wf sz _ this, of now] fits it(1) p'
  show "t1_bytes (arc_put item now c) + t2_bytes (arc_put item now c) \<le> arc_max c"
    by (simp add: arc_stats_def)
  have "0 \<le> t1_bytes ?r" using wf_bytes_nonneg [of ?r T1] r by (simp add: shrinks_def)
  then show "s \<le> t1_bytes (arc_put item now c)" using it(1) by (simp add: put link_t1_bytes)
  show "known (arc_put item now c) \<subseteq> insert (item_key item) (known c)"
    using r by (auto simp: put link_keys shrinks_def)
qed

definition put_all :: "item list \<Rightarrow> arc \<Rightarrow> arc" where
  "put_all items c = foldl (\<lambda>c it. arc_put it 1 c) c items"

lemma put_all_simps [simp]: "put_all [] c = c" "put_all (it # items) c = put_all items (arc_put it 1 c)"
  by (simp_all add: put_all_def)

text \<open>Scan resistance. While the target is zero and \<open>T1\<close> holds at least one item of the scan's size,
  storing any number of new keys of one size passes through \<open>T1\<close> only: the frequency list is untouched,
  item for item, and the budget still holds.\<close>

lemma arc_scan_resistant:
  assumes "arc_wf c" "arc_p c = 0" "bytes_used (arc_stats c) \<le> arc_max c" "0 < s" "s \<le> t1_bytes c"
    and "\<forall>it\<in>set items. size_bytes it = s \<and> item_key it \<notin> known c" "distinct (map item_key items)"
  shows "t2 (put_all items c) = t2 c \<and> arc_p (put_all items c) = 0
    \<and> bytes_used (arc_stats (put_all items c)) \<le> arc_max c"
proof -
  have used: "t1_bytes c + t2_bytes c \<le> arc_max c" using assms(3) by (simp add: arc_stats_def)
  from assms(1,2) used assms(4-) show ?thesis
  proof (induction items arbitrary: c)
    case (Cons it items)
    from Cons.prems have "size_bytes it = s" "item_key it \<notin> known c" by simp_all
    note step = scan_step [OF Cons.prems(1-5) this, of 1]
    have "item_key i \<noteq> item_key it" if "i \<in> set items" for i using distinct_map_Cons_neq [OF Cons.prems(7) that] .
    then have "\<forall>i\<in>set items. size_bytes i = s \<and> item_key i \<notin> known (arc_put it 1 c)"
      using Cons.prems(6) step(7) by fastforce
    with Cons.IH [of "arc_put it 1 c"] step Cons.prems show ?case by simp
  qed (simp add: arc_stats_def)
qed

section \<open>States beyond the budget\<close>

text \<open>
  Case IV.B moves the oldest item of a full \<open>T1\<close> to \<open>B1\<close> without taking anything from \<open>B1\<close>: a scan of
  items that fill the cache grows the ghost list by one entry per put.
\<close>

lemma full_scan_step:
  assumes wf: "arc_wf c" and t: "t1 c = [e]" "t2 c = []" "size_bytes (snd e) = arc_max c" "arc_max c > 0"
    and it: "size_bytes item = arc_max c" "item_key item \<notin> known c"
  shows "t1 (arc_put item now c) = [(Suc (arc_next c), item)]" "t2 (arc_put item now c) = []"
    "length (b1 (arc_put item now c)) = Suc (length (b1 c))"
    "known (arc_put item now c) = insert (item_key item) (known c)"
proof -
  have b: "t1_bytes c = arc_max c" "t2_bytes c = 0" "0 \<le> b1_bytes c"
    using wf_bytes [OF wf, of T1] wf_bytes [OF wf, of T2] wf_bytes_nonneg [OF wf, of B1] t by simp_all
  have iv: "case_iv (size_bytes item) c = ghost_out T1 B1 e c"
    using b t it by (simp add: case_iv_def move_t1_lru_to_b1_def l_back_def)
  have "t1_bytes (ghost_out T1 B1 e c) = 0" "t2_bytes (ghost_out T1 B1 e c) = 0"
    "arc_max (ghost_out T1 B1 e c) = arc_max c"
    using b t by (simp_all add: ghost_out_def arc_evicted_def link_def unlink_def Let_def)
  then have "arc_replace (size_bytes item) False (ghost_out T1 B1 e c) = ghost_out T1 B1 e c"
    using it by (simp add: replace_unfold)
  then have put: "arc_put item now c = note_used (link T1 item (ghost_out T1 B1 e c))"
    using arc_put_unknown [OF wf it(2)] it(1) iv by simp
  show "t1 (arc_put item now c) = [(Suc (arc_next c), item)]" "t2 (arc_put item now c) = []"
    "length (b1 (arc_put item now c)) = Suc (length (b1 c))"
    using t by (simp_all add: put ghost_out_def arc_evicted_def link_def unlink_def Let_def)
  have "known (ghost_out T1 B1 e c) = known c"
    using t by (simp add: ghost_out_def link_keys) (simp add: known_def unlink_def arc_elems_def)
  then show "known (arc_put item now c) = insert (item_key item) (known c)" by (simp add: put link_keys)
qed

lemma full_scan:
  assumes "arc_wf c" "t1 c = [e]" "t2 c = []" "size_bytes (snd e) = arc_max c" "arc_max c > 0"
    and "\<forall>it\<in>set items. size_bytes it = arc_max c \<and> item_key it \<notin> known c" "distinct (map item_key items)"
  shows "length (b1 (put_all items c)) = length (b1 c) + length items"
  using assms
proof (induction items arbitrary: c e)
  case (Cons it items)
  from Cons.prems have it: "size_bytes it = arc_max c" "item_key it \<notin> known c" by simp_all
  note step = full_scan_step [OF Cons.prems(1-5) it, of 1]
  note keeps = arc_put_keeps [OF Cons.prems(1), where item = it and now = 1]
  have "item_key i \<noteq> item_key it" if "i \<in> set items" for i using distinct_map_Cons_neq [OF Cons.prems(7) that] .
  then have "\<forall>i\<in>set items. size_bytes i = arc_max (arc_put it 1 c) \<and> item_key i \<notin> known (arc_put it 1 c)"
    using Cons.prems(5,6) step(4) keeps(2) it by simp
  with Cons.IH [of "arc_put it 1 c" "(Suc (arc_next c), it)"] step keeps(1,2) it Cons.prems(5,7)
  show ?case by simp
qed simp

text \<open>Ghosts are not bounded by the capacity. Storing n distinct keys that each fill an empty ARC
  cache leaves n - 1 ghosts in \<open>B1\<close>, however large n is: the list grows by one entry per put.\<close>

lemma arc_ghosts_unbounded:
  assumes "0 < mx" "items \<noteq> []" "\<forall>it\<in>set items. size_bytes it = mx" "distinct (map item_key items)"
  shows "length (b1 (put_all items (new_arc mx))) = length items - 1"
proof -
  obtain it rest where i: "items = it # rest" using assms(2) by (cases items) auto
  have wf: "arc_wf (new_arc mx)" using assms(1) by (simp add: arc_wf_new)
  let ?c = "arc_put it 1 (new_arc mx)"
  have sz: "size_bytes it = mx" using assms(3) i by simp
  have "case_iv mx (new_arc mx) = new_arc mx" "arc_replace mx False (new_arc mx) = new_arc mx"
    using assms(1) by (simp_all add: case_iv_def new_arc_def replace_unfold)
  moreover have "item_key it \<notin> known (new_arc mx)" by (simp add: known_def new_arc_def arc_elems_def)
  ultimately have c: "?c = note_used (link T1 it (new_arc mx))"
    using arc_put_unknown [OF wf, of it 1] sz by (simp add: new_arc_def)
  then have "t1 ?c = [(0, it)]" "t2 ?c = []" "b1 ?c = []" "arc_max ?c = mx" "known ?c = {item_key it}"
    by (simp_all add: link_keys) (simp_all add: new_arc_def link_def Let_def known_def arc_elems_def)
  moreover have "arc_wf ?c" using arc_put_keeps(1) [OF wf] sz assms(1) by simp
  moreover have "item_key i \<noteq> item_key it" if "i \<in> set rest" for i using distinct_map_Cons_neq [OF assms(4) [unfolded i] that] .
  ultimately have "length (b1 (put_all rest ?c)) = 0 + length rest"
    using full_scan [of ?c "(0, it)" rest] assms(1,3,4) i sz by simp
  then show ?thesis by (simp add: i)
qed

text \<open>An update of a resident key evicts nothing: the bytes in use change by the difference of the
  two sizes whatever the capacity is, and no item leaves the cache. (So a grown item can push the
  cache over its budget: the witness stores twelve bytes in a cache of eight.)\<close>

lemma arc_update_in_place:
  assumes "arc_wf c" "0 \<le> size_bytes item" "size_bytes item \<le> arc_max c" "arc_resident c (item_key item) = Some old"
  shows "bytes_used (arc_stats (arc_put item now c)) = bytes_used (arc_stats c) - size_bytes old + size_bytes item
    \<and> arc_resident (arc_put item now c) = (arc_resident c)(item_key item \<mapsto> item)
    \<and> evictions (arc_stats (arc_put item now c)) = evictions (arc_stats c)"
  using assms(1-3)
proof (cases rule: arc_put_cases [of c item now])
  case (resident own i it ys zs)
  have "it = old" using arc_owned_resident [OF assms(1) resident(2)] resident(1,3) assms(4) by (auto split: if_splits)
  with resident update_wf(2) [OF assms(1) resident(2) resident(3) [symmetric] assms(2) resident(1)]
  show ?thesis by (auto simp: arc_stats_def)
next
  case (b1_hit i it ys zs d)
  with assms(4) show ?thesis by simp
next
  case (b2_hit i it ys zs d)
  with assms(4) show ?thesis by simp
next
  case fresh
  with assms(4) show ?thesis by simp
qed

end
