(* ===== verification/Arc_Lists.thy ===== *)
theory Arc_Lists
  imports Arc_Policy
begin

text \<open>
  The adaptive replacement cache as an algorithm on four lists: \<open>arc_spec\<close> has the items of each list, most recent first, the target and the
  counters, and nothing else; there are no elements, no index, no map of owners and no byte counters, and sizes are added up where they
  are needed. \<open>Arc\<close>, which is the code, refines it: every operation commutes with the abstraction \<open>arc_abs\<close>, loop of \<open>replace\<close> included.
\<close>

section \<open>The algorithm on lists\<close>

record arc_spec =
  sp_max :: int
  sp_p :: int
  sp_list :: "owner \<Rightarrow> item list"
  sp_hits :: int
  sp_misses :: int
  sp_evictions :: int

definition sp_bytes :: "owner \<Rightarrow> arc_spec \<Rightarrow> int" where
  "sp_bytes own s = sum_list (map size_bytes (sp_list s own))"

definition sp_used :: "arc_spec \<Rightarrow> int" where
  "sp_used s = sp_bytes T1 s + sp_bytes T2 s"

definition sp_new :: "int \<Rightarrow> arc_spec" where
  "sp_new mx = \<lparr>sp_max = mx, sp_p = 0, sp_list = (\<lambda>own. []), sp_hits = 0, sp_misses = 0, sp_evictions = 0\<rparr>"

definition sp_stats :: "arc_spec \<Rightarrow> cache_stats" where
  "sp_stats s = \<lparr>hits = sp_hits s, misses = sp_misses s, evictions = sp_evictions s, bytes_used = sp_used s, bytes_max = sp_max s\<rparr>"

definition sp_find :: "string \<Rightarrow> item list \<Rightarrow> item option" where
  "sp_find k = find (\<lambda>it. item_key it = k)"

text \<open>Dropping a key, wherever it is, and putting an item at the front of a list.\<close>

definition sp_drop :: "string \<Rightarrow> arc_spec \<Rightarrow> arc_spec" where
  "sp_drop k s = s\<lparr>sp_list := (\<lambda>own. filter (\<lambda>it. item_key it \<noteq> k) (sp_list s own))\<rparr>"

definition sp_push :: "owner \<Rightarrow> item \<Rightarrow> arc_spec \<Rightarrow> arc_spec" where
  "sp_push own it s = s\<lparr>sp_list := (sp_list s)(own := it # sp_list s own)\<rparr>"

definition sp_get :: "string \<Rightarrow> instant \<Rightarrow> arc_spec \<Rightarrow> item option \<times> arc_spec" where
  "sp_get k now s = (case sp_find k (sp_list s T1 @ sp_list s T2) of
       None \<Rightarrow> (None, s\<lparr>sp_misses := sp_misses s + 1\<rparr>)
     | Some it \<Rightarrow> if expired now it then (None, (sp_drop k s)\<lparr>sp_misses := sp_misses s + 1\<rparr>)
         else (Some it, (sp_push T2 it (sp_drop k s))\<lparr>sp_hits := sp_hits s + 1\<rparr>))"

text \<open>The oldest item of a list becomes the newest ghost of another; or is forgotten.\<close>

definition sp_demote :: "owner \<Rightarrow> owner \<Rightarrow> arc_spec \<Rightarrow> arc_spec" where
  "sp_demote own gh s = (sp_push gh (ghost (last (sp_list s own))) (s\<lparr>sp_list := (sp_list s)(own := butlast (sp_list s own))\<rparr>))
     \<lparr>sp_evictions := sp_evictions s + 1\<rparr>"

definition sp_forget_oldest :: "owner \<Rightarrow> arc_spec \<Rightarrow> arc_spec" where
  "sp_forget_oldest own s = s\<lparr>sp_list := (sp_list s)(own := butlast (sp_list s own))\<rparr>"

definition sp_from_t1 :: "bool \<Rightarrow> arc_spec \<Rightarrow> bool" where
  "sp_from_t1 b s \<longleftrightarrow> 0 < sp_bytes T1 s \<and> (sp_p s < sp_bytes T1 s \<or> b \<and> sp_bytes T1 s = sp_p s)"

lemma sp_list_demote [simp]:
  "own \<noteq> gh \<Longrightarrow> sp_list (sp_demote own gh s) =
     (sp_list s)(own := butlast (sp_list s own), gh := ghost (last (sp_list s own)) # sp_list s gh)"
  by (auto simp: sp_demote_def sp_push_def)

lemma sp_bytes_pos: "0 < sp_bytes own s \<Longrightarrow> sp_list s own \<noteq> []"
  by (auto simp: sp_bytes_def)

function sp_replace :: "int \<Rightarrow> bool \<Rightarrow> arc_spec \<Rightarrow> arc_spec" where
  "sp_replace n b s = (if sp_max s < sp_used s + n then
       if sp_from_t1 b s then sp_replace n b (sp_demote T1 B1 s)
       else if 0 < sp_bytes T2 s then sp_replace n b (sp_demote T2 B2 s) else s
     else s)"
  by pat_completeness auto
termination
  by (relation "measure (\<lambda>(n, b, s). length (sp_list s T1) + length (sp_list s T2))")
    (auto simp: sp_from_t1_def dest!: sp_bytes_pos)

declare sp_replace.simps [simp del]

definition sp_case_iv :: "int \<Rightarrow> arc_spec \<Rightarrow> arc_spec" where
  "sp_case_iv n s = (if sp_max s < sp_bytes T1 s + sp_bytes B1 s + n then
       (if sp_bytes T1 s < sp_max s then sp_forget_oldest B1 s else if sp_list s T1 = [] then s else sp_demote T1 B1 s)
     else if 2 * sp_max s \<le> sp_used s + sp_bytes B1 s + sp_bytes B2 s + n then sp_forget_oldest B2 s else s)"

definition sp_put :: "item \<Rightarrow> arc_spec \<Rightarrow> arc_spec" where
  "sp_put item s = (let k = item_key item; n = size_bytes item in
     if sp_max s < n then s
     else if sp_find k (sp_list s T1 @ sp_list s T2) \<noteq> None
       then s\<lparr>sp_list := (\<lambda>own. map (\<lambda>it. if item_key it = k then item else it) (sp_list s own))\<rparr>
     else (case sp_find k (sp_list s B1) of
       Some g \<Rightarrow> sp_push T2 item (sp_replace n False (sp_drop k
         (s\<lparr>sp_p := min (sp_max s) (sp_p s + adapt_step (sp_bytes B1 s) (sp_bytes B2 s) (size_bytes g))\<rparr>)))
     | None \<Rightarrow> (case sp_find k (sp_list s B2) of
         Some g \<Rightarrow> sp_push T2 item (sp_replace n True (sp_drop k
           (s\<lparr>sp_p := max 0 (sp_p s - adapt_step (sp_bytes B2 s) (sp_bytes B1 s) (size_bytes g))\<rparr>)))
       | None \<Rightarrow> sp_push T1 item (sp_replace n False (sp_case_iv n s)))))"

section \<open>Abstraction\<close>

definition arc_abs :: "arc \<Rightarrow> arc_spec" where
  "arc_abs c = \<lparr>sp_max = arc_max c, sp_p = arc_p c, sp_list = (\<lambda>own. map snd (lst own c)), sp_hits = hits (arc_counters c),
     sp_misses = misses (arc_counters c), sp_evictions = evictions (arc_counters c)\<rparr>"

lemma abs_fields [simp]:
  "sp_max (arc_abs c) = arc_max c" "sp_p (arc_abs c) = arc_p c" "sp_list (arc_abs c) own = map snd (lst own c)"
  by (simp_all add: arc_abs_def)

lemma abs_bytes: "arc_wf c \<Longrightarrow> sp_bytes own (arc_abs c) = bytes_of own c"
  by (simp add: sp_bytes_def wf_bytes total_size_def comp_def)

lemma abs_used: "arc_wf c \<Longrightarrow> sp_used (arc_abs c) = t1_bytes c + t2_bytes c"
  by (simp add: sp_used_def abs_bytes)

lemma abs_new: "arc_abs (new_arc mx) = sp_new mx"
  by (simp add: arc_abs_def new_arc_def sp_new_def fresh_stats_def) (rule ext, case_tac own; simp)

lemma abs_clear: "arc_abs (arc_clear c) = sp_new (arc_max c)"
  by (simp add: arc_abs_def arc_clear_def sp_new_def fresh_stats_def) (rule ext, case_tac own; simp)

lemma abs_stats: "arc_wf c \<Longrightarrow> sp_stats (arc_abs c) = arc_stats c"
  by (simp add: sp_stats_def abs_used arc_stats_def arc_wf_def) (simp add: arc_abs_def)

lemma abs_counters:
  "arc_abs (arc_hit c) = (arc_abs c)\<lparr>sp_hits := sp_hits (arc_abs c) + 1\<rparr>"
  "arc_abs (arc_miss c) = (arc_abs c)\<lparr>sp_misses := sp_misses (arc_abs c) + 1\<rparr>"
  "arc_abs (arc_evicted c) = (arc_abs c)\<lparr>sp_evictions := sp_evictions (arc_abs c) + 1\<rparr>"
  "arc_abs (note_used c) = arc_abs c" "arc_abs (c\<lparr>arc_p := p\<rparr>) = (arc_abs c)\<lparr>sp_p := p\<rparr>"
  by (simp_all add: arc_abs_def) (simp_all add: arc_hit_def arc_miss_def arc_evicted_def note_used_def)

lemma abs_link: "arc_abs (link own it c) = sp_push own it (arc_abs c)"
  by (auto simp: arc_abs_def sp_push_def)

lemma find_key_items: "key_items xs k = sp_find k (map snd xs)"
  by (induction xs) (auto simp: sp_find_def)

lemma abs_find: "sp_find k (sp_list (arc_abs c) T1 @ sp_list (arc_abs c) T2) = arc_resident c k"
  by (simp add: arc_resident_def find_key_items)

text \<open>A key is in one place of one list.\<close>

lemma key_once:
  assumes "arc_wf c" "lst own c = ys @ (i, it) # zs"
  shows "item_key it \<notin> set (keys (ys @ zs))" "o1 \<noteq> own \<Longrightarrow> item_key it \<notin> set (keys (lst o1 c))"
proof -
  have "distinct (keys (lst own c))" using assms(1) by (cases own) (auto simp: arc_wf_def elems_ok_def arc_elems_def)
  then show "item_key it \<notin> set (keys (ys @ zs))" by (auto simp: assms(2))
  have "owner_of c (item_key it) = Some own" using assms by (auto simp: arc_wf_def)
  then show "item_key it \<notin> set (keys (lst o1 c))" if "o1 \<noteq> own" using assms(1) that unfolding arc_wf_def by (metis option.inject)
qed

lemma filter_keys: "k \<notin> set (keys xs) \<Longrightarrow> filter (\<lambda>it. item_key it \<noteq> k) (map snd xs) = map snd xs"
  by (induction xs) auto

lemma map_keys: "k \<notin> set (keys xs) \<Longrightarrow> map (\<lambda>it. if item_key it = k then item else it) (map snd xs) = map snd xs"
  by (induction xs) auto

lemma abs_drop:
  assumes "arc_wf c" "lst own c = ys @ (i, it) # zs"
  shows "arc_abs (forget (item_key it) (unlink own (i, it) c)) = sp_drop (item_key it) (arc_abs c)"
proof -
  note once = key_once [OF assms]
  have "map snd (lst o1 (unlink own (i, it) c)) = filter (\<lambda>x. item_key x \<noteq> item_key it) (map snd (lst o1 c))" for o1
    using filter_keys [OF once(2) [of o1]] filter_keys [OF once(1)] unlink_wf(2) [OF assms] assms(2) by (cases "o1 = own") simp_all
  then show ?thesis by (simp add: arc_abs_def sp_drop_def)
qed

lemma abs_demote:
  assumes "arc_wf c" "l_back (lst own c) = Some e" "own \<noteq> gh"
  shows "arc_abs (ghost_out own gh e c) = sp_demote own gh (arc_abs c)"
proof -
  define xs where "xs = l_remove (fst e) (lst own c)"
  have l: "lst own c = xs @ [e]" using l_remove_back [OF assms(1,2)] by (simp add: xs_def)
  have "arc_abs (unlink own e c) = (arc_abs c)\<lparr>sp_list := (sp_list (arc_abs c))(own := map snd xs)\<rparr>"
    by (auto simp: arc_abs_def xs_def)
  moreover have "butlast (sp_list (arc_abs c) own) = map snd xs" "last (sp_list (arc_abs c) own) = snd e" by (simp_all add: l)
  ultimately show ?thesis
    by (simp add: ghost_out_def abs_counters abs_link sp_demote_def del: abs_fields) (simp add: arc_abs_def sp_push_def)
qed

lemma l_back_Nil [simp]: "l_back [] = None"
  by simp

lemma abs_forget_oldest:
  assumes "arc_wf c"
  shows "arc_abs (evict_lru_list own c) = sp_forget_oldest own (arc_abs c)"
proof (cases "l_back (lst own c)")
  case None
  then show ?thesis by (auto simp: evict_lru_list_def sp_forget_oldest_def arc_abs_def)
next
  case (Some e)
  then have l: "lst own c = l_remove (fst e) (lst own c) @ [e]" by (rule l_remove_back [OF assms])
  have "butlast (map snd (lst own c)) = map snd (l_remove (fst e) (lst own c))" by (subst l) simp
  with Some show ?thesis by (auto simp: evict_lru_list_def sp_forget_oldest_def arc_abs_def)
qed

lemma abs_from_t1: "arc_wf c \<Longrightarrow> sp_from_t1 b (arc_abs c) = from_t1 b c"
  by (auto simp: sp_from_t1_def from_t1_def abs_bytes)

lemma abs_replace:
  assumes "arc_wf c"
  shows "arc_abs (arc_replace n b c) = sp_replace n b (arc_abs c)"
  using assms
proof (induction rule: replace_induct [where n = n and b = b])
  case (t1 c e)
  then have "arc_abs (ghost_out T1 B1 e c) = sp_demote T1 B1 (arc_abs c)" by (intro abs_demote) simp_all
  with t1 show ?case by (simp add: sp_replace.simps [of n b "arc_abs c"] abs_used abs_from_t1)
next
  case (t2 c e)
  then have "arc_abs (ghost_out T2 B2 e c) = sp_demote T2 B2 (arc_abs c)" by (intro abs_demote) simp_all
  with t2 show ?case by (simp add: sp_replace.simps [of n b "arc_abs c"] abs_used abs_from_t1 abs_bytes)
next
  case (stop c)
  then show ?case by (auto simp: sp_replace.simps [of n b "arc_abs c"] abs_used abs_from_t1 abs_bytes)
qed

lemma abs_case_iv:
  assumes "arc_wf c"
  shows "arc_abs (case_iv n c) = sp_case_iv n (arc_abs c)"
proof -
  have "arc_abs (move_t1_lru_to_b1 c) = (if t1 c = [] then arc_abs c else sp_demote T1 B1 (arc_abs c))"
    using abs_demote [OF assms, of T1 _ B1] by (auto simp: move_t1_lru_to_b1_def split: option.split)
  then show ?thesis
    by (simp add: case_iv_def sp_case_iv_def abs_bytes [OF assms] abs_used [OF assms] abs_forget_oldest [OF assms] add.commute add.left_commute)
qed

section \<open>The operations commute with the abstraction\<close>

lemma abs_get:
  assumes wf: "arc_wf c"
  shows "sp_get k now (arc_abs c) = apsnd arc_abs (arc_get k now c)"
  using wf
proof (cases rule: arc_get_cases [of c k now])
  case absent
  then show ?thesis by (simp add: sp_get_def abs_find abs_counters del: abs_fields)
next
  case (old own i it ys zs)
  with arc_owned_resident [OF wf old(2)] abs_drop [OF wf old(2)] show ?thesis
    by (auto simp: sp_get_def abs_find abs_counters sp_drop_def simp del: abs_fields)
next
  case (first i it ys zs)
  then have s: "lst T1 c = ys @ (i, it) # zs" by simp
  have "link T2 it (unlink T1 (i, it) c) = link T2 it (forget k (unlink T1 (i, it) c))" using first(2) by (simp add: link_forget)
  with first arc_owned_resident [OF wf s] abs_drop [OF wf s] show ?thesis
    by (simp add: sp_get_def abs_find abs_counters abs_link sp_drop_def sp_push_def del: abs_fields)
next
  case (again i it ys zs)
  then have s: "lst T2 c = ys @ (i, it) # zs" by simp
  note once = key_once [OF wf s]
  have "map snd (lst o1 (c\<lparr>t2 := (i, it) # ys @ zs\<rparr>)) = sp_list (sp_push T2 it (sp_drop k (arc_abs c))) o1" for o1
    using filter_keys [OF once(2) [of o1]] filter_keys [OF once(1)] again(1,2) by (cases o1) (simp_all add: sp_push_def sp_drop_def)
  then have "arc_abs (c\<lparr>t2 := (i, it) # ys @ zs\<rparr>) = sp_push T2 it (sp_drop k (arc_abs c))"
    by (simp add: arc_abs_def sp_push_def sp_drop_def fun_eq_iff)
  with again arc_owned_resident [OF wf s] show ?thesis
    by (simp add: sp_get_def abs_find abs_counters sp_drop_def sp_push_def del: abs_fields)
qed

lemma find_None: "sp_find k (map snd xs) = None \<longleftrightarrow> k \<notin> set (keys xs)"
  by (auto simp: sp_find_def find_None_iff)

lemma find_split: "item_key it \<notin> set (keys ys) \<Longrightarrow> sp_find (item_key it) (map snd (ys @ (i, it) # zs)) = Some it"
  by (induction ys) (auto simp: sp_find_def)

lemma find_ghost:
  assumes "arc_wf c" "lst own c = ys @ (i, it) # zs"
  shows "sp_find (item_key it) (map snd (lst own c)) = Some it" "o1 \<noteq> own \<Longrightarrow> sp_find (item_key it) (map snd (lst o1 c)) = None"
  using key_once [OF assms] find_split [of it ys i zs] by (simp_all add: find_None assms(2))

lemma abs_update:
  assumes wf: "arc_wf c" and s: "lst own c = ys @ (i, it) # zs" and k: "item_key it = item_key item"
  shows "arc_abs (upd_list own (l_set i item (lst own c)) d c)
    = (arc_abs c)\<lparr>sp_list := (\<lambda>o1. map (\<lambda>x. if item_key x = item_key item then item else x) (sp_list (arc_abs c) o1))\<rparr>"
proof -
  note once = key_once [OF wf s, unfolded k]
  have "distinct (ids (lst own c))" using wf by (cases own) (auto simp: arc_wf_def elems_ok_def arc_elems_def)
  then have l: "l_set i item (lst own c) = ys @ (i, item) # zs" unfolding s by (intro l_set_split) auto
  have parts: "map (\<lambda>x. if item_key x = item_key item then item else x) (map snd ys) = map snd ys"
    "map (\<lambda>x. if item_key x = item_key item then item else x) (map snd zs) = map snd zs"
    using once(1) by (simp_all only: map_keys set_append map_append Un_iff not_False_eq_True de_Morgan_disj)
  have "map snd (lst o1 (upd_list own (l_set i item (lst own c)) d c)) = map (\<lambda>x. if item_key x = item_key item then item else x) (map snd (lst o1 c))" for o1
  proof (cases "o1 = own")
    case True
    have "map (\<lambda>x. if item_key x = item_key item then item else x) (map snd (lst own c)) = map snd ys @ item # map snd zs"
      unfolding s map_append list.map parts by (simp add: k)
    with True show ?thesis by (simp only: lst_upd l) simp
  next
    case False
    with map_keys [OF once(2) [OF False], of item] show ?thesis by (simp only: lst_upd) simp
  qed
  then show ?thesis by (simp add: arc_abs_def)
qed

lemma abs_ghost_hit:
  assumes "arc_wf c" "lst own c = ys @ (i, it) # zs" "0 \<le> p" "p \<le> arc_max c"
  shows "arc_abs (forget (item_key it) (unlink own (i, it) (c\<lparr>arc_p := p\<rparr>))) = sp_drop (item_key it) ((arc_abs c)\<lparr>sp_p := p\<rparr>)"
  using abs_drop [OF set_p_wf [OF assms(1,3,4)], of own ys i it zs] assms(2) by (simp add: abs_counters)

lemma abs_put:
  assumes wf: "arc_wf c" and sz: "0 \<le> size_bytes item"
  shows "arc_abs (arc_put item now c) = sp_put item (arc_abs c)"
proof (cases "size_bytes item \<le> arc_max c")
  case fits: True
  note bytes = abs_bytes [OF wf] abs_replace abs_counters abs_link
  have p0: "0 \<le> arc_p c" "arc_p c \<le> arc_max c" using wf by (simp_all add: arc_wf_def)
  from wf sz fits show ?thesis
  proof (cases rule: arc_put_cases [of c item now])
    case (resident own i it ys zs)
    have "arc_resident c (item_key item) \<noteq> None" using arc_owned_resident [OF wf resident(2)] resident(1,3) by auto
    with fits abs_update [OF wf resident(2,3)] show ?thesis
      by (simp add: sp_put_def Let_def abs_find resident(4) del: abs_fields) (simp add: arc_abs_def)
  next
    case (b1_hit i it ys zs d)
    then have s: "lst B1 c = ys @ (i, it) # zs" by simp
    note b = target_bounds(1) [OF wf unlink_wf(3) [OF wf s]]
    have "arc_abs d = sp_drop (item_key item) ((arc_abs c)\<lparr>sp_p := b1_target c (size_bytes it)\<rparr>)"
      using abs_ghost_hit [OF wf s, of "b1_target c (size_bytes it)"] b p0 b1_hit(2,3) by simp
    moreover have "b1_target c (size_bytes it) = min (arc_max c) (arc_p c + adapt_step (b1_bytes c) (b2_bytes c) (size_bytes it))"
      by (simp add: b1_target_def Let_def min_def)
    moreover have "sp_find (item_key item) (sp_list (arc_abs c) B1) = Some it" using find_ghost(1) [OF wf s] b1_hit(2) by simp
    ultimately show ?thesis using fits b1_hit(4,7)
      by (simp add: sp_put_def Let_def abs_find b1_hit(8) bytes del: abs_fields(3))
  next
    case (b2_hit i it ys zs d)
    then have s: "lst B2 c = ys @ (i, it) # zs" by simp
    note b = target_bounds(2) [OF wf unlink_wf(3) [OF wf s]]
    have "arc_abs d = sp_drop (item_key item) ((arc_abs c)\<lparr>sp_p := b2_target c (size_bytes it)\<rparr>)"
      using abs_ghost_hit [OF wf s, of "b2_target c (size_bytes it)"] b p0 b2_hit(2,3) by simp
    moreover have "b2_target c (size_bytes it) = max 0 (arc_p c - adapt_step (b2_bytes c) (b1_bytes c) (size_bytes it))"
      by (simp add: b2_target_def Let_def max_def)
    moreover have "sp_find (item_key item) (sp_list (arc_abs c) B2) = Some it" using find_ghost(1) [OF wf s] b2_hit(2) by simp
    moreover have "sp_find (item_key item) (sp_list (arc_abs c) B1) = None" using find_ghost(2) [OF wf s, of B1] b2_hit(2) by simp
    ultimately show ?thesis using fits b2_hit(4,7)
      by (simp add: sp_put_def Let_def abs_find b2_hit(8) bytes del: abs_fields(3))
  next
    case fresh
    have "sp_find (item_key item) (sp_list (arc_abs c) own) = None" for own
      using fresh(1) lst_elems [of own c] by (auto simp: find_None known_def)
    moreover have "arc_wf (case_iv (size_bytes item) c)" using shrinks_case_iv [OF wf] by (simp add: shrinks_def)
    ultimately show ?thesis using fits fresh(2)
      by (simp add: sp_put_def Let_def abs_find fresh(3) bytes abs_case_iv [OF wf] del: abs_fields(3))
  qed
qed (simp add: sp_put_def Let_def arc_put_too_big)

section \<open>Sequences of requests\<close>

abbreviation sp_ops :: "cache_op list \<Rightarrow> arc_spec \<Rightarrow> item option list \<times> arc_spec" where
  "sp_ops \<equiv> run_ops sp_get (\<lambda>it now. sp_put it) (\<lambda>s. sp_new (sp_max s))"

lemma arc_ops_refine:
  assumes "arc_wf c" "\<forall>op\<in>set ops. op_ok op"
  shows "sp_ops ops (arc_abs c) = apsnd arc_abs (run_ops arc_get arc_put arc_clear ops c)"
  using assms
proof (induction ops arbitrary: c)
  case (Cons op ops)
  show ?case
  proof (cases op)
    case (OpGet k now)
    with Cons.prems Cons.IH [of "snd (arc_get k now c)"] arc_get_wf [of c k now] abs_get [of c k now] show ?thesis
      by (simp add: apsnd_def map_prod_def split_beta)
  next
    case (OpPut it now)
    with Cons.prems Cons.IH [of "arc_put it now c"] arc_put_keeps(1) [of c it now] abs_put [of c it now] show ?thesis by simp
  next
    case OpClear
    with Cons.prems Cons.IH [of "arc_clear c"] arc_wf_clear [of c] abs_clear [of c] show ?thesis by simp
  qed
qed simp

text \<open>C7: The ARC cache is the algorithm on four lists. From an empty cache, any sequence of gets, puts and clears is answered exactly as by
  the algorithm on plain lists of items, which has no elements, index, owner map or byte counters; afterwards the four lists hold the same
  items in the same order, the target and the statistics are the same, evictions included.\<close>

theorem arc_refines_lists:
  assumes "0 \<le> mx" "\<forall>op\<in>set ops. op_ok op"
  defines "c \<equiv> snd (run_ops arc_get arc_put arc_clear ops (new_arc mx))" and "s \<equiv> snd (sp_ops ops (sp_new mx))"
  shows "fst (run_ops arc_get arc_put arc_clear ops (new_arc mx)) = fst (sp_ops ops (sp_new mx))
    \<and> (\<forall>own. map snd (lst own c) = sp_list s own) \<and> arc_p c = sp_p s \<and> arc_stats c = sp_stats s"
proof -
  note ref = arc_ops_refine [OF arc_wf_new [OF assms(1)] assms(2), unfolded abs_new]
  then have s: "s = arc_abs c" and a: "fst (run_ops arc_get arc_put arc_clear ops (new_arc mx)) = fst (sp_ops ops (sp_new mx))"
    by (simp_all add: c_def s_def)
  have "arc_wf c" using arc_run_wf [OF arc_wf_new [OF assms(1)] assms(2) refl] by (simp add: c_def)
  from abs_stats [OF this] show ?thesis by (simp add: s a)
qed

theorem arc_refines_lists_witness:
  "fst (run_ops arc_get arc_put arc_clear demo_arc_ops (new_arc 10)) = fst (sp_ops demo_arc_ops (sp_new 10))"
  using arc_refines_lists [OF _ demo_arc_ops_ok, of 10] by simp

end
