(* ===== verification/Rand.thy ===== *)
theory Rand
  imports Float64
begin

text \<open>
  The generator \<open>*rand.Rand\<close> of \<open>math/rand\<close> that the models draw from, as a record of its
  methods on an explicit state, and the transcendental functions of package \<open>math\<close>. Both are
  parameters of the development; the predicates state what their documentation promises.
\<close>

record 'g rand_ops =
  r_float64 :: "'g \<Rightarrow> real \<times> 'g"
  r_intn :: "int \<Rightarrow> 'g \<Rightarrow> int \<times> 'g"
  r_int63 :: "'g \<Rightarrow> int \<times> 'g"

definition rand_ok :: "'g rand_ops \<Rightarrow> bool" where
  "rand_ok R \<longleftrightarrow> (\<forall>g. 0 \<le> fst (r_float64 R g) \<and> fst (r_float64 R g) < 1 \<and> fl (fst (r_float64 R g)) = fst (r_float64 R g))
    \<and> (\<forall>n g. 0 < n \<longrightarrow> 0 \<le> fst (r_intn R n g) \<and> fst (r_intn R n g) < n)
    \<and> (\<forall>g. 0 \<le> fst (r_int63 R g) \<and> fst (r_int63 R g) \<le> int64_max)"

record libm =
  m_log :: "real \<Rightarrow> real"
  m_cos :: "real \<Rightarrow> real"
  m_sin :: "real \<Rightarrow> real"
  m_atan2 :: "real \<Rightarrow> real \<Rightarrow> real"
  m_erf :: "real \<Rightarrow> real"

text \<open>The ranges the code relies on: a logarithm of a value in [1e-12, 1] lies between -28 and 0,
  and a cosine between -1 and 1.\<close>

definition libm_ok :: "libm \<Rightarrow> bool" where
  "libm_ok M \<longleftrightarrow> (\<forall>x. fl (1 / 10 ^ 12) \<le> x \<longrightarrow> x \<le> 1 \<longrightarrow> - 28 \<le> m_log M x \<and> m_log M x \<le> 0)
    \<and> (\<forall>x. - 1 \<le> m_cos M x \<and> m_cos M x \<le> 1)"

section \<open>A concrete generator and concrete functions\<close>

text \<open>A small linear congruential generator and step functions that meet the contracts; the
  witnesses of the theorems run on them.\<close>

definition lcg_next :: "int \<Rightarrow> int" where
  "lcg_next g = (1103515245 * g + 12345) mod 2147483648"

definition lcg_unit :: "int \<Rightarrow> real" where
  "lcg_unit g = of_int (g mod 1024) / 1024"

definition lcg :: "int rand_ops" where
  "lcg = \<lparr>r_float64 = (\<lambda>g. (lcg_unit g, lcg_next g)), r_intn = (\<lambda>n g. (g mod n, lcg_next g)),
     r_int63 = (\<lambda>g. (g mod 1024, lcg_next g))\<rparr>"

definition flat_libm :: libm where
  "flat_libm = \<lparr>m_log = (\<lambda>x. if x < 1 then - 1 else 0), m_cos = (\<lambda>x. 1), m_sin = (\<lambda>x. 0),
     m_atan2 = (\<lambda>y x. 0), m_erf = (\<lambda>x. 0)\<rparr>"

lemma fl_lcg_unit: "fl (lcg_unit g) = lcg_unit g"
proof (rule fl_exact)
  have "(2 :: real) powi (- 10) = 1 / 1024" by (simp add: power_int_def power_one_over)
  then have "lcg_unit g = of_int (g mod 1024) * 2 powi (- 10)" by (simp add: lcg_unit_def)
  moreover have "\<bar>g mod 1024\<bar> \<le> (2 ^ 53 :: int)"
  proof -
    have "g mod 1024 < 1024" "0 \<le> g mod 1024" by simp_all
    then have "\<bar>g mod 1024\<bar> \<le> 9007199254740992" by linarith
    then show ?thesis by simp
  qed
  ultimately show "float_rep (lcg_unit g)" unfolding float_rep_def by blast
qed

lemma lcg_ok: "rand_ok lcg"
proof -
  have "0 \<le> g mod 1024 \<and> g mod 1024 < 1024" for g :: int by simp
  then have "0 \<le> lcg_unit g \<and> lcg_unit g < 1" for g
    unfolding lcg_unit_def by (simp add: divide_less_eq)
  moreover have "g mod 1024 \<le> int64_max" for g :: int
    using pos_mod_bound [of 1024 g] by (simp add: int64_max_def)
  ultimately show ?thesis by (simp add: rand_ok_def lcg_def fl_lcg_unit)
qed

lemma flat_libm_ok: "libm_ok flat_libm"
  by (simp add: libm_ok_def flat_libm_def)

end
