(* ===== verification/Loss.thy ===== *)
theory Loss
  imports Rand
begin

text \<open>
  \<open>internal/transport/modeled/loss.go\<close>: the packet loss simulators. The interface is a locale over
  a step function (\<open>IsLost\<close>) and a batch function (\<open>SimulatePackets\<close>), interpreted on every simulator.
\<close>

section \<open>Simulators\<close>

text \<open>\<open>transport.LossModel\<close>, the configuration.\<close>

record loss_model =
  loss_type :: string
  uniform_percent :: real
  p_good_to_bad :: real
  p_bad_to_good :: real
  loss_in_bad_state :: real

record 'g uniform_loss =
  u_rate :: real
  u_rng :: 'g

record 'g gilbert_elliott =
  ge_pgb :: real
  ge_pbg :: real
  ge_lib :: real
  in_bad_state :: bool
  ge_rng :: 'g

datatype 'g loss_sim = NoLoss | Uniform "'g uniform_loss" | Gilbert "'g gilbert_elliott"

definition new_gilbert_elliott :: "loss_model \<Rightarrow> 'g \<Rightarrow> 'g gilbert_elliott" where
  "new_gilbert_elliott cfg g = \<lparr>ge_pgb = p_good_to_bad cfg, ge_pbg = p_bad_to_good cfg,
     ge_lib = loss_in_bad_state cfg, in_bad_state = False, ge_rng = g\<rparr>"

definition new_loss_simulator :: "loss_model \<Rightarrow> 'g \<Rightarrow> 'g loss_sim" where
  "new_loss_simulator cfg g =
     (if loss_type cfg = ''gilbert_elliott'' then Gilbert (new_gilbert_elliott cfg g)
      else if loss_type cfg = ''uniform'' then Uniform \<lparr>u_rate = fdiv (uniform_percent cfg) 100, u_rng = g\<rparr>
      else NoLoss)"

definition no_is_lost :: "unit \<Rightarrow> bool \<times> unit" where
  "no_is_lost s = (False, s)"

text \<open>\<open>make([]int, 0, n)\<close> panics when the capacity is negative or more than the address space has room for, \<open>2 ^ 48\<close> bytes of
  eight bytes each on a 64-bit platform. \<open>None\<close> is the panic.\<close>

definition cap_ok :: "int \<Rightarrow> bool" where
  "cap_ok n \<longleftrightarrow> 0 \<le> n \<and> n \<le> 2 ^ 45"

definition no_simulate :: "int \<Rightarrow> unit \<Rightarrow> int list option \<times> unit" where
  "no_simulate n s = (Some [], s)"

definition uniform_is_lost :: "'g rand_ops \<Rightarrow> 'g uniform_loss \<Rightarrow> bool \<times> 'g uniform_loss" where
  "uniform_is_lost R u = (if u_rate u \<le> 0 then (False, u)
     else let (x, g) = r_float64 R (u_rng u) in (x < u_rate u, u\<lparr>u_rng := g\<rparr>))"

definition ge_is_lost :: "'g rand_ops \<Rightarrow> 'g gilbert_elliott \<Rightarrow> bool \<times> 'g gilbert_elliott" where
  "ge_is_lost R s = (let
       (lost, g1) = (if in_bad_state s then let (x, g) = r_float64 R (ge_rng s) in (x < ge_lib s, g)
                     else (False, ge_rng s));
       (y, g2) = r_float64 R g1;
       bad = (if in_bad_state s then \<not> y < ge_pbg s else y < ge_pgb s)
     in (lost, s\<lparr>in_bad_state := bad, ge_rng := g2\<rparr>))"

text \<open>The loop of both \<open>SimulatePackets\<close> methods: \<open>i\<close> runs up to \<open>n\<close>.\<close>

function sim_loop :: "('s \<Rightarrow> bool \<times> 's) \<Rightarrow> int \<Rightarrow> int \<Rightarrow> 's \<Rightarrow> int list \<times> 's" where
  "sim_loop is_lost i n s = (if i < n then
      let (l, s1) = is_lost s; (out, s2) = sim_loop is_lost (i + 1) n s1
      in ((if l then i # out else out), s2)
    else ([], s))"
  by pat_completeness auto
termination by (relation "measure (\<lambda>(is_lost, i, n, s). nat (n - i))") auto

declare sim_loop.simps [simp del]

definition uniform_simulate :: "'g rand_ops \<Rightarrow> int \<Rightarrow> 'g uniform_loss \<Rightarrow> int list option \<times> 'g uniform_loss" where
  "uniform_simulate R n u = (if cap_ok (f2i (fmul (i2f n) (u_rate u)) + 1)
     then (let (out, u') = sim_loop (uniform_is_lost R) 0 n u in (Some out, u')) else (None, u))"

definition ge_simulate :: "'g rand_ops \<Rightarrow> int \<Rightarrow> 'g gilbert_elliott \<Rightarrow> int list option \<times> 'g gilbert_elliott" where
  "ge_simulate R n s = (if cap_ok (go_quot n 10)
     then (let (out, s') = sim_loop (ge_is_lost R) 0 n s in (Some out, s')) else (None, s))"

text \<open>The calls through the interface value.\<close>

fun is_lost :: "'g rand_ops \<Rightarrow> 'g loss_sim \<Rightarrow> bool \<times> 'g loss_sim" where
  "is_lost R NoLoss = (fst (no_is_lost ()), NoLoss)"
| "is_lost R (Uniform u) = (let (l, u') = uniform_is_lost R u in (l, Uniform u'))"
| "is_lost R (Gilbert s) = (let (l, s') = ge_is_lost R s in (l, Gilbert s'))"

fun simulate_packets :: "'g rand_ops \<Rightarrow> int \<Rightarrow> 'g loss_sim \<Rightarrow> int list option \<times> 'g loss_sim" where
  "simulate_packets R n NoLoss = (fst (no_simulate n ()), NoLoss)"
| "simulate_packets R n (Uniform u) = (let (ls, u') = uniform_simulate R n u in (ls, Uniform u'))"
| "simulate_packets R n (Gilbert s) = (let (ls, s') = ge_simulate R n s in (ls, Gilbert s'))"

section \<open>The loop\<close>

lemma sim_loop_stop: "n \<le> i \<Longrightarrow> sim_loop f i n s = ([], s)"
  by (simp add: sim_loop.simps)

lemma sim_loop_step:
  "i < n \<Longrightarrow> sim_loop f i n s = ((if fst (f s) then i # fst (sim_loop f (i + 1) n (snd (f s)))
     else fst (sim_loop f (i + 1) n (snd (f s)))), snd (sim_loop f (i + 1) n (snd (f s))))"
  by (subst sim_loop.simps) (simp split: prod.split)

lemma sim_loop_range: "set (fst (sim_loop f i n s)) \<subseteq> {i..<n} \<and> sorted_wrt (<) (fst (sim_loop f i n s))"
proof (induction f i n s rule: sim_loop.induct)
  case (1 f i n s)
  show ?case
  proof (cases "i < n")
    case True
    have "set (fst (sim_loop f (i + 1) n (snd (f s)))) \<subseteq> {i + 1..<n}
        \<and> sorted_wrt (<) (fst (sim_loop f (i + 1) n (snd (f s))))"
      using "1.IH" [OF True refl prod.collapse] by simp
    then have "set (fst (sim_loop f (i + 1) n (snd (f s)))) \<subseteq> {i..<n}"
        "\<forall>k\<in>set (fst (sim_loop f (i + 1) n (snd (f s)))). i < k"
        "sorted_wrt (<) (fst (sim_loop f (i + 1) n (snd (f s))))"
      by auto
    with True show ?thesis by (simp add: sim_loop_step)
  qed (simp add: sim_loop_stop)
qed

text \<open>The outcome of the k-th packet from a state, and a batch as the packets whose outcome is a loss.\<close>

definition nth_draw :: "('s \<Rightarrow> bool \<times> 's) \<Rightarrow> nat \<Rightarrow> 's \<Rightarrow> bool" where
  "nth_draw f k s = fst (f (((\<lambda>s. snd (f s)) ^^ k) s))"

lemma step_first: "((\<lambda>s. snd (f s)) ^^ Suc m) s = ((\<lambda>s. snd (f s)) ^^ m) (snd (f s))"
  by (simp add: funpow_Suc_right del: funpow.simps)

lemma nth_draw_Suc: "nth_draw f (Suc k) s = nth_draw f k (snd (f s))"
  unfolding nth_draw_def step_first ..

lemma nth_draw_add: "nth_draw f (m + k) s = nth_draw f k (((\<lambda>s. snd (f s)) ^^ m) s)"
proof (induction m arbitrary: s)
  case (Suc m)
  show ?case unfolding step_first add_Suc nth_draw_Suc by (rule Suc.IH)
qed simp

lemma draws_Suc: "filter (\<lambda>k. nth_draw f k s) [0..<Suc m]
    = (if fst (f s) then [0] else []) @ map Suc (filter (\<lambda>k. nth_draw f k (snd (f s))) [0..<m])"
proof -
  have "filter (\<lambda>k. nth_draw f k s) (map Suc [0..<m]) = map Suc (filter (\<lambda>k. nth_draw f k (snd (f s))) [0..<m])"
    by (simp add: filter_map comp_def nth_draw_Suc)
  then show ?thesis by (subst upt_conv_Cons) (simp_all add: map_Suc_upt nth_draw_def del: upt_Suc)
qed

lemma sim_loop_from: "sim_loop f i (i + int m) s = (map (\<lambda>k. i + int k) (filter (\<lambda>k. nth_draw f k s) [0..<m]), ((\<lambda>s. snd (f s)) ^^ m) s)"
proof (induction m arbitrary: i s)
  case (Suc m)
  have "sim_loop f (i + 1) (i + int (Suc m)) (snd (f s)) = sim_loop f (i + 1) ((i + 1) + int m) (snd (f s))" by (simp add: algebra_simps)
  with Suc.IH [of "i + 1" "snd (f s)"] show ?case
    unfolding draws_Suc step_first by (simp add: sim_loop_step comp_def add.assoc del: upt_Suc funpow.simps)
qed (simp add: sim_loop_stop)

lemma sim_loop_draws:
  "sim_loop f 0 n s = (map int (filter (\<lambda>k. nth_draw f k s) [0..<nat n]), ((\<lambda>s. snd (f s)) ^^ nat n) s)"
proof (cases "0 \<le> n")
  case True
  then show ?thesis using sim_loop_from [of f 0 "nat n" s] by simp
qed (simp add: sim_loop_stop)

text \<open>A batch is the same as two consecutive batches, the second one's indices shifted.\<close>

lemma sim_loop_shift: "sim_loop f (i + d) (n + d) s = (map (\<lambda>k. k + d) (fst (sim_loop f i n s)), snd (sim_loop f i n s))"
proof (induction f i n s rule: sim_loop.induct)
  case (1 f i n s)
  show ?case
  proof (cases "i < n")
    case True
    have "sim_loop f (i + 1 + d) (n + d) (snd (f s)) = (map (\<lambda>k. k + d) (fst (sim_loop f (i + 1) n (snd (f s)))),
        snd (sim_loop f (i + 1) n (snd (f s))))"
      using "1.IH" [OF True refl prod.collapse] by simp
    moreover have "i + 1 + d = i + d + 1" by simp
    ultimately show ?thesis using True by (simp add: sim_loop_step)
  qed (simp add: sim_loop_stop)
qed

lemma sim_loop_split:
  assumes "i \<le> m" "m \<le> n"
  shows "sim_loop f i n s = (fst (sim_loop f i m s) @ fst (sim_loop f m n (snd (sim_loop f i m s))),
    snd (sim_loop f m n (snd (sim_loop f i m s))))"
  using assms
proof (induction f i m s rule: sim_loop.induct)
  case (1 f i m s)
  show ?case
  proof (cases "i < m")
    case True
    then have "sim_loop f (i + 1) n (snd (f s)) = (fst (sim_loop f (i + 1) m (snd (f s))) @
        fst (sim_loop f m n (snd (sim_loop f (i + 1) m (snd (f s))))),
        snd (sim_loop f m n (snd (sim_loop f (i + 1) m (snd (f s))))))"
      using "1.IH" [OF True refl prod.collapse] "1.prems" by simp
    with True "1.prems" show ?thesis by (simp add: sim_loop_step)
  qed (use "1.prems" in \<open>simp add: sim_loop_stop\<close>)
qed

section \<open>The interface\<close>

text \<open>A batch of n packets that the simulator has room for reports exactly the indices at which the step function, run n times,
  reports a loss; without room the call panics.\<close>

locale loss_iface =
  fixes step :: "'s \<Rightarrow> bool \<times> 's" and simulate :: "int \<Rightarrow> 's \<Rightarrow> int list option \<times> 's" and room :: "int \<Rightarrow> 's \<Rightarrow> bool"
  assumes simulate_steps: "room n s \<Longrightarrow> simulate n s = map_prod Some id (sim_loop step 0 n s)"
    and simulate_panics: "\<not> room n s \<Longrightarrow> fst (simulate n s) = None"
begin

lemma returns: "(\<exists>ls. fst (simulate n s) = Some ls) \<longleftrightarrow> room n s"
  by (cases "room n s") (simp_all add: simulate_steps simulate_panics)

lemma steps: "fst (simulate n s) = Some ls \<Longrightarrow> ls = fst (sim_loop step 0 n s)"
  by (cases "room n s") (simp_all add: simulate_steps simulate_panics)

lemma range: "fst (simulate n s) = Some ls \<Longrightarrow> set ls \<subseteq> {0..<n}"
  using sim_loop_range [of step 0 n s] by (auto dest: steps)

lemma increasing: "fst (simulate n s) = Some ls \<Longrightarrow> sorted_wrt (<) ls"
  using sim_loop_range [of step 0 n s] by (auto dest: steps)

lemma count:
  assumes "fst (simulate n s) = Some ls"
  shows "int (length ls) \<le> max 0 n"
proof -
  have "length ls = card (set ls)" using increasing [OF assms] by (simp add: strict_sorted_iff distinct_card)
  also have "\<dots> \<le> card {0..<n}" using range [OF assms] by (rule card_mono [rotated]) simp
  finally show ?thesis by simp
qed

lemma consecutive:
  assumes "0 \<le> m" "0 \<le> n" "room m s" "room n (snd (simulate m s))" "room (m + n) s"
  shows "simulate (m + n) s = (Some (the (fst (simulate m s)) @ map (\<lambda>k. k + m) (the (fst (simulate n (snd (simulate m s)))))),
    snd (simulate n (snd (simulate m s))))"
  using sim_loop_split [of 0 m "m + n" step s] sim_loop_shift [of step 0 m n "snd (sim_loop step 0 m s)"] assms
  by (simp add: simulate_steps add.commute)

end

interpretation no_loss: loss_iface no_is_lost no_simulate "\<lambda>n s. True"
proof
  fix n and s :: unit
  have "sim_loop no_is_lost i n s = ([], s)" for i
    by (induction no_is_lost i n s rule: sim_loop.induct)
      (subst sim_loop.simps, auto simp: no_is_lost_def)
  then show "no_simulate n s = map_prod Some id (sim_loop no_is_lost 0 n s)" by (simp add: no_simulate_def)
qed simp

interpretation uniform: loss_iface "uniform_is_lost R" "uniform_simulate R" "\<lambda>n u. cap_ok (f2i (fmul (i2f n) (u_rate u)) + 1)" for R
  by unfold_locales (simp_all add: uniform_simulate_def case_prod_unfold prod_eq_iff Let_def)

interpretation gilbert: loss_iface "ge_is_lost R" "ge_simulate R" "\<lambda>n s. cap_ok (go_quot n 10)" for R
  by unfold_locales (simp_all add: ge_simulate_def case_prod_unfold prod_eq_iff Let_def)

text \<open>The interface value behaves as the simulator it holds.\<close>

lemma sim_loop_embed:
  assumes "\<And>s. f (E s) = (fst (g s), E (snd (g s)))"
  shows "sim_loop f i n (E s) = (fst (sim_loop g i n s), E (snd (sim_loop g i n s)))"
  using assms
proof (induction g i n s rule: sim_loop.induct)
  case (1 g i n s)
  show ?case
  proof (cases "i < n")
    case True
    have IH: "sim_loop f (i + 1) n (E (snd (g s))) =
        (fst (sim_loop g (i + 1) n (snd (g s))), E (snd (sim_loop g (i + 1) n (snd (g s)))))"
      using "1.IH" [OF True refl prod.collapse] "1.prems" by blast
    show ?thesis using True by (simp add: sim_loop_step "1.prems" IH)
  qed (simp add: sim_loop_stop)
qed

lemma is_lost_embed:
  "is_lost R (Uniform u) = (fst (uniform_is_lost R u), Uniform (snd (uniform_is_lost R u)))"
  "is_lost R (Gilbert s) = (fst (ge_is_lost R s), Gilbert (snd (ge_is_lost R s)))"
  by (simp_all split: prod.split)

fun sim_room :: "int \<Rightarrow> 'g loss_sim \<Rightarrow> bool" where
  "sim_room n NoLoss = True"
| "sim_room n (Uniform u) = cap_ok (f2i (fmul (i2f n) (u_rate u)) + 1)"
| "sim_room n (Gilbert s) = cap_ok (go_quot n 10)"

interpretation packets: loss_iface "is_lost R" "simulate_packets R" sim_room for R
proof
  fix n and s :: "'a loss_sim" assume room: "sim_room n s"
  show "simulate_packets R n s = map_prod Some id (sim_loop (is_lost R) 0 n s)"
  proof (cases s)
    case NoLoss
    have "sim_loop (is_lost R) 0 n NoLoss = ([], NoLoss)"
      using sim_loop_embed [of "is_lost R" "\<lambda>_. NoLoss" no_is_lost 0 n "()"] no_loss.simulate_steps [of n "()"]
      by (simp add: no_is_lost_def no_simulate_def prod_eq_iff)
    with NoLoss show ?thesis by (simp add: no_simulate_def)
  next
    case (Uniform u)
    then show ?thesis using room
      using sim_loop_embed [of "is_lost R" Uniform "uniform_is_lost R" 0 n u, OF is_lost_embed(1)]
      by (simp add: uniform.simulate_steps case_prod_unfold Let_def prod_eq_iff)
  next
    case (Gilbert g)
    then show ?thesis using room
      using sim_loop_embed [of "is_lost R" Gilbert "ge_is_lost R" 0 n g, OF is_lost_embed(2)]
      by (simp add: gilbert.simulate_steps case_prod_unfold Let_def prod_eq_iff)
  qed
next
  fix n and s :: "'a loss_sim" assume room: "\<not> sim_room n s"
  then show "fst (simulate_packets R n s) = None"
    using uniform.simulate_panics gilbert.simulate_panics by (cases s) (simp_all add: case_prod_unfold Let_def)
qed

text \<open>The simulators that always have room: a uniform rate that is a probability, and any chain. A batch of up to \<open>10 ^ 9\<close> packets
  then returns, and the simulator it leaves is of the same kind.\<close>

fun sim_ok :: "'g loss_sim \<Rightarrow> bool" where
  "sim_ok (Uniform u) \<longleftrightarrow> 0 \<le> u_rate u \<and> u_rate u \<le> 1"
| "sim_ok _ \<longleftrightarrow> True"

lemma sim_ok_room:
  assumes "sim_ok s" "0 \<le> n" "n \<le> 10 ^ 9"
  shows "sim_room n s"
proof (cases s)
  case (Uniform u)
  have i: "i2f n = of_int n" using assms by (intro i2f_exact) simp
  have "of_int n * u_rate u \<le> of_int n * 1" using assms Uniform by (intro mult_left_mono) simp_all
  then have "fmul (i2f n) (u_rate u) \<le> of_int n" unfolding i fmul_def using assms by (intro fl_le_int) simp_all
  moreover have "0 \<le> fmul (i2f n) (u_rate u)" using assms Uniform by (simp add: i fmul_nonneg)
  ultimately have "0 \<le> f2i (fmul (i2f n) (u_rate u)) \<and> f2i (fmul (i2f n) (u_rate u)) \<le> n"
    using assms by (intro f2i_nonneg) (simp_all add: int64_max_def)
  with Uniform assms show ?thesis by (simp add: cap_ok_def)
next
  case (Gilbert g)
  have "n div 10 \<le> n" using zdiv_mono2 [of n 1 10] assms(2) by simp
  then have "n div 10 \<le> 2 ^ 45" using assms(3) by simp
  with Gilbert assms(2) show ?thesis by (simp add: cap_ok_def pos_imp_zdiv_nonneg_iff)
qed simp

lemma sim_ok_step: "sim_ok s \<Longrightarrow> sim_ok (snd (is_lost R s))"
  by (cases s) (auto simp: case_prod_unfold uniform_is_lost_def Let_def)

lemma sim_loop_inv: "(\<And>s. P s \<Longrightarrow> P (snd (f s))) \<Longrightarrow> P s \<Longrightarrow> P (snd (sim_loop f i n s))"
proof (induction f i n s rule: sim_loop.induct)
  case (1 f i n s)
  show ?case
  proof (cases "i < n")
    case True
    have "P (snd (f s))" using "1.prems" by blast
    from "1.IH" [OF True refl prod.collapse "1.prems"(1) this] True show ?thesis by (simp add: sim_loop_step)
  qed (use "1.prems" in \<open>simp add: sim_loop_stop\<close>)
qed

lemma simulate_total:
  assumes "sim_ok s" "0 \<le> n" "n \<le> 10 ^ 9"
  obtains ls s' where "simulate_packets R n s = (Some ls, s')" "sim_ok s'" "ls = fst (sim_loop (is_lost R) 0 n s)"
proof
  show "simulate_packets R n s = (Some (fst (sim_loop (is_lost R) 0 n s)), snd (sim_loop (is_lost R) 0 n s))"
    using packets.simulate_steps [OF sim_ok_room [OF assms]] by (simp add: prod_eq_iff)
  show "sim_ok (snd (sim_loop (is_lost R) 0 n s))" using sim_ok_step assms(1) by (rule sim_loop_inv)
qed (rule refl)

lemma simulate_sim_ok: "sim_ok s \<Longrightarrow> sim_ok (snd (simulate_packets R n s))"
  using sim_loop_inv [of sim_ok "is_lost R" s 0 n, OF sim_ok_step]
  by (cases "sim_room n s") (simp_all add: packets.simulate_steps, cases s, simp_all add: uniform_simulate_def ge_simulate_def)

definition loss_ok :: "loss_model \<Rightarrow> bool" where
  "loss_ok m \<longleftrightarrow> (loss_type m = ''uniform'' \<longrightarrow> 0 \<le> uniform_percent m \<and> uniform_percent m \<le> 100)"

lemma loss_ok_sim: "loss_ok m \<Longrightarrow> sim_ok (new_loss_simulator m g)"
  by (simp add: loss_ok_def new_loss_simulator_def fdiv_nonneg fdiv_le_1)

text \<open>The loss of a batch does not depend on how it is cut. For every simulator with room for them, n packets followed
  by m packets lose the same packets, and leave the same state, as one batch of n + m packets; and a
  batch reports strictly increasing indices below its size.\<close>

lemma loss_batches_compose:
  assumes "0 \<le> n" "0 \<le> m" "sim_room n s" "sim_room m (snd (simulate_packets R n s))" "sim_room (n + m) s"
  shows "simulate_packets R (n + m) s =
      (Some (the (fst (simulate_packets R n s)) @ map (\<lambda>k. k + n) (the (fst (simulate_packets R m (snd (simulate_packets R n s)))))),
       snd (simulate_packets R m (snd (simulate_packets R n s))))
    \<and> (\<exists>ls. fst (simulate_packets R n s) = Some ls \<and> set ls \<subseteq> {0..<n} \<and> sorted_wrt (<) ls)"
  using packets.consecutive [OF assms] packets.range packets.increasing packets.returns [of R n s] assms(3) by blast

text \<open>A negative rate is not caught anywhere: it makes the capacity negative, and a batch of enough packets panics.\<close>

lemma negative_rate_panics:
  "fst (simulate_packets R 200 (new_loss_simulator \<lparr>loss_type = ''uniform'', uniform_percent = - 100, p_good_to_bad = 0,
     p_bad_to_good = 0, loss_in_bad_state = 0\<rparr> g)) = None"
proof -
  have "fdiv (- 100) 100 = - 1" using fl_int [of "- 1"] by (simp add: fdiv_def)
  moreover have "fmul (i2f 200) (- 1) = of_int (- 200)" using fl_int [of "- 200"] by (simp add: fmul_def i2f_exact)
  then have "f2i (fmul (i2f 200) (- 1)) = - 200" using f2i_of_int [of "- 200"] by (simp add: int64_defs)
  ultimately show ?thesis by (simp add: new_loss_simulator_def uniform_simulate_def cap_ok_def)
qed

definition demo_loss :: loss_model where
  "demo_loss = \<lparr>loss_type = ''gilbert_elliott'', uniform_percent = 0, p_good_to_bad = 1 / 2,
     p_bad_to_good = 1 / 2, loss_in_bad_state = 1\<rparr>"

text \<open>The Gilbert-Elliott chain loses packets only in its bad state. A packet sent in the good state
  arrives; with a loss rate of one in the bad state every packet sent there is lost; and the chain
  leaves a state only on a draw below that state's transition probability.\<close>

lemma gilbert_loses_only_in_bad_state:
  assumes "rand_ok R"
  shows "(\<not> in_bad_state s \<longrightarrow> \<not> fst (ge_is_lost R s)
        \<and> in_bad_state (snd (ge_is_lost R s)) = (fst (r_float64 R (ge_rng s)) < ge_pgb s))
    \<and> (in_bad_state s \<longrightarrow> fst (ge_is_lost R s) = (fst (r_float64 R (ge_rng s)) < ge_lib s)
        \<and> (1 \<le> ge_lib s \<longrightarrow> fst (ge_is_lost R s)) \<and> (ge_lib s \<le> 0 \<longrightarrow> \<not> fst (ge_is_lost R s))
        \<and> in_bad_state (snd (ge_is_lost R s)) = (\<not> fst (r_float64 R (snd (r_float64 R (ge_rng s)))) < ge_pbg s))"
proof -
  have "0 \<le> fst (r_float64 R g)" "fst (r_float64 R g) < 1" for g using assms by (simp_all add: rand_ok_def)
  then have "1 \<le> ge_lib s \<Longrightarrow> fst (r_float64 R (ge_rng s)) < ge_lib s"
    "ge_lib s \<le> 0 \<Longrightarrow> \<not> fst (r_float64 R (ge_rng s)) < ge_lib s"
    by (meson less_le_trans, meson leD order_trans)
  then show ?thesis by (simp add: ge_is_lost_def case_prod_unfold Let_def)
qed

end
