(* ===== verification/Transport.thy ===== *)
theory Transport
  imports Rand Loss
begin

text \<open>
  \<open>internal/transport/transport.go\<close> and \<open>internal/transport/modeled/jitter.go\<close>: requests, responses
  and link profiles, the sampled jitter, and the interface \<open>Transport\<close> as a locale with what its
  clients derive from it.
\<close>

section \<open>Requests, responses, profiles\<close>

record segment_request =
  req_id :: string
  req_bitrate :: int
  req_size :: int

record segment_response =
  segment_id :: string
  bytes_received :: int
  ttfb :: duration
  total_latency :: duration
  goodput_mbps :: real
  used_0rtt :: bool
  retransmit_count :: int
  hol_block_events :: int
  protocol :: string
  cpu_time :: duration

definition zero_response :: segment_response where
  "zero_response = \<lparr>segment_id = [], bytes_received = 0, ttfb = 0, total_latency = 0, goodput_mbps = 0,
     used_0rtt = False, retransmit_count = 0, hol_block_events = 0, protocol = [], cpu_time = 0\<rparr>"

record network_profile =
  base_rtt_ms :: real
  profile_mbps :: real
  loss_cfg :: loss_model
  jitter_ms :: real

section \<open>Jitter and round-trip time\<close>

definition rtt_duration :: "real \<Rightarrow> duration" where
  "rtt_duration ms = f2i (fmul ms 1000000)"

text \<open>\<open>2 * math.Pi\<close> and \<open>1e-12\<close>, as the \<open>float64\<close> constants the compiler makes of them.\<close>

definition two_pi :: real where "two_pi = 884279719003555 / 140737488355328"
definition tiny :: real where "tiny = fl (1 / 10 ^ 12)"

definition sample_jitter :: "libm \<Rightarrow> 'g rand_ops \<Rightarrow> real \<Rightarrow> 'g \<Rightarrow> duration \<times> 'g" where
  "sample_jitter M R stddev g = (if stddev \<le> 0 then (0, g) else
     let (u1, g1) = r_float64 R g;
         (u2, g2) = r_float64 R g1;
         u1 = (if u1 < tiny then tiny else u1);
         z = fmul (fsqrt (fmul (- 2) (m_log M u1))) (m_cos M (fmul two_pi u2));
         ms = fmul z stddev;
         ms = (if ms < 0 then - ms else ms)
     in (f2i (fmul ms 1000000), g2))"

lemma sqrt_le_8: "x \<le> 64 \<Longrightarrow> sqrt x \<le> 8"
  using real_sqrt_le_mono [of x 64] by simp

lemma fmul_abs: "\<bar>fmul x y\<bar> = fl (\<bar>x\<bar> * \<bar>y\<bar>)"
  using fl_nonneg [of "x * y"] fl_minus [of "x * y"] fl_nonneg [of "- (x * y)"]
  by (cases "0 \<le> x * y") (simp_all add: fmul_def abs_mult [symmetric])

lemma sample_jitter_bounds':
  assumes "rand_ok R" "libm_ok M" "stddev \<le> of_int n" "0 \<le> n" "n \<le> 10 ^ 6"
  shows "0 \<le> fst (sample_jitter M R stddev g) \<and> fst (sample_jitter M R stddev g) \<le> 8 * n * millisecond"
proof (cases "stddev \<le> 0")
  case False
  obtain u1 g1 where u1: "r_float64 R g = (u1, g1)" by fastforce
  obtain u2 g2 where u2: "r_float64 R g1 = (u2, g2)" by fastforce
  define u where "u = (if u1 < tiny then tiny else u1)"
  define z where "z = fmul (fsqrt (fmul (- 2) (m_log M u))) (m_cos M (fmul two_pi u2))"
  have "u1 < 1" using assms(1) u1 unfolding rand_ok_def by (metis fst_conv)
  moreover have "tiny \<le> 1" unfolding tiny_def by (intro fl_le_rep) (use float_rep_int [of 1] in simp_all)
  ultimately have "tiny \<le> u" "u \<le> 1" by (auto simp: u_def)
  then have lg: "- 28 \<le> m_log M u" "m_log M u \<le> 0" using assms(2) by (auto simp: libm_ok_def tiny_def)
  have "fmul (- 2) (m_log M u) \<le> of_int 64" unfolding fmul_def by (intro fl_le_int) (use lg in simp_all)
  moreover have "0 \<le> fmul (- 2) (m_log M u)" using lg by (simp add: fmul_def fl_nonneg)
  ultimately have "sqrt (fmul (- 2) (m_log M u)) \<le> of_int 8" "0 \<le> sqrt (fmul (- 2) (m_log M u))"
    using sqrt_le_8 by simp_all
  then have "fsqrt (fmul (- 2) (m_log M u)) \<le> of_int 8" "0 \<le> fsqrt (fmul (- 2) (m_log M u))"
    using fl_le_int [of "sqrt (fmul (- 2) (m_log M u))" 8] by (simp_all add: fsqrt_def fl_nonneg)
  moreover have "\<bar>m_cos M (fmul two_pi u2)\<bar> \<le> 1" using assms(2) by (simp add: libm_ok_def abs_le_iff)
  ultimately have "\<bar>fsqrt (fmul (- 2) (m_log M u))\<bar> * \<bar>m_cos M (fmul two_pi u2)\<bar> \<le> of_int 8 * 1"
    by (intro mult_mono) simp_all
  then have z: "\<bar>z\<bar> \<le> of_int 8" unfolding z_def fmul_abs by (intro fl_le_int) simp_all
  have "\<bar>z\<bar> * \<bar>stddev\<bar> \<le> of_int 8 * of_int n" using z assms(3) False by (intro mult_mono) simp_all
  then have ms: "\<bar>fmul z stddev\<bar> \<le> of_int (8 * n)" unfolding fmul_abs using assms(4,5) by (intro fl_le_int) simp_all
  define ms where "ms = (if fmul z stddev < 0 then - fmul z stddev else fmul z stddev)"
  have "ms = \<bar>fmul z stddev\<bar>" by (simp add: ms_def)
  with ms have m: "0 \<le> ms" "ms * 1000000 \<le> of_int (8 * n * 1000000)" by simp_all
  have "fmul ms 1000000 \<le> of_int (8 * n * 1000000)"
    unfolding fmul_def using m(2) assms(4,5) by (intro fl_le_int) simp_all
  moreover have "0 \<le> fmul ms 1000000" using m(1) by (simp add: fmul_nonneg)
  ultimately have "0 \<le> f2i (fmul ms 1000000) \<and> f2i (fmul ms 1000000) \<le> 8 * n * 1000000"
    using assms(4,5) by (intro f2i_nonneg) (simp_all add: int64_max_def)
  moreover have "sample_jitter M R stddev g = (f2i (fmul ms 1000000), g2)"
    using False by (simp add: sample_jitter_def u1 u2 Let_def u_def [symmetric] z_def [symmetric] ms_def)
  ultimately show ?thesis by (simp add: millisecond_def)
qed (use assms(4) in \<open>simp add: sample_jitter_def millisecond_def\<close>)

text \<open>Jitter is never negative and bounded: for a standard deviation of at most n milliseconds
  (n up to 10^6) a sample lies between zero and 8 n milliseconds, so it never shortens a delay and its
  conversion to a duration cannot overflow.\<close>

lemma sample_jitter_bounds:
  assumes "rand_ok R" "libm_ok M" "stddev \<le> of_int n" "0 \<le> n" "n \<le> 10 ^ 6"
  shows "0 \<le> fst (sample_jitter M R stddev g) \<and> fst (sample_jitter M R stddev g) \<le> 8 * n * millisecond"
  using assms by (rule sample_jitter_bounds')

lemma rtt_duration_bounds:
  assumes "0 \<le> ms" "ms \<le> 10 ^ 6"
  shows "0 \<le> rtt_duration ms \<and> rtt_duration ms \<le> 10 ^ 12"
proof -
  have "fmul ms 1000000 \<le> of_int (10 ^ 12)" unfolding fmul_def using assms by (intro fl_le_int) simp_all
  moreover have "0 \<le> fmul ms 1000000" using assms by (simp add: fmul_nonneg)
  ultimately show ?thesis unfolding rtt_duration_def by (intro f2i_nonneg) (simp_all add: int64_max_def)
qed

section \<open>The interface\<close>

text \<open>How a call ends that does not return a value: with an error, or with a panic, which unwinds everything above it.
  Wrapping an error puts a text in front of it.\<close>

datatype call_error = Failed string | Panic

definition wrap_error :: "string \<Rightarrow> call_error \<Rightarrow> call_error" where
  "wrap_error pre e = (case e of Failed m \<Rightarrow> Failed (pre @ m) | Panic \<Rightarrow> Panic)"

text \<open>A response serves a request when it names its segment, carries all its bytes, and its first byte
  comes no later than its last.\<close>

definition served :: "segment_request \<Rightarrow> segment_response \<Rightarrow> bool" where
  "served r p \<longleftrightarrow> segment_id p = req_id r \<and> bytes_received p = req_size r \<and> 0 \<le> ttfb p \<and> ttfb p \<le> total_latency p"

text \<open>Go's interface \<open>Transport\<close> with a context that is not cancelled: a batch the transport accepts is
  answered without error, one response per request and in their order; a handshake takes no negative time.\<close>

locale transport_iface =
  fixes fetch :: "segment_request list \<Rightarrow> 's \<Rightarrow> (call_error + segment_response list) \<times> 's"
    and handshake :: "bool \<Rightarrow> 's \<Rightarrow> (string + duration) \<times> 's"
    and inv :: "'s \<Rightarrow> bool" and batch_ok :: "segment_request list \<Rightarrow> bool"
  assumes fetch_served: "inv s \<Longrightarrow> batch_ok reqs \<Longrightarrow> \<exists>resps. fst (fetch reqs s) = Inr resps \<and> list_all2 served reqs resps"
    and fetch_inv: "inv s \<Longrightarrow> inv (snd (fetch reqs s))"
    and handshake_time: "inv s \<Longrightarrow> \<exists>d. fst (handshake resumption s) = Inr d \<and> 0 \<le> d"
    and handshake_inv: "inv s \<Longrightarrow> inv (snd (handshake resumption s))"
begin

lemma fetch_responses:
  assumes "inv s" "batch_ok reqs" "fst (fetch reqs s) = Inr resps"
  shows "map segment_id resps = map req_id reqs" "length resps = length reqs"
    "sum_list (map bytes_received resps) = sum_list (map req_size reqs)"
    "\<forall>p\<in>set resps. 0 \<le> total_latency p"
proof -
  have l: "list_all2 served reqs resps" using fetch_served [OF assms(1,2)] assms(3) by auto
  then show "map segment_id resps = map req_id reqs" "length resps = length reqs"
    "sum_list (map bytes_received resps) = sum_list (map req_size reqs)"
    by (induction rule: list_all2_induct) (simp_all add: served_def)
  from l show "\<forall>p\<in>set resps. 0 \<le> total_latency p"
    by (induction rule: list_all2_induct) (auto simp: served_def)
qed

text \<open>Batches fetched one after the other.\<close>

fun fetch_seq :: "segment_request list list \<Rightarrow> 's \<Rightarrow> (call_error + segment_response list) \<times> 's" where
  "fetch_seq [] s = (Inr [], s)"
| "fetch_seq (b # bs) s = (case fetch b s of
     (Inl e, s1) \<Rightarrow> (Inl e, s1)
   | (Inr ps, s1) \<Rightarrow> (case fetch_seq bs s1 of (Inl e, s2) \<Rightarrow> (Inl e, s2) | (Inr qs, s2) \<Rightarrow> (Inr (ps @ qs), s2)))"

lemma fetch_seq_served:
  assumes "inv s" "\<forall>b\<in>set bs. batch_ok b"
  shows "\<exists>resps. fst (fetch_seq bs s) = Inr resps \<and> list_all2 served (concat bs) resps \<and> inv (snd (fetch_seq bs s))"
  using assms
proof (induction bs arbitrary: s)
  case (Cons b bs)
  obtain ps s1 where f: "fetch b s = (Inr ps, s1)" and l: "list_all2 served b ps"
    using fetch_served [of s b] Cons.prems by (metis list.set_intros(1) prod.collapse)
  have "inv s1" using fetch_inv [OF Cons.prems(1), of b] f by simp
  with Cons.IH [of s1] Cons.prems(2) obtain qs where
    q: "fst (fetch_seq bs s1) = Inr qs" "list_all2 served (concat bs) qs" "inv (snd (fetch_seq bs s1))" by auto
  with f l show ?case by (auto intro: list_all2_appendI split: prod.split)
qed simp

end

end
