(* ===== verification/Congestion.thy ===== *)
theory Congestion
  imports Float64
begin

text \<open>
  \<open>internal/transport/modeled/congestion.go\<close>: the per-round-trip Reno model. The transfer loop
  counts round trips; the theorems bound the count, give it exactly without loss, and show that
  loss never makes a transfer faster.
\<close>

section \<open>The controller\<close>

definition default_mss :: int where "default_mss = 1460"
definition initial_cwnd :: int where "initial_cwnd = 10"

record congestion =
  cc_cwnd :: int
  cc_ssthresh :: int
  cc_mss :: int
  cc_rtt :: duration
  in_slow_start :: bool

definition new_congestion_controller :: "duration \<Rightarrow> congestion" where
  "new_congestion_controller rtt = \<lparr>cc_cwnd = initial_cwnd * default_mss, cc_ssthresh = 2 ^ 30, cc_mss = default_mss,
     cc_rtt = rtt, in_slow_start = True\<rparr>"

text \<open>The inner loop: consume the loss offsets below the window's end, and report whether one of them
  lies in the window. The index \<open>lossIdx\<close> is the rest of the list.\<close>

fun scan_losses :: "int \<Rightarrow> int \<Rightarrow> int list \<Rightarrow> bool \<times> int list" where
  "scan_losses ws we [] = (False, [])"
| "scan_losses ws we (l # ls) = (if l < we
     then (let (hit, rest) = scan_losses ws we ls in (ws \<le> l \<or> hit, rest))
     else (False, l # ls))"

definition on_loss :: "int \<Rightarrow> int \<Rightarrow> int" where
  "on_loss mss cwnd = (let s = go_quot cwnd 2 in if s < 2 * mss then 2 * mss else s)"

definition grow :: "int \<Rightarrow> int \<Rightarrow> int \<Rightarrow> int" where
  "grow mss cwnd ssthresh = (if cwnd < ssthresh then cwnd * 2 else cwnd + mss)"

text \<open>The outer loop \<open>for sent < totalBytes\<close>, with the number of round trips so far.\<close>

function rtt_loop :: "int \<Rightarrow> int \<Rightarrow> int \<Rightarrow> int \<Rightarrow> int \<Rightarrow> int \<Rightarrow> int list \<Rightarrow> int" where
  "rtt_loop mss tot cwnd ssthresh sent rtts losses = (if sent < tot then
      (let remaining = tot - sent; to_send = (if cwnd > remaining then remaining else cwnd)
       in if to_send \<le> 0 then rtts
          else let we = sent + to_send; (hit, rest) = scan_losses sent we losses
            in if hit then rtt_loop mss tot (on_loss mss cwnd) (on_loss mss cwnd) we (rtts + 2) rest
               else rtt_loop mss tot (grow mss cwnd ssthresh) ssthresh we (rtts + 1) rest)
    else rtts)"
  by pat_completeness auto
termination
  by (relation "measure (\<lambda>(mss, tot, cwnd, ssthresh, sent, rtts, losses). nat (tot - sent))")
    (auto split: if_splits)

declare rtt_loop.simps [simp del]

definition transfer_rtts :: "congestion \<Rightarrow> int \<Rightarrow> int list \<Rightarrow> int" where
  "transfer_rtts c tot losses = rtt_loop (cc_mss c) tot (cc_cwnd c) (cc_ssthresh c) 0 0 losses"

definition transfer_time :: "congestion \<Rightarrow> int \<Rightarrow> int list \<Rightarrow> duration" where
  "transfer_time c tot losses = (if tot \<le> 0 then 0 else transfer_rtts c tot losses * cc_rtt c)"

section \<open>The loop\<close>

lemma rtt_loop_done: "tot \<le> sent \<Longrightarrow> rtt_loop mss tot cwnd ss sent rtts ls = rtts"
  by (subst rtt_loop.simps) simp

lemma rtt_loop_round:
  assumes "sent < tot" "0 < cwnd"
  defines "we \<equiv> sent + min cwnd (tot - sent)"
  shows "rtt_loop mss tot cwnd ss sent rtts ls =
    (if fst (scan_losses sent we ls)
     then rtt_loop mss tot (on_loss mss cwnd) (on_loss mss cwnd) we (rtts + 2) (snd (scan_losses sent we ls))
     else rtt_loop mss tot (grow mss cwnd ss) ss we (rtts + 1) (snd (scan_losses sent we ls)))"
proof -
  have "(if cwnd > tot - sent then tot - sent else cwnd) = min cwnd (tot - sent)" by simp
  moreover have "(min cwnd (tot - sent) \<le> 0) = False" using assms(1,2) by simp
  ultimately show ?thesis unfolding we_def using assms(1)
    by (subst rtt_loop.simps) (simp only: Let_def case_prod_unfold if_True if_False)
qed

lemma scan_none: "fst (scan_losses ws we []) = False" "snd (scan_losses ws we []) = []"
  by simp_all

lemma on_loss_bounds: "0 < mss \<Longrightarrow> 0 \<le> cwnd \<Longrightarrow> 2 * mss \<le> on_loss mss cwnd \<and> on_loss mss cwnd \<le> max (2 * mss) cwnd"
  by (auto simp: on_loss_def Let_def)

lemma grow_bounds: "0 < mss \<Longrightarrow> mss \<le> cwnd \<Longrightarrow> cwnd \<le> grow mss cwnd ss \<and> grow mss cwnd ss \<le> 2 * cwnd"
  by (simp add: grow_def)

text \<open>A round changes the window within fixed bounds, and costs one or two round trips.\<close>

lemma rtt_loop_induct [consumes 2, case_names done_ round]:
  assumes "0 < mss" "2 * mss \<le> cwnd"
    and "\<And>cwnd ss sent rtts ls. 2 * mss \<le> cwnd \<Longrightarrow> tot \<le> sent \<Longrightarrow> P cwnd ss sent rtts ls"
    and "\<And>cwnd ss sent rtts ls cwnd' ss' rtts' ls'. 2 * mss \<le> cwnd \<Longrightarrow> sent < tot \<Longrightarrow>
      2 * mss \<le> cwnd' \<Longrightarrow> cwnd' \<le> 2 * cwnd \<Longrightarrow> rtts + 1 \<le> rtts' \<Longrightarrow> rtts' \<le> rtts + 2 \<Longrightarrow>
      rtt_loop mss tot cwnd ss sent rtts ls =
        rtt_loop mss tot cwnd' ss' (sent + min cwnd (tot - sent)) rtts' ls' \<Longrightarrow>
      P cwnd' ss' (sent + min cwnd (tot - sent)) rtts' ls' \<Longrightarrow> P cwnd ss sent rtts ls"
  shows "P cwnd ss sent rtts ls"
  using assms(2)
proof (induction "nat (tot - sent)" arbitrary: cwnd ss sent rtts ls rule: less_induct)
  case (less sent cwnd ss rtts ls)
  show ?case
  proof (cases "sent < tot")
    case True
    let ?we = "sent + min cwnd (tot - sent)"
    have pos: "0 < cwnd" using less.prems assms(1) by simp
    have smaller: "nat (tot - ?we) < nat (tot - sent)" using True pos by simp
    note round = rtt_loop_round [OF True pos, of mss ss rtts ls]
    show ?thesis
    proof (cases "fst (scan_losses sent ?we ls)")
      case hit: True
      have "2 * mss \<le> on_loss mss cwnd" "on_loss mss cwnd \<le> 2 * cwnd"
        using on_loss_bounds [of mss cwnd] assms(1) less.prems by auto
      with less.hyps [OF smaller] hit round True less.prems show ?thesis
        by (intro assms(4) [where cwnd' = "on_loss mss cwnd" and ss' = "on_loss mss cwnd" and rtts' = "rtts + 2"
              and ls = ls and ls' = "snd (scan_losses sent ?we ls)"]) simp_all
    next
      case False
      have "2 * mss \<le> grow mss cwnd ss" "grow mss cwnd ss \<le> 2 * cwnd"
        using grow_bounds [of mss cwnd ss] assms(1) less.prems by auto
      with less.hyps [OF smaller] False round True less.prems show ?thesis
        by (intro assms(4) [where cwnd' = "grow mss cwnd ss" and ss' = ss and rtts' = "rtts + 1"
              and ls = ls and ls' = "snd (scan_losses sent ?we ls)"]) simp_all
    qed
  qed (use assms(3) less.prems in simp)
qed

text \<open>Every round moves a window of at least two segments, so the count is linear in the bytes left.\<close>

lemma rtt_loop_upper:
  assumes "0 < mss" "2 * mss \<le> cwnd" "sent \<le> tot"
  shows "rtt_loop mss tot cwnd ss sent rtts ls \<le> rtts + 2 * ((tot - sent + 2 * mss - 1) div (2 * mss))"
  using assms
proof (induction cwnd ss sent rtts ls rule: rtt_loop_induct [where mss = mss and tot = tot])
  case (done_ cwnd ss sent rtts ls)
  then show ?case using assms(1) by (simp add: rtt_loop_done pos_imp_zdiv_nonneg_iff)
next
  case (round cwnd ss sent rtts ls cwnd' ss' rtts' ls')
  let ?m = "2 * mss" let ?we = "sent + min cwnd (tot - sent)"
  have "(tot - ?we + ?m - 1) div ?m + 1 \<le> (tot - sent + ?m - 1) div ?m"
  proof (cases "cwnd \<le> tot - sent")
    case True
    have "(tot - sent - cwnd + ?m - 1) div ?m + 1 = (tot - sent - cwnd + ?m - 1 + ?m) div ?m"
      using assms(1) div_add_self2 [of ?m "tot - sent - cwnd + ?m - 1"] by linarith
    also have "\<dots> \<le> (tot - sent + ?m - 1) div ?m" using assms(1) round(1) by (intro zdiv_mono1) simp_all
    finally show ?thesis using True by (simp add: algebra_simps)
  next
    case False
    have "1 * ?m \<le> tot - sent + ?m - 1" using round(2) by simp
    then have "1 \<le> (tot - sent + ?m - 1) div ?m" using assms(1) by (metis div_by_1 zdiv_mono1 nonzero_mult_div_cancel_right less_numeral_extra(3) mult_pos_pos zero_less_numeral)
    moreover have "(?m - 1) div ?m = 0" using assms(1) by simp
    ultimately show ?thesis using False by simp
  qed
  moreover have "?we \<le> tot" by simp
  ultimately show ?case using round(6,7) round(8) by linarith
qed

lemma rtt_loop_mono:
  assumes "0 < mss" "2 * mss \<le> cwnd"
  shows "rtts \<le> rtt_loop mss tot cwnd ss sent rtts ls"
  using assms
proof (induction cwnd ss sent rtts ls rule: rtt_loop_induct [where mss = mss and tot = tot])
  case (done_ cwnd ss sent rtts ls)
  then show ?case by (simp add: rtt_loop_done)
qed simp

text \<open>The window at most doubles per round, so k + 1 rounds are needed for more than the bytes of k.\<close>

lemma rtt_loop_lower:
  assumes "0 < mss" "2 * mss \<le> cwnd" "sent + cwnd * (2 ^ k - 1) < tot"
  shows "rtts + int k + 1 \<le> rtt_loop mss tot cwnd ss sent rtts ls"
  using assms
proof (induction cwnd ss sent rtts ls arbitrary: k rule: rtt_loop_induct [where mss = mss and tot = tot])
  case (done_ cwnd ss sent rtts ls)
  have "0 \<le> cwnd * (2 ^ k - 1)" using done_(1) assms(1) by simp
  with done_ show ?case by simp
next
  case (round cwnd ss sent rtts ls cwnd' ss' rtts' ls')
  let ?we = "sent + min cwnd (tot - sent)"
  show ?case
  proof (cases k)
    case 0
    from rtt_loop_mono [OF assms(1) round(3), of rtts' tot ss' ?we ls'] round(5,7) 0 show ?thesis by simp
  next
    case (Suc j)
    have "cwnd' * (2 ^ j - 1) \<le> (2 * cwnd) * (2 ^ j - 1)" using round(4) by (intro mult_right_mono) simp_all
    then have "sent + cwnd + cwnd' * (2 ^ j - 1) \<le> sent + cwnd * (2 ^ k - 1)" by (simp add: Suc algebra_simps)
    then have "?we + cwnd' * (2 ^ j - 1) < tot" using round.prems by linarith
    from round.IH [OF this] round(5,7) show ?thesis by (simp add: Suc)
  qed
qed

text \<open>Without loss and in slow start, k rounds move cwnd (2^k - 1) bytes.\<close>

lemma rtt_loop_slow_start:
  assumes "0 < cwnd" "tot \<le> sent + cwnd * (2 ^ k - 1)" "cwnd * 2 ^ k \<le> 2 * ss"
  shows "rtt_loop mss tot cwnd ss sent rtts [] \<le> rtts + int k"
  using assms
proof (induction k arbitrary: cwnd sent rtts)
  case 0
  then show ?case by (simp add: rtt_loop_done)
next
  case (Suc k)
  show ?case
  proof (cases "sent < tot")
    case True
    let ?we = "sent + min cwnd (tot - sent)"
    have step: "rtt_loop mss tot cwnd ss sent rtts [] = rtt_loop mss tot (grow mss cwnd ss) ss ?we (rtts + 1) []"
      using rtt_loop_round [OF True Suc.prems(1)] by simp
    show ?thesis
    proof (cases "cwnd < ss")
      case True
      have "tot \<le> ?we + (2 * cwnd) * (2 ^ k - 1)" using Suc.prems by (auto simp: algebra_simps min_def)
      moreover have "(2 * cwnd) * 2 ^ k \<le> 2 * ss" using Suc.prems(3) by simp
      ultimately have "rtt_loop mss tot (2 * cwnd) ss ?we (rtts + 1) [] \<le> rtts + 1 + int k"
        using Suc.prems(1) by (intro Suc.IH) simp_all
      with True step show ?thesis by (simp add: grow_def mult.commute)
    next
      case False
      have "k = 0"
      proof (rule ccontr)
        assume "k \<noteq> 0"
        then have "(2 :: int) ^ 2 \<le> 2 ^ Suc k" by (intro power_increasing) simp_all
        then have "4 * cwnd \<le> cwnd * 2 ^ Suc k" using Suc.prems(1) by simp
        with Suc.prems(1,3) False show False by linarith
      qed
      with Suc.prems(2) have "?we = tot" by (simp add: min_def)
      with step \<open>k = 0\<close> show ?thesis by (simp add: rtt_loop_done)
    qed
  qed (simp add: rtt_loop_done)
qed

section \<open>Loss windows\<close>

lemma scan_losses_sorted:
  assumes "sorted ls"
  shows "fst (scan_losses ws we ls) \<longleftrightarrow> (\<exists>l\<in>set ls. ws \<le> l \<and> l < we)"
    and "snd (scan_losses ws we ls) = filter (\<lambda>l. we \<le> l) ls"
proof -
  have keep: "filter ((\<le>) we) ls = ls" if "\<forall>x\<in>set ls. a \<le> x" "we \<le> a" for a and ls :: "int list"
    using that by (force simp: filter_id_conv)
  show "fst (scan_losses ws we ls) \<longleftrightarrow> (\<exists>l\<in>set ls. ws \<le> l \<and> l < we)"
    using assms by (induction ls) (auto simp: case_prod_unfold)
  show "snd (scan_losses ws we ls) = filter (\<lambda>l. we \<le> l) ls"
    using assms by (induction ls) (auto simp: case_prod_unfold keep)
qed

text \<open>A loss anywhere in the transfer costs one more round trip than the lower bound without it.\<close>

lemma rtt_loop_loss:
  assumes "0 < mss" "2 * mss \<le> cwnd" "sent + cwnd * (2 ^ k - 1) < tot" "sorted ls" "l \<in> set ls" "sent \<le> l" "l < tot"
  shows "rtts + int k + 2 \<le> rtt_loop mss tot cwnd ss sent rtts ls"
  using assms(2-)
proof (induction k arbitrary: cwnd ss sent rtts ls)
  case (0 cwnd ss sent rtts ls)
  then show ?case
  proof (induction "nat (tot - sent)" arbitrary: cwnd ss sent rtts ls rule: less_induct)
    case (less sent cwnd ss rtts ls)
    let ?we = "sent + min cwnd (tot - sent)"
    have lt: "sent < tot" and pos: "0 < cwnd" using less.prems assms(1) by simp_all
    note round = rtt_loop_round [OF lt pos, of mss ss rtts ls]
    note sc = scan_losses_sorted [OF less.prems(3)]
    show ?case
    proof (cases "fst (scan_losses sent ?we ls)")
      case True
      have "2 * mss \<le> on_loss mss cwnd" using on_loss_bounds [of mss cwnd] assms(1) pos by simp
      from rtt_loop_mono [OF assms(1) this] True round show ?thesis by (simp add: add.commute)
    next
      case False
      then have out: "?we \<le> l" using less.prems(4,5) sc(1) by force
      have "2 * mss \<le> grow mss cwnd ss" using grow_bounds [of mss cwnd ss] assms(1) less.prems(1) by linarith
      moreover have "nat (tot - ?we) < nat (tot - sent)" using lt pos by simp
      moreover have "sorted (snd (scan_losses sent ?we ls))" "l \<in> set (snd (scan_losses sent ?we ls))"
        using less.prems(3,4) out by (simp_all add: sc(2) sorted_wrt_filter)
      ultimately have "rtts + 1 + int 0 + 2 \<le> rtt_loop mss tot (grow mss cwnd ss) ss ?we (rtts + 1) (snd (scan_losses sent ?we ls))"
        using out less.prems(6) by (intro less.hyps) simp_all
      with False round show ?thesis by simp
    qed
  qed
next
  case (Suc k cwnd ss sent rtts ls)
  let ?we = "sent + min cwnd (tot - sent)"
  have pos: "0 < cwnd" using Suc.prems assms(1) by simp
  have lt: "sent < tot" using Suc.prems(5,6) by simp
  note round = rtt_loop_round [OF lt pos, of mss ss rtts ls]
  note sc = scan_losses_sorted [OF Suc.prems(3)]
  have room: "?we + cwnd' * (2 ^ k - 1) < tot" if "cwnd' \<le> 2 * cwnd" for cwnd'
  proof -
    have "cwnd' * (2 ^ k - 1) \<le> (2 * cwnd) * (2 ^ k - 1)" using that by (intro mult_right_mono) simp_all
    then have "sent + cwnd + cwnd' * (2 ^ k - 1) \<le> sent + cwnd * (2 ^ Suc k - 1)" by (simp add: algebra_simps)
    then show ?thesis using Suc.prems(2) by linarith
  qed
  show ?case
  proof (cases "fst (scan_losses sent ?we ls)")
    case True
    have b: "2 * mss \<le> on_loss mss cwnd" "on_loss mss cwnd \<le> 2 * cwnd"
      using on_loss_bounds [of mss cwnd] assms(1) Suc.prems(1) by auto
    from rtt_loop_lower [OF assms(1) b(1) room [OF b(2)], of "rtts + 2"] True round show ?thesis by simp
  next
    case False
    then have out: "?we \<le> l" using Suc.prems(4,5) sc(1) by force
    have b: "2 * mss \<le> grow mss cwnd ss" "grow mss cwnd ss \<le> 2 * cwnd"
      using grow_bounds [of mss cwnd ss] assms(1) Suc.prems(1) by auto
    have "sorted (snd (scan_losses sent ?we ls))" "l \<in> set (snd (scan_losses sent ?we ls))"
      using Suc.prems(3,4) out by (simp_all add: sc(2) sorted_wrt_filter)
    then have "rtts + 1 + int k + 2 \<le> rtt_loop mss tot (grow mss cwnd ss) ss ?we (rtts + 1) (snd (scan_losses sent ?we ls))"
      using b room [OF b(2)] out Suc.prems(6) by (intro Suc.IH) simp_all
    with False round show ?thesis by simp
  qed
qed

section \<open>Transfer times\<close>

lemma new_rtts:
  "transfer_rtts (new_congestion_controller rtt) tot ls = rtt_loop 1460 tot 14600 (2 ^ 30) 0 0 ls"
  by (simp add: transfer_rtts_def new_congestion_controller_def initial_cwnd_def default_mss_def)

lemma new_rtt [simp]: "cc_rtt (new_congestion_controller rtt) = rtt"
  by (simp add: new_congestion_controller_def)

text \<open>The rounds a loss-free transfer needs, for sizes that finish in slow start.\<close>

lemma rounds_exist:
  assumes "0 < tot" "tot \<le> 14600 * (2 ^ 17 - 1)"
  obtains k where "k < 17" "14600 * (2 ^ k - 1) < tot" "tot \<le> (14600 :: int) * (2 ^ Suc k - 1)"
proof -
  let ?P = "\<lambda>k. tot \<le> (14600 :: int) * (2 ^ k - 1)"
  have ex: "?P (LEAST k. ?P k)" and least: "(LEAST k. ?P k) \<le> 17"
    using LeastI [of ?P 17] Least_le [of ?P 17] assms(2) by simp_all
  have "(LEAST k. ?P k) \<noteq> 0" using ex assms(1) by (intro notI) simp
  then obtain k where k: "(LEAST k. ?P k) = Suc k" by (cases "LEAST k. ?P k") simp_all
  then have "\<not> ?P k" by (intro not_less_Least) simp
  with ex least k show thesis by (intro that [of k]) simp_all
qed

lemma new_rtts_no_loss:
  assumes "14600 * (2 ^ k - 1) < tot" "tot \<le> 14600 * (2 ^ Suc k - 1)" "k < 17"
  shows "transfer_rtts (new_congestion_controller rtt) tot [] = int (Suc k)"
proof -
  have "(2 :: int) ^ Suc k \<le> 2 ^ 17" using assms(3) by (intro power_increasing) simp_all
  then have "14600 * 2 ^ Suc k \<le> 2 * (2 :: int) ^ 30" by simp
  then have "rtt_loop 1460 tot 14600 (2 ^ 30) 0 0 [] \<le> 0 + int (Suc k)"
    using assms(2) by (intro rtt_loop_slow_start) simp_all
  moreover have "0 + int k + 1 \<le> rtt_loop 1460 tot 14600 (2 ^ 30) 0 0 []"
    using assms(1) by (intro rtt_loop_lower) simp_all
  ultimately show ?thesis by (simp add: new_rtts)
qed

text \<open>The loss-free transfer follows slow start exactly: a transfer that more than k and at most k + 1
  doubling windows can carry, for k below 17 (up to 1.9 GB), takes k + 1 round trips.\<close>

lemma transfer_time_slow_start:
  assumes "14600 * (2 ^ k - 1) < tot" "tot \<le> 14600 * (2 ^ Suc k - 1)" "k < 17"
  shows "transfer_time (new_congestion_controller rtt) tot [] = int (Suc k) * rtt"
proof -
  have "(0 :: int) \<le> 14600 * (2 ^ k - 1)" by simp
  then have "0 < tot" using assms(1) by linarith
  then show ?thesis using new_rtts_no_loss [OF assms] by (simp add: transfer_time_def)
qed

text \<open>C38: Loss never speeds a transfer up. For sizes up to 1.9 GB and any offsets the lossy transfer takes
  at least the loss-free time, and at least one round trip more when one of the (sorted) offsets lies
  in the transfer.\<close>

theorem loss_slows_transfer:
  assumes "0 < tot" "tot \<le> 14600 * (2 ^ 17 - 1)" "0 \<le> rtt"
  shows "transfer_time (new_congestion_controller rtt) tot []
      + (if sorted losses \<and> (\<exists>l\<in>set losses. 0 \<le> l \<and> l < tot) then rtt else 0)
    \<le> transfer_time (new_congestion_controller rtt) tot losses"
proof -
  obtain k where k: "k < 17" "14600 * (2 ^ k - 1) < tot" "tot \<le> 14600 * (2 ^ Suc k - 1)"
    using rounds_exist [OF assms(1,2)] by metis
  let ?lost = "sorted losses \<and> (\<exists>l\<in>set losses. 0 \<le> l \<and> l < tot)"
  have rounds: "int (Suc k) + (if ?lost then 1 else 0) \<le> transfer_rtts (new_congestion_controller rtt) tot losses"
  proof (cases ?lost)
    case True
    then obtain l where l: "l \<in> set losses" "0 \<le> l" "l < tot" by blast
    have "0 + int k + 2 \<le> rtt_loop 1460 tot 14600 (2 ^ 30) 0 0 losses"
      using k(2) True l by (intro rtt_loop_loss [of _ _ _ _ _ _ l]) simp_all
    with True show ?thesis unfolding new_rtts by simp
  next
    case False
    have "0 + int k + 1 \<le> rtt_loop 1460 tot 14600 (2 ^ 30) 0 0 losses"
      using k(2) by (intro rtt_loop_lower) simp_all
    with False show ?thesis unfolding new_rtts by (simp only: if_False)
  qed
  have "transfer_time (new_congestion_controller rtt) tot [] + (if ?lost then rtt else 0)
      = (int (Suc k) + (if ?lost then 1 else 0)) * rtt"
    using new_rtts_no_loss [OF k(2,3,1), of rtt] assms(1)
    by (cases ?lost) (simp_all only: if_True if_False, simp_all add: transfer_time_def algebra_simps)
  with mult_right_mono [OF rounds assms(3)] show ?thesis
    using assms(1) by (simp add: transfer_time_def [of _ _ losses])
qed

theorem loss_slows_transfer_witness:
  "transfer_time (new_congestion_controller 50) 40000 [] + 50 \<le> transfer_time (new_congestion_controller 50) 40000 [1460]"
  using loss_slows_transfer [of 40000 50 "[1460]"] by simp

lemma transfer_time_range:
  assumes "0 < tot" "0 \<le> rtt"
  shows "rtt \<le> transfer_time (new_congestion_controller rtt) tot losses
    \<and> transfer_time (new_congestion_controller rtt) tot losses \<le> 2 * ((tot + 2919) div 2920) * rtt"
proof -
  let ?n = "rtt_loop 1460 tot 14600 (2 ^ 30) 0 0 losses"
  have "0 + int 0 + 1 \<le> ?n" using assms(1) by (intro rtt_loop_lower) simp_all
  moreover have "?n \<le> 0 + 2 * ((tot - 0 + 2 * 1460 - 1) div (2 * 1460))"
    using assms(1) by (intro rtt_loop_upper) simp_all
  moreover have "tot - 0 + 2 * 1460 - 1 = tot + 2919" "2 * 1460 = (2920 :: int)" by simp_all
  ultimately have "1 \<le> ?n" "?n \<le> 2 * ((tot + 2919) div 2920)" by (simp_all only: add_0 of_nat_0)
  from mult_right_mono [OF this(1) assms(2)] mult_right_mono [OF this(2) assms(2)] show ?thesis
    using assms(1) by (simp add: transfer_time_def new_rtts)
qed

text \<open>Every transfer ends, in at least one round trip and at most two per 2920 bytes, the smallest
  window the controller falls to, whatever the losses.\<close>

lemma transfer_time_bounds:
  assumes "0 < tot" "0 \<le> rtt"
  shows "rtt \<le> transfer_time (new_congestion_controller rtt) tot losses
    \<and> transfer_time (new_congestion_controller rtt) tot losses \<le> 2 * ((tot + 2919) div 2920) * rtt"
  using assms by (rule transfer_time_range)

lemma transfer_time_nonneg: "0 \<le> rtt \<Longrightarrow> 0 \<le> transfer_time (new_congestion_controller rtt) tot ls"
  using rtt_loop_mono [of 1460 14600 0 tot "2 ^ 30" 0 ls] by (simp add: transfer_time_def new_rtts)

end
