(* ===== verification/Bandwidth.thy ===== *)
theory Bandwidth
  imports Rand
begin

text \<open>
  \<open>internal/transport/modeled/bandwidth.go\<close>: traces of constant-rate intervals, generated by a
  three-state Markov chain, and their lookup.
\<close>

section \<open>Traces\<close>

record bw_interval =
  duration_ms :: int
  bandwidth_mbps :: real

type_synonym bw_trace = "bw_interval list"

definition new_bandwidth_trace :: "bw_interval list \<Rightarrow> bw_trace" where
  "new_bandwidth_trace ivs = ivs"

text \<open>The transition rows LOW, MED, HIGH, as \<open>float64\<close> literals.\<close>

definition trans_rows :: "real list list" where
  "trans_rows = [[fl (7/10), fl (1/4), fl (1/20)], [fl (3/20), fl (7/10), fl (3/20)], [fl (1/20), fl (1/4), fl (7/10)]]"

text \<open>The loop over \<open>next\<close>: the first state whose cumulative probability reaches the draw; the state
  stays when none does.\<close>

fun next_state :: "real \<Rightarrow> real \<Rightarrow> nat \<Rightarrow> nat \<Rightarrow> real list \<Rightarrow> nat" where
  "next_state r cum state nxt [] = state"
| "next_state r cum state nxt (p # ps) = (let cum' = fadd cum p in
     if r \<le> cum' then nxt else next_state r cum' state (Suc nxt) ps)"

text \<open>The generation loop; \<open>Intn\<close> returns a value that keeps every interval at least one second long
  (or the rest of the trace), which is what ends it. The fuel is the number of intervals still allowed.\<close>

fun trace_loop :: "'g rand_ops \<Rightarrow> real list \<Rightarrow> int \<Rightarrow> nat \<Rightarrow> int \<Rightarrow> nat \<Rightarrow> 'g \<Rightarrow> (bw_interval list \<times> 'g) option" where
  "trace_loop R bw target fuel elapsed state g = (if elapsed < target then
      (case fuel of 0 \<Rightarrow> None
       | Suc fuel' \<Rightarrow>
         let (n, g1) = r_intn R 4000 g;
             d = (let d = 1000 + n in if elapsed + d > target then target - elapsed else d);
             (r, g2) = r_float64 R g1;
             state' = next_state r 0 state 0 (trans_rows ! state)
         in (case trace_loop R bw target fuel' (elapsed + d) state' g2 of
               None \<Rightarrow> None
             | Some (ivs, g3) \<Rightarrow> Some (\<lparr>duration_ms = d, bandwidth_mbps = bw ! state\<rparr> # ivs, g3)))
    else Some ([], g))"

declare trace_loop.simps [simp del]

definition new_synthetic_trace :: "'g rand_ops \<Rightarrow> nat \<Rightarrow> int \<Rightarrow> real \<Rightarrow> real \<Rightarrow> 'g \<Rightarrow> (bw_trace \<times> 'g) option" where
  "new_synthetic_trace R fuel duration_sec base variability g = (if variability = 0
     then Some ([\<lparr>duration_ms = duration_sec * 1000, bandwidth_mbps = base\<rparr>], g)
     else let low = fmul base (fsub 1 variability); high = fmul base (fadd 1 variability)
       in trace_loop R [low, base, high] (duration_sec * 1000) fuel 0 1 g)"

fun find_interval :: "int \<Rightarrow> int \<Rightarrow> bw_interval list \<Rightarrow> real option" where
  "find_interval ms acc [] = None"
| "find_interval ms acc (iv # ivs) = (let acc' = acc + duration_ms iv in
     if ms < acc' then Some (bandwidth_mbps iv) else find_interval ms acc' ivs)"

definition bandwidth_at :: "bw_trace \<Rightarrow> duration \<Rightarrow> real" where
  "bandwidth_at bt t = (if bt = [] then 0
     else case find_interval (dur_milliseconds t) 0 bt of
         Some bw \<Rightarrow> bw | None \<Rightarrow> bandwidth_mbps (last bt))"

definition total_duration :: "bw_trace \<Rightarrow> duration" where
  "total_duration bt = foldl (\<lambda>acc iv. acc + duration_ms iv) 0 bt * millisecond"

section \<open>Generation\<close>

lemma next_state_less: "state < 3 \<Longrightarrow> nxt + length ps \<le> 3 \<Longrightarrow> next_state r cum state nxt ps < 3"
  by (induction r cum state nxt ps rule: next_state.induct) (simp_all add: Let_def)

lemma trans_row_length: "state < 3 \<Longrightarrow> length (trans_rows ! state) = 3"
  by (auto simp: trans_rows_def less_Suc_eq numeral_3_eq_3)

lemma next_state_row: "state < 3 \<Longrightarrow> next_state r 0 state 0 (trans_rows ! state) < 3"
  by (rule next_state_less) (simp_all add: trans_row_length)

lemma foldl_add_sum: "foldl (\<lambda>acc iv. acc + f iv) a xs = a + sum_list (map f xs)" for f :: "'a \<Rightarrow> int"
  by (induction xs arbitrary: a) (simp_all add: add.assoc)

text \<open>One interval per second of trace is enough fuel.\<close>

lemma trace_loop_spec:
  assumes "rand_ok R" "state < 3" "length bw = 3" "target - elapsed \<le> 1000 * int fuel"
  shows "\<exists>ivs g'. trace_loop R bw target fuel elapsed state g = Some (ivs, g')
    \<and> sum_list (map duration_ms ivs) = max 0 (target - elapsed)
    \<and> (\<forall>iv\<in>set ivs. 0 < duration_ms iv \<and> duration_ms iv \<le> 5000 \<and> bandwidth_mbps iv \<in> set bw)"
  using assms(2,4)
proof (induction fuel arbitrary: elapsed state g)
  case 0
  then show ?case by (simp add: trace_loop.simps)
next
  case (Suc fuel)
  show ?case
  proof (cases "elapsed < target")
    case True
    obtain n g1 where n: "r_intn R 4000 g = (n, g1)" by fastforce
    obtain r g2 where r: "r_float64 R g1 = (r, g2)" by fastforce
    have n_range: "0 \<le> n \<and> n < 4000" using assms(1) n unfolding rand_ok_def by (metis fst_conv zero_less_numeral)
    define d where "d = (let d = 1000 + n in if elapsed + d > target then target - elapsed else d)"
    have d: "0 < d" "d \<le> 5000" "elapsed + d \<le> target" "elapsed + d = target \<or> 1000 \<le> d"
      using True n_range by (auto simp: d_def Let_def)
    let ?s = "next_state r 0 state 0 (trans_rows ! state)"
    have "?s < 3" using Suc.prems(1) by (rule next_state_row)
    moreover have "target - (elapsed + d) \<le> 1000 * int fuel" using d Suc.prems(2) by auto
    ultimately obtain ivs g' where ih: "trace_loop R bw target fuel (elapsed + d) ?s g2 = Some (ivs, g')"
      "sum_list (map duration_ms ivs) = max 0 (target - (elapsed + d))"
      "\<forall>iv\<in>set ivs. 0 < duration_ms iv \<and> duration_ms iv \<le> 5000 \<and> bandwidth_mbps iv \<in> set bw"
      using Suc.IH by blast
    have "trace_loop R bw target (Suc fuel) elapsed state g =
        Some (\<lparr>duration_ms = d, bandwidth_mbps = bw ! state\<rparr> # ivs, g')"
      using True n r ih(1) by (subst trace_loop.simps) (simp add: d_def)
    moreover have "bw ! state \<in> set bw" using Suc.prems(1) assms(3) by simp
    ultimately show ?thesis using ih(2,3) d True by simp
  qed (simp add: trace_loop.simps)
qed

text \<open>C40: A synthetic trace covers exactly the requested time. With a non-zero variability the generator
  returns after at most one interval per second, the intervals are positive and at most five seconds
  long, their durations sum to the requested duration, and each has one of the three bandwidths.\<close>

theorem synthetic_trace_covers:
  assumes "rand_ok R" "0 \<le> secs" "v \<noteq> 0" "nat secs \<le> fuel"
  shows "\<exists>bt g'. new_synthetic_trace R fuel secs base v g = Some (bt, g')
    \<and> total_duration bt = secs * second
    \<and> (\<forall>iv\<in>set bt. 0 < duration_ms iv \<and> duration_ms iv \<le> 5000
        \<and> bandwidth_mbps iv \<in> {fmul base (fsub 1 v), base, fmul base (fadd 1 v)})"
proof -
  have "secs * 1000 - 0 \<le> 1000 * int fuel" using assms(2,4) by linarith
  from trace_loop_spec [OF assms(1) _ _ this, of 1 "[fmul base (fsub 1 v), base, fmul base (fadd 1 v)]" g]
  obtain bt g' where b: "trace_loop R [fmul base (fsub 1 v), base, fmul base (fadd 1 v)] (secs * 1000) fuel 0 1 g = Some (bt, g')"
    "sum_list (map duration_ms bt) = secs * 1000"
    "\<forall>iv\<in>set bt. 0 < duration_ms iv \<and> duration_ms iv \<le> 5000 \<and> bandwidth_mbps iv \<in> {fmul base (fsub 1 v), base, fmul base (fadd 1 v)}"
    using assms(2) by auto
  from b(2) have "total_duration bt = secs * second"
    by (simp add: total_duration_def foldl_add_sum duration_defs)
  with b(1,3) assms(3) show ?thesis by (simp add: new_synthetic_trace_def Let_def)
qed

theorem synthetic_trace_covers_witness:
  "\<exists>bt g'. new_synthetic_trace lcg 30 30 8 (1 / 4) 5 = Some (bt, g') \<and> total_duration bt = 30 * second"
  using synthetic_trace_covers [OF lcg_ok, of 30 "1 / 4" 30 8 5] by auto

section \<open>Lookup\<close>

lemma find_interval_mem: "find_interval ms acc ivs = Some b \<Longrightarrow> b \<in> bandwidth_mbps ` set ivs"
  by (induction ms acc ivs rule: find_interval.induct) (auto simp: Let_def split: if_splits)

lemma find_interval_at:
  assumes "\<forall>iv\<in>set ivs. 0 \<le> duration_ms iv" "i < length ivs"
    "acc + sum_list (map duration_ms (take i ivs)) \<le> ms" "ms < acc + sum_list (map duration_ms (take (Suc i) ivs))"
  shows "find_interval ms acc ivs = Some (bandwidth_mbps (ivs ! i))"
  using assms
proof (induction ivs arbitrary: i acc)
  case (Cons iv ivs)
  show ?case
  proof (cases i)
    case 0
    with Cons.prems show ?thesis by (simp add: Let_def)
  next
    case (Suc j)
    have "0 \<le> sum_list (map duration_ms (take j ivs))"
      using Cons.prems(1) by (intro sum_list_nonneg_map) (auto dest: in_set_takeD)
    with Cons.prems Suc Cons.IH [of j "acc + duration_ms iv"] show ?thesis by (simp add: Let_def algebra_simps)
  qed
qed simp

lemma find_interval_past:
  assumes "\<forall>iv\<in>set ivs. 0 \<le> duration_ms iv" "acc + sum_list (map duration_ms ivs) \<le> ms"
  shows "find_interval ms acc ivs = None"
  using assms
proof (induction ivs arbitrary: acc)
  case (Cons iv ivs)
  have "0 \<le> sum_list (map duration_ms ivs)" using Cons.prems(1) by (intro sum_list_nonneg_map) simp
  with Cons show ?case by (simp add: Let_def algebra_simps)
qed simp

text \<open>Bandwidth lookup is piecewise constant. At a time inside the i-th interval of a trace (bounds
  in whole milliseconds, the right one excluded) it returns that interval's rate, and past the end the
  last interval's.\<close>

lemma bandwidth_at_interval:
  assumes "\<forall>iv\<in>set bt. 0 \<le> duration_ms iv" "0 \<le> t" "i < length bt"
  shows "(sum_list (map duration_ms (take i bt)) \<le> dur_milliseconds t
        \<and> dur_milliseconds t < sum_list (map duration_ms (take (Suc i) bt)) \<longrightarrow> bandwidth_at bt t = bandwidth_mbps (bt ! i))
    \<and> (total_duration bt \<le> t \<longrightarrow> bandwidth_at bt t = bandwidth_mbps (last bt))"
proof (intro conjI impI)
  have ne: "bt \<noteq> []" using assms(3) by auto
  show "bandwidth_at bt t = bandwidth_mbps (bt ! i)"
    if "sum_list (map duration_ms (take i bt)) \<le> dur_milliseconds t
        \<and> dur_milliseconds t < sum_list (map duration_ms (take (Suc i) bt))"
    using find_interval_at [OF assms(1,3), of 0 "dur_milliseconds t"] that ne by (simp add: bandwidth_at_def)
  show "bandwidth_at bt t = bandwidth_mbps (last bt)" if "total_duration bt \<le> t"
  proof -
    have "sum_list (map duration_ms bt) * 1000000 \<le> t"
      using that by (simp add: total_duration_def foldl_add_sum duration_defs)
    then have "sum_list (map duration_ms bt) \<le> dur_milliseconds t"
      using assms(2) zdiv_mono1 [of "sum_list (map duration_ms bt) * 1000000" t 1000000]
      by (simp add: dur_milliseconds_def duration_defs)
    with find_interval_past [OF assms(1), of 0 "dur_milliseconds t"] ne show ?thesis
      by (simp add: bandwidth_at_def)
  qed
qed

end
