(* ===== verification/Modeled.thy ===== *)
theory Modeled
  imports Transport Congestion Bandwidth
begin

text \<open>
  \<open>internal/transport/modeled/tcp.go\<close> and \<open>quic.go\<close>: the two modeled transports over one loss,
  congestion and bandwidth model. Each state carries its generator, its loss simulator and its
  clock; \<open>ctx\<close> is the value of \<open>ctx.Err()\<close>. Both are instances of the transport interface.
\<close>

section \<open>Delivery steps both transports share\<close>

definition mtu_payload :: int where "mtu_payload = 1460"

definition packet_count :: "int \<Rightarrow> int" where
  "packet_count sz = f2i (fceil (fdiv (i2f sz) (i2f mtu_payload)))"

definition loss_offsets :: "int list \<Rightarrow> int list" where
  "loss_offsets losses = sort (map (\<lambda>idx. idx * mtu_payload) losses)"

definition bw_at :: "bw_trace option \<Rightarrow> network_profile \<Rightarrow> duration \<Rightarrow> real" where
  "bw_at tr p t = (case tr of Some bt \<Rightarrow> bandwidth_at bt t | None \<Rightarrow> profile_mbps p)"

definition bw_time :: "int \<Rightarrow> real \<Rightarrow> duration" where
  "bw_time bytes bw = (let bw = (if bw \<le> 0 then 1 else bw) in
     f2i (fmul (fdiv (i2f (bytes * 8)) (fmul bw 1000000)) (i2f second)))"

text \<open>The transfer is bounded by whichever of congestion window and link is slower.\<close>

definition conn_time :: "duration \<Rightarrow> int \<Rightarrow> int list \<Rightarrow> real \<Rightarrow> duration" where
  "conn_time rtt bytes offsets bw = (let t = transfer_time (new_congestion_controller rtt) bytes offsets;
     b = bw_time bytes bw in if b > t then b else t)"

definition goodput :: "int \<Rightarrow> duration \<Rightarrow> real" where
  "goodput sz t = (if t > 0 then fdiv (fdiv (i2f (sz * 8)) (dur_seconds t)) 1000000 else 0)"

section \<open>TCP\<close>

record 'g tcp =
  tcp_profile :: network_profile
  tcp_rng :: 'g
  tcp_loss :: "'g loss_sim"
  tcp_bandwidth :: "bw_trace option"
  tcp_wall_clock :: duration

definition tcp_protocol :: string where "tcp_protocol = ''tcp-h2''"

definition new_modeled_tcp :: "(int \<Rightarrow> 'g) \<Rightarrow> 'g rand_ops \<Rightarrow> network_profile \<Rightarrow> 'g \<Rightarrow> 'g tcp" where
  "new_modeled_tcp new_rng R p g = (let (seed, g') = r_int63 R g in
     \<lparr>tcp_profile = p, tcp_rng = g', tcp_loss = new_loss_simulator (loss_cfg p) (new_rng seed),
      tcp_bandwidth = None, tcp_wall_clock = 0\<rparr>)"

definition tcp_with_trace :: "bw_trace \<Rightarrow> 'g tcp \<Rightarrow> 'g tcp" where
  "tcp_with_trace bt s = s\<lparr>tcp_bandwidth := Some bt\<rparr>"

definition tcp_handshake :: "libm \<Rightarrow> 'g rand_ops \<Rightarrow> string option \<Rightarrow> bool \<Rightarrow> 'g tcp \<Rightarrow> (string + duration) \<times> 'g tcp" where
  "tcp_handshake M R ctx resumption s = (case ctx of Some e \<Rightarrow> (Inl e, s) | None \<Rightarrow>
     let rtt = rtt_duration (base_rtt_ms (tcp_profile s));
         base = (if resumption then rtt + go_quot rtt 2 else 2 * rtt);
         (j, g) = sample_jitter M R (jitter_ms (tcp_profile s)) (tcp_rng s)
     in (Inr (base + j), s\<lparr>tcp_rng := g\<rparr>))"

text \<open>\<open>computeDelivery\<close>: total latency, time to first byte and retransmissions of a single stream; \<open>None\<close> when the loss
  simulator panics, and so in the definitions below.\<close>

definition compute_delivery :: "libm \<Rightarrow> 'g rand_ops \<Rightarrow> int \<Rightarrow> 'g tcp \<Rightarrow> (duration \<times> duration \<times> int) option \<times> 'g tcp" where
  "compute_delivery M R sz s = (if sz \<le> 0 then (Some (0, 0, 0), s) else
     case simulate_packets R (packet_count sz) (tcp_loss s) of (None, sim) \<Rightarrow> (None, s\<lparr>tcp_loss := sim\<rparr>)
     | (Some losses, sim) \<Rightarrow> let
         rtt = rtt_duration (base_rtt_ms (tcp_profile s));
         transfer = conn_time rtt sz (loss_offsets losses) (bw_at (tcp_bandwidth s) (tcp_profile s) (tcp_wall_clock s));
         (j1, g1) = sample_jitter M R (jitter_ms (tcp_profile s)) (tcp_rng s);
         first = go_quot rtt 2 + j1;
         (j2, g2) = sample_jitter M R (jitter_ms (tcp_profile s)) g1
     in (Some (first + transfer + j2, first, int (length losses)), s\<lparr>tcp_loss := sim, tcp_rng := g2\<rparr>))"

definition tcp_fetch_segment :: "libm \<Rightarrow> 'g rand_ops \<Rightarrow> string option \<Rightarrow> segment_request \<Rightarrow> 'g tcp \<Rightarrow>
    (call_error + segment_response) \<times> 'g tcp" where
  "tcp_fetch_segment M R ctx req s = (case ctx of Some e \<Rightarrow> (Inl (Failed e), s) | None \<Rightarrow>
     (case compute_delivery M R (req_size req) s of (None, s1) \<Rightarrow> (Inl Panic, s1)
     | (Some (tot, first, retrans), s1) \<Rightarrow> (Inr (zero_response\<lparr>segment_id := req_id req, bytes_received := req_size req, ttfb := first,
           total_latency := tot, goodput_mbps := goodput (req_size req) tot, retransmit_count := retrans,
           protocol := tcp_protocol\<rparr>),
         s1\<lparr>tcp_wall_clock := tcp_wall_clock s1 + tot\<rparr>)))"

text \<open>The share of a stream in a loss-free connection. With zero total bytes the code divides zero by
  zero, and converts the resulting NaN to the smallest 64-bit integer.\<close>

definition share_time :: "duration \<Rightarrow> int \<Rightarrow> int \<Rightarrow> duration" where
  "share_time conn sz tot = (if tot = 0 then int64_min
     else f2i (fmul (i2f conn) (fdiv (i2f sz) (i2f tot))))"

text \<open>The loop over the requests: \<open>lost\<close> is the number of losses, \<open>conn\<close> the connection's time.\<close>

fun tcp_streams :: "libm \<Rightarrow> 'g rand_ops \<Rightarrow> network_profile \<Rightarrow> duration \<Rightarrow> duration \<Rightarrow> int \<Rightarrow> int \<Rightarrow>
    segment_request list \<Rightarrow> 'g \<Rightarrow> segment_response list \<times> 'g" where
  "tcp_streams M R p rtt conn lost tot [] g = ([], g)"
| "tcp_streams M R p rtt conn lost tot (r # rs) g = (let
       (j1, g1) = sample_jitter M R (jitter_ms p) g;
       first = go_quot rtt 2 + j1;
       stream = (if lost > 0 then conn else share_time conn (req_size r) tot);
       (j2, g2) = sample_jitter M R (jitter_ms p) g1;
       t = first + stream + j2;
       (out, g3) = tcp_streams M R p rtt conn lost tot rs g2
     in (zero_response\<lparr>segment_id := req_id r, bytes_received := req_size r, ttfb := first,
           total_latency := t, goodput_mbps := goodput (req_size r) t, retransmit_count := lost,
           hol_block_events := lost, protocol := tcp_protocol\<rparr> # out, g3))"

definition tcp_fetch :: "libm \<Rightarrow> 'g rand_ops \<Rightarrow> string option \<Rightarrow> segment_request list \<Rightarrow> 'g tcp \<Rightarrow>
    (call_error + segment_response list) \<times> 'g tcp" where
  "tcp_fetch M R ctx reqs s = (case ctx of Some e \<Rightarrow> (Inl (Failed e), s) | None \<Rightarrow>
     if reqs = [] then (Inr [], s) else
     let tot = sum_list (map req_size reqs) in
     case simulate_packets R (packet_count tot) (tcp_loss s) of (None, sim) \<Rightarrow> (Inl Panic, s\<lparr>tcp_loss := sim\<rparr>)
     | (Some losses, sim) \<Rightarrow> let
         rtt = rtt_duration (base_rtt_ms (tcp_profile s));
         conn = conn_time rtt tot (loss_offsets losses) (bw_at (tcp_bandwidth s) (tcp_profile s) (tcp_wall_clock s));
         (out, g) = tcp_streams M R (tcp_profile s) rtt conn (int (length losses)) tot reqs (tcp_rng s)
     in (Inr out, s\<lparr>tcp_loss := sim, tcp_rng := g, tcp_wall_clock := tcp_wall_clock s + conn\<rparr>))"

section \<open>QUIC\<close>

record 'g quic =
  quic_profile :: network_profile
  quic_rng :: 'g
  quic_loss :: "'g loss_sim"
  zero_rtt_rate :: real
  quic_bandwidth :: "bw_trace option"
  quic_wall_clock :: duration

definition quic_protocol :: string where "quic_protocol = ''quic-h3''"

definition new_modeled_quic :: "(int \<Rightarrow> 'g) \<Rightarrow> 'g rand_ops \<Rightarrow> network_profile \<Rightarrow> real \<Rightarrow> 'g \<Rightarrow> 'g quic" where
  "new_modeled_quic new_rng R p rate g = (let
       rate = (if rate < 0 then 0 else rate);
       rate = (if rate > 1 then 1 else rate);
       (seed, g') = r_int63 R g
     in \<lparr>quic_profile = p, quic_rng = g', quic_loss = new_loss_simulator (loss_cfg p) (new_rng seed),
         zero_rtt_rate = rate, quic_bandwidth = None, quic_wall_clock = 0\<rparr>)"

definition quic_with_trace :: "bw_trace \<Rightarrow> 'g quic \<Rightarrow> 'g quic" where
  "quic_with_trace bt s = s\<lparr>quic_bandwidth := Some bt\<rparr>"

text \<open>A resumption draws once for 0-RTT; a full handshake does not draw (the code's \<open>&&\<close>).\<close>

definition quic_handshake :: "libm \<Rightarrow> 'g rand_ops \<Rightarrow> string option \<Rightarrow> bool \<Rightarrow> 'g quic \<Rightarrow> (string + duration) \<times> 'g quic" where
  "quic_handshake M R ctx resumption s = (case ctx of Some e \<Rightarrow> (Inl e, s) | None \<Rightarrow>
     let rtt = rtt_duration (base_rtt_ms (quic_profile s));
         (base, g1) = (if resumption then (let (x, g) = r_float64 R (quic_rng s) in
                         (if x < zero_rtt_rate s then 0 else rtt, g))
                       else (rtt, quic_rng s));
         (j, g2) = sample_jitter M R (jitter_ms (quic_profile s)) g1
     in (Inr (base + j), s\<lparr>quic_rng := g2\<rparr>))"

definition quic_fetch_segment :: "libm \<Rightarrow> 'g rand_ops \<Rightarrow> string option \<Rightarrow> segment_request \<Rightarrow> 'g quic \<Rightarrow>
    (call_error + segment_response) \<times> 'g quic" where
  "quic_fetch_segment M R ctx req s = (case ctx of Some e \<Rightarrow> (Inl (Failed e), s) | None \<Rightarrow>
     if req_size req \<le> 0 then (Inr (zero_response\<lparr>segment_id := req_id req, protocol := quic_protocol\<rparr>), s) else
     case simulate_packets R (packet_count (req_size req)) (quic_loss s) of (None, sim) \<Rightarrow> (Inl Panic, s\<lparr>quic_loss := sim\<rparr>)
     | (Some losses, sim) \<Rightarrow> let
         rtt = rtt_duration (base_rtt_ms (quic_profile s));
         transfer = conn_time rtt (req_size req) (loss_offsets losses)
           (bw_at (quic_bandwidth s) (quic_profile s) (quic_wall_clock s));
         (j1, g1) = sample_jitter M R (jitter_ms (quic_profile s)) (quic_rng s);
         first = go_quot rtt 2 + j1;
         (j2, g2) = sample_jitter M R (jitter_ms (quic_profile s)) g1;
         tot = first + transfer + j2
     in (Inr (zero_response\<lparr>segment_id := req_id req, bytes_received := req_size req, ttfb := first,
           total_latency := tot, goodput_mbps := goodput (req_size req) tot,
           retransmit_count := int (length losses), protocol := quic_protocol\<rparr>),
         s\<lparr>quic_loss := sim, quic_rng := g2, quic_wall_clock := quic_wall_clock s + tot\<rparr>))"

text \<open>The first loop: the losses of each stream, and all of them as offsets in the connection.\<close>

fun stream_losses :: "'g rand_ops \<Rightarrow> int \<Rightarrow> segment_request list \<Rightarrow> 'g loss_sim \<Rightarrow>
    (int list \<times> int list) option \<times> 'g loss_sim" where
  "stream_losses R offset [] sim = (Some ([], []), sim)"
| "stream_losses R offset (r # rs) sim = (if req_size r \<le> 0
     then (case stream_losses R offset rs sim of (None, sim2) \<Rightarrow> (None, sim2)
       | (Some (counts, offs), sim2) \<Rightarrow> (Some (0 # counts, offs), sim2))
     else case simulate_packets R (packet_count (req_size r)) sim of (None, sim1) \<Rightarrow> (None, sim1)
       | (Some losses, sim1) \<Rightarrow> (case stream_losses R (offset + req_size r) rs sim1 of (None, sim2) \<Rightarrow> (None, sim2)
         | (Some (counts, offs), sim2) \<Rightarrow>
             (Some (int (length losses) # counts, map (\<lambda>idx. offset + idx * mtu_payload) losses @ offs), sim2)))"

text \<open>The second loop: the responses, with the latest end among them.\<close>

fun quic_streams :: "libm \<Rightarrow> 'g rand_ops \<Rightarrow> network_profile \<Rightarrow> duration \<Rightarrow> duration \<Rightarrow> int \<Rightarrow> duration \<Rightarrow>
    (segment_request \<times> int) list \<Rightarrow> 'g \<Rightarrow> (segment_response list \<times> duration) \<times> 'g" where
  "quic_streams M R p rtt conn tot max_end [] g = (([], max_end), g)"
| "quic_streams M R p rtt conn tot max_end ((r, lost) # rs) g = (if req_size r \<le> 0
     then (let ((out, m), g') = quic_streams M R p rtt conn tot max_end rs g
       in ((zero_response\<lparr>segment_id := req_id r, protocol := quic_protocol\<rparr> # out, m), g'))
     else let transfer = share_time conn (req_size r) tot + lost * rtt;
         (j1, g1) = sample_jitter M R (jitter_ms p) g;
         first = go_quot rtt 2 + j1;
         (j2, g2) = sample_jitter M R (jitter_ms p) g1;
         t = first + transfer + j2;
         ((out, m), g3) = quic_streams M R p rtt conn tot (if t > max_end then t else max_end) rs g2
       in ((zero_response\<lparr>segment_id := req_id r, bytes_received := req_size r, ttfb := first,
             total_latency := t, goodput_mbps := goodput (req_size r) t, retransmit_count := lost,
             hol_block_events := 0, protocol := quic_protocol\<rparr> # out, m), g3))"

definition quic_fetch :: "libm \<Rightarrow> 'g rand_ops \<Rightarrow> string option \<Rightarrow> segment_request list \<Rightarrow> 'g quic \<Rightarrow>
    (call_error + segment_response list) \<times> 'g quic" where
  "quic_fetch M R ctx reqs s = (case ctx of Some e \<Rightarrow> (Inl (Failed e), s) | None \<Rightarrow>
     if reqs = [] then (Inr [], s) else
     let tot = sum_list (map req_size reqs);
         rtt = rtt_duration (base_rtt_ms (quic_profile s)) in
     case stream_losses R 0 reqs (quic_loss s) of (None, sim) \<Rightarrow> (Inl Panic, s\<lparr>quic_loss := sim\<rparr>)
     | (Some (counts, offs), sim) \<Rightarrow> let
         conn = conn_time rtt tot (sort offs) (bw_at (quic_bandwidth s) (quic_profile s) (quic_wall_clock s));
         ((out, max_end), g) = quic_streams M R (quic_profile s) rtt conn tot 0 (zip reqs counts) (quic_rng s)
     in (Inr out, s\<lparr>quic_loss := sim, quic_rng := g, quic_wall_clock := quic_wall_clock s + max_end\<rparr>))"

end
