(* ===== verification/Transports.thy ===== *)
theory Transports
  imports Modeled
begin

text \<open>
  What the modeled transports guarantee: the time bounds behind them, both as instances of the
  transport interface, and how TCP and QUIC compare (handshakes, single streams, head-of-line blocking).
\<close>

section \<open>Bounds\<close>

definition rate_ok :: "real \<Rightarrow> bool" where
  "rate_ok bw \<longleftrightarrow> bw \<le> 0 \<or> 1 / 1000 \<le> bw"

text \<open>Profiles with at most ten seconds of round trip and jitter, and no link slower than a kilobit per
  second unless it has no rate at all (which the code reads as one megabit), and no loss rate outside of 0 to 100 percent,
  which would make the simulator panic.\<close>

definition profile_ok :: "network_profile \<Rightarrow> bool" where
  "profile_ok p \<longleftrightarrow> 0 \<le> base_rtt_ms p \<and> base_rtt_ms p \<le> 10 ^ 4 \<and> jitter_ms p \<le> 10 ^ 4 \<and> rate_ok (profile_mbps p)
     \<and> loss_ok (loss_cfg p)"

definition trace_ok :: "bw_trace option \<Rightarrow> bool" where
  "trace_ok tr \<longleftrightarrow> (\<forall>bt. tr = Some bt \<longrightarrow> (\<forall>iv\<in>set bt. rate_ok (bandwidth_mbps iv)))"

definition batch_ok :: "segment_request list \<Rightarrow> bool" where
  "batch_ok reqs \<longleftrightarrow> (\<forall>r\<in>set reqs. 0 < req_size r) \<and> sum_list (map req_size reqs) \<le> 10 ^ 9"

lemma profile_rtt:
  assumes "profile_ok p"
  shows "0 \<le> rtt_duration (base_rtt_ms p) \<and> rtt_duration (base_rtt_ms p) \<le> 10 ^ 10"
proof -
  have b: "0 \<le> base_rtt_ms p" "base_rtt_ms p \<le> 10 ^ 4" using assms by (simp_all add: profile_ok_def)
  have "fmul (base_rtt_ms p) 1000000 \<le> of_int (10 ^ 10)" unfolding fmul_def using b by (intro fl_le_int) simp_all
  moreover have "0 \<le> fmul (base_rtt_ms p) 1000000" using b by (simp add: fmul_nonneg)
  ultimately show ?thesis unfolding rtt_duration_def by (intro f2i_nonneg) (simp_all add: int64_max_def)
qed

lemma jitter_nonneg:
  assumes "rand_ok R" "libm_ok M" "profile_ok p"
  shows "0 \<le> fst (sample_jitter M R (jitter_ms p) g)"
proof -
  define k :: int where "k = 10 ^ 4"
  have "jitter_ms p \<le> of_int k" "0 \<le> k" "k \<le> 10 ^ 6" using assms(3) by (simp_all add: profile_ok_def k_def)
  from sample_jitter_bounds' [OF assms(1,2) this] show ?thesis by simp
qed

lemma rate_at: "trace_ok tr \<Longrightarrow> profile_ok p \<Longrightarrow> rate_ok (bw_at tr p t)"
proof (cases tr)
  case (Some bt)
  assume "trace_ok tr" "profile_ok p"
  with Some have r: "rate_ok (bandwidth_mbps iv)" if "iv \<in> set bt" for iv using that by (simp add: trace_ok_def)
  have "bandwidth_at bt t \<in> insert 0 (bandwidth_mbps ` set bt)"
    using find_interval_mem [of "dur_milliseconds t" 0 bt] by (auto simp: bandwidth_at_def split: option.split)
  moreover have "rate_ok 0" by (simp add: rate_ok_def)
  ultimately have "rate_ok (bandwidth_at bt t)" using r by auto
  with Some show ?thesis by (simp add: bw_at_def)
qed (simp add: bw_at_def profile_ok_def)

lemma bw_time_bounds:
  assumes "rate_ok bw" "0 \<le> n" "n \<le> 10 ^ 9"
  shows "0 \<le> bw_time n bw \<and> bw_time n bw \<le> 8 * 10 ^ 15"
proof -
  define b where "b = (if bw \<le> 0 then 1 else bw)"
  have b: "1 / 1000 \<le> b" using assms(1) by (auto simp: b_def rate_ok_def)
  have num: "0 \<le> i2f (n * 8)" "i2f (n * 8) \<le> 8 * 10 ^ 9"
    using assms(2,3) by (simp_all add: i2f_exact)
  have "of_int 1000 \<le> fmul b 1000000"
    unfolding fmul_def using b by (intro fl_ge_rep float_rep_int) simp_all
  then have den: "1000 \<le> fmul b 1000000" by simp
  have "i2f (n * 8) / fmul b 1000000 \<le> 8 * 10 ^ 9 / 1000" using num den by (intro frac_le) simp_all
  then have q: "fdiv (i2f (n * 8)) (fmul b 1000000) \<le> of_int (8 * 10 ^ 6)"
    unfolding fdiv_def by (intro fl_le_int) simp_all
  have q0: "0 \<le> fdiv (i2f (n * 8)) (fmul b 1000000)" using num den by (intro fdiv_nonneg) simp_all
  have s: "i2f second = 1000000000" by (simp add: second_def i2f_exact)
  have "fmul (fdiv (i2f (n * 8)) (fmul b 1000000)) (i2f second) \<le> of_int (8 * 10 ^ 15)"
    unfolding s fmul_def [of _ 1000000000] using q by (intro fl_le_int) simp_all
  moreover have "0 \<le> fmul (fdiv (i2f (n * 8)) (fmul b 1000000)) (i2f second)"
    unfolding s using q0 by (simp add: fmul_nonneg)
  ultimately show ?thesis unfolding bw_time_def b_def [symmetric] Let_def
    by (intro f2i_nonneg) (simp_all add: int64_max_def)
qed

lemma conn_time_bounds:
  assumes "profile_ok p" "trace_ok tr" "0 < n" "n \<le> 10 ^ 9"
  shows "0 \<le> conn_time (rtt_duration (base_rtt_ms p)) n offs (bw_at tr p t)
    \<and> conn_time (rtt_duration (base_rtt_ms p)) n offs (bw_at tr p t) \<le> 2 ^ 53"
proof -
  let ?rtt = "rtt_duration (base_rtt_ms p)"
  note rtt = profile_rtt [OF assms(1)]
  have "(n + 2919) div 2920 \<le> (10 ^ 9 + 2919) div 2920" using assms(4) by (intro zdiv_mono1) simp_all
  then have "2 * ((n + 2919) div 2920) \<le> 684934" by simp
  moreover have "0 \<le> 2 * ((n + 2919) div 2920)" using assms(3) by (simp add: pos_imp_zdiv_nonneg_iff)
  ultimately have "2 * ((n + 2919) div 2920) * ?rtt \<le> 684934 * 10 ^ 10" using rtt by (intro mult_mono) simp_all
  then have "transfer_time (new_congestion_controller ?rtt) n offs \<le> 684934 * 10 ^ 10"
    using transfer_time_range [of n ?rtt offs] assms(3) rtt by (meson order_trans)
  then have "transfer_time (new_congestion_controller ?rtt) n offs \<le> 2 ^ 53" by simp
  moreover have "0 \<le> transfer_time (new_congestion_controller ?rtt) n offs"
    using rtt by (simp add: transfer_time_nonneg)
  moreover have "bw_time n (bw_at tr p t) \<le> 8 * 10 ^ 15"
    using bw_time_bounds [OF rate_at [OF assms(2,1)], of n t] assms(3,4) by simp
  then have "bw_time n (bw_at tr p t) \<le> 2 ^ 53" by simp
  ultimately show ?thesis by (simp add: conn_time_def Let_def)
qed

lemma share_time_bounds:
  assumes "0 \<le> conn" "conn \<le> 2 ^ 53" "0 < sz" "sz \<le> tot"
  shows "0 \<le> share_time conn sz tot \<and> share_time conn sz tot \<le> conn"
proof -
  have le: "i2f sz \<le> i2f tot" "0 \<le> i2f sz" using assms by (simp_all add: i2f_mono i2f_nonneg)
  have "fmul (i2f conn) (fdiv (i2f sz) (i2f tot)) \<le> i2f conn"
    using assms(1) le by (intro fmul_le_left) (simp_all add: i2f_nonneg float_rep_i2f fdiv_le_1)
  then have "fmul (i2f conn) (fdiv (i2f sz) (i2f tot)) \<le> of_int conn" using assms(1,2) by (simp add: i2f_exact)
  moreover have "0 \<le> fmul (i2f conn) (fdiv (i2f sz) (i2f tot))"
    using assms(1) le by (intro fmul_nonneg fdiv_nonneg) (simp_all add: i2f_nonneg)
  ultimately show ?thesis using assms unfolding share_time_def
    by (simp, intro f2i_nonneg) (simp_all add: int64_max_def)
qed

section \<open>Both transports serve every batch\<close>

lemma tcp_streams_served:
  assumes "rand_ok R" "libm_ok M" "profile_ok p" "0 \<le> rtt" "0 \<le> conn" "conn \<le> 2 ^ 53"
    and "\<forall>r\<in>set rs. 0 < req_size r \<and> req_size r \<le> tot"
  shows "list_all2 served rs (fst (tcp_streams M R p rtt conn lost tot rs g))"
  using assms(7)
proof (induction rs arbitrary: g)
  case (Cons r rs)
  have "0 \<le> share_time conn (req_size r) tot" using share_time_bounds [OF assms(5,6)] Cons.prems by simp
  moreover have "0 \<le> fst (sample_jitter M R (jitter_ms p) g)" for g using assms(1-3) by (rule jitter_nonneg)
  ultimately show ?case using Cons assms(4,5)
    by (simp add: case_prod_unfold Let_def served_def pos_imp_zdiv_nonneg_iff)
qed simp

lemma quic_streams_served:
  assumes "rand_ok R" "libm_ok M" "profile_ok p" "0 \<le> rtt" "0 \<le> conn" "conn \<le> 2 ^ 53"
    and "\<forall>r\<in>set rs. 0 < req_size (fst r) \<and> req_size (fst r) \<le> tot \<and> 0 \<le> snd r"
  shows "list_all2 served (map fst rs) (fst (fst (quic_streams M R p rtt conn tot m rs g)))"
  using assms(7)
proof (induction rs arbitrary: g m)
  case (Cons x rs)
  obtain r lost where x: "x = (r, lost)" by (cases x)
  have "0 \<le> share_time conn (req_size r) tot" using share_time_bounds [OF assms(5,6)] Cons.prems x by simp
  moreover have "0 \<le> lost * rtt" using Cons.prems x assms(4) by simp
  moreover have "0 \<le> fst (sample_jitter M R (jitter_ms p) g)" for g using assms(1-3) by (rule jitter_nonneg)
  ultimately show ?case using Cons assms(4)
    by (simp add: x case_prod_unfold Let_def served_def pos_imp_zdiv_nonneg_iff)
qed simp

text \<open>How many packets a stream takes, how many come before it and where it starts in the connection, and which of its own packets
  are lost when the simulator draws for one packet after the other.\<close>

definition packets_of :: "segment_request \<Rightarrow> nat" where
  "packets_of r = nat (packet_count (req_size r))"

definition own_losses :: "'g rand_ops \<Rightarrow> 'g loss_sim \<Rightarrow> segment_request list \<Rightarrow> nat \<Rightarrow> nat list" where
  "own_losses R sim reqs i = filter (\<lambda>k. nth_draw (is_lost R) (sum_list (map packets_of (take i reqs)) + k) sim) [0..<packets_of (reqs ! i)]"

definition own_offsets :: "'g rand_ops \<Rightarrow> 'g loss_sim \<Rightarrow> segment_request list \<Rightarrow> nat \<Rightarrow> int list" where
  "own_offsets R sim reqs i = map (\<lambda>k. sum_list (map req_size (take i reqs)) + int k * 1460) (own_losses R sim reqs i)"

lemma packet_count_bounds:
  assumes "0 < sz" "sz \<le> 10 ^ 9"
  shows "0 \<le> packet_count sz" "packet_count sz \<le> 10 ^ 9"
proof -
  have x: "i2f sz = of_int sz" "i2f mtu_payload = 1460" using assms by (simp_all add: i2f_exact mtu_payload_def)
  have "fdiv (i2f sz) (i2f mtu_payload) \<le> of_int sz" unfolding x fdiv_def using assms by (intro fl_le_int) (simp_all add: field_simps)
  then have "fceil (fdiv (i2f sz) (i2f mtu_payload)) \<le> of_int sz" by (simp add: fceil_def ceiling_le)
  moreover have "0 \<le> fdiv (i2f sz) (i2f mtu_payload)" using assms by (simp add: x fdiv_nonneg)
  then have "0 \<le> fceil (fdiv (i2f sz) (i2f mtu_payload))" by (simp add: fceil_def le_ceiling_iff)
  ultimately have "0 \<le> packet_count sz \<and> packet_count sz \<le> sz"
    unfolding packet_count_def using assms by (intro f2i_nonneg) (simp_all add: int64_max_def)
  with assms show "0 \<le> packet_count sz" "packet_count sz \<le> 10 ^ 9" by simp_all
qed

lemma stream_losses_own:
  assumes "sim_ok sim" "\<forall>r\<in>set rs. 0 < req_size r \<and> req_size r \<le> 10 ^ 9"
  shows "stream_losses R off rs sim =
    (Some (map (\<lambda>i. int (length (own_losses R sim rs i))) [0..<length rs], concat (map (\<lambda>i. map (\<lambda>x. off + x) (own_offsets R sim rs i)) [0..<length rs])),
     ((\<lambda>s. snd (is_lost R s)) ^^ sum_list (map packets_of rs)) sim)"
  using assms
proof (induction rs arbitrary: off sim)
  case (Cons r rs)
  let ?f = "\<lambda>s. snd (is_lost R s)"
  let ?sim = "(?f ^^ packets_of r) sim"
  have sz: "0 < req_size r" "req_size r \<le> 10 ^ 9" using Cons.prems by simp_all
  note pk = packet_count_bounds [OF sz]
  have s: "simulate_packets R (packet_count (req_size r)) sim = (Some (map int (own_losses R sim (r # rs) 0)), ?sim)"
    using packets.simulate_steps [OF sim_ok_room [OF Cons.prems(1) pk]]
    by (simp add: sim_loop_draws own_losses_def packets_of_def)
  then have "sim_ok ?sim" using simulate_sim_ok [OF Cons.prems(1), of R "packet_count (req_size r)"] by simp
  moreover have "\<forall>r\<in>set rs. 0 < req_size r \<and> req_size r \<le> 10 ^ 9" using Cons.prems(2) by simp
  ultimately have ih: "stream_losses R (off + req_size r) rs ?sim =
    (Some (map (\<lambda>i. int (length (own_losses R ?sim rs i))) [0..<length rs],
       concat (map (\<lambda>i. map (\<lambda>x. off + req_size r + x) (own_offsets R ?sim rs i)) [0..<length rs])),
     (?f ^^ sum_list (map packets_of rs)) ?sim)" by (rule Cons.IH)
  have own: "own_losses R ?sim rs i = own_losses R sim (r # rs) (Suc i)" for i
    by (simp add: own_losses_def nth_draw_add [symmetric] add.assoc)
  have offs: "map (\<lambda>x. off + req_size r + x) (own_offsets R ?sim rs i) = map (\<lambda>x. off + x) (own_offsets R sim (r # rs) (Suc i))" for i
    by (simp add: own_offsets_def own comp_def add.assoc)
  have first: "map (\<lambda>idx. off + idx * mtu_payload) (map int (own_losses R sim (r # rs) 0)) = map (\<lambda>x. off + x) (own_offsets R sim (r # rs) 0)"
    by (simp add: own_offsets_def mtu_payload_def)
  have upt: "[0..<length (r # rs)] = 0 # map Suc [0..<length rs]" by (simp add: upt_conv_Cons map_Suc_upt del: upt_Suc)
  have c: "map (\<lambda>i. int (length (own_losses R sim (r # rs) i))) [0..<length (r # rs)]
      = int (length (own_losses R sim (r # rs) 0)) # map (\<lambda>i. int (length (own_losses R ?sim rs i))) [0..<length rs]"
    unfolding upt by (simp only: list.map map_map comp_def own)
  have o: "concat (map (\<lambda>i. map (\<lambda>x. off + x) (own_offsets R sim (r # rs) i)) [0..<length (r # rs)])
      = map (\<lambda>idx. off + idx * mtu_payload) (map int (own_losses R sim (r # rs) 0))
        @ concat (map (\<lambda>i. map (\<lambda>x. off + req_size r + x) (own_offsets R ?sim rs i)) [0..<length rs])"
    unfolding upt by (simp only: list.map concat.simps map_map comp_def first [unfolded map_map comp_def] offs)
  have st: "(?f ^^ sum_list (map packets_of (r # rs))) sim = (?f ^^ sum_list (map packets_of rs)) ?sim"
    using funpow_add [of "sum_list (map packets_of rs)" "packets_of r" ?f] by (simp add: add.commute)
  show ?case unfolding c o st using sz(1) by (simp add: s ih comp_def)
qed simp

lemma batch_sizes:
  assumes "batch_ok reqs" "r \<in> set reqs"
  shows "0 < req_size r" "req_size r \<le> sum_list (map req_size reqs)" "sum_list (map req_size reqs) \<le> 10 ^ 9"
    "0 < sum_list (map req_size reqs)"
proof -
  have nn: "\<And>y. y \<in> set reqs \<Longrightarrow> 0 \<le> req_size y" using assms(1) by (force simp: batch_ok_def)
  show "0 < req_size r" "sum_list (map req_size reqs) \<le> 10 ^ 9" using assms by (simp_all add: batch_ok_def)
  moreover show "req_size r \<le> sum_list (map req_size reqs)" by (rule sum_list_map_mem_le [OF assms(2) nn])
  ultimately show "0 < sum_list (map req_size reqs)" by linarith
qed

definition tcp_inv :: "libm \<Rightarrow> 'g rand_ops \<Rightarrow> 'g tcp \<Rightarrow> bool" where
  "tcp_inv M R s \<longleftrightarrow> libm_ok M \<and> rand_ok R \<and> profile_ok (tcp_profile s) \<and> trace_ok (tcp_bandwidth s) \<and> sim_ok (tcp_loss s)"

definition quic_inv :: "libm \<Rightarrow> 'g rand_ops \<Rightarrow> 'g quic \<Rightarrow> bool" where
  "quic_inv M R s \<longleftrightarrow> libm_ok M \<and> rand_ok R \<and> profile_ok (quic_profile s) \<and> trace_ok (quic_bandwidth s) \<and> sim_ok (quic_loss s)"

text \<open>The parts of a batch, named: the packets lost on the connection of a TCP batch, and what a batch returns.\<close>

definition conn_losses :: "'g rand_ops \<Rightarrow> 'g loss_sim \<Rightarrow> int \<Rightarrow> nat list" where
  "conn_losses R sim tot = filter (\<lambda>k. nth_draw (is_lost R) k sim) [0..<nat (packet_count tot)]"

lemma batch_total:
  assumes "batch_ok reqs" "reqs \<noteq> []"
  shows "0 < sum_list (map req_size reqs)" "sum_list (map req_size reqs) \<le> 10 ^ 9"
proof -
  obtain r where "r \<in> set reqs" using assms(2) by (cases reqs) auto
  then show "0 < sum_list (map req_size reqs)" "sum_list (map req_size reqs) \<le> 10 ^ 9" using batch_sizes [OF assms(1)] by blast+
qed

lemma tcp_fetch_eq:
  assumes b: "batch_ok reqs" "reqs \<noteq> []" and ok: "sim_ok (tcp_loss s)"
  defines "tot \<equiv> sum_list (map req_size reqs)" and "rtt \<equiv> rtt_duration (base_rtt_ms (tcp_profile s))"
  obtains conn where
    "conn = conn_time rtt tot (sort (map (\<lambda>k. int k * 1460) (conn_losses R (tcp_loss s) tot)))
       (bw_at (tcp_bandwidth s) (tcp_profile s) (tcp_wall_clock s))"
    "fst (tcp_fetch M R None reqs s) = Inr (fst (tcp_streams M R (tcp_profile s) rtt conn
         (int (length (conn_losses R (tcp_loss s) tot))) tot reqs (tcp_rng s)))"
proof
  have "simulate_packets R (packet_count tot) (tcp_loss s)
      = (Some (map int (conn_losses R (tcp_loss s) tot)), ((\<lambda>s. snd (is_lost R s)) ^^ nat (packet_count tot)) (tcp_loss s))"
    using packets.simulate_steps [OF sim_ok_room [OF ok packet_count_bounds [OF batch_total [OF b]]]]
    by (simp add: sim_loop_draws conn_losses_def tot_def)
  then show "fst (tcp_fetch M R None reqs s) = Inr (fst (tcp_streams M R (tcp_profile s) rtt
      (conn_time rtt tot (sort (map (\<lambda>k. int k * 1460) (conn_losses R (tcp_loss s) tot)))
        (bw_at (tcp_bandwidth s) (tcp_profile s) (tcp_wall_clock s)))
         (int (length (conn_losses R (tcp_loss s) tot))) tot reqs (tcp_rng s)))"
    using b(2) by (simp add: tcp_fetch_def tot_def rtt_def loss_offsets_def mtu_payload_def comp_def Let_def case_prod_unfold)
qed (rule refl)

lemma quic_fetch_eq:
  assumes b: "batch_ok reqs" "reqs \<noteq> []" and ok: "sim_ok (quic_loss s)"
  defines "tot \<equiv> sum_list (map req_size reqs)" and "rtt \<equiv> rtt_duration (base_rtt_ms (quic_profile s))"
  obtains conn where
    "conn = conn_time rtt tot (sort (concat (map (own_offsets R (quic_loss s) reqs) [0..<length reqs])))
       (bw_at (quic_bandwidth s) (quic_profile s) (quic_wall_clock s))"
    "fst (quic_fetch M R None reqs s) = Inr (fst (fst (quic_streams M R (quic_profile s) rtt conn tot 0
         (zip reqs (map (\<lambda>i. int (length (own_losses R (quic_loss s) reqs i))) [0..<length reqs])) (quic_rng s))))"
proof
  have "\<forall>r\<in>set reqs. 0 < req_size r \<and> req_size r \<le> 10 ^ 9" using batch_sizes [OF b(1)] by (meson order_trans)
  from stream_losses_own [OF ok this, of R 0]
  show "fst (quic_fetch M R None reqs s) = Inr (fst (fst (quic_streams M R (quic_profile s) rtt
      (conn_time rtt tot (sort (concat (map (own_offsets R (quic_loss s) reqs) [0..<length reqs])))
        (bw_at (quic_bandwidth s) (quic_profile s) (quic_wall_clock s))) tot 0
         (zip reqs (map (\<lambda>i. int (length (own_losses R (quic_loss s) reqs i))) [0..<length reqs])) (quic_rng s))))"
    using b(2) by (simp add: quic_fetch_def tot_def rtt_def Let_def case_prod_unfold)
qed (rule refl)

lemma tcp_fetch_served:
  assumes inv: "tcp_inv M R s" and b: "batch_ok reqs"
  shows "\<exists>resps. fst (tcp_fetch M R None reqs s) = Inr resps \<and> list_all2 served reqs resps"
proof (cases "reqs = []")
  case False
  have p: "rand_ok R" "libm_ok M" "profile_ok (tcp_profile s)" "trace_ok (tcp_bandwidth s)" "sim_ok (tcp_loss s)"
    using inv by (simp_all add: tcp_inv_def)
  obtain conn where
    c: "conn = conn_time (rtt_duration (base_rtt_ms (tcp_profile s))) (sum_list (map req_size reqs))
       (sort (map (\<lambda>k. int k * 1460) (conn_losses R (tcp_loss s) (sum_list (map req_size reqs)))))
       (bw_at (tcp_bandwidth s) (tcp_profile s) (tcp_wall_clock s))" and
    f: "fst (tcp_fetch M R None reqs s) = Inr (fst (tcp_streams M R (tcp_profile s) (rtt_duration (base_rtt_ms (tcp_profile s))) conn
         (int (length (conn_losses R (tcp_loss s) (sum_list (map req_size reqs))))) (sum_list (map req_size reqs)) reqs (tcp_rng s)))"
    using tcp_fetch_eq [OF b False p(5), of R M] by metis
  have "0 \<le> conn" "conn \<le> 2 ^ 53" using conn_time_bounds [OF p(3,4)] batch_total [OF b False] by (simp_all add: c)
  with f show ?thesis using tcp_streams_served [OF p(1-3)] profile_rtt [OF p(3)] batch_sizes [OF b] by simp
qed (simp add: tcp_fetch_def)

lemma quic_fetch_served:
  assumes inv: "quic_inv M R s" and b: "batch_ok reqs"
  shows "\<exists>resps. fst (quic_fetch M R None reqs s) = Inr resps \<and> list_all2 served reqs resps"
proof (cases "reqs = []")
  case False
  have p: "rand_ok R" "libm_ok M" "profile_ok (quic_profile s)" "trace_ok (quic_bandwidth s)" "sim_ok (quic_loss s)"
    using inv by (simp_all add: quic_inv_def)
  let ?counts = "map (\<lambda>i. int (length (own_losses R (quic_loss s) reqs i))) [0..<length reqs]"
  obtain conn where
    c: "conn = conn_time (rtt_duration (base_rtt_ms (quic_profile s))) (sum_list (map req_size reqs))
       (sort (concat (map (own_offsets R (quic_loss s) reqs) [0..<length reqs])))
       (bw_at (quic_bandwidth s) (quic_profile s) (quic_wall_clock s))" and
    f: "fst (quic_fetch M R None reqs s) = Inr (fst (fst (quic_streams M R (quic_profile s) (rtt_duration (base_rtt_ms (quic_profile s)))
         conn (sum_list (map req_size reqs)) 0 (zip reqs ?counts) (quic_rng s))))"
    using quic_fetch_eq [OF b False p(5), of R M] by metis
  have "0 \<le> conn" "conn \<le> 2 ^ 53" using conn_time_bounds [OF p(3,4)] batch_total [OF b False] by (simp_all add: c)
  moreover have "\<forall>x\<in>set (zip reqs ?counts). 0 < req_size (fst x) \<and> req_size (fst x) \<le> sum_list (map req_size reqs) \<and> 0 \<le> snd x"
  proof
    fix x assume "x \<in> set (zip reqs ?counts)"
    then have "fst x \<in> set reqs" "snd x \<in> set ?counts"
      by (metis prod.collapse set_zip_leftD, metis prod.collapse set_zip_rightD)
    with batch_sizes [OF b] show "0 < req_size (fst x) \<and> req_size (fst x) \<le> sum_list (map req_size reqs) \<and> 0 \<le> snd x"
      by auto
  qed
  ultimately have "list_all2 served (map fst (zip reqs ?counts)) (fst (fst (quic_streams M R (quic_profile s)
      (rtt_duration (base_rtt_ms (quic_profile s))) conn (sum_list (map req_size reqs)) 0 (zip reqs ?counts) (quic_rng s))))"
    using quic_streams_served [OF p(1-3)] profile_rtt [OF p(3)] by blast
  with f show ?thesis by simp
qed (simp add: quic_fetch_def)

lemma tcp_frames:
  "tcp_profile (snd (tcp_fetch M R ctx reqs s)) = tcp_profile s" "tcp_bandwidth (snd (tcp_fetch M R ctx reqs s)) = tcp_bandwidth s"
  "tcp_profile (snd (tcp_handshake M R ctx b s)) = tcp_profile s" "tcp_bandwidth (snd (tcp_handshake M R ctx b s)) = tcp_bandwidth s"
  "tcp_loss (snd (tcp_handshake M R ctx b s)) = tcp_loss s" "sim_ok (tcp_loss s) \<Longrightarrow> sim_ok (tcp_loss (snd (tcp_fetch M R ctx reqs s)))"
  using simulate_sim_ok [of "tcp_loss s" R "packet_count (sum_list (map req_size reqs))"]
  by (auto simp: tcp_fetch_def tcp_handshake_def Let_def split: option.splits prod.splits)

lemma stream_losses_ok: "sim_ok sim \<Longrightarrow> sim_ok (snd (stream_losses R off rs sim))"
proof (induction rs arbitrary: off sim)
  case (Cons r rs)
  obtain v sim1 where s: "simulate_packets R (packet_count (req_size r)) sim = (v, sim1)" by fastforce
  then have "sim_ok sim1" using simulate_sim_ok [OF Cons.prems, of R "packet_count (req_size r)"] by simp
  with Cons.IH [of sim] Cons.IH [of sim1] Cons.prems s show ?case
    by (cases v) (simp_all add: case_prod_unfold split: option.split)
qed simp

lemma quic_frames:
  "quic_profile (snd (quic_fetch M R ctx reqs s)) = quic_profile s" "quic_bandwidth (snd (quic_fetch M R ctx reqs s)) = quic_bandwidth s"
  "quic_profile (snd (quic_handshake M R ctx b s)) = quic_profile s" "quic_bandwidth (snd (quic_handshake M R ctx b s)) = quic_bandwidth s"
  "quic_loss (snd (quic_handshake M R ctx b s)) = quic_loss s" "sim_ok (quic_loss s) \<Longrightarrow> sim_ok (quic_loss (snd (quic_fetch M R ctx reqs s)))"
  using stream_losses_ok [of "quic_loss s" R 0 reqs]
  by (auto simp: quic_fetch_def quic_handshake_def Let_def split: option.splits prod.splits)

interpretation tcp: transport_iface "tcp_fetch M R None" "tcp_handshake M R None" "tcp_inv M R" batch_ok for M R
proof
  fix s :: "'a tcp" and reqs resumption
  assume inv: "tcp_inv M R s"
  show "tcp_inv M R (snd (tcp_fetch M R None reqs s))" "tcp_inv M R (snd (tcp_handshake M R None resumption s))"
    using inv by (simp_all add: tcp_inv_def tcp_frames)
  show "\<exists>resps. fst (tcp_fetch M R None reqs s) = Inr resps \<and> list_all2 served reqs resps" if "batch_ok reqs"
    using inv that by (rule tcp_fetch_served)
  have "0 \<le> rtt_duration (base_rtt_ms (tcp_profile s))" "0 \<le> fst (sample_jitter M R (jitter_ms (tcp_profile s)) (tcp_rng s))"
    using inv profile_rtt jitter_nonneg by (auto simp: tcp_inv_def)
  then show "\<exists>d. fst (tcp_handshake M R None resumption s) = Inr d \<and> 0 \<le> d"
    by (simp add: tcp_handshake_def Let_def case_prod_unfold pos_imp_zdiv_nonneg_iff)
qed

interpretation quic: transport_iface "quic_fetch M R None" "quic_handshake M R None" "quic_inv M R" batch_ok for M R
proof
  fix s :: "'a quic" and reqs resumption
  assume inv: "quic_inv M R s"
  show "quic_inv M R (snd (quic_fetch M R None reqs s))" "quic_inv M R (snd (quic_handshake M R None resumption s))"
    using inv by (simp_all add: quic_inv_def quic_frames)
  show "\<exists>resps. fst (quic_fetch M R None reqs s) = Inr resps \<and> list_all2 served reqs resps" if "batch_ok reqs"
    using inv that by (rule quic_fetch_served)
  have "0 \<le> rtt_duration (base_rtt_ms (quic_profile s))" "0 \<le> fst (sample_jitter M R (jitter_ms (quic_profile s)) g)" for g
    using inv profile_rtt jitter_nonneg by (auto simp: quic_inv_def)
  then show "\<exists>d. fst (quic_handshake M R None resumption s) = Inr d \<and> 0 \<le> d"
    by (simp add: quic_handshake_def Let_def case_prod_unfold)
qed

definition demo_profile :: network_profile where
  "demo_profile = \<lparr>base_rtt_ms = 40, profile_mbps = 20, loss_cfg = demo_loss, jitter_ms = 2\<rparr>"

definition demo_batch :: "segment_request list" where
  "demo_batch = [\<lparr>req_id = ''s0'', req_bitrate = 800, req_size = 40000\<rparr>, \<lparr>req_id = ''s1'', req_bitrate = 800, req_size = 30000\<rparr>]"

lemma demo_profile_ok: "profile_ok demo_profile" "batch_ok demo_batch"
  by (simp_all add: demo_profile_def profile_ok_def rate_ok_def demo_batch_def batch_ok_def loss_ok_def demo_loss_def)

lemma new_tcp_inv: "libm_ok M \<Longrightarrow> rand_ok R \<Longrightarrow> profile_ok p \<Longrightarrow> tcp_inv M R (new_modeled_tcp mk R p g)"
  by (simp add: tcp_inv_def new_modeled_tcp_def trace_ok_def profile_ok_def loss_ok_sim case_prod_unfold Let_def)

lemma new_quic_inv: "libm_ok M \<Longrightarrow> rand_ok R \<Longrightarrow> profile_ok p \<Longrightarrow> quic_inv M R (new_modeled_quic mk R p rate g)"
  by (simp add: quic_inv_def new_modeled_quic_def trace_ok_def profile_ok_def loss_ok_sim case_prod_unfold Let_def)

lemma new_profile:
  "tcp_profile (new_modeled_tcp mk R p g) = p" "tcp_bandwidth (new_modeled_tcp mk R p g) = None"
  "quic_profile (new_modeled_quic mk R p rate g) = p" "quic_bandwidth (new_modeled_quic mk R p rate g) = None"
  by (simp_all add: new_modeled_tcp_def new_modeled_quic_def case_prod_unfold Let_def)

text \<open>C33: Every batch is served by both transports. Fetching requests of positive sizes (up to 10^9 bytes in
  all) over a sane link whose loss rate is a probability never fails or panics: the responses answer the requests one by one and in
  their order, each with the name and all the bytes of its request, and none has a negative latency or a first byte after its last.\<close>

theorem modeled_transports_serve:
  assumes "libm_ok M" "rand_ok R" "batch_ok reqs"
    and "profile_ok (tcp_profile t)" "trace_ok (tcp_bandwidth t)" "sim_ok (tcp_loss t)"
    and "profile_ok (quic_profile q)" "trace_ok (quic_bandwidth q)" "sim_ok (quic_loss q)"
  shows "(\<exists>resps. fst (tcp_fetch M R None reqs t) = Inr resps \<and> length resps = length reqs
        \<and> (\<forall>i<length reqs. segment_id (resps ! i) = req_id (reqs ! i) \<and> bytes_received (resps ! i) = req_size (reqs ! i)
            \<and> 0 \<le> ttfb (resps ! i) \<and> ttfb (resps ! i) \<le> total_latency (resps ! i)))
    \<and> (\<exists>resps. fst (quic_fetch M R None reqs q) = Inr resps \<and> length resps = length reqs
        \<and> (\<forall>i<length reqs. segment_id (resps ! i) = req_id (reqs ! i) \<and> bytes_received (resps ! i) = req_size (reqs ! i)
            \<and> 0 \<le> ttfb (resps ! i) \<and> ttfb (resps ! i) \<le> total_latency (resps ! i)))"
proof -
  have t: "tcp_inv M R t" and q: "quic_inv M R q" using assms by (simp_all add: tcp_inv_def quic_inv_def)
  obtain ps where ps: "fst (tcp_fetch M R None reqs t) = Inr ps" "list_all2 served reqs ps" using tcp.fetch_served [OF t assms(3)] by blast
  obtain qs where qs: "fst (quic_fetch M R None reqs q) = Inr qs" "list_all2 served reqs qs" using quic.fetch_served [OF q assms(3)] by blast
  from ps qs show ?thesis by (auto simp: list_all2_conv_all_nth served_def)
qed

theorem modeled_transports_serve_witness:
  "\<exists>resps. fst (quic_fetch flat_libm lcg None demo_batch (new_modeled_quic (\<lambda>n. n) lcg demo_profile 1 3)) = Inr resps
     \<and> length resps = 2 \<and> segment_id (resps ! 1) = ''s1'' \<and> bytes_received (resps ! 1) = 30000"
proof -
  have t: "tcp_inv flat_libm lcg (new_modeled_tcp (\<lambda>n. n) lcg demo_profile 3)" by (rule new_tcp_inv [OF flat_libm_ok lcg_ok demo_profile_ok(1)])
  have q: "quic_inv flat_libm lcg (new_modeled_quic (\<lambda>n. n) lcg demo_profile 1 3)" by (rule new_quic_inv [OF flat_libm_ok lcg_ok demo_profile_ok(1)])
  have two: "length demo_batch = 2" "req_id (demo_batch ! 1) = ''s1''" "req_size (demo_batch ! 1) = 30000" by (simp_all add: demo_batch_def)
  from modeled_transports_serve [OF flat_libm_ok lcg_ok demo_profile_ok(2), of
      "new_modeled_tcp (\<lambda>n. n) lcg demo_profile 3" "new_modeled_quic (\<lambda>n. n) lcg demo_profile 1 3"] t q
  show ?thesis unfolding two by (auto simp: tcp_inv_def quic_inv_def two [unfolded One_nat_def])
qed

section \<open>TCP against QUIC\<close>

text \<open>A single stream is the same over both protocols. Two transports with the same link, generator,
  loss simulator, trace and clock answer a request of positive size identically except for the protocol
  name, and are left in the same state.\<close>

lemma single_stream_equal:
  assumes "0 < req_size req" "tcp_profile t = quic_profile q" "tcp_rng t = quic_rng q" "tcp_loss t = quic_loss q"
    "tcp_bandwidth t = quic_bandwidth q" "tcp_wall_clock t = quic_wall_clock q"
  shows "(case fst (tcp_fetch_segment M R ctx req t) of Inl e \<Rightarrow> Inl e | Inr p \<Rightarrow> Inr (p\<lparr>protocol := quic_protocol\<rparr>))
      = fst (quic_fetch_segment M R ctx req q)
    \<and> tcp_rng (snd (tcp_fetch_segment M R ctx req t)) = quic_rng (snd (quic_fetch_segment M R ctx req q))
    \<and> tcp_loss (snd (tcp_fetch_segment M R ctx req t)) = quic_loss (snd (quic_fetch_segment M R ctx req q))
    \<and> tcp_wall_clock (snd (tcp_fetch_segment M R ctx req t)) = quic_wall_clock (snd (quic_fetch_segment M R ctx req q))"
  using assms
  by (simp add: tcp_fetch_segment_def quic_fetch_segment_def compute_delivery_def Let_def case_prod_unfold
      zero_response_def split: option.splits prod.splits)

text \<open>Connection setup. On a link without jitter TCP takes two round trips, or one and a half when it
  resumes; QUIC takes one, or none when it resumes and the draw is below the 0-RTT rate; so a QUIC
  handshake is never longer than a TCP one, and with a rate of zero a resumption is a full handshake.\<close>

lemma handshake_times:
  assumes "profile_ok p" "jitter_ms p \<le> 0" "tcp_profile t = p" "quic_profile q = p" "rand_ok R"
  defines "rtt \<equiv> rtt_duration (base_rtt_ms p)"
  shows "fst (tcp_handshake M R None resumption t) = Inr (if resumption then rtt + rtt div 2 else 2 * rtt)
    \<and> fst (quic_handshake M R None resumption q) =
        Inr (if resumption \<and> fst (r_float64 R (quic_rng q)) < zero_rtt_rate q then 0 else rtt)
    \<and> projr (fst (quic_handshake M R None r1 q)) \<le> projr (fst (tcp_handshake M R None r2 t))
    \<and> (zero_rtt_rate q \<le> 0 \<longrightarrow> fst (quic_handshake M R None True q) = Inr rtt)"
proof -
  have r: "0 \<le> rtt" using profile_rtt [OF assms(1)] by (simp add: rtt_def)
  have t: "fst (tcp_handshake M R None b t) = Inr (if b then rtt + rtt div 2 else 2 * rtt)" for b
    using r assms(2,3) by (simp add: tcp_handshake_def Let_def sample_jitter_def rtt_def)
  have q: "fst (quic_handshake M R None b q) =
      Inr (if b \<and> fst (r_float64 R (quic_rng q)) < zero_rtt_rate q then 0 else rtt)" for b
    using assms(2,4) by (simp add: quic_handshake_def Let_def sample_jitter_def rtt_def case_prod_unfold)
  have "rtt \<le> rtt + rtt div 2" using r by (simp add: pos_imp_zdiv_nonneg_iff)
  moreover have "0 \<le> fst (r_float64 R (quic_rng q))" using assms(5) by (simp add: rand_ok_def)
  ultimately show ?thesis using r by (simp add: t q)
qed

definition calm_profile :: network_profile where
  "calm_profile = demo_profile\<lparr>jitter_ms := 0\<rparr>"

lemma calm_profile_ok: "profile_ok calm_profile" "jitter_ms calm_profile = 0"
  by (simp_all add: calm_profile_def demo_profile_def profile_ok_def rate_ok_def loss_ok_def demo_loss_def)

lemma calm_jitter: "stddev \<le> 0 \<Longrightarrow> sample_jitter M R stddev g = (0, g)"
  by (simp add: sample_jitter_def)

lemma tcp_streams_calm:
  "jitter_ms p \<le> 0 \<Longrightarrow> 0 \<le> rtt \<Longrightarrow>
    map total_latency (fst (tcp_streams M R p rtt conn lost tot rs g)) =
      map (\<lambda>r. rtt div 2 + (if lost > 0 then conn else share_time conn (req_size r) tot)) rs
    \<and> (\<forall>x\<in>set (fst (tcp_streams M R p rtt conn lost tot rs g)). hol_block_events x = lost \<and> retransmit_count x = lost)"
  by (induction rs arbitrary: g) (simp_all add: calm_jitter case_prod_unfold Let_def)

lemma quic_streams_calm:
  assumes "jitter_ms p \<le> 0" "0 \<le> rtt" "\<forall>r\<in>set rs. 0 < req_size (fst r)"
  shows "map total_latency (fst (fst (quic_streams M R p rtt conn tot m rs g))) =
      map (\<lambda>(r, lost). rtt div 2 + (share_time conn (req_size r) tot + lost * rtt)) rs
    \<and> map retransmit_count (fst (fst (quic_streams M R p rtt conn tot m rs g))) = map snd rs
    \<and> (\<forall>x\<in>set (fst (fst (quic_streams M R p rtt conn tot m rs g))). hol_block_events x = 0)"
  using assms(3)
proof (induction rs arbitrary: g m)
  case (Cons x rs)
  with assms(1,2) show ?case by (cases x) (simp add: calm_jitter case_prod_unfold Let_def)
qed simp

text \<open>C8: Head-of-line blocking. On a link without jitter, draw the fate of the packets of a batch one after the other. On TCP, if
  any packet of the connection is lost then every stream, however small and wherever the loss fell, ends with the whole connection and
  counts every loss; without a loss each ends after its share. On QUIC the packets of a stream are those between the packets of the streams before
  and after it, at its own offset in the connection; it never counts a block, reports as retransmissions exactly its own losses, and
  ends after its share of the connection plus one round trip for each of them, so a stream that lost nothing is done by the connection's time.\<close>

theorem head_of_line_blocking:
  fixes R :: "'g rand_ops"
  assumes p: "profile_ok p" "jitter_ms p \<le> 0" and b: "batch_ok reqs" "reqs \<noteq> []"
    and s: "tcp_profile t = p" "sim_ok (tcp_loss t)" "trace_ok (tcp_bandwidth t)"
      "quic_profile q = p" "sim_ok (quic_loss q)" "trace_ok (quic_bandwidth q)"
  defines "rtt \<equiv> rtt_duration (base_rtt_ms p)" and "tot \<equiv> sum_list (map req_size reqs)"
  defines "lost \<equiv> filter (\<lambda>k. nth_draw (is_lost R) k (tcp_loss t)) [0..<nat (packet_count tot)]"
    and "pkts \<equiv> \<lambda>i. nat (packet_count (req_size (reqs ! i)))"
  defines "own \<equiv> \<lambda>i. filter (\<lambda>k. nth_draw (is_lost R) (sum_list (map pkts [0..<i]) + k) (quic_loss q)) [0..<pkts i]"
    and "start \<equiv> \<lambda>i. sum_list (map req_size (take i reqs))"
  defines "tconn \<equiv> conn_time rtt tot (sort (map (\<lambda>k. int k * 1460) lost)) (bw_at (tcp_bandwidth t) p (tcp_wall_clock t))"
    and "qconn \<equiv> conn_time rtt tot (sort (concat (map (\<lambda>i. map (\<lambda>k. start i + int k * 1460) (own i)) [0..<length reqs])))
      (bw_at (quic_bandwidth q) p (quic_wall_clock q))"
  shows "(\<exists>resps. fst (tcp_fetch M R None reqs t) = Inr resps \<and> length resps = length reqs
        \<and> (\<forall>i<length reqs. total_latency (resps ! i) = rtt div 2 + (if lost \<noteq> [] then tconn else share_time tconn (req_size (reqs ! i)) tot)
            \<and> hol_block_events (resps ! i) = int (length lost) \<and> retransmit_count (resps ! i) = int (length lost)
            \<and> share_time tconn (req_size (reqs ! i)) tot \<le> tconn))
    \<and> (\<exists>resps. fst (quic_fetch M R None reqs q) = Inr resps \<and> length resps = length reqs
        \<and> (\<forall>i<length reqs. total_latency (resps ! i) = rtt div 2 + share_time qconn (req_size (reqs ! i)) tot + int (length (own i)) * rtt
            \<and> hol_block_events (resps ! i) = 0 \<and> retransmit_count (resps ! i) = int (length (own i))
            \<and> share_time qconn (req_size (reqs ! i)) tot \<le> qconn))"
proof
  have r: "0 \<le> rtt" using profile_rtt [OF p(1)] by (simp add: rtt_def)
  note tot = batch_total [OF b]
  have sh: "share_time conn (req_size (reqs ! i)) tot \<le> conn" if "0 \<le> conn" "conn \<le> 2 ^ 53" "i < length reqs" for conn i
    using share_time_bounds [OF that(1,2)] batch_sizes [OF b(1) nth_mem [OF that(3)]] by (simp add: tot_def)
  have tl: "conn_losses R (tcp_loss t) tot = lost" by (simp add: conn_losses_def lost_def)
  have tf: "fst (tcp_fetch M R None reqs t) = Inr (fst (tcp_streams M R p rtt tconn (int (length lost)) tot reqs (tcp_rng t)))"
    using tcp_fetch_eq [OF b s(2), of R M] unfolding s(1) tl [unfolded tot_def] rtt_def tot_def tconn_def by metis
  have tb: "0 \<le> tconn" "tconn \<le> 2 ^ 53" using conn_time_bounds [OF p(1) s(3)] tot by (simp_all add: tconn_def rtt_def tot_def)
  note calm = tcp_streams_calm [OF p(2) r, of M R tconn "int (length lost)" tot reqs "tcp_rng t"]
  let ?ts = "fst (tcp_streams M R p rtt tconn (int (length lost)) tot reqs (tcp_rng t))"
  have len: "length ?ts = length reqs" using arg_cong [OF conjunct1 [OF calm], of length] by simp
  have "total_latency (?ts ! i) = rtt div 2 + (if lost \<noteq> [] then tconn else share_time tconn (req_size (reqs ! i)) tot)"
    "hol_block_events (?ts ! i) = int (length lost) \<and> retransmit_count (?ts ! i) = int (length lost)" if "i < length reqs" for i
    using arg_cong [OF conjunct1 [OF calm], of "\<lambda>xs. xs ! i"] conjunct2 [OF calm] len that by simp_all
  with tf len sh [OF tb] show "\<exists>resps. fst (tcp_fetch M R None reqs t) = Inr resps \<and> length resps = length reqs
        \<and> (\<forall>i<length reqs. total_latency (resps ! i) = rtt div 2 + (if lost \<noteq> [] then tconn else share_time tconn (req_size (reqs ! i)) tot)
            \<and> hol_block_events (resps ! i) = int (length lost) \<and> retransmit_count (resps ! i) = int (length lost)
            \<and> share_time tconn (req_size (reqs ! i)) tot \<le> tconn)" by blast
next
  have r: "0 \<le> rtt" using profile_rtt [OF p(1)] by (simp add: rtt_def)
  note tot = batch_total [OF b]
  have sh: "share_time conn (req_size (reqs ! i)) tot \<le> conn" if "0 \<le> conn" "conn \<le> 2 ^ 53" "i < length reqs" for conn i
    using share_time_bounds [OF that(1,2)] batch_sizes [OF b(1) nth_mem [OF that(3)]] by (simp add: tot_def)
  have own: "own_losses R (quic_loss q) reqs i = own i" if "i < length reqs" for i
  proof -
    have "map packets_of (take i reqs) = map pkts [0..<i]" using that
      by (intro nth_equalityI) (simp_all add: packets_of_def pkts_def)
    then show ?thesis by (simp add: own_losses_def own_def packets_of_def pkts_def)
  qed
  have cs: "map (\<lambda>i. int (length (own_losses R (quic_loss q) reqs i))) [0..<length reqs] = map (\<lambda>i. int (length (own i))) [0..<length reqs]"
    "map (own_offsets R (quic_loss q) reqs) [0..<length reqs] = map (\<lambda>i. map (\<lambda>k. start i + int k * 1460) (own i)) [0..<length reqs]"
    by (simp_all add: own own_offsets_def start_def)
  let ?rs = "zip reqs (map (\<lambda>i. int (length (own i))) [0..<length reqs])"
  let ?qs = "fst (fst (quic_streams M R p rtt qconn tot 0 ?rs (quic_rng q)))"
  have qf: "fst (quic_fetch M R None reqs q) = Inr ?qs"
    using quic_fetch_eq [OF b s(5), of R M] unfolding s(4) cs rtt_def tot_def qconn_def by metis
  have qb: "0 \<le> qconn" "qconn \<le> 2 ^ 53" using conn_time_bounds [OF p(1) s(6)] tot by (simp_all add: qconn_def rtt_def tot_def)
  have "\<forall>x\<in>set ?rs. 0 < req_size (fst x)" using batch_sizes(1) [OF b(1)] by (metis prod.collapse set_zip_leftD)
  note calm = quic_streams_calm [OF p(2) r this, of M R qconn tot 0 "quic_rng q"]
  have len: "length ?qs = length reqs" using arg_cong [OF conjunct1 [OF calm], of length] by simp
  have "total_latency (?qs ! i) = rtt div 2 + share_time qconn (req_size (reqs ! i)) tot + int (length (own i)) * rtt"
    "retransmit_count (?qs ! i) = int (length (own i))" "hol_block_events (?qs ! i) = 0" if "i < length reqs" for i
    using arg_cong [OF conjunct1 [OF calm], of "\<lambda>xs. xs ! i"] arg_cong [OF conjunct1 [OF conjunct2 [OF calm]], of "\<lambda>xs. xs ! i"]
      conjunct2 [OF conjunct2 [OF calm]] len that by simp_all
  with qf len sh [OF qb] show "\<exists>resps. fst (quic_fetch M R None reqs q) = Inr resps \<and> length resps = length reqs
        \<and> (\<forall>i<length reqs. total_latency (resps ! i) = rtt div 2 + share_time qconn (req_size (reqs ! i)) tot + int (length (own i)) * rtt
            \<and> hol_block_events (resps ! i) = 0 \<and> retransmit_count (resps ! i) = int (length (own i))
            \<and> share_time qconn (req_size (reqs ! i)) tot \<le> qconn)" by blast
qed

theorem head_of_line_blocking_witness:
  "\<exists>resps. fst (quic_fetch flat_libm lcg None demo_batch (new_modeled_quic (\<lambda>n. n) lcg calm_profile 1 3)) = Inr resps
     \<and> length resps = 2 \<and> (\<forall>x\<in>set resps. hol_block_events x = 0)"
proof -
  have t: "tcp_inv flat_libm lcg (new_modeled_tcp (\<lambda>n. n) lcg calm_profile 3)" by (rule new_tcp_inv [OF flat_libm_ok lcg_ok calm_profile_ok(1)])
  have q: "quic_inv flat_libm lcg (new_modeled_quic (\<lambda>n. n) lcg calm_profile 1 3)" by (rule new_quic_inv [OF flat_libm_ok lcg_ok calm_profile_ok(1)])
  have two: "length demo_batch = 2" "demo_batch \<noteq> []" by (simp_all add: demo_batch_def)
  from head_of_line_blocking [OF calm_profile_ok(1) _ demo_profile_ok(2) two(2) new_profile(1) _ _ new_profile(3), of "\<lambda>n. n" lcg 3 "\<lambda>n. n" lcg 1 3 flat_libm lcg] t q
  obtain resps where "fst (quic_fetch flat_libm lcg None demo_batch (new_modeled_quic (\<lambda>n. n) lcg calm_profile 1 3)) = Inr resps"
    "length resps = 2" "\<forall>i<2. hol_block_events (resps ! i) = 0" unfolding two by (auto simp: tcp_inv_def quic_inv_def calm_profile_ok(2))
  then show ?thesis by (auto simp: in_set_conv_nth)
qed

end
