(* ===== verification/GoStrings.thy ===== *)
theory GoStrings
  imports Prelude
begin

text \<open>
  The string functions of Go's standard library that the code uses: decimal formatting (\<open>%d\<close>),
  \<open>strconv.Atoi\<close>, \<open>strings.Split\<close> on a single character, \<open>HasPrefix\<close>, \<open>TrimPrefix\<close> and \<open>TrimRight\<close>.
\<close>

section \<open>Decimal numbers\<close>

definition digit_char :: "nat \<Rightarrow> char" where "digit_char d = char_of (48 + d)"

definition digit_value :: "char \<Rightarrow> nat option" where
  "digit_value c = (let n = of_char c :: nat in if 48 \<le> n \<and> n \<le> 57 then Some (n - 48) else None)"

fun nat_digits :: "nat \<Rightarrow> string" where
  "nat_digits n = (if n < 10 then [digit_char n] else nat_digits (n div 10) @ [digit_char (n mod 10)])"

declare nat_digits.simps [simp del]

definition itoa :: "int \<Rightarrow> string" where
  "itoa n = (if n < 0 then CHR ''-'' # nat_digits (nat (- n)) else nat_digits (nat n))"

fun read_digits :: "nat \<Rightarrow> string \<Rightarrow> nat option" where
  "read_digits acc [] = Some acc"
| "read_digits acc (c # cs) = (case digit_value c of None \<Rightarrow> None | Some d \<Rightarrow> read_digits (10 * acc + d) cs)"

text \<open>An optional sign, at least one digit, and a value in the 64-bit range.\<close>

definition atoi :: "string \<Rightarrow> int option" where
  "atoi s = (let neg = (s \<noteq> [] \<and> hd s = CHR ''-'');
       digits = (if s \<noteq> [] \<and> (hd s = CHR ''-'' \<or> hd s = CHR ''+'') then tl s else s)
     in if digits = [] then None
        else case read_digits 0 digits of None \<Rightarrow> None
          | Some n \<Rightarrow> let v = (if neg then - int n else int n) in if in_int64 v then Some v else None)"

lemma digit_value_char [simp]: "d < 10 \<Longrightarrow> digit_value (digit_char d) = Some d"
  by (simp add: digit_value_def digit_char_def of_char_of)

lemma digit_char_eq: "d < 10 \<Longrightarrow> e < 10 \<Longrightarrow> digit_char d = digit_char e \<longleftrightarrow> d = e"
  by (metis digit_value_char option.inject)

definition is_digit :: "char \<Rightarrow> bool" where "is_digit c \<longleftrightarrow> digit_value c \<noteq> None"

lemma is_digit_char [simp]: "d < 10 \<Longrightarrow> is_digit (digit_char d)"
  by (simp add: is_digit_def)

lemma digits_are_digits: "\<forall>c\<in>set (nat_digits n). is_digit c"
  by (induction n rule: nat_digits.induct) (subst nat_digits.simps, auto)

lemma nat_digits_not_Nil: "nat_digits n \<noteq> []"
  by (subst nat_digits.simps) simp

lemma not_digit: "\<not> is_digit (CHR ''/'')" "\<not> is_digit (CHR ''-'')" "\<not> is_digit (CHR ''+'')"
  by (simp_all add: is_digit_def digit_value_def)

lemma read_digits_append:
  "read_digits acc (s @ t) = (case read_digits acc s of None \<Rightarrow> None | Some a \<Rightarrow> read_digits a t)"
  by (induction acc s rule: read_digits.induct) (auto split: option.split)

lemma read_nat_digits: "read_digits 0 (nat_digits n) = Some n"
proof (induction n rule: nat_digits.induct)
  case (1 n)
  then show ?case
    by (cases "n < 10") (subst nat_digits.simps, simp add: read_digits_append)+
qed

lemma atoi_itoa: "in_int64 n \<Longrightarrow> atoi (itoa n) = Some n"
proof -
  assume r: "in_int64 n"
  have h: "hd (nat_digits m) \<noteq> CHR ''-'' \<and> hd (nat_digits m) \<noteq> CHR ''+''" for m
    using digits_are_digits [of m] nat_digits_not_Nil [of m] not_digit hd_in_set by metis
  show ?thesis
  proof (cases "n < 0")
    case True
    with r show ?thesis by (simp add: itoa_def atoi_def read_nat_digits nat_digits_not_Nil)
  next
    case False
    with r h [of "nat n"] show ?thesis by (simp add: itoa_def atoi_def read_nat_digits nat_digits_not_Nil)
  qed
qed

lemma read_itoa_inj: "nat_digits m = nat_digits n \<Longrightarrow> m = n"
  by (metis option.inject read_nat_digits)

lemma itoa_inj: "itoa m = itoa n \<Longrightarrow> m = n"
proof -
  assume e: "itoa m = itoa n"
  have h: "hd (nat_digits k) \<noteq> CHR ''-''" for k
    using digits_are_digits [of k] nat_digits_not_Nil [of k] not_digit hd_in_set by metis
  show ?thesis
  proof (cases "m < 0"; cases "n < 0")
    assume "m < 0" "n < 0"
    with e read_itoa_inj [of "nat (- m)" "nat (- n)"] show ?thesis by (simp add: itoa_def)
  next
    assume "m < 0" "\<not> n < 0"
    with e h [of "nat n"] show ?thesis by (metis itoa_def list.sel(1))
  next
    assume "\<not> m < 0" "n < 0"
    with e h [of "nat m"] show ?thesis by (metis itoa_def list.sel(1))
  next
    assume "\<not> m < 0" "\<not> n < 0"
    with e read_itoa_inj [of "nat m" "nat n"] show ?thesis by (simp add: itoa_def)
  qed
qed

lemma itoa_no_slash: "CHR ''/'' \<notin> set (itoa n)"
  using digits_are_digits not_digit(1) by (auto simp: itoa_def)

text \<open>Padding with zeros to a width, as \<open>%04d\<close> does.\<close>

definition pad_left :: "nat \<Rightarrow> string \<Rightarrow> string" where
  "pad_left n s = replicate (n - length s) (CHR ''0'') @ s"

section \<open>Splitting\<close>

fun split_on :: "char \<Rightarrow> string \<Rightarrow> string list" where
  "split_on c [] = [[]]"
| "split_on c (x # xs) = (if x = c then [] # split_on c xs
     else case split_on c xs of [] \<Rightarrow> [[x]] | p # ps \<Rightarrow> (x # p) # ps)"

definition has_prefix :: "string \<Rightarrow> string \<Rightarrow> bool" where
  "has_prefix s p \<longleftrightarrow> take (length p) s = p"

definition trim_prefix :: "string \<Rightarrow> string \<Rightarrow> string" where
  "trim_prefix s p = (if has_prefix s p then drop (length p) s else s)"

text \<open>\<open>strings.TrimRight\<close> with a single character.\<close>

definition trim_right :: "char \<Rightarrow> string \<Rightarrow> string" where
  "trim_right c s = rev (dropWhile (\<lambda>x. x = c) (rev s))"

lemma prefix_append [simp]: "has_prefix (p @ s) p" "trim_prefix (p @ s) p = s"
  by (simp_all add: has_prefix_def trim_prefix_def)

lemma split_on_none: "c \<notin> set s \<Longrightarrow> split_on c s = [s]"
  by (induction s) auto

lemma split_on_cons: "c \<notin> set s \<Longrightarrow> split_on c (s @ c # t) = s # split_on c t"
  by (induction s) auto

text \<open>A string has one decomposition around the first occurrence of a separator.\<close>

lemma sep_take: "c \<notin> set s \<Longrightarrow> takeWhile (\<lambda>x. x \<noteq> c) (s @ c # t) = s \<and> dropWhile (\<lambda>x. x \<noteq> c) (s @ c # t) = c # t"
  by (induction s) auto

lemma sep_inj:
  assumes "s @ c # t = s' @ c # t'" "c \<notin> set s" "c \<notin> set s'"
  shows "s = s' \<and> t = t'"
  using sep_take [OF assms(2), of t] sep_take [OF assms(3), of t'] assms(1) by (metis list.inject)

end
