(* ===== verification/Manifest.thy ===== *)
theory Manifest
  imports Rand GoStrings
begin

text \<open>
  \<open>internal/video/manifest.go\<close> and \<open>generate.go\<close>: representations and manifests, the bitrate
  lookups the algorithms use, segment identifiers, and the generator of segment sizes.
\<close>

section \<open>Manifests\<close>

record representation =
  bitrate :: int
  rep_width :: int
  rep_height :: int
  segment_sizes :: "int list"

record manifest =
  content_id :: string
  segment_duration :: duration
  total_segments :: int
  representations :: "representation list"

definition mk_rep :: "int \<Rightarrow> int \<Rightarrow> int \<Rightarrow> representation" where
  "mk_rep b w h = \<lparr>bitrate = b, rep_width = w, rep_height = h, segment_sizes = []\<rparr>"

definition default_representations :: "representation list" where
  "default_representations = [mk_rep 400 640 360, mk_rep 800 854 480, mk_rep 1500 1280 720,
     mk_rep 3000 1920 1080, mk_rep 6000 2560 1440, mk_rep 12000 3840 2160]"

definition lowest_bitrate :: "manifest \<Rightarrow> int" where
  "lowest_bitrate m = (case representations m of [] \<Rightarrow> 0
     | r # rs \<Rightarrow> foldl (\<lambda>lo r. if bitrate r < lo then bitrate r else lo) (bitrate r) rs)"

definition highest_bitrate :: "manifest \<Rightarrow> int" where
  "highest_bitrate m = (case representations m of [] \<Rightarrow> 0
     | r # rs \<Rightarrow> foldl (\<lambda>hi r. if bitrate r > hi then bitrate r else hi) (bitrate r) rs)"

definition closest_bitrate :: "manifest \<Rightarrow> int \<Rightarrow> int" where
  "closest_bitrate m target = foldl (\<lambda>best r. if bitrate r \<le> target \<and> bitrate r > best then bitrate r else best)
     (lowest_bitrate m) (representations m)"

text \<open>\<open>None\<close> is the panic of indexing an empty slice.\<close>

definition representation_for_bitrate :: "manifest \<Rightarrow> int \<Rightarrow> representation option" where
  "representation_for_bitrate m b = (case representations m of [] \<Rightarrow> None
     | r0 # _ \<Rightarrow> Some (foldl (\<lambda>chosen r. if bitrate r \<le> b \<and> bitrate r \<ge> bitrate chosen then r else chosen)
         r0 (representations m)))"

definition segment_id_of :: "string \<Rightarrow> int \<Rightarrow> int \<Rightarrow> string" where
  "segment_id_of cid idx b = cid @ CHR ''/'' # itoa b @ CHR ''/'' # ''seg-'' @ itoa idx"

abbreviation ladder :: "manifest \<Rightarrow> int set" where
  "ladder m \<equiv> bitrate ` set (representations m)"

section \<open>Generation\<close>

definition clamp :: "real \<Rightarrow> real \<Rightarrow> real \<Rightarrow> real" where
  "clamp v lo hi = (if v < lo then lo else if v > hi then hi else v)"

definition normal_sample :: "libm \<Rightarrow> 'g rand_ops \<Rightarrow> real \<Rightarrow> real \<Rightarrow> 'g \<Rightarrow> real \<times> 'g" where
  "normal_sample M R mean stddev g = (let
       (u1, g1) = r_float64 R g;
       (u2, g2) = r_float64 R g1;
       u1 = (if u1 < fl (1 / 10 ^ 12) then fl (1 / 10 ^ 12) else u1);
       z = fmul (fsqrt (fmul (- 2) (m_log M u1))) (m_cos M (fmul (884279719003555 / 140737488355328) u2))
     in (fadd mean (fmul z stddev), g2))"

fun draw_factors :: "libm \<Rightarrow> 'g rand_ops \<Rightarrow> nat \<Rightarrow> 'g \<Rightarrow> real list \<times> 'g" where
  "draw_factors M R 0 g = ([], g)"
| "draw_factors M R (Suc n) g = (let (x, g1) = normal_sample M R 1 (fl (15 / 100)) g;
       (fs, g2) = draw_factors M R n g1
     in (clamp x (1 / 2) (fl (18 / 10)) # fs, g2))"

definition mean_bytes :: "int \<Rightarrow> duration \<Rightarrow> real" where
  "mean_bytes b d = fmul (fdiv (i2f (b * 1000)) 8) (dur_seconds d)"

definition with_sizes :: "duration \<Rightarrow> real list \<Rightarrow> representation \<Rightarrow> representation" where
  "with_sizes d fs r = r\<lparr>segment_sizes := map (\<lambda>f. f2i (fmul (mean_bytes (bitrate r) d) f)) fs\<rparr>"

text \<open>A segment duration of zero divides by zero: the quotient is infinite or NaN in Go and zero here,
  and both become one segment.\<close>

definition num_segments :: "duration \<Rightarrow> duration \<Rightarrow> int" where
  "num_segments d sd = (let n = f2i (fceil (fdiv (dur_seconds d) (dur_seconds sd))) in if n \<le> 0 then 1 else n)"

definition generate_manifest :: "libm \<Rightarrow> 'g rand_ops \<Rightarrow> string \<Rightarrow> duration \<Rightarrow> duration \<Rightarrow> representation list \<Rightarrow> 'g \<Rightarrow>
    manifest \<times> 'g" where
  "generate_manifest M R cid d sd reps g = (let
       reps = (if reps = [] then default_representations else reps);
       n = num_segments d sd;
       (factors, g') = draw_factors M R (nat n) g
     in (\<lparr>content_id = cid, segment_duration = sd, total_segments = n,
          representations = map (with_sizes sd factors) reps\<rparr>, g'))"

section \<open>Bitrate lookups\<close>

lemma fold_low: "foldl (\<lambda>lo r. if bitrate r < lo then bitrate r else lo) a rs = Min (insert a (bitrate ` set rs))"
proof (induction rs arbitrary: a)
  case (Cons r rs)
  have "(if bitrate r < a then bitrate r else a) = min (bitrate r) a" by simp
  then show ?case
    by (cases "rs = []") (simp_all add: Cons Min_insert min.left_commute min.commute)
qed simp

lemma fold_high: "foldl (\<lambda>hi r. if bitrate r > hi then bitrate r else hi) a rs = Max (insert a (bitrate ` set rs))"
proof (induction rs arbitrary: a)
  case (Cons r rs)
  have "(if bitrate r > a then bitrate r else a) = max (bitrate r) a" by simp
  then show ?case
    by (cases "rs = []") (simp_all add: Cons Max_insert max.left_commute max.commute)
qed simp

lemma lowest_Min: "representations m \<noteq> [] \<Longrightarrow> lowest_bitrate m = Min (ladder m)"
  by (cases "representations m") (simp_all add: lowest_bitrate_def fold_low)

lemma highest_Max: "representations m \<noteq> [] \<Longrightarrow> highest_bitrate m = Max (ladder m)"
  by (cases "representations m") (simp_all add: highest_bitrate_def fold_high)

lemma lowest_in: "representations m \<noteq> [] \<Longrightarrow> lowest_bitrate m \<in> ladder m \<and> (\<forall>b\<in>ladder m. lowest_bitrate m \<le> b)"
  by (simp add: lowest_Min Min_in)

lemma highest_in: "representations m \<noteq> [] \<Longrightarrow> highest_bitrate m \<in> ladder m \<and> (\<forall>b\<in>ladder m. b \<le> highest_bitrate m)"
  by (simp add: highest_Max Max_in)

lemma fold_closest:
  "foldl (\<lambda>best r. if bitrate r \<le> t \<and> bitrate r > best then bitrate r else best) a rs =
    Max (insert a {b \<in> bitrate ` set rs. b \<le> t})"
proof (induction rs arbitrary: a)
  case (Cons r rs)
  show ?case
  proof (cases "bitrate r \<le> t")
    case True
    then have "{b \<in> bitrate ` set (r # rs). b \<le> t} = insert (bitrate r) {b \<in> bitrate ` set rs. b \<le> t}" by auto
    moreover have "(if bitrate r > a then bitrate r else a) = max (bitrate r) a" by simp
    moreover have "Max (insert (max (bitrate r) a) S) = Max (insert a (insert (bitrate r) S))" if "finite S" for S
      using that by (cases "S = {}") (simp_all add: max.left_commute max.commute)
    ultimately show ?thesis using True by (simp add: Cons)
  next
    case False
    then have "{b \<in> bitrate ` set (r # rs). b \<le> t} = {b \<in> bitrate ` set rs. b \<le> t}" by auto
    with False show ?thesis by (simp add: Cons)
  qed
qed simp

lemma closest_spec:
  assumes "representations m \<noteq> []"
  shows "closest_bitrate m t = (if lowest_bitrate m \<le> t then Max {b \<in> ladder m. b \<le> t} else lowest_bitrate m)"
proof -
  note lo = lowest_in [OF assms]
  have eq: "closest_bitrate m t = Max (insert (lowest_bitrate m) {b \<in> ladder m. b \<le> t})"
    by (simp add: closest_bitrate_def fold_closest)
  show ?thesis
  proof (cases "lowest_bitrate m \<le> t")
    case True
    with lo have "insert (lowest_bitrate m) {b \<in> ladder m. b \<le> t} = {b \<in> ladder m. b \<le> t}" by blast
    with eq True show ?thesis by simp
  next
    case False
    with lo have none: "{b \<in> ladder m. b \<le> t} = {}" by force
    show ?thesis using False by (simp only: eq none if_False Max_singleton)
  qed
qed

lemma closest_in: "representations m \<noteq> [] \<Longrightarrow> closest_bitrate m t \<in> ladder m"
proof -
  assume ne: "representations m \<noteq> []"
  note lo = lowest_in [OF ne]
  show ?thesis
  proof (cases "lowest_bitrate m \<le> t")
    case True
    then have "{b \<in> ladder m. b \<le> t} \<noteq> {}" using lo by blast
    from Max_in [OF _ this] True show ?thesis by (simp add: closest_spec [OF ne])
  next
    case False
    with lo show ?thesis by (simp add: closest_spec [OF ne])
  qed
qed

lemma fold_chosen:
  assumes "bitrate c \<le> b \<or> (\<forall>r\<in>set rs. bitrate r \<le> b \<longrightarrow> bitrate r < bitrate c)"
  shows "foldl (\<lambda>chosen r. if bitrate r \<le> b \<and> bitrate r \<ge> bitrate chosen then r else chosen) c rs \<in> insert c (set rs)
    \<and> (bitrate c \<le> b \<longrightarrow> bitrate (foldl (\<lambda>chosen r. if bitrate r \<le> b \<and> bitrate r \<ge> bitrate chosen then r else chosen) c rs)
        = Max (insert (bitrate c) {x \<in> bitrate ` set rs. x \<le> b}))
    \<and> (\<not> bitrate c \<le> b \<longrightarrow> foldl (\<lambda>chosen r. if bitrate r \<le> b \<and> bitrate r \<ge> bitrate chosen then r else chosen) c rs = c)"
  using assms
proof (induction rs arbitrary: c)
  case (Cons r rs)
  show ?case
  proof (cases "bitrate r \<le> b \<and> bitrate r \<ge> bitrate c")
    case True
    then have "{x \<in> bitrate ` set (r # rs). x \<le> b} = insert (bitrate r) {x \<in> bitrate ` set rs. x \<le> b}" by auto
    moreover have "Max (insert (bitrate c) (insert (bitrate r) S)) = Max (insert (bitrate r) S)" if "finite S" for S
      using that True by (cases "S = {}") (auto simp: max_def)
    ultimately show ?thesis using True Cons.IH [of r] by auto
  next
    case False
    have "Max (insert (bitrate c) {x \<in> bitrate ` set (r # rs). x \<le> b}) = Max (insert (bitrate c) {x \<in> bitrate ` set rs. x \<le> b})"
    proof (cases "bitrate r \<le> b")
      case True
      with False have lt: "bitrate r < bitrate c" by simp
      have "{x \<in> bitrate ` set (r # rs). x \<le> b} = insert (bitrate r) {x \<in> bitrate ` set rs. x \<le> b}" using True by auto
      moreover have "Max (insert (bitrate c) (insert (bitrate r) S)) = Max (insert (bitrate c) S)" if "finite S" for S
        using that lt by (cases "S = {}") (auto simp: max_def)
      ultimately show ?thesis by simp
    next
      case False
      then have "{x \<in> bitrate ` set (r # rs). x \<le> b} = {x \<in> bitrate ` set rs. x \<le> b}" by auto
      then show ?thesis by simp
    qed
    moreover have "bitrate c \<le> b \<or> (\<forall>r\<in>set rs. bitrate r \<le> b \<longrightarrow> bitrate r < bitrate c)" using Cons.prems by auto
    ultimately show ?thesis using False Cons.IH [of c] by auto
  qed
qed simp

text \<open>The two lookups agree when the first representation is the lowest.\<close>

lemma rep_for_sorted:
  assumes "representations m = r0 # rs" "bitrate r0 = lowest_bitrate m"
  shows "\<exists>r\<in>set (representations m). representation_for_bitrate m b = Some r \<and> bitrate r = closest_bitrate m b"
proof -
  have ne: "representations m \<noteq> []" using assms(1) by simp
  note lo = lowest_in [OF ne]
  let ?f = "foldl (\<lambda>chosen r. if bitrate r \<le> b \<and> bitrate r \<ge> bitrate chosen then r else chosen) r0 (representations m)"
  have le: "bitrate r0 \<le> b \<or> (\<forall>r\<in>set (representations m). bitrate r \<le> b \<longrightarrow> bitrate r < bitrate r0)"
    using lo assms(2) by force
  note fc = fold_chosen [OF le]
  have mem: "?f \<in> set (representations m)" using fc assms(1) by auto
  have "bitrate ?f = closest_bitrate m b"
  proof (cases "bitrate r0 \<le> b")
    case True
    then have "insert (bitrate r0) {x \<in> ladder m. x \<le> b} = {x \<in> ladder m. x \<le> b}" using assms(1) by auto
    with fc True assms(2) show ?thesis by (simp add: closest_spec [OF ne])
  next
    case False
    with fc assms(2) show ?thesis by (simp add: closest_spec [OF ne])
  qed
  moreover have "representation_for_bitrate m b = Some ?f" using assms(1) by (simp add: representation_for_bitrate_def)
  ultimately show ?thesis using mem by blast
qed

lemma rep_in: "representation_for_bitrate m b = Some r \<Longrightarrow> r \<in> set (representations m)"
proof -
  have "foldl (\<lambda>c r. if bitrate r \<le> b \<and> bitrate r \<ge> bitrate c then r else c) c rs \<in> insert c (set rs)" for c rs
    by (induction rs arbitrary: c) auto
  then show "representation_for_bitrate m b = Some r \<Longrightarrow> r \<in> set (representations m)"
    by (auto simp: representation_for_bitrate_def split: list.splits)
qed

lemma rep_first_above:
  assumes "representations m = r0 # rs" "b < bitrate r0"
  shows "representation_for_bitrate m b = Some r0"
proof -
  have "foldl (\<lambda>c r. if bitrate r \<le> b \<and> bitrate r \<ge> bitrate c then r else c) r0 xs = r0" for xs
    using assms(2) by (induction xs) auto
  with assms show ?thesis by (simp add: representation_for_bitrate_def)
qed

text \<open>Looking a bitrate up. \<open>ClosestBitrate\<close> is the largest bitrate of the ladder that does not exceed the
  target, or the lowest one; \<open>RepresentationForBitrate\<close> finds a representation of exactly that bitrate
  when the first one of the ladder is the lowest, but returns the first one, above the target, whenever
  that one exceeds it, whatever the rest of the ladder offers.\<close>

lemma bitrate_lookup:
  assumes "representations m = r0 # rs"
  shows "closest_bitrate m b = (if lowest_bitrate m \<le> b then Max {x \<in> ladder m. x \<le> b} else lowest_bitrate m)
    \<and> lowest_bitrate m = Min (ladder m)
    \<and> (bitrate r0 = lowest_bitrate m \<longrightarrow>
        (\<exists>r\<in>set (representations m). representation_for_bitrate m b = Some r \<and> bitrate r = closest_bitrate m b))
    \<and> (b < bitrate r0 \<longrightarrow> representation_for_bitrate m b = Some r0)"
  using closest_spec [of m b] lowest_Min [of m] rep_for_sorted [OF assms, of b] rep_first_above [OF assms, of b] assms
  by simp

definition demo_manifest :: manifest where
  "demo_manifest = \<lparr>content_id = ''c'', segment_duration = 4 * second, total_segments = 2,
     representations = [\<lparr>bitrate = 400, rep_width = 640, rep_height = 360, segment_sizes = [200000, 210000]\<rparr>,
       \<lparr>bitrate = 800, rep_width = 854, rep_height = 480, segment_sizes = [400000, 420000]\<rparr>]\<rparr>"

section \<open>Segment identifiers\<close>

lemma segment_id_inj:
  assumes "segment_id_of c i b = segment_id_of c' i' b'" "c = c' \<or> CHR ''/'' \<notin> set c \<and> CHR ''/'' \<notin> set c'"
  shows "c = c' \<and> i = i' \<and> b = b'"
proof -
  have "c = c' \<and> itoa b @ CHR ''/'' # ''seg-'' @ itoa i = itoa b' @ CHR ''/'' # ''seg-'' @ itoa i'"
    using assms(2)
  proof
    assume "c = c'"
    with assms(1) show ?thesis by (simp add: segment_id_of_def)
  next
    assume "CHR ''/'' \<notin> set c \<and> CHR ''/'' \<notin> set c'"
    with sep_inj [of c _ "itoa b @ CHR ''/'' # ''seg-'' @ itoa i" c' "itoa b' @ CHR ''/'' # ''seg-'' @ itoa i'"] assms(1)
    show ?thesis by (simp add: segment_id_of_def)
  qed
  moreover from this have "itoa b = itoa b' \<and> ''seg-'' @ itoa i = ''seg-'' @ itoa i'"
    by (intro sep_inj [where c = "CHR ''/''"] itoa_no_slash) simp
  ultimately show ?thesis using itoa_inj by blast
qed

text \<open>Segment identifiers are unambiguous. Two segments of content ids without a slash have the same
  identifier only when content, index and bitrate are all the same; so no cache entry of one segment,
  or of one quality level, is ever found under another's key.\<close>

lemma segment_ids_unambiguous:
  assumes "CHR ''/'' \<notin> set c" "CHR ''/'' \<notin> set c'"
  shows "segment_id_of c i b = segment_id_of c' i' b' \<longleftrightarrow> c = c' \<and> i = i' \<and> b = b'"
  using segment_id_inj [of c i b c' i' b'] assms by blast

section \<open>Generated sizes\<close>

lemma draw_factors_clamped: "length (fst (draw_factors M R n g)) = n \<and> (\<forall>f\<in>set (fst (draw_factors M R n g)). 1 / 2 \<le> f \<and> f \<le> fl (18 / 10))"
proof (induction n arbitrary: g)
  case (Suc n)
  have "1 / 2 \<le> fl (18 / 10)"
  proof (rule fl_ge_rep)
    have "(1 / 2 :: real) = of_int 1 * 2 powi (- 1)" by simp
    then show "float_rep (1 / 2)" unfolding float_rep_def by (metis abs_one one_le_power one_le_numeral)
  qed simp
  then have "1 / 2 \<le> clamp x (1 / 2) (fl (18 / 10)) \<and> clamp x (1 / 2) (fl (18 / 10)) \<le> fl (18 / 10)" for x
    by (simp add: clamp_def)
  with Suc show ?case by (simp add: case_prod_unfold Let_def)
qed simp

lemma mean_bytes_mono:
  assumes "0 \<le> b" "b \<le> b'" "0 \<le> d"
  shows "0 \<le> mean_bytes b d \<and> mean_bytes b d \<le> mean_bytes b' d"
proof -
  have q: "0 \<le> fdiv (i2f (b * 1000)) 8" "fdiv (i2f (b * 1000)) 8 \<le> fdiv (i2f (b' * 1000)) 8"
    using assms i2f_mono [of "b * 1000" "b' * 1000"] i2f_nonneg [of "b * 1000"]
    by (simp_all add: fdiv_def fl_nonneg fl_mono)
  have "0 \<le> dur_seconds d" using assms(3) by (rule dur_seconds_nonneg)
  with q show ?thesis by (simp add: mean_bytes_def fmul_def fl_nonneg fl_mono mult_right_mono)
qed

text \<open>Generated manifests are well formed. Every representation keeps its bitrate and gets one size
  for each of the manifest's segments; sizes are not negative, and at every index a higher bitrate never
  has the smaller segment, since the scene factor is shared by the ladder.\<close>

lemma generated_manifest_sizes:
  assumes gen: "m = fst (generate_manifest M R cid d sd reps g)" "reps \<noteq> []" "0 \<le> sd"
    and b: "\<forall>r\<in>set reps. 0 \<le> bitrate r" and bound: "\<forall>r\<in>set reps. fmul (mean_bytes (bitrate r) sd) (fl (18 / 10)) \<le> 2 ^ 53"
  shows "1 \<le> total_segments m \<and> map bitrate (representations m) = map bitrate reps
    \<and> (\<forall>r\<in>set (representations m). length (segment_sizes r) = nat (total_segments m) \<and> (\<forall>s\<in>set (segment_sizes r). 0 \<le> s))
    \<and> (\<forall>r\<in>set (representations m). \<forall>r'\<in>set (representations m). bitrate r \<le> bitrate r' \<longrightarrow>
        (\<forall>i<nat (total_segments m). segment_sizes r ! i \<le> segment_sizes r' ! i))"
proof -
  define fs where "fs = fst (draw_factors M R (nat (num_segments d sd)) g)"
  have m: "total_segments m = num_segments d sd" "representations m = map (with_sizes sd fs) reps"
    using gen(2) by (simp_all add: gen(1) generate_manifest_def fs_def case_prod_unfold Let_def)
  have fs: "length fs = nat (num_segments d sd)" "\<forall>f\<in>set fs. 1 / 2 \<le> f \<and> f \<le> fl (18 / 10)"
    using draw_factors_clamped [of M R "nat (num_segments d sd)" g] by (simp_all add: fs_def)
  have one: "1 \<le> num_segments d sd" by (simp add: num_segments_def Let_def)
  have size: "0 \<le> f2i (fmul (mean_bytes (bitrate r) sd) f) \<and>
      f2i (fmul (mean_bytes (bitrate r) sd) f) \<le> f2i (fmul (mean_bytes (bitrate r') sd) f)"
    if "r \<in> set reps" "r' \<in> set reps" "bitrate r \<le> bitrate r'" "f \<in> set fs" for r r' f
  proof -
    have mb: "0 \<le> mean_bytes (bitrate r) sd" "mean_bytes (bitrate r) sd \<le> mean_bytes (bitrate r') sd"
      using mean_bytes_mono [of "bitrate r" "bitrate r'" sd] b that gen(3) by auto
    have f: "0 \<le> f" "f \<le> fl (18 / 10)" using fs(2) that(4) by force+
    have "fmul (mean_bytes (bitrate r') sd) f \<le> fmul (mean_bytes (bitrate r') sd) (fl (18 / 10))"
      unfolding fmul_def using f mb by (intro fl_mono mult_left_mono) simp_all
    then have "fmul (mean_bytes (bitrate r') sd) f \<le> of_int (2 ^ 53)" using bound that(2) by force
    moreover have "0 \<le> fmul (mean_bytes (bitrate r) sd) f"
      "fmul (mean_bytes (bitrate r) sd) f \<le> fmul (mean_bytes (bitrate r') sd) f"
      using f mb by (simp_all add: fmul_def fl_nonneg fl_mono mult_right_mono)
    ultimately show ?thesis by (intro trunc_f2i [of _ _ "2 ^ 53"]) (simp_all add: int64_max_def)
  qed
  have "map bitrate (representations m) = map bitrate reps" by (simp add: m with_sizes_def)
  moreover have "\<forall>r\<in>set (representations m). length (segment_sizes r) = nat (total_segments m) \<and> (\<forall>s\<in>set (segment_sizes r). 0 \<le> s)"
    using fs(1) size by (auto simp: m with_sizes_def)
  moreover have "segment_sizes r ! i \<le> segment_sizes r' ! i"
    if "r \<in> set (representations m)" "r' \<in> set (representations m)" "bitrate r \<le> bitrate r'" "i < nat (total_segments m)" for r r' i
  proof -
    from that(1,2) obtain x x' where x: "x \<in> set reps" "r = with_sizes sd fs x" "x' \<in> set reps" "r' = with_sizes sd fs x'"
      by (auto simp: m)
    have i: "i < length fs" using that(4) fs(1) by (simp add: m)
    with size [OF x(1,3) _ nth_mem [OF i]] that(3) show ?thesis by (simp add: x with_sizes_def)
  qed
  ultimately show ?thesis using one by (simp add: m(1))
qed

end
