(* ===== verification/Abr.thy ===== *)
theory Abr
  imports Manifest
begin

text \<open>
  \<open>internal/video/abr.go\<close>, \<open>abr_buffer.go\<close> and \<open>abr_throughput.go\<close>: the player state an algorithm
  sees, the buffer-based and the throughput-based algorithm, and their common interface.
\<close>

section \<open>State and decisions\<close>

record throughput_sample =
  kbps :: real
  fetch_time :: duration

record player_state =
  buffer_level :: duration
  state_max_buffer :: duration
  last_throughput :: real
  throughput_history :: "throughput_sample list"
  current_bitrate :: int
  segment_index :: int
  startup_complete :: bool
  state_rebuffers :: int

record abr_decision =
  d_bitrate :: int
  d_reason :: string

definition one_level_above :: "manifest \<Rightarrow> int \<Rightarrow> int" where
  "one_level_above m current = foldl (\<lambda>best r. if bitrate r > current
     then (if best = current \<or> bitrate r < best then bitrate r else best) else best) current (representations m)"

definition one_level_below :: "manifest \<Rightarrow> int \<Rightarrow> int" where
  "one_level_below m current = foldl (\<lambda>best r. if bitrate r < current
     then (if best = current \<or> bitrate r > best then bitrate r else best) else best) current (representations m)"

text \<open>The last index at which a value occurs, or -1; the list is the ladder the code's insertion sort
  has ordered.\<close>

fun last_index :: "int \<Rightarrow> int \<Rightarrow> int \<Rightarrow> int list \<Rightarrow> int" where
  "last_index v found i [] = found"
| "last_index v found i (x # xs) = last_index v (if x = v then i else found) (i + 1) xs"

definition levels_apart :: "manifest \<Rightarrow> int \<Rightarrow> int \<Rightarrow> int" where
  "levels_apart m a b = (let ordered = sort (map bitrate (representations m));
     ia = last_index a (- 1) 0 ordered; ib = last_index b (- 1) 0 ordered
   in if ia = - 1 \<or> ib = - 1 then 2 else if ia > ib then ia - ib else ib - ia)"

section \<open>Buffer-based\<close>

record buffer_abr =
  critical_s :: real
  danger_s :: real
  comfort_s :: real
  surplus_s :: real

definition new_buffer_abr :: buffer_abr where
  "new_buffer_abr = \<lparr>critical_s = 2, danger_s = 6, comfort_s = 6, surplus_s = 15\<rparr>"

definition buffer_name :: string where "buffer_name = ''buffer_based''"

definition bba_fraction :: "buffer_abr \<Rightarrow> real \<Rightarrow> real" where
  "bba_fraction b buf = (let frac = fdiv (fsub buf (comfort_s b)) (fsub (surplus_s b) (comfort_s b));
     frac = (if frac < 0 then 0 else frac) in if frac > 1 then 1 else frac)"

definition bba_current :: "player_state \<Rightarrow> manifest \<Rightarrow> int" where
  "bba_current st m = (if current_bitrate st = 0 then lowest_bitrate m else current_bitrate st)"

text \<open>The target and its reason in the danger, surplus and comfort zones (the \<open>switch\<close>).\<close>

definition bba_target :: "buffer_abr \<Rightarrow> player_state \<Rightarrow> manifest \<Rightarrow> int \<times> string" where
  "bba_target b st m = (let
       buf = dur_seconds (buffer_level st);
       low = lowest_bitrate m;
       high = highest_bitrate m;
       current = bba_current st m
     in if buf < danger_s b then
          (if throughput_history st \<noteq> [] \<and> kbps (last (throughput_history st)) < i2f current
           then one_level_below m current else current, ''buffer_danger'')
        else if buf \<ge> surplus_s b then (high, ''buffer_surplus'')
        else (closest_bitrate m (f2i (fadd (i2f low) (fmul (i2f (high - low)) (bba_fraction b buf)))), ''buffer_comfort''))"

definition buffer_select :: "buffer_abr \<Rightarrow> player_state \<Rightarrow> manifest \<Rightarrow> abr_decision" where
  "buffer_select b st m = (if dur_seconds (buffer_level st) < critical_s b
     then \<lparr>d_bitrate = lowest_bitrate m, d_reason = ''buffer_critical''\<rparr>
     else let (target, reason) = bba_target b st m
       in if levels_apart m (bba_current st m) target \<le> 1 \<and> reason \<noteq> ''buffer_critical''
          then \<lparr>d_bitrate = bba_current st m, d_reason = reason @ ''_hysteresis''\<rparr>
          else \<lparr>d_bitrate = target, d_reason = reason\<rparr>)"

section \<open>Throughput-based\<close>

record throughput_abr =
  alpha :: real
  safety_margin :: real
  startup_length :: int
  probe_interval :: int
  min_samples_ewma :: int

definition new_throughput_abr :: throughput_abr where
  "new_throughput_abr = \<lparr>alpha = fl (3 / 10), safety_margin = fl (85 / 100), startup_length = 3,
     probe_interval = 10, min_samples_ewma = 3\<rparr>"

definition throughput_name :: string where "throughput_name = ''throughput_based''"

definition throughput_estimate :: "throughput_abr \<Rightarrow> throughput_sample list \<Rightarrow> int \<Rightarrow> real" where
  "throughput_estimate t history low = (
     if int (length history) < min_samples_ewma t then
       (if history \<noteq> [] then fdiv (foldl (\<lambda>s x. fadd s (kbps x)) 0 history) (i2f (int (length history)))
        else i2f low)
     else (case history of
         [] \<Rightarrow> 0
       | x # xs \<Rightarrow> foldl (\<lambda>e s. fadd (fmul (alpha t) (kbps s)) (fmul (fsub 1 (alpha t)) e)) (kbps x) xs))"

text \<open>An empty history with a \<open>MinSamplesEWMA\<close> of zero or less indexes out of range in the code; the
  constructor's value is three, and the case is 0 here.\<close>

definition throughput_select :: "throughput_abr \<Rightarrow> player_state \<Rightarrow> manifest \<Rightarrow> abr_decision" where
  "throughput_select t st m = (
     if segment_index st < startup_length t then \<lparr>d_bitrate = lowest_bitrate m, d_reason = ''startup''\<rparr>
     else let
       target = f2i (fmul (throughput_estimate t (throughput_history st) (lowest_bitrate m)) (safety_margin t));
       chosen = closest_bitrate m target;
       probe = one_level_above m (current_bitrate st)
     in if probe_interval t > 0 \<and> go_rem (segment_index st) (probe_interval t) = 0 \<and> segment_index st > startup_length t
          \<and> probe > chosen
        then \<lparr>d_bitrate = probe, d_reason = ''probe''\<rparr>
        else \<lparr>d_bitrate = chosen, d_reason = ''ewma''\<rparr>)"

section \<open>Neighbouring levels\<close>

lemma above_in: "one_level_above m c \<in> insert c (ladder m) \<and> c \<le> one_level_above m c"
proof -
  have "foldl (\<lambda>best r. if bitrate r > c then (if best = c \<or> bitrate r < best then bitrate r else best) else best) b rs
      \<in> insert b (bitrate ` set rs) \<and>
    (c \<le> b \<longrightarrow> c \<le> foldl (\<lambda>best r. if bitrate r > c then (if best = c \<or> bitrate r < best then bitrate r else best) else best) b rs)"
    for b and rs :: "representation list"
    by (induction rs arbitrary: b) auto
  from this [of c] show ?thesis by (auto simp: one_level_above_def)
qed

lemma below_max:
  "one_level_below m c = (if \<exists>b\<in>ladder m. b < c then Max {b \<in> ladder m. b < c} else c)"
proof -
  let ?f = "\<lambda>best r. if bitrate r < c then (if best = c \<or> bitrate r > best then bitrate r else best) else best"
  have low: "foldl ?f b rs = Max (insert b {x \<in> bitrate ` set rs. x < c})" if "b < c" for b rs
    using that
  proof (induction rs arbitrary: b)
    case (Cons r rs)
    show ?case
    proof (cases "bitrate r < c")
      case True
      then have "{x \<in> bitrate ` set (r # rs). x < c} = insert (bitrate r) {x \<in> bitrate ` set rs. x < c}" by auto
      moreover have "Max (insert (max b (bitrate r)) S) = Max (insert b (insert (bitrate r) S))" if "finite S" for S
        using that by (cases "S = {}") (simp_all add: max.left_commute max.commute)
      moreover have "?f b r = max b (bitrate r)" using True Cons.prems by auto
      ultimately show ?thesis using Cons.IH [of "max b (bitrate r)"] True Cons.prems by simp
    next
      case False
      then have "{x \<in> bitrate ` set (r # rs). x < c} = {x \<in> bitrate ` set rs. x < c}" by auto
      with False Cons show ?thesis by simp
    qed
  qed simp
  have "foldl ?f c rs = (if \<exists>b\<in>bitrate ` set rs. b < c then Max {b \<in> bitrate ` set rs. b < c} else c)" for rs
  proof (induction rs)
    case (Cons r rs)
    show ?case
    proof (cases "bitrate r < c")
      case True
      then have "{x \<in> bitrate ` set (r # rs). x < c} = insert (bitrate r) {x \<in> bitrate ` set rs. x < c}" by auto
      with True low [OF True, of rs] show ?thesis by simp
    next
      case False
      then have "{x \<in> bitrate ` set (r # rs). x < c} = {x \<in> bitrate ` set rs. x < c}" by auto
      with False Cons show ?thesis by simp
    qed
  qed simp
  from this [of "representations m"] show ?thesis by (simp only: one_level_below_def)
qed

text \<open>In a strictly sorted list the index of a value counts the smaller ones.\<close>

lemma last_index_absent: "v \<notin> set xs \<Longrightarrow> last_index v f i xs = f"
  by (induction v f i xs rule: last_index.induct) auto

lemma last_index_sorted:
  "sorted_wrt (<) xs \<Longrightarrow> v \<in> set xs \<Longrightarrow> last_index v f i xs = i + int (card {y \<in> set xs. y < v})"
proof (induction v f i xs rule: last_index.induct)
  case (2 v f i x xs)
  show ?case
  proof (cases "v = x")
    case True
    with 2(2) have "v \<notin> set xs" "{y \<in> set (x # xs). y < v} = {}" by auto
    then show ?thesis using last_index_absent [of v xs i "i + 1"] by (simp add: True)
  next
    case False
    with 2(2,3) have "x < v" "x \<notin> set xs" "v \<in> set xs" by auto
    then have "{y \<in> set (x # xs). y < v} = insert x {y \<in> set xs. y < v}" by auto
    with 2 False \<open>v \<in> set xs\<close> \<open>x \<notin> set xs\<close> show ?thesis by simp
  qed
qed simp

lemma strictly_sorted_sort: "distinct xs \<Longrightarrow> sorted_wrt (<) (sort xs)" for xs :: "int list"
  by (simp add: strict_sorted_iff)

lemma levels_apart_card:
  assumes "distinct (map bitrate (representations m))" "a \<in> ladder m" "b \<in> ladder m"
  shows "levels_apart m a b = \<bar>int (card {y \<in> ladder m. y < a}) - int (card {y \<in> ladder m. y < b})\<bar>"
proof -
  have s: "sorted_wrt (<) (sort (map bitrate (representations m)))" using assms(1) by (rule strictly_sorted_sort)
  show ?thesis using assms(2,3)
    by (simp add: levels_apart_def Let_def last_index_sorted [OF s])
qed

lemma one_level_below_adjacent:
  assumes "distinct (map bitrate (representations m))" "c \<in> ladder m"
  shows "levels_apart m c (one_level_below m c) \<le> 1"
proof (cases "\<exists>b\<in>ladder m. b < c")
  case True
  define top where "top = Max {b \<in> ladder m. b < c}"
  have ne: "{b \<in> ladder m. b < c} \<noteq> {}" using True by blast
  have b: "top \<in> ladder m" "top < c" using Max_in [OF _ ne] by (simp_all add: top_def)
  have le: "y \<le> top" if "y \<in> ladder m" "y < c" for y using that unfolding top_def by (intro Max_ge) simp_all
  have "y \<in> ladder m \<and> y < c \<longleftrightarrow> y = top \<or> y \<in> ladder m \<and> y < top" for y
    using b le [of y] by (cases "y = top") (simp_all only: simp_thms, linarith)
  then have "{y \<in> ladder m. y < c} = insert top {y \<in> ladder m. y < top}" by blast
  then have "card {y \<in> ladder m. y < c} = card (insert top {y \<in> ladder m. y < top})" by (rule arg_cong)
  also have "\<dots> = Suc (card {y \<in> ladder m. y < top})" by (rule card_insert_disjoint) simp_all
  finally have "levels_apart m c top = 1" using levels_apart_card [OF assms b(1)] by simp
  moreover have "one_level_below m c = top" using True by (simp add: below_max top_def)
  ultimately show ?thesis by simp
next
  case False
  then show ?thesis using levels_apart_card [OF assms(1,2,2)] by (simp add: below_max)
qed

lemma one_level_below_in: "c \<in> ladder m \<Longrightarrow> one_level_below m c \<in> ladder m"
proof (cases "\<exists>b\<in>ladder m. b < c")
  case True
  then have "{b \<in> ladder m. b < c} \<noteq> {}" by blast
  from Max_in [OF _ this] show ?thesis using True by (simp add: below_max)
qed (simp add: below_max)

section \<open>The interface\<close>

definition ladder_ok :: "manifest \<Rightarrow> bool" where
  "ladder_ok m \<longleftrightarrow> representations m \<noteq> [] \<and> (\<forall>b\<in>ladder m. 0 < b)"

text \<open>Go's interface \<open>ABRAlgorithm\<close>: a player whose current bitrate is one of the ladder's (or none yet)
  is told one of the ladder's.\<close>

locale abr_iface =
  fixes select :: "player_state \<Rightarrow> manifest \<Rightarrow> abr_decision"
  assumes in_ladder: "ladder_ok m \<Longrightarrow> current_bitrate st \<in> insert 0 (ladder m) \<Longrightarrow> d_bitrate (select st m) \<in> ladder m"
begin

text \<open>The player then finds a representation of exactly the selected bitrate.\<close>

lemma chosen_representation:
  assumes "ladder_ok m" "current_bitrate st \<in> insert 0 (ladder m)" "bitrate (hd (representations m)) = lowest_bitrate m"
  shows "\<exists>r\<in>set (representations m). representation_for_bitrate m (d_bitrate (select st m)) = Some r
    \<and> bitrate r = d_bitrate (select st m)"
proof -
  let ?b = "d_bitrate (select st m)"
  have b: "?b \<in> ladder m" using in_ladder [OF assms(1,2)] .
  obtain r0 rs where r: "representations m = r0 # rs" using assms(1) by (cases "representations m") (auto simp: ladder_ok_def)
  have ne: "representations m \<noteq> []" using r by simp
  have "closest_bitrate m ?b = ?b"
  proof -
    have "Max {x \<in> ladder m. x \<le> ?b} = ?b" using b by (intro Max_eqI) auto
    moreover have "lowest_bitrate m \<le> ?b" using lowest_in [OF ne] b by blast
    ultimately show ?thesis by (simp add: closest_spec [OF ne])
  qed
  with rep_for_sorted [OF r, of ?b] assms(3) r show ?thesis by simp
qed

end

lemma buffer_in_ladder:
  assumes "ladder_ok m" "current_bitrate st \<in> insert 0 (ladder m)"
  shows "d_bitrate (buffer_select b st m) \<in> ladder m"
proof -
  have ne: "representations m \<noteq> []" using assms(1) by (simp add: ladder_ok_def)
  have cur: "bba_current st m \<in> ladder m"
    using assms(2) lowest_in [OF ne] by (auto simp: bba_current_def)
  have "fst (bba_target b st m) \<in> ladder m"
    using highest_in [OF ne] closest_in [OF ne] one_level_below_in [OF cur] cur by (simp add: bba_target_def Let_def)
  then show ?thesis using lowest_in [OF ne] cur by (simp add: buffer_select_def case_prod_unfold Let_def)
qed

lemma throughput_in_ladder:
  assumes "ladder_ok m" "current_bitrate st \<in> insert 0 (ladder m)"
  shows "d_bitrate (throughput_select t st m) \<in> ladder m"
proof -
  have ne: "representations m \<noteq> []" using assms(1) by (simp add: ladder_ok_def)
  have probe: "one_level_above m (current_bitrate st) \<in> ladder m"
    if "closest_bitrate m x < one_level_above m (current_bitrate st)" for x
  proof -
    have "0 < closest_bitrate m x" using closest_in [OF ne, of x] assms(1) unfolding ladder_ok_def by blast
    with that above_in [of m "current_bitrate st"] assms(2) show ?thesis by auto
  qed
  have "d_bitrate (throughput_select t st m) \<in> {lowest_bitrate m} \<union> range (closest_bitrate m)
    \<or> (\<exists>x. d_bitrate (throughput_select t st m) = one_level_above m (current_bitrate st)
         \<and> closest_bitrate m x < one_level_above m (current_bitrate st))"
    by (auto simp: throughput_select_def Let_def)
  then show ?thesis using lowest_in [OF ne] closest_in [OF ne] probe by auto
qed

interpretation buffer_based: abr_iface "buffer_select b" for b
  by unfold_locales (rule buffer_in_ladder)

interpretation throughput_based: abr_iface "throughput_select t" for t
  by unfold_locales (rule throughput_in_ladder)

section \<open>Decisions\<close>

text \<open>Both algorithms stay on the ladder. A player whose current bitrate is one of the manifest's (or none
  yet) is told one of the manifest's, in every buffer zone, at start-up and while probing.\<close>

lemma abr_stays_on_ladder:
  assumes "ladder_ok m" "current_bitrate st \<in> insert 0 (ladder m)"
  shows "d_bitrate (buffer_select b st m) \<in> ladder m \<and> d_bitrate (throughput_select t st m) \<in> ladder m"
  using buffer_based.in_ladder [OF assms] throughput_based.in_ladder [OF assms] by blast

definition demo_state :: "duration \<Rightarrow> player_state" where
  "demo_state buf = \<lparr>buffer_level = buf, state_max_buffer = 30 * second, last_throughput = 500,
     throughput_history = [\<lparr>kbps = 500, fetch_time = second\<rparr>], current_bitrate = 800, segment_index = 7,
     startup_complete = True, state_rebuffers = 0\<rparr>"

lemma demo_ladder_ok: "ladder_ok demo_manifest" "current_bitrate (demo_state buf) \<in> ladder demo_manifest"
  by (auto simp: ladder_ok_def demo_manifest_def demo_state_def)

text \<open>In its danger zone the buffer-based algorithm never lowers the bitrate. The one level it would
  step down when throughput falls short is within the hysteresis of one level, which cancels the step:
  with a ladder of distinct bitrates the decision between critical and danger is always to stay.\<close>

lemma danger_zone_never_steps_down:
  assumes "distinct (map bitrate (representations m))" "current_bitrate st \<in> ladder m" "current_bitrate st \<noteq> 0"
    and "\<not> dur_seconds (buffer_level st) < critical_s b" "dur_seconds (buffer_level st) < danger_s b"
  shows "buffer_select b st m = \<lparr>d_bitrate = current_bitrate st, d_reason = ''buffer_danger_hysteresis''\<rparr>"
proof -
  have cur: "bba_current st m = current_bitrate st" using assms(3) by (simp add: bba_current_def)
  have "levels_apart m (current_bitrate st) (current_bitrate st) \<le> 1"
    using levels_apart_card [OF assms(1,2,2)] by simp
  then show ?thesis
    using assms(4,5) cur one_level_below_adjacent [OF assms(1,2)]
    by (simp add: buffer_select_def bba_target_def Let_def)
qed

text \<open>The buffer zones. Below the critical level the decision is the lowest bitrate. Otherwise any
  change of bitrate moves more than one level; at or above the surplus level the decision is the highest
  bitrate unless the current one is within a level of it; and in the comfort zone the target never
  exceeds the linear interpolation between the lowest and the highest bitrate.\<close>

lemma buffer_zones:
  fixes st :: player_state and b :: buffer_abr
  assumes "representations m \<noteq> []"
  defines "buf \<equiv> dur_seconds (buffer_level st)" and "d \<equiv> d_bitrate (buffer_select b st m)" and "cur \<equiv> bba_current st m"
  shows "(buf < critical_s b \<longrightarrow> d = lowest_bitrate m)
    \<and> (\<not> buf < critical_s b \<and> d \<noteq> cur \<longrightarrow> 1 < levels_apart m cur d)
    \<and> (\<not> buf < critical_s b \<and> \<not> buf < danger_s b \<and> surplus_s b \<le> buf \<longrightarrow>
        d = (if levels_apart m cur (highest_bitrate m) \<le> 1 then cur else highest_bitrate m))
    \<and> (\<not> buf < critical_s b \<and> \<not> buf < danger_s b \<and> \<not> surplus_s b \<le> buf \<longrightarrow> d = cur \<or> d = lowest_bitrate m \<or>
        d \<le> f2i (fadd (i2f (lowest_bitrate m)) (fmul (i2f (highest_bitrate m - lowest_bitrate m)) (bba_fraction b buf))))"
proof -
  have reason: "snd (bba_target b st m) \<noteq> ''buffer_critical''" by (simp add: bba_target_def Let_def)
  have crit: "buf < critical_s b \<Longrightarrow> d = lowest_bitrate m" by (simp add: d_def buf_def buffer_select_def)
  have rest: "d = (if levels_apart m cur (fst (bba_target b st m)) \<le> 1 then cur else fst (bba_target b st m))"
    if "\<not> buf < critical_s b"
    using that reason by (simp add: d_def buf_def cur_def buffer_select_def case_prod_unfold Let_def)
  have surplus: "fst (bba_target b st m) = highest_bitrate m" if "\<not> buf < danger_s b" "surplus_s b \<le> buf"
    using that by (simp add: bba_target_def Let_def buf_def)
  let ?goal = "f2i (fadd (i2f (lowest_bitrate m)) (fmul (i2f (highest_bitrate m - lowest_bitrate m)) (bba_fraction b buf)))"
  have comfort: "fst (bba_target b st m) = closest_bitrate m ?goal" if "\<not> buf < danger_s b" "\<not> surplus_s b \<le> buf"
    using that by (simp add: bba_target_def Let_def buf_def)
  have "closest_bitrate m ?goal = lowest_bitrate m \<or> closest_bitrate m ?goal \<le> ?goal"
  proof (cases "lowest_bitrate m \<le> ?goal")
    case True
    then have "{x \<in> ladder m. x \<le> ?goal} \<noteq> {}" using lowest_in [OF assms(1)] by blast
    from Max_in [OF _ this] have "closest_bitrate m ?goal \<le> ?goal" using True by (simp add: closest_spec [OF assms(1)])
    then show ?thesis ..
  next
    case False
    then show ?thesis by (simp add: closest_spec [OF assms(1)])
  qed
  then show ?thesis using crit rest surplus comfort by (auto split: if_splits)
qed

text \<open>The throughput-based algorithm keeps its safety margin. After start-up, a decision that is not a
  probe is the largest bitrate of the ladder within the margin's share of the estimate, or the lowest;
  a probe is taken only at multiples of the probe interval, and only to a higher bitrate than that.\<close>

lemma throughput_keeps_margin:
  fixes st :: player_state and t :: throughput_abr
  assumes "representations m \<noteq> []" "startup_length t \<le> segment_index st"
  defines "d \<equiv> throughput_select t st m"
    and "limit \<equiv> f2i (fmul (throughput_estimate t (throughput_history st) (lowest_bitrate m)) (safety_margin t))"
  shows "(d_reason d = ''ewma'' \<and> d_bitrate d = closest_bitrate m limit \<and> (d_bitrate d \<le> limit \<or> d_bitrate d = lowest_bitrate m))
    \<or> (d_reason d = ''probe'' \<and> go_rem (segment_index st) (probe_interval t) = 0 \<and> closest_bitrate m limit < d_bitrate d)"
proof -
  have "closest_bitrate m limit = lowest_bitrate m \<or> closest_bitrate m limit \<le> limit"
  proof (cases "lowest_bitrate m \<le> limit")
    case True
    then have "{x \<in> ladder m. x \<le> limit} \<noteq> {}" using lowest_in [OF assms(1)] by blast
    from Max_in [OF _ this] have "closest_bitrate m limit \<le> limit" using True by (simp add: closest_spec [OF assms(1)])
    then show ?thesis ..
  next
    case False
    then show ?thesis by (simp add: closest_spec [OF assms(1)])
  qed
  then show ?thesis using assms(2) unfolding d_def limit_def by (auto simp: throughput_select_def Let_def)
qed

end
