(* ===== verification/Shield.thy ===== *)
theory Shield
  imports Lru Arc Transports
begin

text \<open>
  \<open>internal/cdn/shield.go\<close>: the origin shield, a cache in front of an origin transport. The caches
  and transports it is built from are records of operations, the interface values of the code; the
  records of the two caches and the two modeled transports are defined here.
\<close>

section \<open>Interface values\<close>

record 'c cache_ops =
  c_get :: "string \<Rightarrow> instant \<Rightarrow> 'c \<Rightarrow> item option \<times> 'c"
  c_put :: "item \<Rightarrow> instant \<Rightarrow> 'c \<Rightarrow> 'c"

record 't transport_ops =
  t_fetch_segment :: "string option \<Rightarrow> segment_request \<Rightarrow> 't \<Rightarrow> (call_error + segment_response) \<times> 't"
  t_fetch_concurrent :: "string option \<Rightarrow> segment_request list \<Rightarrow> 't \<Rightarrow> (call_error + segment_response list) \<times> 't"
  t_handshake :: "string option \<Rightarrow> bool \<Rightarrow> 't \<Rightarrow> (string + duration) \<times> 't"
  t_protocol :: string

definition lru_ops :: "lru cache_ops" where
  "lru_ops = \<lparr>c_get = lru_get, c_put = lru_put\<rparr>"

definition arc_ops :: "arc cache_ops" where
  "arc_ops = \<lparr>c_get = arc_get, c_put = arc_put\<rparr>"

definition tcp_ops :: "libm \<Rightarrow> 'g rand_ops \<Rightarrow> 'g tcp transport_ops" where
  "tcp_ops M R = \<lparr>t_fetch_segment = tcp_fetch_segment M R, t_fetch_concurrent = tcp_fetch M R,
     t_handshake = tcp_handshake M R, t_protocol = tcp_protocol\<rparr>"

definition quic_ops :: "libm \<Rightarrow> 'g rand_ops \<Rightarrow> 'g quic transport_ops" where
  "quic_ops M R = \<lparr>t_fetch_segment = quic_fetch_segment M R, t_fetch_concurrent = quic_fetch M R,
     t_handshake = quic_handshake M R, t_protocol = quic_protocol\<rparr>"

section \<open>The shield\<close>

record ('c, 't) shield =
  shield_cache :: "'c option"
  shield_transport :: 't
  default_ttl_seconds :: int

definition new_origin_shield :: "'c option \<Rightarrow> 't \<Rightarrow> int \<Rightarrow> ('c, 't) shield" where
  "new_origin_shield c t ttl = \<lparr>shield_cache = c, shield_transport = t, default_ttl_seconds = ttl\<rparr>"

definition shield_hit_response :: "segment_request \<Rightarrow> segment_response" where
  "shield_hit_response req = zero_response\<lparr>segment_id := req_id req, bytes_received := req_size req,
     ttfb := 2 * millisecond, total_latency := 2 * millisecond, protocol := ''shield-hit''\<rparr>"

text \<open>\<open>clock\<close> is \<open>time.Now()\<close>, used when the caller passes the zero time.\<close>

definition shield_fetch :: "'c cache_ops \<Rightarrow> 't transport_ops \<Rightarrow> instant \<Rightarrow> string option \<Rightarrow> segment_request \<Rightarrow> instant \<Rightarrow>
    ('c, 't) shield \<Rightarrow> (call_error + segment_response \<times> bool) \<times> ('c, 't) shield" where
  "shield_fetch C T clock ctx req now0 s = (let
       now = (if is_zero_time now0 then clock else now0);
       (found, s1) = (case shield_cache s of None \<Rightarrow> (False, s)
         | Some c \<Rightarrow> let (r, c') = c_get C (req_id req) now c in (r \<noteq> None, s\<lparr>shield_cache := Some c'\<rparr>))
     in if found then (Inr (shield_hit_response req, True), s1)
        else case t_fetch_segment T ctx req (shield_transport s1) of
            (Inl e, t) \<Rightarrow> (Inl (wrap_error ''shield origin fetch: '' e), s1\<lparr>shield_transport := t\<rparr>)
          | (Inr resp, t) \<Rightarrow> let
                ttl = default_ttl_seconds s1 * second;
                ex = (if ttl > 0 then now + ttl else 0);
                s2 = s1\<lparr>shield_transport := t\<rparr>
              in (Inr (resp, False),
                  (case shield_cache s2 of None \<Rightarrow> s2
                   | Some c \<Rightarrow> s2\<lparr>shield_cache := Some (c_put C \<lparr>item_key = req_id req, size_bytes = req_size req,
                       expiry = ex, item_value = None\<rparr> now c)\<rparr>)))"

lemma shield_found:
  assumes "shield_cache s = Some c" "now \<noteq> 0" "fst (c_get C (req_id req) now c) \<noteq> None"
  shows "fst (shield_fetch C T clock ctx req now s) = Inr (shield_hit_response req, True)
    \<and> shield_transport (snd (shield_fetch C T clock ctx req now s)) = shield_transport s"
  using assms by (simp add: shield_fetch_def Let_def is_zero_time_def case_prod_unfold)

text \<open>What the shield gets from the laws of its cache.\<close>

context cache_iface
begin

lemma shield_absorbs:
  assumes inv: "inv c" and cap: "0 \<le> req_size req" "req_size req \<le> bytes_max (stats c)"
    and ops: "C = \<lparr>c_get = get, c_put = put\<rparr>" and s: "shield_cache s = Some c"
    and first: "fst (shield_fetch C T clock ctx req now s) = Inr (resp, hit)"
    and times: "now \<noteq> 0" "now' \<noteq> 0" "now \<le> now'" "0 < default_ttl_seconds s" "now' \<le> now + default_ttl_seconds s * second"
    and fresh: "hit = False"
  shows "fst (shield_fetch C T clock ctx' req now' (snd (shield_fetch C T clock ctx req now s)))
      = Inr (shield_hit_response req, True)
    \<and> shield_transport (snd (shield_fetch C T clock ctx' req now' (snd (shield_fetch C T clock ctx req now s))))
      = shield_transport (snd (shield_fetch C T clock ctx req now s))"
proof -
  let ?it = "\<lparr>item_key = req_id req, size_bytes = req_size req, expiry = now + default_ttl_seconds s * second, item_value = None\<rparr>"
  let ?c1 = "snd (get (req_id req) now c)"
  have pos: "0 < default_ttl_seconds s * second" using times(4) by (simp add: second_def)
  obtain t where st: "shield_cache (snd (shield_fetch C T clock ctx req now s)) = Some (put ?it now ?c1)"
    "shield_transport (snd (shield_fetch C T clock ctx req now s)) = t"
    using first s times(1) pos fresh
    by (auto simp: shield_fetch_def Let_def is_zero_time_def ops case_prod_unfold split: if_splits sum.splits)
  have ok: "inv ?c1" "size_bytes ?it \<le> bytes_max (stats ?c1)"
    using get_inv [OF inv] get_bytes_max [OF inv] cap(2) by simp_all
  have "\<not> expired now' ?it" using times by (simp add: expired_def)
  from put_then_get [OF ok(1) _ ok(2) this] cap(1)
  have "fst (get (req_id req) now' (put ?it now ?c1)) = Some ?it" by simp
  then have "fst (c_get C (req_id req) now' (put ?it now ?c1)) \<noteq> None" by (simp add: ops)
  from shield_found [OF st(1) times(2) this] show ?thesis by blast
qed

end

text \<open>The shield absorbs repeated misses. After a request went through to the origin, the same request is
  answered by the shield in two milliseconds, without touching the origin transport, until the
  time-to-live has passed, for an item that fits the shield's cache (here the LRU cache) and any transport.\<close>

lemma shield_absorbs_misses:
  assumes "lru_inv c" "0 \<le> req_size req" "req_size req \<le> max_size c" "shield_cache s = Some c"
    and "fst (shield_fetch lru_ops T clock ctx req now s) = Inr (resp, False)"
    and "now \<noteq> 0" "now' \<noteq> 0" "now \<le> now'" "0 < default_ttl_seconds s" "now' \<le> now + default_ttl_seconds s * second"
  shows "fst (shield_fetch lru_ops T clock ctx' req now' (snd (shield_fetch lru_ops T clock ctx req now s)))
      = Inr (shield_hit_response req, True)
    \<and> shield_transport (snd (shield_fetch lru_ops T clock ctx' req now' (snd (shield_fetch lru_ops T clock ctx req now s))))
      = shield_transport (snd (shield_fetch lru_ops T clock ctx req now s))"
  using lru.shield_absorbs [OF assms(1,2) _ lru_ops_def assms(4,5,6,7,8,9,10) refl] assms(3)
  by (simp add: lru_bytes_max [OF assms(1)])

definition demo_shield :: "(lru, int tcp) shield" where
  "demo_shield = new_origin_shield (Some (new_lru 1000000)) (new_modeled_tcp (\<lambda>n. n) lcg calm_profile 3) 60"

end
