(* ===== verification/Player.thy ===== *)
theory Player
  imports Shield Abr
begin

text \<open>
  \<open>internal/video/player.go\<close>: one viewing session as a loop over batches of segments. The edge
  cache, the transport, the optional shield and the algorithm are interface values; the session
  threads their states (\<open>world\<close>) and its own timing (\<open>play\<close>) explicitly. An error of a transport ends
  the loop with the result so far; a panic (an index out of range) is the outcome \<open>Panic\<close>.
\<close>

section \<open>Configuration and results\<close>

record playback_config =
  max_buffer :: duration
  startup_threshold :: duration
  prefetch_depth :: int

definition default_playback_config :: playback_config where
  "default_playback_config = \<lparr>max_buffer = 30 * second, startup_threshold = 2 * second, prefetch_depth = 1\<rparr>"

record segment_result =
  sr_index :: int
  sr_bitrate :: int
  sr_size :: int
  sr_ttfb :: duration
  sr_latency :: duration
  sr_goodput :: real
  sr_cache_hit :: bool
  sr_shield_hit :: bool
  sr_hol_blocked :: bool
  sr_buffer_before :: duration
  sr_buffer_after :: duration
  sr_rebuffered :: bool

record playback_result =
  pr_content_id :: string
  pr_protocol :: string
  pr_abr_name :: string
  startup_latency :: duration
  total_play_time :: duration
  rebuffer_count :: int
  rebuffer_duration :: duration
  avg_bitrate :: real
  bitrate_changes :: int
  pr_segments :: "segment_result list"
  cache_hit_rate :: real

record session =
  s_manifest :: manifest
  s_content_id :: string
  s_config :: playback_config

record abr_ops =
  a_select :: "player_state \<Rightarrow> manifest \<Rightarrow> abr_decision"
  a_name :: string

record ('c, 't, 'x) world =
  w_cache :: "'c option"
  w_transport :: 't
  w_shield :: "'x option"

text \<open>The variables of the loop: \<open>i\<close>, \<open>wallClock\<close>, \<open>buffer\<close>, \<open>playbackStarted\<close>, \<open>cacheHits\<close>, \<open>history\<close>,
  \<open>currentBitrate\<close> and the result.\<close>

record play =
  p_index :: int
  wall :: duration
  buffer :: duration
  started :: bool
  cache_hits :: int
  p_history :: "throughput_sample list"
  cur_bitrate :: int
  result :: playback_result

definition sim_epoch :: instant where "sim_epoch = 739251 * 86400 * second"

definition wall_clock_to_time :: "duration \<Rightarrow> instant" where "wall_clock_to_time wc = sim_epoch + wc"

definition last_kbps :: "throughput_sample list \<Rightarrow> real" where
  "last_kbps history = (if history = [] then 0 else kbps (last history))"

section \<open>One batch\<close>

record slot =
  slot_key :: string
  slot_size :: int
  slot_hit :: bool

text \<open>The first loop over the batch: segment sizes and keys, and the edge cache's answers; \<open>None\<close> when a
  size is missing (index out of range).\<close>

fun lookup_batch :: "'c cache_ops \<Rightarrow> string \<Rightarrow> representation \<Rightarrow> instant \<Rightarrow> int \<Rightarrow> nat \<Rightarrow> 'c option \<Rightarrow>
    slot list option \<times> 'c option" where
  "lookup_batch C cid rep now idx 0 c = (Some [], c)"
| "lookup_batch C cid rep now idx (Suc n) c = (
     if idx < 0 \<or> int (length (segment_sizes rep)) \<le> idx then (None, c)
     else let sz = segment_sizes rep ! nat idx;
              key = segment_id_of cid idx (bitrate rep);
              (hit, c1) = (case c of None \<Rightarrow> (False, None)
                | Some cc \<Rightarrow> (let (r, cc') = c_get C key now cc in (r \<noteq> None, Some cc')))
       in case lookup_batch C cid rep now (idx + 1) n c1 of
           (None, c2) \<Rightarrow> (None, c2)
         | (Some slots, c2) \<Rightarrow> (Some (\<lparr>slot_key = key, slot_size = sz, slot_hit = hit\<rparr> # slots), c2))"

definition miss_requests :: "representation \<Rightarrow> slot list \<Rightarrow> segment_request list" where
  "miss_requests rep slots = map (\<lambda>s. \<lparr>req_id = slot_key s, req_bitrate = bitrate rep, req_size = slot_size s\<rparr>)
     (filter (\<lambda>s. \<not> slot_hit s) slots)"

text \<open>The shield as the session sees it: its \<open>Fetch\<close> with the shield's own caches and transports inside.\<close>

type_synonym 'x shield_op = "string option \<Rightarrow> segment_request \<Rightarrow> instant \<Rightarrow> 'x \<Rightarrow> (call_error + segment_response \<times> bool) \<times> 'x"

fun shield_loop :: "'x shield_op \<Rightarrow> string option \<Rightarrow> instant \<Rightarrow> segment_request list \<Rightarrow> 'x \<Rightarrow> (call_error + bool list) \<times> 'x" where
  "shield_loop X ctx now [] x = (Inr [], x)"
| "shield_loop X ctx now (r # rs) x = (case X ctx r now x of
     (Inl e, x1) \<Rightarrow> (Inl e, x1)
   | (Inr (resp, hit1), x1) \<Rightarrow> (case shield_loop X ctx now rs x1 of
       (Inl e, x2) \<Rightarrow> (Inl e, x2) | (Inr hs, x2) \<Rightarrow> (Inr (hit1 # hs), x2)))"

definition cache_inserts :: "'c cache_ops \<Rightarrow> instant \<Rightarrow> segment_request list \<Rightarrow> 'c \<Rightarrow> 'c" where
  "cache_inserts C now reqs c = foldl (\<lambda>c r. c_put C \<lparr>item_key = req_id r, size_bytes = req_size r,
     expiry = now + 1 * hour, item_value = None\<rparr> now c) c reqs"

text \<open>The misses: through the shield when there is one, then over the transport, then into the cache. The
  shield's response is dropped; only its hit flags come back.\<close>

definition fetch_misses :: "'c cache_ops \<Rightarrow> 't transport_ops \<Rightarrow> 'x shield_op \<Rightarrow> string option \<Rightarrow> instant \<Rightarrow>
    segment_request list \<Rightarrow> ('c, 't, 'x) world \<Rightarrow> (call_error + bool list \<times> segment_response list) \<times> ('c, 't, 'x) world" where
  "fetch_misses C T X ctx now reqs w = (if reqs = [] then (Inr ([], []), w) else
     let (flags, w1) = (case w_shield w of
           None \<Rightarrow> (Inr (replicate (length reqs) False), w)
         | Some x \<Rightarrow> (case shield_loop X ctx now reqs x of
               (Inl e, x') \<Rightarrow> (Inl (wrap_error ''shield fetch: '' e), w\<lparr>w_shield := Some x'\<rparr>)
             | (Inr hs, x') \<Rightarrow> (Inr hs, w\<lparr>w_shield := Some x'\<rparr>)))
     in case flags of Inl e \<Rightarrow> (Inl e, w1)
        | Inr hs \<Rightarrow> (case t_fetch_concurrent T ctx reqs (w_transport w1) of
            (Inl e, t) \<Rightarrow> (Inl (wrap_error (if w_shield w1 = None then ''transport batch: '' else ''edge batch: '') e), w1\<lparr>w_transport := t\<rparr>)
          | (Inr resps, t) \<Rightarrow> (Inr (hs, resps),
              w1\<lparr>w_transport := t, w_cache := map_option (cache_inserts C now reqs) (w_cache w1)\<rparr>)))"

definition hit_response :: "string \<Rightarrow> slot \<Rightarrow> segment_response" where
  "hit_response proto s = zero_response\<lparr>segment_id := slot_key s, bytes_received := slot_size s, ttfb := millisecond,
     total_latency := millisecond, goodput_mbps := fdiv (fdiv (i2f (slot_size s * 8)) (fl (1 / 1000))) 1000000,
     protocol := proto\<rparr>"

text \<open>Shield flags and responses go back to the slots of the misses in order; \<open>None\<close> when there are fewer
  responses or flags than misses (index out of range).\<close>

fun assemble :: "string \<Rightarrow> slot list \<Rightarrow> bool list \<Rightarrow> segment_response list \<Rightarrow> (slot \<times> bool \<times> segment_response) list option" where
  "assemble proto [] flags resps = Some []"
| "assemble proto (s # ss) flags resps = (if slot_hit s
     then map_option (\<lambda>out. (s, False, hit_response proto s) # out) (assemble proto ss flags resps)
     else case (flags, resps) of
         (f # fs, r # rs) \<Rightarrow> map_option (\<lambda>out. (s, f, r) # out) (assemble proto ss fs rs)
       | _ \<Rightarrow> None)"

definition max_latency :: "segment_response list \<Rightarrow> duration" where
  "max_latency rs = foldl (\<lambda>m r. if total_latency r > m then total_latency r else m) 0 rs"

text \<open>The timing of a batch of \<open>n\<close> segments that took \<open>fetch\<close>: stall or drain, fill the buffer, wait out the
  excess, start playback.\<close>

definition drain :: "duration \<Rightarrow> play \<Rightarrow> play \<times> bool" where
  "drain fetch p = (if started p then
       (if fetch \<ge> buffer p then
          (let stall = fetch - buffer p in
            (p\<lparr>buffer := 0, wall := wall p + stall,
               result := (result p)\<lparr>rebuffer_duration := rebuffer_duration (result p) + stall,
                 rebuffer_count := rebuffer_count (result p) + 1\<rparr>\<rparr>, True))
        else (p\<lparr>buffer := buffer p - fetch\<rparr>, False))
     else (p, False))"

definition fill_buffer :: "playback_config \<Rightarrow> duration \<Rightarrow> play \<Rightarrow> play" where
  "fill_buffer cfg d p = (let b = buffer p + d in
     if b > max_buffer cfg then p\<lparr>buffer := max_buffer cfg, wall := wall p + (b - max_buffer cfg)\<rparr>
     else p\<lparr>buffer := b\<rparr>)"

definition start_playback :: "playback_config \<Rightarrow> play \<Rightarrow> play" where
  "start_playback cfg p = (if \<not> started p \<and> buffer p \<ge> startup_threshold cfg
     then p\<lparr>started := True, result := (result p)\<lparr>startup_latency := wall p\<rparr>\<rparr> else p)"

definition settle :: "playback_config \<Rightarrow> duration \<Rightarrow> duration \<Rightarrow> play \<Rightarrow> play \<times> bool" where
  "settle cfg batch_dur fetch p = (let (p1, reb) = drain fetch (p\<lparr>wall := wall p + fetch\<rparr>)
     in (start_playback cfg (fill_buffer cfg batch_dur p1), reb))"

definition note_bitrate :: "int \<Rightarrow> play \<Rightarrow> play" where
  "note_bitrate b p = (let r = (if cur_bitrate p \<noteq> 0 \<and> cur_bitrate p \<noteq> b
       then (result p)\<lparr>bitrate_changes := bitrate_changes (result p) + 1\<rparr> else result p)
     in p\<lparr>result := r, cur_bitrate := b\<rparr>)"

text \<open>Only the bytes that crossed the transport count, and the last twenty samples are kept.\<close>

definition note_throughput :: "slot list \<Rightarrow> duration \<Rightarrow> play \<Rightarrow> play" where
  "note_throughput slots fetch p = (let miss_bytes = sum_list (map slot_size (filter (\<lambda>s. \<not> slot_hit s) slots)) in
     if fetch > 0 \<and> miss_bytes > 0 then
       let k = fdiv (fdiv (i2f (miss_bytes * 8)) (dur_seconds fetch)) 1000;
           h = p_history p @ [\<lparr>kbps = k, fetch_time = fetch\<rparr>]
       in p\<lparr>p_history := (if length h > 20 then drop (length h - 20) h else h)\<rparr>
     else p)"

fun segment_results :: "int \<Rightarrow> int \<Rightarrow> duration \<Rightarrow> duration \<Rightarrow> bool \<Rightarrow> (slot \<times> bool \<times> segment_response) list \<Rightarrow> segment_result list" where
  "segment_results i b before after reb [] = []"
| "segment_results i b before after reb ((s, shield_hit, r) # xs) =
     \<lparr>sr_index = i, sr_bitrate = b, sr_size = slot_size s, sr_ttfb = ttfb r, sr_latency = total_latency r,
      sr_goodput = goodput_mbps r, sr_cache_hit = slot_hit s, sr_shield_hit = shield_hit,
      sr_hol_blocked = (hol_block_events r > 0), sr_buffer_before = before, sr_buffer_after = after,
      sr_rebuffered = reb\<rparr> # segment_results (i + 1) b before after reb xs"

definition view :: "session \<Rightarrow> play \<Rightarrow> player_state" where
  "view s p = \<lparr>buffer_level = buffer p, state_max_buffer = max_buffer (s_config s), last_throughput = last_kbps (p_history p),
     throughput_history = p_history p, current_bitrate = cur_bitrate p, segment_index = p_index p,
     startup_complete = started p, state_rebuffers = rebuffer_count (result p)\<rparr>"

definition batch_size :: "session \<Rightarrow> play \<Rightarrow> int" where
  "batch_size s p = (let n = prefetch_depth (s_config s); n = (if n < 1 then 1 else n) in
     if p_index p + n > total_segments (s_manifest s) then total_segments (s_manifest s) - p_index p else n)"

text \<open>The state after a batch whose slots, flags and responses are assembled.\<close>

definition finish_batch :: "session \<Rightarrow> int \<Rightarrow> (slot \<times> bool \<times> segment_response) list \<Rightarrow> int \<Rightarrow> play \<Rightarrow> play" where
  "finish_batch s b batch n p = (let
       slots = map fst batch;
       before = buffer p;
       fetch = max_latency (map (\<lambda>x. snd (snd x)) batch);
       p0 = p\<lparr>cache_hits := cache_hits p + int (length (filter slot_hit slots))\<rparr>;
       (p1, reb) = settle (s_config s) (n * segment_duration (s_manifest s)) fetch p0;
       p2 = note_throughput slots fetch (note_bitrate b p1)
     in p2\<lparr>p_index := p_index p2 + n,
           result := (result p2)\<lparr>pr_segments := pr_segments (result p2) @
             segment_results (p_index p) b before (buffer p2) reb batch\<rparr>\<rparr>)"

definition play_batch :: "abr_ops \<Rightarrow> 'c cache_ops \<Rightarrow> 't transport_ops \<Rightarrow> 'x shield_op \<Rightarrow> string option \<Rightarrow> session \<Rightarrow>
    ('c, 't, 'x) world \<Rightarrow> play \<Rightarrow> call_error option \<times> ('c, 't, 'x) world \<times> play" where
  "play_batch A C T X ctx s w p = (
     case representation_for_bitrate (s_manifest s) (d_bitrate (a_select A (view s p) (s_manifest s))) of
       None \<Rightarrow> (Some Panic, w, p)
     | Some rep \<Rightarrow> let
         n = batch_size s p;
         now = wall_clock_to_time (wall p);
         (found, c1) = lookup_batch C (s_content_id s) rep now (p_index p) (nat n) (w_cache w);
         w1 = w\<lparr>w_cache := c1\<rparr>
       in case found of None \<Rightarrow> (Some Panic, w1, p)
        | Some slots \<Rightarrow> (case fetch_misses C T X ctx now (miss_requests rep slots) w1 of
            (Inl e, w2) \<Rightarrow> (Some e, w2, p)
          | (Inr (flags, resps), w2) \<Rightarrow> (case assemble (t_protocol T) slots flags resps of
              None \<Rightarrow> (Some Panic, w2, p)
            | Some batch \<Rightarrow> (None, w2, finish_batch s (bitrate rep) batch n p))))"

section \<open>The session\<close>

lemma note_index [simp]:
  "p_index (note_bitrate b p) = p_index p" "p_index (note_throughput slots fetch p) = p_index p"
  by (simp_all add: note_bitrate_def note_throughput_def Let_def)

lemma settle_index [simp]: "p_index (fst (settle cfg d fetch p)) = p_index p"
  by (simp add: settle_def drain_def fill_buffer_def start_playback_def Let_def case_prod_unfold)

lemma finish_batch_index: "p_index (finish_batch s b batch n p) = p_index p + n"
  by (simp add: finish_batch_def Let_def case_prod_unfold)

lemma play_batch_Some:
  assumes "play_batch A C T X ctx s w p = (None, w', p')"
  shows "\<exists>rep slots c1 flags resps batch.
    representation_for_bitrate (s_manifest s) (d_bitrate (a_select A (view s p) (s_manifest s))) = Some rep
    \<and> lookup_batch C (s_content_id s) rep (wall_clock_to_time (wall p)) (p_index p) (nat (batch_size s p)) (w_cache w) = (Some slots, c1)
    \<and> fetch_misses C T X ctx (wall_clock_to_time (wall p)) (miss_requests rep slots) (w\<lparr>w_cache := c1\<rparr>) = (Inr (flags, resps), w')
    \<and> assemble (t_protocol T) slots flags resps = Some batch
    \<and> p' = finish_batch s (bitrate rep) batch (batch_size s p) p"
  using assms by (simp add: play_batch_def Let_def split: option.splits prod.splits sum.splits)

lemma play_batch_progress:
  "play_batch A C T X ctx s w p = (None, w', p') \<Longrightarrow> p_index p' = p_index p + batch_size s p"
  using finish_batch_index by (blast dest: play_batch_Some)

lemma batch_size_pos: "p_index p < total_segments (s_manifest s) \<Longrightarrow> 0 < batch_size s p"
  by (simp add: batch_size_def Let_def)

lemma play_batch_decreases:
  assumes "p_index p < total_segments (s_manifest s)" "(None, w1, p1) = play_batch A C T X ctx s w p"
  shows "nat (total_segments (s_manifest s) - p_index p1) < nat (total_segments (s_manifest s) - p_index p)"
  using play_batch_progress [OF assms(2) [symmetric]] batch_size_pos [OF assms(1)] assms(1) by simp

function play_loop :: "abr_ops \<Rightarrow> 'c cache_ops \<Rightarrow> 't transport_ops \<Rightarrow> 'x shield_op \<Rightarrow> string option \<Rightarrow> session \<Rightarrow>
    ('c, 't, 'x) world \<Rightarrow> play \<Rightarrow> call_error option \<times> ('c, 't, 'x) world \<times> play" where
  "play_loop A C T X ctx s w p = (if p_index p < total_segments (s_manifest s) then
      (case play_batch A C T X ctx s w p of
         (Some e, w1, p1) \<Rightarrow> (Some e, w1, p1)
       | (None, w1, p1) \<Rightarrow> play_loop A C T X ctx s w1 p1)
    else (None, w, p))"
  by pat_completeness auto
termination
proof (relation "measure (\<lambda>(A, C, T, X, ctx, s, w, p). nat (total_segments (s_manifest s) - p_index p))", goal_cases)
  case (2 A C T X ctx s w p x y xa ya)
  then show ?case using play_batch_decreases [of p s xa ya A C T X ctx w] by (cases y) auto
qed simp

declare play_loop.simps [simp del]

definition initial_result :: "session \<Rightarrow> string \<Rightarrow> string \<Rightarrow> playback_result" where
  "initial_result s proto name = \<lparr>pr_content_id = s_content_id s, pr_protocol = proto, pr_abr_name = name,
     startup_latency = 0, total_play_time = 0, rebuffer_count = 0, rebuffer_duration = 0, avg_bitrate = 0,
     bitrate_changes = 0, pr_segments = [], cache_hit_rate = 0\<rparr>"

definition initial_play :: "duration \<Rightarrow> playback_result \<Rightarrow> play" where
  "initial_play hs r = \<lparr>p_index = 0, wall = hs, buffer = 0, started = False, cache_hits = 0, p_history = [],
     cur_bitrate = 0, result = r\<rparr>"

definition defaulted :: "session \<Rightarrow> session" where
  "defaulted s = (let
       c = (if max_buffer (s_config s) = 0 \<and> startup_threshold (s_config s) = 0 then default_playback_config else s_config s)
     in s\<lparr>s_config := (if prefetch_depth c \<le> 0 then c\<lparr>prefetch_depth := 1\<rparr> else c)\<rparr>)"

definition final_result :: "play \<Rightarrow> playback_result" where
  "final_result p = (let
       r = (if \<not> started p \<and> startup_latency (result p) = 0 then (result p)\<lparr>startup_latency := wall p\<rparr> else result p);
       r = r\<lparr>total_play_time := wall p\<rparr>;
       n = int (length (pr_segments r))
     in if n > 0 then
          r\<lparr>avg_bitrate := fdiv (foldl (\<lambda>a x. fadd a (i2f (sr_bitrate x))) 0 (pr_segments r)) (i2f n),
            cache_hit_rate := fdiv (i2f (cache_hits p)) (i2f n)\<rparr>
        else r)"

definition run_playback :: "abr_ops \<Rightarrow> 'c cache_ops \<Rightarrow> 't transport_ops \<Rightarrow> 'x shield_op \<Rightarrow> string option \<Rightarrow> session \<Rightarrow>
    ('c, 't, 'x) world \<Rightarrow> playback_result \<times> call_error option \<times> ('c, 't, 'x) world" where
  "run_playback A C T X ctx s0 w = (let
       s = defaulted s0;
       r0 = initial_result s (t_protocol T) (a_name A)
     in case t_handshake T ctx False (w_transport w) of
          (Inl e, t) \<Rightarrow> (r0, Some (Failed (''handshake: '' @ e)), w\<lparr>w_transport := t\<rparr>)
        | (Inr hs, t) \<Rightarrow> (case play_loop A C T X ctx s (w\<lparr>w_transport := t\<rparr>) (initial_play hs r0) of
            (Some e, w1, p1) \<Rightarrow> (result p1, Some e, w1)
          | (None, w1, p1) \<Rightarrow> (final_result p1, None, w1)))"

end
