(* ===== verification/Playback.thy ===== *)
theory Playback
  imports Player
begin

text \<open>
  What \<open>RunPlayback\<close> of \<open>internal/video/player.go\<close> promises: the reported segments and totals, the
  accounting of time, completion over the modeled transports, and the part the shield plays. The
  invariants are carried over the loop by one rule, \<open>play_loop_rule\<close>.
\<close>

section \<open>The loop rule\<close>

lemma play_loop_rule:
  assumes loop: "play_loop A C T X ctx s w p = (None, w', p')" and init: "I w p"
    and step: "\<And>w p w1 p1. I w p \<Longrightarrow> p_index p < total_segments (s_manifest s) \<Longrightarrow>
      play_batch A C T X ctx s w p = (None, w1, p1) \<Longrightarrow> I w1 p1"
  shows "I w' p' \<and> total_segments (s_manifest s) \<le> p_index p'"
proof -
  have "play_loop A C T X ctx s w p = (None, w', p') \<Longrightarrow> I w p \<Longrightarrow> ?thesis" for w p
  proof (induction "nat (total_segments (s_manifest s) - p_index p)" arbitrary: w p rule: less_induct)
    case less
    show ?case
    proof (cases "p_index p < total_segments (s_manifest s)")
      case True
      obtain w1 p1 where b: "play_batch A C T X ctx s w p = (None, w1, p1)" "play_loop A C T X ctx s w1 p1 = (None, w', p')"
        using less.prems(1) True by (subst (asm) play_loop.simps) (auto split: prod.splits option.splits)
      from less.hyps [OF play_batch_decreases [OF True b(1) [symmetric]] b(2) step [OF less.prems(2) True b(1)]] show ?thesis .
    next
      case False
      with less.prems show ?thesis by (subst (asm) play_loop.simps) auto
    qed
  qed
  with loop init show ?thesis by blast
qed

section \<open>One batch\<close>

lemma lookup_Suc:
  assumes "lookup_batch C cid rep now idx (Suc n) c = (Some slots, c1)"
  shows "\<exists>c' hit tl. 0 \<le> idx \<and> idx < int (length (segment_sizes rep)) \<and> lookup_batch C cid rep now (idx + 1) n c' = (Some tl, c1)
    \<and> slots = \<lparr>slot_key = segment_id_of cid idx (bitrate rep), slot_size = segment_sizes rep ! nat idx, slot_hit = hit\<rparr> # tl"
proof -
  obtain hit c' where h: "(case c of None \<Rightarrow> (False, None)
      | Some cc \<Rightarrow> (let (r, cc') = c_get C (segment_id_of cid idx (bitrate rep)) now cc in (r \<noteq> None, Some cc'))) = (hit, c')"
    by fastforce
  with assms show ?thesis by (auto simp: Let_def split: if_splits prod.splits option.splits)
qed

lemma lookup_spec:
  "lookup_batch C cid rep now idx n c = (Some slots, c1) \<Longrightarrow> length slots = n \<and> (\<forall>k<n. 0 \<le> idx + int k
    \<and> idx + int k < int (length (segment_sizes rep)) \<and> slot_size (slots ! k) = segment_sizes rep ! nat (idx + int k)
    \<and> slot_key (slots ! k) = segment_id_of cid (idx + int k) (bitrate rep))"
proof (induction n arbitrary: idx c slots)
  case (Suc n)
  from lookup_Suc [OF Suc.prems] obtain c' hit tl where ok: "0 \<le> idx" "idx < int (length (segment_sizes rep))"
    and tl: "lookup_batch C cid rep now (idx + 1) n c' = (Some tl, c1)"
    "slots = \<lparr>slot_key = segment_id_of cid idx (bitrate rep), slot_size = segment_sizes rep ! nat idx, slot_hit = hit\<rparr> # tl"
    by blast
  note ih = Suc.IH [OF tl(1)]
  have "0 \<le> idx + int k \<and> idx + int k < int (length (segment_sizes rep))
    \<and> slot_size (slots ! k) = segment_sizes rep ! nat (idx + int k)
    \<and> slot_key (slots ! k) = segment_id_of cid (idx + int k) (bitrate rep)" if "k < Suc n" for k
  proof (cases k)
    case (Suc j)
    with ih that have "0 \<le> idx + 1 + int j \<and> idx + 1 + int j < int (length (segment_sizes rep))
      \<and> slot_size (tl ! j) = segment_sizes rep ! nat (idx + 1 + int j)
      \<and> slot_key (tl ! j) = segment_id_of cid (idx + 1 + int j) (bitrate rep)" by simp
    with Suc tl(2) show ?thesis by (simp add: algebra_simps)
  qed (use ok tl(2) in simp)
  with ih tl(2) show ?case by simp
qed simp

lemma assemble_slots: "assemble proto slots flags resps = Some batch \<Longrightarrow> map fst batch = slots"
  by (induction proto slots flags resps arbitrary: batch rule: assemble.induct) (auto split: if_splits list.splits)

lemma segment_results_spec:
  "length (segment_results i b before after reb xs) = length xs"
  "map sr_index (segment_results i b before after reb xs) = [i..i + int (length xs) - 1]"
  "map sr_bitrate (segment_results i b before after reb xs) = replicate (length xs) b"
  "filter sr_cache_hit (segment_results i b before after reb xs) = [] \<longleftrightarrow> filter (slot_hit \<circ> fst) xs = []"
  "length (filter sr_cache_hit (segment_results i b before after reb xs)) = length (filter slot_hit (map fst xs))"
  "\<forall>x\<in>set (segment_results i b before after reb xs). sr_bitrate x = b \<and> sr_buffer_before x = before
     \<and> sr_buffer_after x = after \<and> sr_rebuffered x = reb"
  by (induction i b before after reb xs rule: segment_results.induct) (simp_all add: upto_rec1 add.commute)

lemma segment_results_nth:
  "k < length xs \<Longrightarrow> sr_size (segment_results i b before after reb xs ! k) = slot_size (fst (xs ! k))
    \<and> sr_index (segment_results i b before after reb xs ! k) = i + int k"
  by (induction i b before after reb xs arbitrary: k rule: segment_results.induct) (auto simp: nth_Cons split: nat.split)

lemma note_frame [simp]:
  "buffer (note_bitrate b p) = buffer p" "buffer (note_throughput slots fetch p) = buffer p"
  "wall (note_bitrate b p) = wall p" "wall (note_throughput slots fetch p) = wall p"
  "started (note_bitrate b p) = started p" "started (note_throughput slots fetch p) = started p"
  "cache_hits (note_bitrate b p) = cache_hits p" "cache_hits (note_throughput slots fetch p) = cache_hits p"
  "result (note_throughput slots fetch p) = result p" "cur_bitrate (note_throughput slots fetch p) = cur_bitrate p"
  "cur_bitrate (note_bitrate b p) = b"
  "pr_segments (result (note_bitrate b p)) = pr_segments (result p)"
  "startup_latency (result (note_bitrate b p)) = startup_latency (result p)"
  "rebuffer_duration (result (note_bitrate b p)) = rebuffer_duration (result p)"
  "rebuffer_count (result (note_bitrate b p)) = rebuffer_count (result p)"
  "bitrate_changes (result (note_bitrate b p)) = bitrate_changes (result p)
     + (if cur_bitrate p \<noteq> 0 \<and> cur_bitrate p \<noteq> b then 1 else 0)"
  by (simp_all add: note_bitrate_def note_throughput_def Let_def)

lemma settle_frame [simp]:
  "cache_hits (fst (settle cfg d fetch p)) = cache_hits p" "cur_bitrate (fst (settle cfg d fetch p)) = cur_bitrate p"
  "pr_segments (result (fst (settle cfg d fetch p))) = pr_segments (result p)"
  "bitrate_changes (result (fst (settle cfg d fetch p))) = bitrate_changes (result p)"
  "p_history (fst (settle cfg d fetch p)) = p_history p"
  by (simp_all add: settle_def drain_def fill_buffer_def start_playback_def Let_def case_prod_unfold)

text \<open>A batch that stalls is the one counted, and its stall is not negative.\<close>

lemma settle_rebuffers:
  "rebuffer_count (result (fst (settle cfg d fetch p))) = rebuffer_count (result p) + (if snd (settle cfg d fetch p) then 1 else 0)
   \<and> rebuffer_duration (result p) \<le> rebuffer_duration (result (fst (settle cfg d fetch p)))
   \<and> (\<not> snd (settle cfg d fetch p) \<longrightarrow> rebuffer_duration (result (fst (settle cfg d fetch p))) = rebuffer_duration (result p))"
  by (simp add: settle_def drain_def fill_buffer_def start_playback_def Let_def case_prod_unfold)

lemma settle_buffer:
  assumes "0 \<le> buffer p" "0 \<le> d" "0 \<le> max_buffer cfg"
  shows "0 \<le> buffer (fst (settle cfg d fetch p)) \<and> buffer (fst (settle cfg d fetch p)) \<le> max_buffer cfg"
  using assms by (simp add: settle_def drain_def fill_buffer_def start_playback_def Let_def case_prod_unfold)

lemma max_latency_nonneg: "0 \<le> max_latency rs"
proof -
  have "m \<le> foldl (\<lambda>m r. if total_latency r > m then total_latency r else m) m rs" for m
    by (induction rs arbitrary: m) (auto intro: order.trans [OF less_imp_le])
  then show ?thesis by (simp add: max_latency_def)
qed

section \<open>The report\<close>

text \<open>How often neighbours differ.\<close>

fun changes :: "int list \<Rightarrow> int" where
  "changes (x # y # xs) = (if x \<noteq> y then 1 else 0) + changes (y # xs)"
| "changes _ = 0"

lemma changes_append:
  "ys \<noteq> [] \<Longrightarrow> changes (xs @ ys) = changes xs + (if xs \<noteq> [] \<and> last xs \<noteq> hd ys then 1 else 0) + changes ys"
proof (induction xs rule: changes.induct)
  fix x assume "ys \<noteq> []"
  then show "changes ([x] @ ys) = changes [x] + (if [x] \<noteq> [] \<and> last [x] \<noteq> hd ys then 1 else 0) + changes ys" by (cases ys) auto
qed auto

lemma changes_replicate [simp]: "changes (replicate n b) = 0"
proof (induction n)
  case (Suc n)
  then show ?case by (cases n) simp_all
qed simp

text \<open>A reported segment is one of the manifest's, and its buffer levels are inside the buffer.\<close>

definition segment_ok :: "session \<Rightarrow> segment_result \<Rightarrow> bool" where
  "segment_ok s x \<longleftrightarrow> (\<exists>rep\<in>set (representations (s_manifest s)). sr_bitrate x = bitrate rep
       \<and> nat (sr_index x) < length (segment_sizes rep) \<and> sr_size x = segment_sizes rep ! nat (sr_index x))
     \<and> 0 \<le> sr_buffer_before x \<and> sr_buffer_before x \<le> max_buffer (s_config s)
     \<and> 0 \<le> sr_buffer_after x \<and> sr_buffer_after x \<le> max_buffer (s_config s)"

definition session_ok :: "session \<Rightarrow> bool" where
  "session_ok s \<longleftrightarrow> 0 \<le> segment_duration (s_manifest s) \<and> 0 \<le> total_segments (s_manifest s) \<and> 0 \<le> max_buffer (s_config s)
     \<and> 0 \<notin> ladder (s_manifest s)"

definition report_inv :: "session \<Rightarrow> play \<Rightarrow> bool" where
  "report_inv s p \<longleftrightarrow> (let xs = pr_segments (result p) in
     0 \<le> p_index p \<and> p_index p \<le> total_segments (s_manifest s) \<and> 0 \<le> buffer p \<and> buffer p \<le> max_buffer (s_config s)
     \<and> map sr_index xs = [0..p_index p - 1] \<and> (\<forall>x\<in>set xs. segment_ok s x)
     \<and> cache_hits p = int (length (filter sr_cache_hit xs))
     \<and> bitrate_changes (result p) = changes (map sr_bitrate xs)
     \<and> cur_bitrate p = (if xs = [] then 0 else sr_bitrate (last xs))
     \<and> (xs \<noteq> [] \<longrightarrow> sr_buffer_after (last xs) = buffer p)
     \<and> 0 \<le> rebuffer_count (result p) \<and> (rebuffer_count (result p) = 0 \<longleftrightarrow> (\<forall>x\<in>set xs. \<not> sr_rebuffered x)))"

lemma finish_batch_frame:
  fixes s b batch n p
  defines "fetch \<equiv> max_latency (map (\<lambda>x. snd (snd x)) batch)"
  defines "t \<equiv> settle (s_config s) (n * segment_duration (s_manifest s)) fetch
      (p\<lparr>cache_hits := cache_hits p + int (length (filter slot_hit (map fst batch)))\<rparr>)"
  shows "pr_segments (result (finish_batch s b batch n p)) =
      pr_segments (result p) @ segment_results (p_index p) b (buffer p) (buffer (fst t)) (snd t) batch"
    "buffer (finish_batch s b batch n p) = buffer (fst t)" "wall (finish_batch s b batch n p) = wall (fst t)"
    "started (finish_batch s b batch n p) = started (fst t)"
    "cache_hits (finish_batch s b batch n p) = cache_hits p + int (length (filter slot_hit (map fst batch)))"
    "cur_bitrate (finish_batch s b batch n p) = b"
    "bitrate_changes (result (finish_batch s b batch n p)) = bitrate_changes (result p)
       + (if cur_bitrate p \<noteq> 0 \<and> cur_bitrate p \<noteq> b then 1 else 0)"
    "startup_latency (result (finish_batch s b batch n p)) = startup_latency (result (fst t))"
    "rebuffer_count (result (finish_batch s b batch n p)) = rebuffer_count (result (fst t))"
    "rebuffer_duration (result (finish_batch s b batch n p)) = rebuffer_duration (result (fst t))"
  by (simp_all add: finish_batch_def Let_def case_prod_unfold fetch_def t_def)

lemma batch_size_bounds:
  "p_index p < total_segments (s_manifest s) \<Longrightarrow> 0 < batch_size s p \<and> p_index p + batch_size s p \<le> total_segments (s_manifest s)
    \<and> batch_size s p \<le> max 1 (prefetch_depth (s_config s))"
  by (simp add: batch_size_def Let_def)

lemma segment_ok_bitrate: "session_ok s \<Longrightarrow> segment_ok s x \<Longrightarrow> sr_bitrate x \<noteq> 0"
  by (auto simp: session_ok_def segment_ok_def)

lemma report_step:
  assumes ok: "session_ok s" and inv: "report_inv s p" and lt: "p_index p < total_segments (s_manifest s)"
    and step: "play_batch A C T X ctx s w p = (None, w1, p1)"
  shows "report_inv s p1"
proof -
  obtain rep slots c1 flags resps batch where b:
    "representation_for_bitrate (s_manifest s) (d_bitrate (a_select A (view s p) (s_manifest s))) = Some rep"
    "lookup_batch C (s_content_id s) rep (wall_clock_to_time (wall p)) (p_index p) (nat (batch_size s p)) (w_cache w) = (Some slots, c1)"
    "assemble (t_protocol T) slots flags resps = Some batch" "p1 = finish_batch s (bitrate rep) batch (batch_size s p) p"
    using play_batch_Some [OF step] by blast
  let ?n = "batch_size s p" and ?m = "s_manifest s"
  note n = batch_size_bounds [OF lt]
  note lk = lookup_spec [OF b(2)]
  have fst: "map fst batch = slots" by (rule assemble_slots [OF b(3)])
  then have len: "length batch = nat ?n" using lk by (metis length_map)
  define t where "t = settle (s_config s) (?n * segment_duration ?m) (max_latency (map (\<lambda>x. snd (snd x)) batch))
      (p\<lparr>cache_hits := cache_hits p + int (length (filter slot_hit (map fst batch)))\<rparr>)"
  note fr = finish_batch_frame [of s "bitrate rep" batch ?n p, folded t_def, folded b(4)]
  let ?new = "segment_results (p_index p) (bitrate rep) (buffer p) (buffer (fst t)) (snd t) batch"
  note sp = segment_results_spec [of "p_index p" "bitrate rep" "buffer p" "buffer (fst t)" "snd t" batch]
  have ne: "?new \<noteq> []" using sp(1) len n by auto
  note inv' = inv [unfolded report_inv_def Let_def]
  have idx: "p_index p1 = p_index p + ?n" using play_batch_progress [OF step] .
  have buf: "0 \<le> buffer (fst t)" "buffer (fst t) \<le> max_buffer (s_config s)"
    using settle_buffer [of "p\<lparr>cache_hits := cache_hits p + int (length (filter slot_hit (map fst batch)))\<rparr>"
      "?n * segment_duration ?m" "s_config s"] ok inv' n
    by (simp_all add: t_def session_ok_def)
  have "map sr_index ?new = [p_index p..p_index p1 - 1]" using sp(2) len n idx by simp
  then have indices: "map sr_index (pr_segments (result p1)) = [0..p_index p1 - 1]"
    using inv' n idx by (simp add: fr(1) upto_split1 [of 0 "p_index p" "p_index p + ?n - 1"])
  have rep: "rep \<in> set (representations ?m)" by (rule rep_in [OF b(1)])
  have "segment_ok s x" if x: "x \<in> set ?new" for x
  proof -
    obtain k where k: "k < length batch" "x = ?new ! k" using x sp(1) by (metis in_set_conv_nth)
    have "fst (batch ! k) = slots ! k" using fst k(1) by auto
    then have "sr_size x = slot_size (slots ! k) \<and> sr_index x = p_index p + int k"
      using segment_results_nth [OF k(1)] by (simp add: k(2))
    moreover have "sr_bitrate x = bitrate rep \<and> sr_buffer_before x = buffer p \<and> sr_buffer_after x = buffer (fst t)"
      using sp(6) x by blast
    ultimately show ?thesis using lk len k(1) rep buf inv' by (auto simp: segment_ok_def nat_less_iff)
  qed
  then have segs: "\<forall>x\<in>set (pr_segments (result p1)). segment_ok s x" using inv' by (auto simp: fr(1))
  have last: "sr_bitrate (last ?new) = bitrate rep \<and> sr_buffer_after (last ?new) = buffer (fst t)" using sp(6) ne by simp
  have hd: "hd (map sr_bitrate ?new) = bitrate rep" using sp(6) ne by (metis hd_in_set hd_map)
  have "bitrate rep \<noteq> 0" using ok rep by (force simp: session_ok_def)
  then have cur: "(if cur_bitrate p \<noteq> 0 \<and> cur_bitrate p \<noteq> bitrate rep then 1 else 0)
      = (if map sr_bitrate (pr_segments (result p)) \<noteq> [] \<and> last (map sr_bitrate (pr_segments (result p))) \<noteq> bitrate rep then 1 else (0::int))"
    using inv' segment_ok_bitrate [OF ok] by (cases "pr_segments (result p) = []") (simp_all add: last_map)
  have ch: "bitrate_changes (result p1) = changes (map sr_bitrate (pr_segments (result p1)))"
  proof -
    let ?old = "map sr_bitrate (pr_segments (result p))"
    have "map sr_bitrate ?new \<noteq> []" using ne by simp
    note changes_append [OF this, of ?old]
    moreover have "changes (map sr_bitrate ?new) = 0" by (simp add: sp(3))
    moreover have "bitrate_changes (result p) = changes ?old" using inv' by simp
    moreover have "map sr_bitrate (pr_segments (result p1)) = ?old @ map sr_bitrate ?new" by (simp add: fr(1))
    ultimately show ?thesis using hd cur fr(7) by simp
  qed
  have reb: "rebuffer_count (result p1) = rebuffer_count (result p) + (if snd t then 1 else 0)"
    using settle_rebuffers [of "s_config s" "?n * segment_duration ?m" "max_latency (map (\<lambda>x. snd (snd x)) batch)"
      "p\<lparr>cache_hits := cache_hits p + int (length (filter slot_hit (map fst batch)))\<rparr>"]
    by (simp add: fr(9) t_def)
  have rebs: "(\<forall>x\<in>set ?new. \<not> sr_rebuffered x) \<longleftrightarrow> \<not> snd t" using sp(6) ne by (metis hd_in_set)
  have "rebuffer_count (result p1) = 0 \<longleftrightarrow> (\<forall>x\<in>set (pr_segments (result p1)). \<not> sr_rebuffered x)"
    using rebs inv' reb by (auto simp: fr(1))
  then show ?thesis using indices segs ch buf last inv' n idx ne reb
    by (simp add: report_inv_def Let_def fr(1,2,5,6) sp(5))
qed

lemma run_playback_Some:
  assumes "run_playback A C T X ctx s0 w = (r, None, w')"
  shows "\<exists>hs t p. t_handshake T ctx False (w_transport w) = (Inr hs, t)
    \<and> play_loop A C T X ctx (defaulted s0) (w\<lparr>w_transport := t\<rparr>)
        (initial_play hs (initial_result (defaulted s0) (t_protocol T) (a_name A))) = (None, w', p)
    \<and> r = final_result p"
  using assms by (auto simp: run_playback_def Let_def split: prod.splits sum.splits option.splits)

lemma final_frame [simp]:
  "pr_segments (final_result p) = pr_segments (result p)" "bitrate_changes (final_result p) = bitrate_changes (result p)"
  "rebuffer_count (final_result p) = rebuffer_count (result p)"
  "rebuffer_duration (final_result p) = rebuffer_duration (result p)" "total_play_time (final_result p) = wall p"
  "started p \<Longrightarrow> startup_latency (final_result p) = startup_latency (result p)"
  "pr_segments (result p) \<noteq> [] \<Longrightarrow> cache_hit_rate (final_result p) = fdiv (i2f (cache_hits p)) (i2f (int (length (pr_segments (result p)))))"
  "pr_segments (result p) \<noteq> [] \<Longrightarrow> avg_bitrate (final_result p) =
     fdiv (foldl (\<lambda>a x. fadd a (i2f (sr_bitrate x))) 0 (pr_segments (result p))) (i2f (int (length (pr_segments (result p)))))"
  by (simp_all add: final_result_def Let_def)

lemma defaulted_manifest [simp]: "s_manifest (defaulted s) = s_manifest s" "s_content_id (defaulted s) = s_content_id s"
  by (simp_all add: defaulted_def Let_def)

lemma defaulted_ok: "session_ok s \<Longrightarrow> session_ok (defaulted s)"
  by (simp add: session_ok_def defaulted_def Let_def default_playback_config_def second_def)

lemma report_initial: "session_ok s \<Longrightarrow> report_inv s (initial_play hs (initial_result s' proto name))"
  by (simp add: report_inv_def session_ok_def initial_play_def initial_result_def)

text \<open>C2: The report of a session. A session that ends without error reports every segment of the video once,
  in order, each with a bitrate of the ladder and the size the manifest gives that segment at that
  bitrate, and with buffer levels between zero and the maximum buffer; the totals agree with the list: the
  bitrate changes are the places where neighbours differ, the hit rate is the share of cache hits, and
  a stall is counted exactly when some segment is marked as rebuffered. This holds for every algorithm,
  cache, transport and shield.\<close>

theorem playback_report:
  assumes "session_ok s" "0 < total_segments (s_manifest s)" "run_playback A C T X ctx s w = (r, None, w')"
  shows "map sr_index (pr_segments r) = [0..total_segments (s_manifest s) - 1]
    \<and> (\<forall>x\<in>set (pr_segments r). segment_ok (defaulted s) x)
    \<and> bitrate_changes r = changes (map sr_bitrate (pr_segments r))
    \<and> cache_hit_rate r = fdiv (i2f (int (length (filter sr_cache_hit (pr_segments r))))) (i2f (total_segments (s_manifest s)))
    \<and> (rebuffer_count r = 0 \<longleftrightarrow> (\<forall>x\<in>set (pr_segments r). \<not> sr_rebuffered x))"
proof -
  let ?s = "defaulted s"
  have ok: "session_ok ?s" by (rule defaulted_ok [OF assms(1)])
  obtain hs t p where l: "play_loop A C T X ctx ?s (w\<lparr>w_transport := t\<rparr>)
      (initial_play hs (initial_result ?s (t_protocol T) (a_name A))) = (None, w', p)" and r: "r = final_result p"
    using run_playback_Some [OF assms(3)] by blast
  have "report_inv ?s p \<and> total_segments (s_manifest ?s) \<le> p_index p"
    by (rule play_loop_rule [OF l, where I = "\<lambda>w. report_inv ?s"]) (blast intro: report_initial report_step ok)+
  then have inv: "report_inv ?s p" "total_segments (s_manifest s) \<le> p_index p" by simp_all
  then have idx: "p_index p = total_segments (s_manifest s)" by (simp add: report_inv_def Let_def)
  then have segs: "map sr_index (pr_segments (result p)) = [0..total_segments (s_manifest s) - 1]"
    using inv(1) by (simp add: report_inv_def Let_def)
  then have len: "int (length (pr_segments (result p))) = total_segments (s_manifest s)"
    using assms(2) by (metis diff_0_right diff_add_cancel int_nat_eq le_less length_map length_upto diff_zero)
  then have "pr_segments (result p) \<noteq> []" using assms(2) by auto
  with inv(1) segs len show ?thesis by (simp add: r report_inv_def Let_def)
qed

section \<open>Time\<close>

text \<open>While playback runs, the wall clock and the buffer add up to the startup latency, the video fetched so far
  and the stalls, these twice; before it starts, all that was fetched is in the buffer.\<close>

definition timing_inv :: "session \<Rightarrow> play \<Rightarrow> bool" where
  "timing_inv s p \<longleftrightarrow> 0 \<le> p_index p \<and> p_index p \<le> total_segments (s_manifest s)
     \<and> (if started p then wall p + buffer p = startup_latency (result p) + p_index p * segment_duration (s_manifest s)
            + 2 * rebuffer_duration (result p)
        else buffer p = p_index p * segment_duration (s_manifest s) \<and> rebuffer_duration (result p) = 0
          \<and> (p_index p > 0 \<longrightarrow> buffer p < startup_threshold (s_config s)))"

lemma settle_timing:
  assumes "0 \<le> fetch"
  shows "started p \<Longrightarrow> started (fst (settle cfg d fetch p)) \<and> startup_latency (result (fst (settle cfg d fetch p))) = startup_latency (result p)
      \<and> wall (fst (settle cfg d fetch p)) + buffer (fst (settle cfg d fetch p)) - 2 * rebuffer_duration (result (fst (settle cfg d fetch p)))
        = wall p + buffer p + d - 2 * rebuffer_duration (result p)"
    "\<not> started p \<Longrightarrow> buffer p + d \<le> max_buffer cfg \<Longrightarrow> buffer (fst (settle cfg d fetch p)) = buffer p + d
      \<and> rebuffer_duration (result (fst (settle cfg d fetch p))) = rebuffer_duration (result p)
      \<and> (if buffer p + d \<ge> startup_threshold cfg then started (fst (settle cfg d fetch p))
            \<and> startup_latency (result (fst (settle cfg d fetch p))) = wall (fst (settle cfg d fetch p))
         else \<not> started (fst (settle cfg d fetch p)))"
  by (simp_all add: settle_def drain_def fill_buffer_def start_playback_def Let_def case_prod_unfold)

lemma timing_step:
  assumes cfg: "0 \<le> segment_duration (s_manifest s)" "1 \<le> prefetch_depth (s_config s)" "0 \<le> startup_threshold (s_config s)"
      "prefetch_depth (s_config s) * segment_duration (s_manifest s) + startup_threshold (s_config s) \<le> max_buffer (s_config s)"
    and inv: "timing_inv s p" and lt: "p_index p < total_segments (s_manifest s)"
    and step: "play_batch A C T X ctx s w p = (None, w1, p1)"
  shows "timing_inv s p1"
proof -
  let ?n = "batch_size s p" and ?sd = "segment_duration (s_manifest s)" and ?cfg = "s_config s"
  obtain b batch where p1: "p1 = finish_batch s b batch ?n p" using play_batch_Some [OF step] by blast
  define p0 where "p0 = p\<lparr>cache_hits := cache_hits p + int (length (filter slot_hit (map fst batch)))\<rparr>"
  define fetch where "fetch = max_latency (map (\<lambda>x. snd (snd x)) batch)"
  note fr = finish_batch_frame [of s b batch ?n p, folded fetch_def p0_def, folded p1]
  have f: "0 \<le> fetch" by (simp add: fetch_def max_latency_nonneg)
  have p0: "started p0 = started p" "buffer p0 = buffer p" "wall p0 = wall p" "result p0 = result p" by (simp_all add: p0_def)
  note n = batch_size_bounds [OF lt]
  have idx: "p_index p1 = p_index p + ?n" using play_batch_progress [OF step] .
  have d: "?n * ?sd \<le> prefetch_depth ?cfg * ?sd" using n cfg(1,2) by (intro mult_right_mono) simp_all
  show ?thesis
  proof (cases "started p")
    case True
    with settle_timing(1) [OF f, of p0 ?cfg "?n * ?sd"] inv idx n show ?thesis
      by (simp add: timing_inv_def fr p0 algebra_simps)
  next
    case False
    have "buffer p \<le> startup_threshold ?cfg" using inv False cfg(3) by (cases "p_index p = 0") (auto simp: timing_inv_def)
    then have "buffer p0 + ?n * ?sd \<le> max_buffer ?cfg" using d cfg(4) by (simp add: p0)
    with settle_timing(2) [OF f, of p0 "?n * ?sd" ?cfg] False inv idx n show ?thesis
      by (auto simp: timing_inv_def fr p0 algebra_simps split: if_splits)
  qed
qed

text \<open>C1: Where the time goes. For any session that ends without error and whose video is long enough to start
  playing, the total play time is the startup latency, plus the length of the video, less what is still in
  the buffer when the last segment arrived, plus twice the time reported as rebuffering: the wall clock is
  advanced by a stalling fetch and then by the stall again, although the fetch contains the stall.\<close>

theorem playback_time_accounting:
  assumes cfg: "0 \<le> segment_duration (s_manifest s)" "1 \<le> prefetch_depth (s_config s)" "0 < startup_threshold (s_config s)"
      "prefetch_depth (s_config s) * segment_duration (s_manifest s) + startup_threshold (s_config s) \<le> max_buffer (s_config s)"
    and long: "startup_threshold (s_config s) \<le> total_segments (s_manifest s) * segment_duration (s_manifest s)"
      "0 < total_segments (s_manifest s)" "0 \<notin> ladder (s_manifest s)"
    and run: "run_playback A C T X ctx s w = (r, None, w')"
  shows "total_play_time r = startup_latency r + total_segments (s_manifest s) * segment_duration (s_manifest s)
      - sr_buffer_after (last (pr_segments r)) + 2 * rebuffer_duration r"
proof -
  have s: "defaulted s = s" using cfg by (simp add: defaulted_def Let_def)
  have "0 \<le> prefetch_depth (s_config s) * segment_duration (s_manifest s)" using cfg by simp
  then have "0 \<le> max_buffer (s_config s)" using cfg(3,4) by linarith
  then have ok: "session_ok s" using cfg(1) long by (simp add: session_ok_def)
  obtain hs t p where l: "play_loop A C T X ctx s (w\<lparr>w_transport := t\<rparr>)
      (initial_play hs (initial_result s (t_protocol T) (a_name A))) = (None, w', p)" and r: "r = final_result p"
    using run_playback_Some [OF run] unfolding s by blast
  have "(report_inv s p \<and> timing_inv s p) \<and> total_segments (s_manifest s) \<le> p_index p"
  proof (rule play_loop_rule [OF l, where I = "\<lambda>w p. report_inv s p \<and> timing_inv s p"])
    show "report_inv s (initial_play hs (initial_result s (t_protocol T) (a_name A)))
      \<and> timing_inv s (initial_play hs (initial_result s (t_protocol T) (a_name A)))"
      using report_initial [OF ok] long by (simp add: timing_inv_def initial_play_def initial_result_def)
  qed (use report_step [OF ok] timing_step [OF cfg(1,2) less_imp_le [OF cfg(3)] cfg(4)] in blast)
  then have inv: "report_inv s p" "timing_inv s p" and idx: "p_index p = total_segments (s_manifest s)"
    by (auto simp: timing_inv_def)
  have "pr_segments (result p) \<noteq> []" using inv(1) idx long(2) by (auto simp: report_inv_def Let_def)
  moreover have "started p" using inv(2) idx long by (auto simp: timing_inv_def)
  ultimately show ?thesis using inv idx by (simp add: r report_inv_def timing_inv_def Let_def)
qed

section \<open>Completion\<close>

text \<open>A video every batch of which a modeled transport accepts: one size for each segment, and at most 10^9 bytes
  in a batch.\<close>

definition playable :: "session \<Rightarrow> bool" where
  "playable s \<longleftrightarrow> representations (s_manifest s) \<noteq> [] \<and> (\<forall>rep\<in>set (representations (s_manifest s)).
     total_segments (s_manifest s) \<le> int (length (segment_sizes rep))
     \<and> (\<forall>z\<in>set (segment_sizes rep). 0 < z \<and> max 1 (prefetch_depth (s_config s)) * z \<le> 10 ^ 9))"

lemma lookup_total:
  "0 \<le> idx \<Longrightarrow> idx + int n \<le> int (length (segment_sizes rep)) \<Longrightarrow>
    \<exists>slots c1. lookup_batch C cid rep now idx n c = (Some slots, c1)"
proof (induction n arbitrary: idx c)
  case (Suc n)
  obtain hit c' where h: "(case c of None \<Rightarrow> (False, None)
      | Some cc \<Rightarrow> (let (r, cc') = c_get C (segment_id_of cid idx (bitrate rep)) now cc in (r \<noteq> None, Some cc'))) = (hit, c')"
    by fastforce
  obtain slots c1 where "lookup_batch C cid rep now (idx + 1) n c' = (Some slots, c1)" using Suc.IH [of "idx + 1" c'] Suc.prems by auto
  with h Suc.prems show ?case by (auto simp: Let_def)
qed simp

text \<open>The batches such a session may send: misses of one representation, no more than the prefetch depth.\<close>

definition batch_of :: "session \<Rightarrow> segment_request list \<Rightarrow> bool" where
  "batch_of s reqs \<longleftrightarrow> (\<exists>rep\<in>set (representations (s_manifest s)). \<exists>slots. reqs = miss_requests rep slots
     \<and> (\<forall>x\<in>set slots. slot_size x \<in> set (segment_sizes rep))
     \<and> int (length slots) \<le> max 1 (prefetch_depth (s_config s)))"

lemma batch_of_ok:
  assumes s: "playable s" and b: "batch_of s reqs"
  shows "batch_ok reqs"
proof -
  from b obtain rep slots where rep: "rep \<in> set (representations (s_manifest s))" and reqs: "reqs = miss_requests rep slots"
    and slots: "\<forall>x\<in>set slots. slot_size x \<in> set (segment_sizes rep)" "int (length slots) \<le> max 1 (prefetch_depth (s_config s))"
    unfolding batch_of_def by blast
  let ?d = "max 1 (prefetch_depth (s_config s))"
  have z: "0 < slot_size x \<and> ?d * slot_size x \<le> 10 ^ 9" if "x \<in> set slots" for x
    using s rep slots(1) that by (auto simp: playable_def)
  have "?d * sum_list (map slot_size (filter (\<lambda>x. \<not> slot_hit x) xs)) \<le> int (length xs) * 10 ^ 9"
    if "set xs \<subseteq> set slots" for xs
    using that
  proof (induction xs)
    case (Cons x xs)
    with z [of x] show ?case by (simp add: distrib_left)
  qed simp
  from this [of slots] slots(2)
  have "?d * sum_list (map slot_size (filter (\<lambda>x. \<not> slot_hit x) slots)) \<le> ?d * 10 ^ 9" by simp
  then have "sum_list (map slot_size (filter (\<lambda>x. \<not> slot_hit x) slots)) \<le> 10 ^ 9" by (simp add: mult_le_cancel_left)
  with z show ?thesis by (auto simp: batch_ok_def reqs miss_requests_def comp_def)
qed

lemma batch_of_sizes: "playable s \<Longrightarrow> batch_of s reqs \<Longrightarrow> \<forall>r\<in>set reqs. req_size r \<le> 10 ^ 9"
  using batch_sizes(2) [OF batch_of_ok] batch_of_ok unfolding batch_ok_def by force

lemma assemble_total:
  "length flags = length (filter (\<lambda>x. \<not> slot_hit x) slots) \<Longrightarrow> length resps = length (filter (\<lambda>x. \<not> slot_hit x) slots) \<Longrightarrow>
    \<exists>batch. assemble proto slots flags resps = Some batch"
proof (induction slots arbitrary: flags resps)
  case (Cons x xs)
  then show ?case by (cases "slot_hit x"; cases flags; cases resps) auto
qed simp

text \<open>A shield that serves every request of up to \<open>10 ^ 9\<close> bytes, from any state that satisfies \<open>I\<close>.\<close>

definition serves :: "'x shield_op \<Rightarrow> string option \<Rightarrow> ('x \<Rightarrow> bool) \<Rightarrow> bool" where
  "serves X ctx I \<longleftrightarrow> (\<forall>r now x. I x \<and> req_size r \<le> 10 ^ 9 \<longrightarrow> (\<exists>v x'. X ctx r now x = (Inr v, x') \<and> I x'))"

abbreviation shield_in :: "('x \<Rightarrow> bool) \<Rightarrow> ('c, 't, 'x) world \<Rightarrow> bool" where
  "shield_in I w \<equiv> \<forall>x. w_shield w = Some x \<longrightarrow> I x"

lemma shield_loop_total:
  assumes X: "serves X ctx I"
  shows "I x \<Longrightarrow> \<forall>r\<in>set rs. req_size r \<le> 10 ^ 9 \<Longrightarrow> \<exists>hs x'. shield_loop X ctx now rs x = (Inr hs, x') \<and> length hs = length rs \<and> I x'"
proof (induction rs arbitrary: x)
  case (Cons r rs)
  obtain v x1 where x1: "X ctx r now x = (Inr v, x1)" "I x1" using X Cons.prems unfolding serves_def by (meson list.set_intros(1))
  from Cons.IH [OF x1(2)] Cons.prems(2) obtain hs x' where "shield_loop X ctx now rs x1 = (Inr hs, x')" "length hs = length rs" "I x'" by auto
  with x1 show ?case by (cases v) simp
qed simp

lemma fetch_misses_total:
  assumes X: "serves X ctx I" "shield_in I w" "\<forall>r\<in>set reqs. req_size r \<le> 10 ^ 9"
    and T: "reqs = [] \<or> (\<exists>resps t. t_fetch_concurrent T ctx reqs (w_transport w) = (Inr resps, t) \<and> length resps = length reqs)"
  shows "\<exists>flags resps w'. fetch_misses C T X ctx now reqs w = (Inr (flags, resps), w') \<and> length flags = length reqs
    \<and> length resps = length reqs \<and> w_transport w' = (if reqs = [] then w_transport w
        else snd (t_fetch_concurrent T ctx reqs (w_transport w)))
    \<and> shield_in I w'"
proof (cases "reqs = []")
  case False
  with T obtain resps t where t: "t_fetch_concurrent T ctx reqs (w_transport w) = (Inr resps, t)" "length resps = length reqs" by blast
  show ?thesis
  proof (cases "w_shield w")
    case None
    with False t show ?thesis by (simp add: fetch_misses_def)
  next
    case (Some x)
    with X(2) have "I x" by simp
    from shield_loop_total [OF X(1) this X(3)] obtain hs x' where
      "shield_loop X ctx now reqs x = (Inr hs, x')" "length hs = length reqs" "I x'" by blast
    with False Some t show ?thesis by (simp add: fetch_misses_def)
  qed
qed (use X in \<open>simp add: fetch_misses_def\<close>)

lemma miss_requests_length [simp]: "length (miss_requests rep slots) = length (filter (\<lambda>x. \<not> slot_hit x) slots)"
  by (simp add: miss_requests_def)

context transport_iface
begin

lemma fetch_total:
  "inv t \<Longrightarrow> batch_ok reqs \<Longrightarrow> \<exists>resps t'. fetch reqs t = (Inr resps, t') \<and> length resps = length reqs"
  using fetch_served [of t reqs] by (metis list_all2_lengthD prod.collapse)

lemma play_batch_total:
  assumes T: "t_fetch_concurrent T None = fetch" and t: "inv (w_transport w)"
    and X: "serves X None I" "shield_in I w"
    and s: "playable s" "\<forall>reqs. batch_of s reqs \<longrightarrow> batch_ok reqs"
    and p: "0 \<le> p_index p" "p_index p < total_segments (s_manifest s)"
  shows "\<exists>w1 p1. play_batch A C T X None s w p = (None, w1, p1) \<and> inv (w_transport w1)
    \<and> shield_in I w1"
proof -
  have "representations (s_manifest s) \<noteq> []" using s(1) by (simp add: playable_def)
  then obtain rep where rep: "representation_for_bitrate (s_manifest s) (d_bitrate (a_select A (view s p) (s_manifest s))) = Some rep"
    by (cases "representations (s_manifest s)") (auto simp: representation_for_bitrate_def)
  note mem = rep_in [OF rep]
  note n = batch_size_bounds [OF p(2)]
  let ?now = "wall_clock_to_time (wall p)"
  have "p_index p + int (nat (batch_size s p)) \<le> int (length (segment_sizes rep))" using n s(1) mem by (force simp: playable_def)
  from lookup_total [OF p(1) this] obtain slots c1 where
    lk: "lookup_batch C (s_content_id s) rep ?now (p_index p) (nat (batch_size s p)) (w_cache w) = (Some slots, c1)" by blast
  note ls = lookup_spec [OF lk]
  have "\<forall>x\<in>set slots. slot_size x \<in> set (segment_sizes rep)"
  proof
    fix x assume "x \<in> set slots"
    then obtain k where "k < length slots" "x = slots ! k" by (metis in_set_conv_nth)
    with ls have "slot_size x = segment_sizes rep ! nat (p_index p + int k)" "nat (p_index p + int k) < length (segment_sizes rep)"
      by (auto simp: nat_less_iff)
    then show "slot_size x \<in> set (segment_sizes rep)" by simp
  qed
  then have of: "batch_of s (miss_requests rep slots)" using mem ls n unfolding batch_of_def by fastforce
  then have ok: "batch_ok (miss_requests rep slots)" using s(2) by blast
  let ?w = "w\<lparr>w_cache := c1\<rparr>"
  from fetch_total [OF t ok] have "\<exists>resps t'. t_fetch_concurrent T None (miss_requests rep slots) (w_transport ?w) = (Inr resps, t')
      \<and> length resps = length (miss_requests rep slots)" by (simp add: T)
  with fetch_misses_total [OF X(1), of ?w "miss_requests rep slots" T C ?now] X(2) batch_of_sizes [OF s(1) of] obtain flags resps w1 where
    f: "fetch_misses C T X None ?now (miss_requests rep slots) ?w = (Inr (flags, resps), w1)"
      "length flags = length (miss_requests rep slots)" "length resps = length (miss_requests rep slots)"
      "w_transport w1 = (if miss_requests rep slots = [] then w_transport w else snd (fetch (miss_requests rep slots) (w_transport w)))"
      "shield_in I w1"
    by (auto simp: T)
  obtain batch where "assemble (t_protocol T) slots flags resps = Some batch"
    using assemble_total [of flags slots resps "t_protocol T"] f(2,3) by auto
  with rep lk f(1) have "play_batch A C T X None s w p = (None, w1, finish_batch s (bitrate rep) batch (batch_size s p) p)"
    by (simp add: play_batch_def Let_def)
  moreover have "inv (w_transport w1)" using t fetch_inv [OF t] by (simp add: f(4))
  ultimately show ?thesis using f(5) by (intro exI conjI)
qed

lemma play_loop_total:
  assumes T: "t_fetch_concurrent T None = fetch" and X: "serves X None I"
    and s: "playable s" "\<forall>reqs. batch_of s reqs \<longrightarrow> batch_ok reqs"
  shows "inv (w_transport w) \<Longrightarrow> shield_in I w \<Longrightarrow> 0 \<le> p_index p \<Longrightarrow>
    \<exists>w' p'. play_loop A C T X None s w p = (None, w', p') \<and> shield_in I w'"
proof (induction "nat (total_segments (s_manifest s) - p_index p)" arbitrary: w p rule: less_induct)
  case less
  show ?case
  proof (cases "p_index p < total_segments (s_manifest s)")
    case True
    from play_batch_total [OF T less.prems(1) X less.prems(2) s less.prems(3) True, of A C] obtain w1 p1 where
      b: "play_batch A C T X None s w p = (None, w1, p1)" "inv (w_transport w1)" "shield_in I w1" by blast
    have "0 \<le> p_index p1" using play_batch_progress [OF b(1)] batch_size_pos [OF True] less.prems(3) by simp
    from less.hyps [OF play_batch_decreases [OF True b(1) [symmetric]] b(2,3) this]
    obtain w' p' where "play_loop A C T X None s w1 p1 = (None, w', p')" "shield_in I w'" by blast
    then show ?thesis using True b(1) by (subst play_loop.simps) simp
  next
    case False
    with less.prems(2) show ?thesis by (subst play_loop.simps) simp
  qed
qed

lemma session_completes:
  assumes T: "t_fetch_concurrent T None = fetch" "t_handshake T None = handshake" and t: "inv (w_transport w)"
    and X: "serves X None I" "shield_in I w"
    and s: "playable (defaulted s)" "\<forall>reqs. batch_of (defaulted s) reqs \<longrightarrow> batch_ok reqs"
  shows "\<exists>r w'. run_playback A C T X None s w = (r, None, w') \<and> shield_in I w'"
proof -
  obtain hs t' where h: "handshake False (w_transport w) = (Inr hs, t')" using handshake_time [OF t, of False] by (metis prod.collapse)
  then have "inv t'" using handshake_inv [OF t, of False] by simp
  then obtain w' p' where "play_loop A C T X None (defaulted s) (w\<lparr>w_transport := t'\<rparr>)
      (initial_play hs (initial_result (defaulted s) (t_protocol T) (a_name A))) = (None, w', p')" "shield_in I w'"
    using play_loop_total [OF T(1) X(1) s, of "w\<lparr>w_transport := t'\<rparr>"] X(2) by (force simp: initial_play_def)
  with h T(2) show ?thesis by (simp add: run_playback_def Let_def)
qed

end

text \<open>A modeled transport whose loss simulator cannot panic answers every single request.\<close>

lemma tcp_segment_total:
  assumes "sim_ok (tcp_loss t)" "req_size r \<le> 10 ^ 9"
  shows "\<exists>v t'. tcp_fetch_segment M R None r t = (Inr v, t') \<and> sim_ok (tcp_loss t')"
proof (cases "req_size r \<le> 0")
  case False
  then have "0 < req_size r" by simp
  note pk = packet_count_bounds [OF this assms(2)]
  obtain ls s' where "simulate_packets R (packet_count (req_size r)) (tcp_loss t) = (Some ls, s')" "sim_ok s'"
    by (rule simulate_total [OF assms(1) pk])
  with False show ?thesis
    by (auto simp: tcp_fetch_segment_def compute_delivery_def Let_def case_prod_unfold)
qed (use assms in \<open>simp add: tcp_fetch_segment_def compute_delivery_def\<close>)

lemma quic_segment_total:
  assumes "sim_ok (quic_loss q)" "req_size r \<le> 10 ^ 9"
  shows "\<exists>v q'. quic_fetch_segment M R None r q = (Inr v, q') \<and> sim_ok (quic_loss q')"
proof (cases "req_size r \<le> 0")
  case False
  then have "0 < req_size r" by simp
  note pk = packet_count_bounds [OF this assms(2)]
  obtain ls s' where "simulate_packets R (packet_count (req_size r)) (quic_loss q) = (Some ls, s')" "sim_ok s'"
    by (rule simulate_total [OF assms(1) pk])
  with False show ?thesis
    by (auto simp: quic_fetch_segment_def Let_def case_prod_unfold)
qed (use assms in \<open>simp add: quic_fetch_segment_def\<close>)

lemma shield_serves:
  fixes T :: "'t transport_ops" and C :: "'c cache_ops"
  assumes T: "\<And>r t. J t \<Longrightarrow> req_size r \<le> 10 ^ 9 \<Longrightarrow> \<exists>v t'. t_fetch_segment T ctx r t = (Inr v, t') \<and> J t'"
  shows "serves (shield_fetch C T clock) ctx (\<lambda>x. J (shield_transport x))"
  unfolding serves_def
proof (intro allI impI)
  fix r :: segment_request and now and x :: "('c, 't) shield"
  assume a: "J (shield_transport x) \<and> req_size r \<le> 10 ^ 9"
  obtain found s1 where f: "(case shield_cache x of None \<Rightarrow> (False, x)
      | Some c \<Rightarrow> let (r', c') = c_get C (req_id r) (if is_zero_time now then clock else now) c in (r' \<noteq> None, x\<lparr>shield_cache := Some c'\<rparr>))
      = (found, s1)" by fastforce
  then have "shield_transport s1 = shield_transport x" by (auto simp: Let_def split: option.splits prod.splits)
  with T a obtain v t' where "t_fetch_segment T ctx r (shield_transport s1) = (Inr v, t')" "J t'" by metis
  with f a \<open>shield_transport s1 = _\<close> show "\<exists>v x'. shield_fetch C T clock ctx r now x = (Inr v, x') \<and> J (shield_transport x')"
    by (cases found) (auto simp: shield_fetch_def Let_def split: option.split)
qed

lemma session_completes_tcp:
  assumes "tcp_inv M R (w_transport w)" "playable (defaulted s)" "serves X None I" "shield_in I w"
  shows "\<exists>r w'. run_playback A C (tcp_ops M R) X None s w = (r, None, w') \<and> shield_in I w'"
  by (rule tcp.session_completes [OF _ _ assms(1,3,4,2)]) (simp_all add: tcp_ops_def batch_of_ok [OF assms(2)])

lemma session_completes_quic:
  assumes "quic_inv M R (w_transport w)" "playable (defaulted s)" "serves X None I" "shield_in I w"
  shows "\<exists>r w'. run_playback A C (quic_ops M R) X None s w = (r, None, w') \<and> shield_in I w'"
  by (rule quic.session_completes [OF _ _ assms(1,3,4,2)]) (simp_all add: quic_ops_def batch_of_ok [OF assms(2)])

lemma tcp_shield_serves: "serves (shield_fetch C (tcp_ops M R) clock) None (\<lambda>x. sim_ok (tcp_loss (shield_transport x)))"
  by (rule shield_serves [where J = "\<lambda>t. sim_ok (tcp_loss t)"]) (simp add: tcp_ops_def tcp_segment_total)

lemma quic_shield_serves: "serves (shield_fetch C (quic_ops M R) clock) None (\<lambda>x. sim_ok (quic_loss (shield_transport x)))"
  by (rule shield_serves [where J = "\<lambda>t. sim_ok (quic_loss t)"]) (simp add: quic_ops_def quic_segment_total)

lemma cancelled_session:
  assumes "t_handshake T (Some e) False (w_transport w) = (Inl e, w_transport w)"
  shows "run_playback A C T X (Some e) s w = (initial_result (defaulted s) (t_protocol T) (a_name A), Some (Failed (''handshake: '' @ e)), w)"
  using assms by (simp add: run_playback_def Let_def)

text \<open>C3: Sessions complete. Over a modeled TCP or QUIC transport, with or without a shield in front of a
  modeled transport of the same protocol whose loss rate is a probability, with any caches and any algorithm, a session of a playable video
  ends, without an error and without a panic (an index out of range, or a slice of negative capacity). With a cancelled context it
  ends at once over either transport, with the handshake's error, an empty report and everything it uses untouched.\<close>

theorem playback_completes:
  assumes "tcp_inv M R t" "quic_inv M R q" "playable (defaulted s)"
    and "\<forall>sh. x = Some sh \<longrightarrow> sim_ok (tcp_loss (shield_transport sh))" "\<forall>sh. y = Some sh \<longrightarrow> sim_ok (quic_loss (shield_transport sh))"
  shows "(\<exists>r w'. run_playback A C (tcp_ops M R) (shield_fetch CS (tcp_ops MS RS) clock) None s
      \<lparr>w_cache = c, w_transport = t, w_shield = x\<rparr> = (r, None, w'))
    \<and> (\<exists>r w'. run_playback A C (quic_ops M R) (shield_fetch CS (quic_ops MS RS) clock) None s
      \<lparr>w_cache = c, w_transport = q, w_shield = y\<rparr> = (r, None, w'))
    \<and> run_playback A C (tcp_ops M R) X (Some e) s \<lparr>w_cache = c, w_transport = t, w_shield = z\<rparr>
      = (initial_result (defaulted s) tcp_protocol (a_name A), Some (Failed (''handshake: '' @ e)),
         \<lparr>w_cache = c, w_transport = t, w_shield = z\<rparr>)
    \<and> run_playback A C (quic_ops M R) X (Some e) s \<lparr>w_cache = c, w_transport = q, w_shield = z\<rparr>
      = (initial_result (defaulted s) quic_protocol (a_name A), Some (Failed (''handshake: '' @ e)),
         \<lparr>w_cache = c, w_transport = q, w_shield = z\<rparr>)"
proof (intro conjI)
  show "\<exists>r w'. run_playback A C (tcp_ops M R) (shield_fetch CS (tcp_ops MS RS) clock) None s
      \<lparr>w_cache = c, w_transport = t, w_shield = x\<rparr> = (r, None, w')"
    using session_completes_tcp [OF _ assms(3) tcp_shield_serves, of M R "\<lparr>w_cache = c, w_transport = t, w_shield = x\<rparr>" A C CS MS RS clock]
      assms(1,4) by auto
  show "\<exists>r w'. run_playback A C (quic_ops M R) (shield_fetch CS (quic_ops MS RS) clock) None s
      \<lparr>w_cache = c, w_transport = q, w_shield = y\<rparr> = (r, None, w')"
    using session_completes_quic [OF _ assms(3) quic_shield_serves, of M R "\<lparr>w_cache = c, w_transport = q, w_shield = y\<rparr>" A C CS MS RS clock]
      assms(2,5) by auto
qed (simp_all add: cancelled_session tcp_ops_def tcp_handshake_def quic_ops_def quic_handshake_def)

definition demo_session :: session where
  "demo_session = \<lparr>s_manifest = demo_manifest, s_content_id = ''c'',
     s_config = \<lparr>max_buffer = 30 * second, startup_threshold = 2 * second, prefetch_depth = 2\<rparr>\<rparr>"

definition demo_abr :: abr_ops where
  "demo_abr = \<lparr>a_select = buffer_select new_buffer_abr, a_name = buffer_name\<rparr>"

definition demo_world :: "(lru, int tcp, (lru, int tcp) shield) world" where
  "demo_world = \<lparr>w_cache = Some (new_lru 10000000), w_transport = new_modeled_tcp (\<lambda>n. n) lcg demo_profile 3,
     w_shield = Some demo_shield\<rparr>"

lemma demo_session_ok: "session_ok demo_session" "playable (defaulted demo_session)"
  by (simp_all add: session_ok_def playable_def defaulted_def demo_session_def demo_manifest_def second_def Let_def)

lemma demo_shield_ok: "sim_ok (tcp_loss (shield_transport demo_shield))"
  using new_tcp_inv [OF flat_libm_ok lcg_ok calm_profile_ok(1), of "\<lambda>n. n" 3] by (simp add: demo_shield_def new_origin_shield_def tcp_inv_def)

theorem playback_completes_witness:
  "\<exists>r w'. run_playback demo_abr lru_ops (tcp_ops flat_libm lcg) (shield_fetch lru_ops (tcp_ops flat_libm lcg) 1) None
     demo_session demo_world = (r, None, w')"
  unfolding demo_world_def
  by (rule conjunct1 [OF playback_completes
      [OF new_tcp_inv [OF flat_libm_ok lcg_ok demo_profile_ok(1)] new_quic_inv [OF flat_libm_ok lcg_ok demo_profile_ok(1)] demo_session_ok(2),
       where y = None]]) (simp_all add: demo_shield_ok)

lemma demo_run:
  "\<exists>r w'. run_playback demo_abr lru_ops (tcp_ops flat_libm lcg) (shield_fetch lru_ops (tcp_ops flat_libm lcg) 1) None
     demo_session demo_world = (r, None, w')"
proof -
  have "tcp_inv flat_libm lcg (w_transport demo_world)" "shield_in (\<lambda>x. sim_ok (tcp_loss (shield_transport x))) demo_world"
    unfolding demo_world_def using new_tcp_inv [OF flat_libm_ok lcg_ok demo_profile_ok(1)] demo_shield_ok by simp_all
  from session_completes_tcp [OF this(1) demo_session_ok(2) tcp_shield_serves this(2)] show ?thesis by blast
qed

theorem playback_report_witness:
  "\<exists>r w'. run_playback demo_abr lru_ops (tcp_ops flat_libm lcg) (shield_fetch lru_ops (tcp_ops flat_libm lcg) 1) None
     demo_session demo_world = (r, None, w') \<and> map sr_index (pr_segments r) = [0, 1]"
proof -
  obtain r w' where run: "run_playback demo_abr lru_ops (tcp_ops flat_libm lcg)
      (shield_fetch lru_ops (tcp_ops flat_libm lcg) 1) None demo_session demo_world = (r, None, w')"
    using demo_run by blast
  from playback_report [OF demo_session_ok(1) _ run] have "map sr_index (pr_segments r) = [0..1]"
    by (simp add: demo_session_def demo_manifest_def)
  with run show ?thesis by (simp add: upto_rec1)
qed

theorem playback_time_accounting_witness:
  "\<exists>r w'. run_playback demo_abr lru_ops (tcp_ops flat_libm lcg) (shield_fetch lru_ops (tcp_ops flat_libm lcg) 1) None
     demo_session demo_world = (r, None, w')
   \<and> total_play_time r = startup_latency r + 8 * second - sr_buffer_after (last (pr_segments r)) + 2 * rebuffer_duration r"
proof -
  obtain r w' where run: "run_playback demo_abr lru_ops (tcp_ops flat_libm lcg)
      (shield_fetch lru_ops (tcp_ops flat_libm lcg) 1) None demo_session demo_world = (r, None, w')"
    using demo_run by blast
  from playback_time_accounting [OF _ _ _ _ _ _ _ run] run show ?thesis
    by (simp add: demo_session_def demo_manifest_def second_def)
qed

section \<open>What the shield contributes\<close>

definition unflag :: "segment_result \<Rightarrow> segment_result" where
  "unflag x = x\<lparr>sr_shield_hit := False\<rparr>"

definition unflag_result :: "playback_result \<Rightarrow> playback_result" where
  "unflag_result r = r\<lparr>pr_segments := map unflag (pr_segments r)\<rparr>"

definition unflag_play :: "play \<Rightarrow> play" where
  "unflag_play p = p\<lparr>result := unflag_result (result p)\<rparr>"

abbreviation unshield :: "('c, 't, 'x) world \<Rightarrow> ('c, 't, 'x) world" where
  "unshield w \<equiv> w\<lparr>w_shield := None\<rparr>"

definition unflag_batch :: "(slot \<times> bool \<times> segment_response) list \<Rightarrow> (slot \<times> bool \<times> segment_response) list" where
  "unflag_batch batch = map (\<lambda>(x, f, r). (x, False, r)) batch"

lemma unflag_select [simp]:
  "p_index (unflag_play p) = p_index p" "buffer (unflag_play p) = buffer p" "wall (unflag_play p) = wall p"
  "view s (unflag_play p) = view s p" "batch_size s (unflag_play p) = batch_size s p"
  by (simp_all add: unflag_play_def unflag_result_def view_def batch_size_def Let_def)

lemma unshield_swap:
  "unshield w\<lparr>w_cache := c\<rparr> = unshield (w\<lparr>w_cache := c\<rparr>)" "unshield w\<lparr>w_transport := t\<rparr> = unshield (w\<lparr>w_transport := t\<rparr>)"
  by (cases w; simp)+

lemma unflag_steps:
  "drain fetch (unflag_play p) = (unflag_play (fst (drain fetch p)), snd (drain fetch p))"
  "fill_buffer cfg d (unflag_play p) = unflag_play (fill_buffer cfg d p)"
  "start_playback cfg (unflag_play p) = unflag_play (start_playback cfg p)"
  "(unflag_play p)\<lparr>wall := v\<rparr> = unflag_play (p\<lparr>wall := v\<rparr>)"
  by (simp_all add: drain_def fill_buffer_def start_playback_def Let_def unflag_play_def unflag_result_def)

lemma unflag_settle:
  "settle cfg d fetch (unflag_play p) = (unflag_play (fst (settle cfg d fetch p)), snd (settle cfg d fetch p))"
  by (simp add: settle_def case_prod_unfold Let_def unflag_steps)

lemma unflag_notes:
  "note_bitrate b (unflag_play p) = unflag_play (note_bitrate b p)"
  "note_throughput slots fetch (unflag_play p) = unflag_play (note_throughput slots fetch p)"
  by (simp_all add: note_bitrate_def note_throughput_def Let_def unflag_play_def unflag_result_def)

lemma unflag_segment_results:
  "map unflag (segment_results i b before after reb batch) = segment_results i b before after reb (unflag_batch batch)"
  by (induction i b before after reb batch rule: segment_results.induct) (simp_all add: unflag_batch_def unflag_def)

lemma unflag_finish:
  "unflag_play (finish_batch s b batch n p) = finish_batch s b (unflag_batch batch) n (unflag_play p)"
proof -
  have b: "map fst (unflag_batch batch) = map fst batch" "map (\<lambda>x. snd (snd x)) (unflag_batch batch) = map (\<lambda>x. snd (snd x)) batch"
    by (simp_all add: unflag_batch_def case_prod_unfold)
  have c: "(unflag_play p)\<lparr>cache_hits := h\<rparr> = unflag_play (p\<lparr>cache_hits := h\<rparr>)" "cache_hits (unflag_play p) = cache_hits p" for h
    by (simp_all add: unflag_play_def)
  show ?thesis
    unfolding finish_batch_def Let_def b case_prod_unfold c unflag_settle unflag_notes
    by (simp add: unflag_notes) (simp add: unflag_play_def unflag_result_def unflag_segment_results)
qed

lemma assemble_unflag:
  "assemble proto slots flags resps = Some batch \<Longrightarrow> length (filter (\<lambda>x. \<not> slot_hit x) slots) \<le> length flags' \<Longrightarrow>
    \<exists>batch'. assemble proto slots flags' resps = Some batch' \<and> unflag_batch batch' = unflag_batch batch"
proof (induction proto slots flags resps arbitrary: batch flags' rule: assemble.induct)
  case (2 proto x xs flags resps)
  show ?case
  proof (cases "slot_hit x")
    case True
    with 2 show ?thesis by (fastforce simp: unflag_batch_def)
  next
    case False
    with 2(3,4) obtain f fs r rs f' fs' out where
      l: "flags = f # fs" "resps = r # rs" "flags' = f' # fs'" "assemble proto xs fs rs = Some out" "batch = (x, f, r) # out"
      by (cases flags; cases resps; cases flags') auto
    from 2(2) [OF False refl l(1,2) l(4), of fs'] False 2(4) l show ?thesis by (auto simp: unflag_batch_def)
  qed
qed (simp add: unflag_batch_def)

lemma fetch_misses_unshield:
  "fetch_misses C T X ctx now reqs w = (Inr (flags, resps), w') \<Longrightarrow>
    fetch_misses C T X ctx now reqs (unshield w) = (Inr (replicate (length reqs) False, resps), unshield w')"
  by (cases "w_shield w") (auto simp: fetch_misses_def split: if_splits sum.splits prod.splits)

lemma play_batch_unshield:
  assumes "play_batch A C T X ctx s w p = (None, w1, p1)" "unflag_play p = unflag_play q"
  shows "\<exists>q1. play_batch A C T X ctx s (unshield w) q = (None, unshield w1, q1) \<and> unflag_play p1 = unflag_play q1"
proof -
  obtain rep slots c1 flags resps batch where b:
    "representation_for_bitrate (s_manifest s) (d_bitrate (a_select A (view s p) (s_manifest s))) = Some rep"
    "lookup_batch C (s_content_id s) rep (wall_clock_to_time (wall p)) (p_index p) (nat (batch_size s p)) (w_cache w) = (Some slots, c1)"
    "fetch_misses C T X ctx (wall_clock_to_time (wall p)) (miss_requests rep slots) (w\<lparr>w_cache := c1\<rparr>) = (Inr (flags, resps), w1)"
    "assemble (t_protocol T) slots flags resps = Some batch" "p1 = finish_batch s (bitrate rep) batch (batch_size s p) p"
    using play_batch_Some [OF assms(1)] by blast
  have same: "view s p = view s q" "wall p = wall q" "p_index p = p_index q" "batch_size s p = batch_size s q"
    using assms(2) unflag_select by metis+
  note f = fetch_misses_unshield [OF b(3)]
  obtain batch' where b': "assemble (t_protocol T) slots (replicate (length (miss_requests rep slots)) False) resps = Some batch'"
      "unflag_batch batch' = unflag_batch batch"
    using assemble_unflag [OF b(4), of "replicate (length (miss_requests rep slots)) False"] by auto
  have "play_batch A C T X ctx s (unshield w) q = (None, unshield w1, finish_batch s (bitrate rep) batch' (batch_size s p) q)"
    using b(1,2) f b'(1) by (simp add: play_batch_def Let_def same unshield_swap)
  moreover have "unflag_play p1 = unflag_play (finish_batch s (bitrate rep) batch' (batch_size s p) q)"
    by (simp add: b(5) unflag_finish b'(2) assms(2))
  ultimately show ?thesis by blast
qed

lemma play_loop_unshield:
  "play_loop A C T X ctx s w p = (None, w', p') \<Longrightarrow> unflag_play p = unflag_play q \<Longrightarrow>
    \<exists>q'. play_loop A C T X ctx s (unshield w) q = (None, unshield w', q') \<and> unflag_play p' = unflag_play q'"
proof (induction "nat (total_segments (s_manifest s) - p_index p)" arbitrary: w p q rule: less_induct)
  case less
  have idx: "p_index p = p_index q" using less.prems(2) unflag_select(1) by metis
  show ?case
  proof (cases "p_index p < total_segments (s_manifest s)")
    case True
    obtain w1 p1 where b: "play_batch A C T X ctx s w p = (None, w1, p1)" "play_loop A C T X ctx s w1 p1 = (None, w', p')"
      using less.prems(1) True by (subst (asm) play_loop.simps) (auto split: prod.splits option.splits)
    from play_batch_unshield [OF b(1) less.prems(2)] obtain q1 where
      q1: "play_batch A C T X ctx s (unshield w) q = (None, unshield w1, q1)" "unflag_play p1 = unflag_play q1" by blast
    from less.hyps [OF play_batch_decreases [OF True b(1) [symmetric]] b(2) q1(2)] q1(1) True idx show ?thesis
      by (subst play_loop.simps) simp
  next
    case False
    with less.prems idx show ?thesis by (subst (asm) play_loop.simps, subst play_loop.simps) auto
  qed
qed

text \<open>C37: The shield does not change a session. The report of a session with a shield is the report of the same
  session without one, except for the flags that say which segments the shield had; the edge cache and
  the transport end in the same states. The latency of the shield never reaches the player, whether
  it hits or fetches from the origin.\<close>

theorem shield_only_sets_flags:
  assumes "run_playback A C T X ctx s w = (r, None, w')"
  shows "\<exists>r'. run_playback A C T X ctx s (unshield w) = (r', None, unshield w') \<and> unflag_result r' = unflag_result r"
proof -
  let ?s = "defaulted s"
  obtain hs t p where l: "t_handshake T ctx False (w_transport w) = (Inr hs, t)"
    "play_loop A C T X ctx ?s (w\<lparr>w_transport := t\<rparr>) (initial_play hs (initial_result ?s (t_protocol T) (a_name A))) = (None, w', p)"
    and r: "r = final_result p"
    using run_playback_Some [OF assms] by blast
  from play_loop_unshield [OF l(2) refl] obtain q where
    q: "play_loop A C T X ctx ?s (unshield (w\<lparr>w_transport := t\<rparr>)) (initial_play hs (initial_result ?s (t_protocol T) (a_name A)))
      = (None, unshield w', q)" "unflag_play p = unflag_play q" by blast
  have f: "unflag_result (final_result p) = final_result (unflag_play p)" for p
  proof -
    have "foldl (\<lambda>a x. fadd a (i2f (sr_bitrate x))) z (map unflag xs) = foldl (\<lambda>a x. fadd a (i2f (sr_bitrate x))) z xs" for z xs
      by (induction xs arbitrary: z) (simp_all add: unflag_def)
    then show ?thesis by (simp add: final_result_def Let_def unflag_play_def unflag_result_def)
  qed
  from q l(1) have "run_playback A C T X ctx s (unshield w) = (final_result q, None, unshield w')"
    by (simp add: run_playback_def Let_def unshield_swap)
  with f [of p] f [of q] q(2) r show ?thesis by simp
qed

theorem shield_only_sets_flags_witness:
  "\<exists>r w' r'. run_playback demo_abr lru_ops (tcp_ops flat_libm lcg) (shield_fetch lru_ops (tcp_ops flat_libm lcg) 1) None
     demo_session demo_world = (r, None, w') \<and>
   run_playback demo_abr lru_ops (tcp_ops flat_libm lcg) (shield_fetch lru_ops (tcp_ops flat_libm lcg) 1) None
     demo_session (unshield demo_world) = (r', None, unshield w') \<and> unflag_result r' = unflag_result r"
proof -
  obtain r w' where run: "run_playback demo_abr lru_ops (tcp_ops flat_libm lcg)
      (shield_fetch lru_ops (tcp_ops flat_libm lcg) 1) None demo_session demo_world = (r, None, w')"
    using demo_run by blast
  from shield_only_sets_flags [OF run] run show ?thesis by blast
qed

end
