(* ===== verification/Routing.thy ===== *)
theory Routing
  imports Transport
begin

text \<open>
  \<open>internal/routing\<close>: the great-circle estimate of a round trip and the four policies that map a client
  to an edge, with the loop of \<open>internal/experiment/runner.go\<close> that routes the clients of a run and counts
  the load of each edge. The interface \<open>RoutingPolicy\<close> is the locale \<open>policy_iface\<close>.
\<close>

section \<open>Clients, edges, distances\<close>

record client_info =
  client_id :: string
  client_geo :: string
  client_lat :: real
  client_lon :: real

record edge_pop =
  edge_id :: string
  geo_tag :: string
  edge_lat :: real
  edge_lon :: real
  capacity :: int
  current_load :: int
  network_to_origin :: network_profile
  client_profile :: network_profile

text \<open>\<open>math.Pi\<close> as a \<open>float64\<close>, and \<open>math.MaxFloat64\<close>.\<close>

definition pi_float :: real where "pi_float = 884279719003555 / 281474976710656"
definition max_float64 :: real where "max_float64 = of_int ((2 ^ 53 - 1) * 2 ^ 971)"

definition to_rad :: "real \<Rightarrow> real" where
  "to_rad deg = fdiv (fmul deg pi_float) 180"

text \<open>\<open>None\<close> is NaN: rounding, or a latitude beyond the poles, can make \<open>a\<close> leave the unit interval, and
  one of the two square roots is then not a number.\<close>

definition haversine_km :: "libm \<Rightarrow> real \<Rightarrow> real \<Rightarrow> real \<Rightarrow> real \<Rightarrow> real option" where
  "haversine_km M lat1 lon1 lat2 lon2 = (let
       d_lat = to_rad (fsub lat2 lat1);
       d_lon = to_rad (fsub lon2 lon1);
       s1 = m_sin M (fdiv d_lat 2);
       s2 = m_sin M (fdiv d_lon 2);
       a = fadd (fmul s1 s1) (fmul (fmul (fmul (m_cos M (to_rad lat1)) (m_cos M (to_rad lat2))) s2) s2)
     in if a < 0 \<or> 1 < a then None
        else Some (fmul 6371 (fmul 2 (m_atan2 M (fsqrt a) (fsqrt (fsub 1 a))))))"

definition estimate_rtt_ms :: "real \<Rightarrow> real" where
  "estimate_rtt_ms km = fmul (fmul (fmul km (fl (5 / 1000))) 2) 2"

definition edge_rtt :: "libm \<Rightarrow> client_info \<Rightarrow> edge_pop \<Rightarrow> real option" where
  "edge_rtt M c e = map_option estimate_rtt_ms (haversine_km M (client_lat c) (client_lon c) (edge_lat e) (edge_lon e))"

section \<open>The policies\<close>

definition no_edge_error :: string where "no_edge_error = ''no edge PoP available''"

definition full :: "edge_pop \<Rightarrow> bool" where
  "full e \<longleftrightarrow> capacity e > 0 \<and> current_load e \<ge> capacity e"

text \<open>The search for the smallest round trip among the edges that \<open>skip\<close> does not exclude; an edge whose
  estimate is NaN compares false and is never taken.\<close>

fun best_edge :: "(edge_pop \<Rightarrow> bool) \<Rightarrow> (edge_pop \<Rightarrow> real option) \<Rightarrow> real \<Rightarrow> edge_pop option \<Rightarrow> edge_pop list \<Rightarrow> edge_pop option" where
  "best_edge skip rtt best_rtt best [] = best"
| "best_edge skip rtt best_rtt best (e # es) = (if skip e then best_edge skip rtt best_rtt best es
     else case rtt e of
         None \<Rightarrow> best_edge skip rtt best_rtt best es
       | Some r \<Rightarrow> if r < best_rtt then best_edge skip rtt r (Some e) es else best_edge skip rtt best_rtt best es)"

definition or_no_edge :: "edge_pop option \<Rightarrow> string + edge_pop" where
  "or_no_edge best = (case best of None \<Rightarrow> Inl no_edge_error | Some e \<Rightarrow> Inr e)"

definition latency_route :: "libm \<Rightarrow> client_info \<Rightarrow> edge_pop list \<Rightarrow> 'g \<Rightarrow> (string + edge_pop) \<times> 'g" where
  "latency_route M c edges g = (or_no_edge (best_edge full (edge_rtt M c) max_float64 None edges), g)"

definition geo_route :: "libm \<Rightarrow> client_info \<Rightarrow> edge_pop list \<Rightarrow> 'g \<Rightarrow> (string + edge_pop) \<times> 'g" where
  "geo_route M c edges g = (case find (\<lambda>e. geo_tag e = client_geo c \<and> (capacity e \<le> 0 \<or> current_load e < capacity e)) edges of
     Some e \<Rightarrow> (Inr e, g) | None \<Rightarrow> latency_route M c edges g)"

definition bgp_route :: "libm \<Rightarrow> 'g rand_ops \<Rightarrow> real \<Rightarrow> client_info \<Rightarrow> edge_pop list \<Rightarrow> 'g \<Rightarrow> (string + edge_pop) \<times> 'g" where
  "bgp_route M R misroute c edges g = (case latency_route M c edges g of
     (Inl e, g0) \<Rightarrow> (Inl e, g0)
   | (Inr optimal, g0) \<Rightarrow> (let (u, g1) = r_float64 R g0 in
       if u \<ge> misroute then (Inr optimal, g1)
       else let alts = filter (\<lambda>e. edge_id e \<noteq> edge_id optimal \<and> (capacity e \<le> 0 \<or> current_load e < capacity e)) edges
         in if alts = [] then (Inr optimal, g1)
            else let (i, g2) = r_intn R (int (length alts)) g1 in (Inr (alts ! nat i), g2)))"

definition weight :: "edge_pop \<Rightarrow> real" where
  "weight e = (if capacity e \<le> 0 \<or> current_load e \<ge> capacity e then 0
     else fdiv (i2f (capacity e - current_load e)) (i2f (capacity e)))"

definition total_weight :: "edge_pop list \<Rightarrow> real" where
  "total_weight edges = foldl (\<lambda>t e. if capacity e \<le> 0 \<or> current_load e \<ge> capacity e then t else fadd t (weight e)) 0 edges"

fun pick :: "real \<Rightarrow> real \<Rightarrow> edge_pop list \<Rightarrow> edge_pop option" where
  "pick r cum [] = None"
| "pick r cum (e # es) = (let cum' = fadd cum (weight e) in if r \<le> cum' then Some e else pick r cum' es)"

definition weighted_route :: "libm \<Rightarrow> 'g rand_ops \<Rightarrow> client_info \<Rightarrow> edge_pop list \<Rightarrow> 'g \<Rightarrow> (string + edge_pop) \<times> 'g" where
  "weighted_route M R c edges g = (if total_weight edges = 0 then (Inl no_edge_error, g) else
     let (u, g1) = r_float64 R g;
         r = fmul u (total_weight edges)
     in case pick r 0 edges of
         Some e \<Rightarrow> (Inr e, g1)
       | None \<Rightarrow> (or_no_edge (best_edge (\<lambda>e. weight e = 0) (edge_rtt M c) max_float64 None edges), g1))"

section \<open>The nearest edge\<close>

lemma best_edge_spec:
  "(\<forall>e\<in>set es. \<forall>r. rtt e = Some r \<longrightarrow> \<not> skip e \<longrightarrow> r < m) \<Longrightarrow>
   (case best of None \<Rightarrow> b = m | Some e0 \<Rightarrow> rtt e0 = Some b) \<Longrightarrow>
   (case best_edge skip rtt b best es of
      None \<Rightarrow> best = None \<and> (\<forall>e\<in>set es. skip e \<or> rtt e = None)
    | Some e \<Rightarrow> (best = Some e \<or> e \<in> set es \<and> \<not> skip e) \<and> (\<exists>r. rtt e = Some r \<and> r \<le> b
        \<and> (\<forall>e'\<in>set es. \<forall>r'. \<not> skip e' \<longrightarrow> rtt e' = Some r' \<longrightarrow> r \<le> r')))"
proof (induction skip rtt b best es rule: best_edge.induct)
  case (1 skip rtt b best)
  then show ?case by (cases best) auto
next
  case (2 skip rtt b best e es)
  have tl: "\<forall>e\<in>set es. \<forall>r. rtt e = Some r \<longrightarrow> \<not> skip e \<longrightarrow> r < m" using "2.prems"(1) by simp
  show ?case
  proof (cases "skip e \<or> rtt e = None")
    case True
    with "2.IH"(1,2) tl "2.prems"(2) have "case best_edge skip rtt b best es of
        None \<Rightarrow> best = None \<and> (\<forall>e\<in>set es. skip e \<or> rtt e = None)
      | Some x \<Rightarrow> (best = Some x \<or> x \<in> set es \<and> \<not> skip x) \<and> (\<exists>r. rtt x = Some r \<and> r \<le> b
          \<and> (\<forall>e'\<in>set es. \<forall>r'. \<not> skip e' \<longrightarrow> rtt e' = Some r' \<longrightarrow> r \<le> r'))"
      by (cases "skip e") auto
    moreover have "best_edge skip rtt b best (e # es) = best_edge skip rtt b best es" using True by auto
    ultimately show ?thesis using True by (fastforce split: option.splits)
  next
    case False
    then obtain r where r: "\<not> skip e" "rtt e = Some r" by auto
    show ?thesis
    proof (cases "r < b")
      case True
      with "2.IH"(3) [OF r True tl] r have "case best_edge skip rtt r (Some e) es of
          None \<Rightarrow> False
        | Some x \<Rightarrow> (x = e \<or> x \<in> set es \<and> \<not> skip x) \<and> (\<exists>q. rtt x = Some q \<and> q \<le> r
            \<and> (\<forall>e'\<in>set es. \<forall>r'. \<not> skip e' \<longrightarrow> rtt e' = Some r' \<longrightarrow> q \<le> r'))"
        by (auto split: option.splits)
      then show ?thesis using True r by (fastforce split: option.splits)
    next
      case False
      then have "best \<noteq> None" using "2.prems" r by (cases best) auto
      with "2.IH"(4) [OF r False tl "2.prems"(2)] r False show ?thesis by (fastforce split: option.splits)
    qed
  qed
qed

text \<open>What \<open>math.Atan2\<close> promises: an angle between -pi and pi.\<close>

definition trig_ok :: "libm \<Rightarrow> bool" where
  "trig_ok M \<longleftrightarrow> (\<forall>y x. m_atan2 M y x \<le> 4)"

lemma edge_rtt_below_max:
  assumes "trig_ok M" "edge_rtt M c e = Some r"
  shows "r < max_float64"
proof -
  obtain t where t: "t \<le> 4" "r = estimate_rtt_ms (fmul 6371 (fmul 2 t))"
    using assms by (auto simp: edge_rtt_def haversine_km_def Let_def trig_ok_def split: if_splits)
  have "fmul 2 t \<le> of_int 8" unfolding fmul_def using t(1) by (intro fl_le_int) simp_all
  then have km: "fmul 6371 (fmul 2 t) \<le> of_int 50968" unfolding fmul_def [of 6371] by (intro fl_le_int) simp_all
  have "fl (5 / 1000) \<le> of_int 1" by (intro fl_le_int) simp_all
  then have c: "0 \<le> fl (5 / 1000)" "fl (5 / 1000) \<le> 1" by (simp_all add: fl_nonneg)
  have "x * fl (5 / 1000) \<le> of_int 50968" if "x \<le> of_int 50968" for x
  proof (cases "0 \<le> x")
    case True
    have "x * fl (5 / 1000) \<le> x * 1" using True c by (intro mult_left_mono) simp_all
    with that show ?thesis by simp
  next
    case False
    then have "x * fl (5 / 1000) \<le> 0" using c(1) by (simp add: mult_nonpos_nonneg)
    then show ?thesis by simp
  qed
  with km have a: "fmul (fmul 6371 (fmul 2 t)) (fl (5 / 1000)) \<le> of_int 50968"
    unfolding fmul_def [of _ "fl (5 / 1000)"] by (intro fl_le_int) simp_all
  then have b: "fmul (fmul (fmul 6371 (fmul 2 t)) (fl (5 / 1000))) 2 \<le> of_int 101936"
    unfolding fmul_def [of _ 2] by (intro fl_le_int) simp_all
  then have "r \<le> of_int 203872" unfolding t(2) estimate_rtt_ms_def fmul_def [of "fmul _ 2"] by (intro fl_le_int) simp_all
  moreover have "(203872 :: int) < (2 ^ 53 - 1) * 2 ^ 971" by simp
  then have "(203872 :: real) < max_float64" unfolding max_float64_def by linarith
  ultimately show ?thesis by simp
qed

lemma latency_spec:
  assumes "trig_ok M"
  shows "case fst (latency_route M c edges g) of
      Inr e \<Rightarrow> e \<in> set edges \<and> \<not> full e \<and> (\<exists>r. edge_rtt M c e = Some r
        \<and> (\<forall>e'\<in>set edges. \<forall>r'. \<not> full e' \<longrightarrow> edge_rtt M c e' = Some r' \<longrightarrow> r \<le> r'))
    | Inl msg \<Rightarrow> msg = no_edge_error \<and> (\<forall>e\<in>set edges. full e \<or> edge_rtt M c e = None)"
  using best_edge_spec [where es = edges and rtt = "edge_rtt M c" and skip = full and m = max_float64
      and best = None and b = max_float64] edge_rtt_below_max [OF assms]
  by (auto simp: latency_route_def or_no_edge_def split: option.splits)

text \<open>Latency routing. The latency policy returns an edge of the list that has room and whose estimated round
  trip is the smallest among the edges with room; it fails only when every edge is full, or has a distance that is
  not a number.\<close>

lemma latency_picks_nearest:
  assumes "trig_ok M"
  shows "(\<forall>e. fst (latency_route M c edges g) = Inr e \<longrightarrow> e \<in> set edges \<and> \<not> full e
      \<and> (\<exists>r. edge_rtt M c e = Some r \<and> (\<forall>e'\<in>set edges. \<forall>r'. \<not> full e' \<longrightarrow> edge_rtt M c e' = Some r' \<longrightarrow> r \<le> r')))
    \<and> ((\<exists>msg. fst (latency_route M c edges g) = Inl msg) \<longleftrightarrow> (\<forall>e\<in>set edges. full e \<or> edge_rtt M c e = None))"
  using latency_spec [OF assms, of edges c g] by (cases "fst (latency_route M c edges g)") auto

definition demo_edge :: "string \<Rightarrow> int \<Rightarrow> int \<Rightarrow> edge_pop" where
  "demo_edge i cap load = \<lparr>edge_id = i, geo_tag = i, edge_lat = 0, edge_lon = 0, capacity = cap, current_load = load,
     network_to_origin = \<lparr>base_rtt_ms = 10, profile_mbps = 10, loss_cfg = demo_loss, jitter_ms = 0\<rparr>,
     client_profile = \<lparr>base_rtt_ms = 10, profile_mbps = 10, loss_cfg = demo_loss, jitter_ms = 0\<rparr>\<rparr>"

definition demo_client :: "string \<Rightarrow> client_info" where
  "demo_client i = \<lparr>client_id = i, client_geo = i, client_lat = 1, client_lon = 2\<rparr>"

lemma flat_trig_ok: "trig_ok flat_libm"
  by (simp add: trig_ok_def flat_libm_def)

lemma flat_rtt: "edge_rtt flat_libm c e = Some 0"
  by (simp add: edge_rtt_def haversine_km_def Let_def flat_libm_def fmul_def fdiv_def fadd_def estimate_rtt_ms_def)

section \<open>The weighted policy\<close>

lemma weight_pos: "0 < capacity e \<Longrightarrow> current_load e < capacity e \<Longrightarrow> 0 < weight e"
  by (simp add: weight_def fdiv_def fl_pos i2f_pos)

lemma weight_zero: "\<not> (0 < capacity e \<and> current_load e < capacity e) \<Longrightarrow> weight e = 0"
  by (auto simp: weight_def)

lemma weight_nonneg: "0 \<le> weight e"
  using weight_pos [of e] weight_zero [of e] by (cases "0 < capacity e \<and> current_load e < capacity e") auto

text \<open>Both loops add the same weights in the same order, so the last sum of the pick is the total.\<close>

definition cumulative :: "real \<Rightarrow> edge_pop list \<Rightarrow> real" where
  "cumulative = foldl (\<lambda>t e. fadd t (weight e))"

lemma fadd_0_rep [simp]: "float_rep t \<Longrightarrow> fadd t 0 = t"
  by (simp add: fadd_def fl_exact)

lemma float_rep_0 [simp]: "float_rep 0"
  using float_rep_fl [of 0] by simp

lemma total_cumulative_aux:
  "float_rep t \<Longrightarrow> foldl (\<lambda>t e. if capacity e \<le> 0 \<or> current_load e \<ge> capacity e then t else fadd t (weight e)) t es = cumulative t es"
proof (induction es arbitrary: t)
  case (Cons e es)
  have "float_rep (fadd t (weight e))" by (simp add: fadd_def float_rep_fl)
  moreover have "capacity e \<le> 0 \<or> current_load e \<ge> capacity e \<Longrightarrow> weight e = 0" by (auto simp: weight_def)
  ultimately show ?case using Cons by (auto simp: cumulative_def)
qed (simp add: cumulative_def)

lemma total_cumulative: "total_weight es = cumulative 0 es"
  unfolding total_weight_def by (rule total_cumulative_aux) simp

lemma cumulative_ge: "float_rep t \<Longrightarrow> t \<le> cumulative t es"
proof (induction es arbitrary: t)
  case (Cons e es)
  have "t \<le> fadd t (weight e)" unfolding fadd_def by (rule fl_ge_rep) (use Cons.prems weight_nonneg in simp_all)
  with Cons.IH [of "fadd t (weight e)"] show ?case by (simp add: cumulative_def fadd_def float_rep_fl)
qed (simp add: cumulative_def)

lemma cumulative_pos:
  assumes "float_rep t" "0 \<le> t" "e \<in> set es" "0 < capacity e" "current_load e < capacity e"
  shows "0 < cumulative t es"
  using assms(1,2,3)
proof (induction es arbitrary: t)
  case (Cons x xs)
  have rep: "float_rep (fadd t (weight x))" by (simp add: fadd_def float_rep_fl)
  have nn: "0 \<le> fadd t (weight x)" using Cons.prems(2) weight_nonneg by (simp add: fadd_nonneg)
  show ?case
  proof (cases "e = x")
    case True
    then have "0 < fadd t (weight x)" unfolding fadd_def using weight_pos [OF assms(4,5)] Cons.prems(2) by (intro fl_pos) simp
    also have "\<dots> \<le> cumulative (fadd t (weight x)) xs" by (rule cumulative_ge [OF rep])
    finally show ?thesis by (simp add: cumulative_def)
  next
    case False
    with Cons.IH [OF rep nn] Cons.prems(3) show ?thesis by (simp add: cumulative_def)
  qed
qed simp

lemma cumulative_zero:
  "float_rep t \<Longrightarrow> \<forall>e\<in>set es. \<not> (0 < capacity e \<and> current_load e < capacity e) \<Longrightarrow> cumulative t es = t"
  by (induction es) (simp_all add: cumulative_def weight_zero)

lemma pick_found: "float_rep c \<Longrightarrow> r \<le> cumulative c es \<Longrightarrow> c < r \<Longrightarrow> \<exists>e. pick r c es = Some e \<and> e \<in> set es \<and> 0 < weight e"
proof (induction es arbitrary: c)
  case (Cons e es)
  show ?case
  proof (cases "r \<le> fadd c (weight e)")
    case True
    with Cons.prems(3) have "\<not> fadd c (weight e) \<le> c" by simp
    then have "weight e \<noteq> 0" using fadd_0_rep [OF Cons.prems(1)] by auto
    with True weight_nonneg [of e] show ?thesis by (simp add: less_le)
  next
    case False
    with Cons.IH [of "fadd c (weight e)"] Cons.prems(2) show ?thesis
      by (auto simp: cumulative_def) (auto simp: fadd_def float_rep_fl)
  qed
qed (simp add: cumulative_def)

lemma float_rep_cumulative: "float_rep t \<Longrightarrow> float_rep (cumulative t es)"
  by (induction es arbitrary: t) (simp_all add: cumulative_def fadd_def float_rep_fl)

lemma total_weight_zero:
  "total_weight es = 0 \<longleftrightarrow> (\<forall>e\<in>set es. \<not> (0 < capacity e \<and> current_load e < capacity e))"
  using cumulative_zero [of 0 es] cumulative_pos [of 0 _ es] by (force simp: total_cumulative)

lemma weighted_spec:
  assumes "rand_ok R"
  shows "case fst (weighted_route M R c edges g) of
      Inl msg \<Rightarrow> msg = no_edge_error \<and> total_weight edges = 0
    | Inr e \<Rightarrow> e \<in> set edges \<and> total_weight edges \<noteq> 0 \<and> (if fst (r_float64 R g) = 0 then e = hd edges
        else 0 < capacity e \<and> current_load e < capacity e)"
proof (cases "total_weight edges = 0")
  case False
  define u where "u = fst (r_float64 R g)"
  define r where "r = fmul u (total_weight edges)"
  have u: "0 \<le> u" "u < 1" using assms by (simp_all add: u_def rand_ok_def)
  have "0 \<le> total_weight edges" unfolding total_cumulative by (rule cumulative_ge) simp
  with False have pos: "0 < total_weight edges" by simp
  have "\<exists>e. pick r 0 edges = Some e \<and> e \<in> set edges \<and> (if u = 0 then e = hd edges else 0 < weight e)"
  proof (cases "u = 0")
    case True
    obtain e es where "edges = e # es" using False by (cases edges) (simp_all add: total_weight_def)
    moreover have "0 \<le> fadd 0 (weight e)" using weight_nonneg by (simp add: fadd_nonneg)
    ultimately show ?thesis using True by (simp add: r_def fmul_def)
  next
    case False
    with u pos have "0 < r" by (simp add: r_def fmul_def fl_pos)
    moreover have "r \<le> cumulative 0 edges"
      unfolding r_def fmul_def total_cumulative
      using u(2) pos by (intro fl_le_rep float_rep_cumulative) (simp_all add: total_cumulative)
    ultimately show ?thesis using pick_found [of 0 r edges] False by auto
  qed
  then obtain e where "pick r 0 edges = Some e" "e \<in> set edges" "if u = 0 then e = hd edges else 0 < weight e" by blast
  moreover have "0 < weight e \<Longrightarrow> 0 < capacity e \<and> current_load e < capacity e" using weight_zero [of e] by force
  ultimately show ?thesis using False by (simp add: weighted_route_def Let_def case_prod_unfold u_def [symmetric] r_def [symmetric])
qed (simp add: weighted_route_def)

text \<open>Weighted routing. The weighted policy fails exactly when no edge has a positive capacity and room, so an
  edge of unlimited capacity counts as full; otherwise it returns an edge of the list, the fallback after the loop is
  never reached, and the edge has room unless the draw is exactly zero: then the first edge is taken, full or not.\<close>

lemma weighted_picks_room:
  assumes "rand_ok R"
  shows "((\<exists>msg. fst (weighted_route M R c edges g) = Inl msg) \<longleftrightarrow>
        (\<forall>e\<in>set edges. \<not> (0 < capacity e \<and> current_load e < capacity e)))
    \<and> (\<forall>e. fst (weighted_route M R c edges g) = Inr e \<longrightarrow> e \<in> set edges \<and>
        (0 < fst (r_float64 R g) \<longrightarrow> 0 < capacity e \<and> current_load e < capacity e))
    \<and> (fst (r_float64 R g) = 0 \<and> total_weight edges \<noteq> 0 \<longrightarrow> fst (weighted_route M R c edges g) = Inr (hd edges))"
  using weighted_spec [OF assms, where M = M and c = c and edges = edges and g = g] total_weight_zero [of edges]
  by (cases "fst (weighted_route M R c edges g)") (auto split: if_splits)

section \<open>The interface and the load of a run\<close>

text \<open>\<open>CurrentLoad++\<close> on the first edge with the identifier.\<close>

fun add_load :: "string \<Rightarrow> edge_pop list \<Rightarrow> edge_pop list" where
  "add_load i [] = []"
| "add_load i (e # es) = (if edge_id e = i then e\<lparr>current_load := current_load e + 1\<rparr> # es else e # add_load i es)"

text \<open>The clients of a run, each routed with its own generator on the loads the earlier ones left.\<close>

fun route_clients :: "(client_info \<Rightarrow> edge_pop list \<Rightarrow> 'g \<Rightarrow> (string + edge_pop) \<times> 'g) \<Rightarrow> (client_info \<Rightarrow> 'g) \<Rightarrow>
    client_info list \<Rightarrow> edge_pop list \<Rightarrow> string + string list \<times> edge_pop list" where
  "route_clients route seed [] edges = Inr ([], edges)"
| "route_clients route seed (c # cs) edges = (case fst (route c edges (seed c)) of
     Inl e \<Rightarrow> Inl e
   | Inr edge \<Rightarrow> (case route_clients route seed cs (add_load (edge_id edge) edges) of
       Inl e \<Rightarrow> Inl e | Inr (taken, edges') \<Rightarrow> Inr (edge_id edge # taken, edges')))"

definition loads_ok :: "edge_pop list \<Rightarrow> bool" where
  "loads_ok es \<longleftrightarrow> distinct (map edge_id es) \<and> (\<forall>e\<in>set es. 0 < capacity e \<longrightarrow> current_load e \<le> capacity e)"

lemma add_load_frame [simp]:
  "map edge_id (add_load i es) = map edge_id es" "map capacity (add_load i es) = map capacity es"
  "edge_id ` set (add_load i es) = edge_id ` set es"
  by (induction es) auto

lemma add_load_sum: "i \<in> edge_id ` set es \<Longrightarrow> sum_list (map current_load (add_load i es)) = sum_list (map current_load es) + 1"
  by (induction es) auto

lemma add_load_ok:
  assumes "loads_ok es" "e \<in> set es" "0 < capacity e \<longrightarrow> current_load e < capacity e"
  shows "loads_ok (add_load (edge_id e) es)"
proof -
  have "distinct (map edge_id es) \<Longrightarrow> e \<in> set es \<Longrightarrow> \<forall>x\<in>set es. 0 < capacity x \<longrightarrow> current_load x \<le> capacity x \<Longrightarrow>
      \<forall>x\<in>set (add_load (edge_id e) es). 0 < capacity x \<longrightarrow> current_load x \<le> capacity x"
    using assms(3) by (induction es) (auto simp: image_iff)
  with assms show ?thesis by (simp add: loads_ok_def)
qed

locale policy_iface =
  fixes route :: "client_info \<Rightarrow> edge_pop list \<Rightarrow> 'g \<Rightarrow> (string + edge_pop) \<times> 'g"
  assumes route_room: "fst (route c edges g) = Inr e \<Longrightarrow> e \<in> set edges \<and> (0 < capacity e \<longrightarrow> current_load e < capacity e)"
begin

lemma route_clients_loads:
  "loads_ok es \<Longrightarrow> route_clients route seed cs es = Inr (taken, es') \<Longrightarrow>
    loads_ok es' \<and> map edge_id es' = map edge_id es \<and> map capacity es' = map capacity es \<and> length taken = length cs
    \<and> set taken \<subseteq> edge_id ` set es \<and> sum_list (map current_load es') = sum_list (map current_load es) + int (length cs)"
proof (induction cs arbitrary: es taken)
  case (Cons c cs)
  obtain e where e: "fst (route c es (seed c)) = Inr e" using Cons.prems(2) by (auto split: sum.splits)
  obtain taken' where r: "route_clients route seed cs (add_load (edge_id e) es) = Inr (taken', es')" "taken = edge_id e # taken'"
    using Cons.prems(2) e by (auto split: sum.splits)
  note room = route_room [OF e]
  have "edge_id e \<in> edge_id ` set es" using room by blast
  with Cons.IH [OF add_load_ok [OF Cons.prems(1)] r(1)] room r(2) show ?case by (auto simp: add_load_sum)
qed simp

lemma run_fits:
  assumes "loads_ok es" "\<forall>e\<in>set es. 0 < capacity e" "route_clients route seed cs es = Inr (taken, es')"
  shows "sum_list (map current_load es) + int (length cs) \<le> sum_list (map capacity es)"
proof -
  note r = route_clients_loads [OF assms(1,3)]
  have "\<forall>e\<in>set es'. 0 < capacity e" using assms(2) r by (metis image_iff list.set_map)
  then have "sum_list (map current_load es') \<le> sum_list (map capacity es')"
    using r by (intro sum_list_mono) (auto simp: loads_ok_def)
  with r show ?thesis by simp
qed

end

lemma latency_room:
  "fst (latency_route M c edges g) = Inr e \<Longrightarrow> e \<in> set edges \<and> (0 < capacity e \<longrightarrow> current_load e < capacity e)"
proof -
  have "best_edge skip rtt b best es = Some e \<Longrightarrow> best = Some e \<or> e \<in> set es \<and> \<not> skip e" for skip rtt b best es
    by (induction skip rtt b best es rule: best_edge.induct) (auto split: if_splits option.splits)
  from this [of full _ _ None] show "fst (latency_route M c edges g) = Inr e \<Longrightarrow> e \<in> set edges \<and> (0 < capacity e \<longrightarrow> current_load e < capacity e)"
    by (force simp: latency_route_def or_no_edge_def full_def split: option.splits)
qed

interpretation latency: policy_iface "latency_route M" for M
  by unfold_locales (rule latency_room)

lemma geo_room:
  "fst (geo_route M c edges g) = Inr e \<Longrightarrow> e \<in> set edges \<and> (0 < capacity e \<longrightarrow> current_load e < capacity e)"
  using find_Some_mem [of "\<lambda>e. geo_tag e = client_geo c \<and> (capacity e \<le> 0 \<or> current_load e < capacity e)" edges e]
    latency_room [of M c edges g e]
  by (auto simp: geo_route_def split: option.splits)

interpretation geo: policy_iface "geo_route M" for M
  by unfold_locales (rule geo_room)

lemma bgp_room:
  assumes "rand_ok R" "fst (bgp_route M R p c edges g) = Inr e"
  shows "e \<in> set edges \<and> (0 < capacity e \<longrightarrow> current_load e < capacity e)"
proof -
  obtain opt g0 where o: "latency_route M c edges g = (Inr opt, g0)"
    using assms(2) by (cases "latency_route M c edges g") (auto simp: bgp_route_def split: sum.splits)
  note opt = latency_room [of M c edges g opt]
  let ?alts = "filter (\<lambda>e. edge_id e \<noteq> edge_id opt \<and> (capacity e \<le> 0 \<or> current_load e < capacity e)) edges"
  let ?i = "fst (r_intn R (int (length ?alts)) (snd (r_float64 R g0)))"
  have "?alts ! nat ?i \<in> set ?alts" if "?alts \<noteq> []"
  proof (rule nth_mem)
    have "0 < int (length ?alts)" using that by simp
    then have "0 \<le> ?i \<and> ?i < int (length ?alts)" using assms(1) unfolding rand_ok_def by blast
    then show "nat ?i < length ?alts" by linarith
  qed
  moreover have "e = opt \<or> ?alts \<noteq> [] \<and> e = ?alts ! nat ?i"
    using assms(2) o by (simp add: bgp_route_def case_prod_unfold Let_def split: if_splits)
  moreover have "opt \<in> set edges \<and> (0 < capacity opt \<longrightarrow> current_load opt < capacity opt)"
    using opt o by simp
  ultimately show ?thesis by (auto simp: not_le)
qed

lemma bgp_policy: "rand_ok R \<Longrightarrow> policy_iface (bgp_route M R p)"
  by unfold_locales (rule bgp_room)


text \<open>A run never overloads an edge. Under the latency, the geographic and the BGP policy, routing the clients of a
  run one after the other and counting each on the edge it got keeps every load within its edge's capacity and counts
  each client once; so when all capacities are bounded, a run with more clients than room fails. Edges are told apart by
  their identifiers.\<close>

lemma run_never_overloads:
  assumes "rand_ok R" "loads_ok es" "route \<in> {latency_route M, geo_route M, bgp_route M R p}"
    and "route_clients route seed cs es = Inr (taken, es')"
  shows "loads_ok es' \<and> length taken = length cs \<and> set taken \<subseteq> edge_id ` set es
    \<and> sum_list (map current_load es') = sum_list (map current_load es) + int (length cs)
    \<and> ((\<forall>e\<in>set es. 0 < capacity e) \<longrightarrow> sum_list (map current_load es) + int (length cs) \<le> sum_list (map capacity es))"
proof -
  have "policy_iface route"
    using assms(3) latency.policy_iface_axioms geo.policy_iface_axioms bgp_policy [OF assms(1)] by auto
  from policy_iface.route_clients_loads [OF this assms(2,4)] policy_iface.run_fits [OF this assms(2) _ assms(4)]
  show ?thesis by blast
qed

end
