(* ===== verification/Serverapi.thy ===== *)
theory Serverapi
  imports Rand GoStrings "HOL-Library.Word"
begin

text \<open>
  \<open>internal/serverapi/payload.go\<close> and the handlers of \<open>cmd/origin-server/main.go\<close>: the URL paths of segments
  and manifests, the deterministic payloads, and the replies of the origin. The digest of \<open>crypto/sha256\<close> (its
  first eight bytes, big endian), \<open>rand.NewSource\<close> and \<open>Rand.Uint64\<close> are parameters.
\<close>

unbundle bit_operations_syntax

section \<open>Paths\<close>

datatype path_error = Not_segment_path string | Malformed_path string | Bad_index string | Bad_bitrate string
  | Not_manifest_path string

definition path_segment_prefix :: string where "path_segment_prefix = ''/segment/''"
definition path_manifest_prefix :: string where "path_manifest_prefix = ''/manifest/''"

definition segment_path :: "string \<Rightarrow> int \<Rightarrow> int \<Rightarrow> string" where
  "segment_path cid idx b = path_segment_prefix @ cid @ CHR ''/'' # itoa idx @ CHR ''/'' # itoa b"

definition parse_segment_path :: "string \<Rightarrow> path_error + string \<times> int \<times> int" where
  "parse_segment_path path = (
     if \<not> has_prefix path path_segment_prefix then Inl (Not_segment_path path)
     else let parts = split_on (CHR ''/'') (trim_prefix path path_segment_prefix) in
       if length parts \<noteq> 3 then Inl (Malformed_path path)
       else case atoi (parts ! 1) of
           None \<Rightarrow> Inl (Bad_index (parts ! 1))
         | Some idx \<Rightarrow> (case atoi (parts ! 2) of
               None \<Rightarrow> Inl (Bad_bitrate (parts ! 2))
             | Some br \<Rightarrow> Inr (parts ! 0, idx, br)))"

definition manifest_path :: "string \<Rightarrow> string" where
  "manifest_path cid = path_manifest_prefix @ cid"

definition parse_manifest_path :: "string \<Rightarrow> path_error + string" where
  "parse_manifest_path path = (if \<not> has_prefix path path_manifest_prefix then Inl (Not_manifest_path path)
     else Inr (trim_prefix path path_manifest_prefix))"

section \<open>Payloads\<close>

definition content_seed :: "(string \<Rightarrow> 64 word) \<Rightarrow> string \<Rightarrow> int \<Rightarrow> 64 word" where
  "content_seed sha cid idx = sha cid XOR (word_of_int idx * 1000003)"

definition payload_size :: "'g rand_ops \<Rightarrow> (64 word \<Rightarrow> 'g) \<Rightarrow> (string \<Rightarrow> 64 word) \<Rightarrow> string \<Rightarrow> int \<Rightarrow> int \<Rightarrow> int \<Rightarrow> int" where
  "payload_size R src sha cid idx b secs = (let
       secs = (if secs \<le> 0 then 4 else secs);
       mean = fmul (fdiv (i2f (b * 1000)) 8) (i2f secs);
       u = fst (r_float64 R (src (content_seed sha cid idx)));
       factor = fadd (1 / 2) (fmul u (fl (13 / 10)))
     in f2i (fmul mean factor))"

definition le_bytes :: "64 word \<Rightarrow> 8 word list" where
  "le_bytes w = map (\<lambda>k. ucast (drop_bit (8 * k) w)) [0..<8]"

text \<open>The two loops: eight bytes at a time, then the rest one by one.\<close>

fun fill_tail :: "'g rand_ops \<Rightarrow> nat \<Rightarrow> 'g \<Rightarrow> 8 word list" where
  "fill_tail R 0 g = []"
| "fill_tail R (Suc n) g = (let (x, g1) = r_intn R 256 g in word_of_int x # fill_tail R n g1)"

fun fill_chunks :: "'g rand_ops \<Rightarrow> ('g \<Rightarrow> 64 word \<times> 'g) \<Rightarrow> nat \<Rightarrow> 'g \<Rightarrow> 8 word list" where
  "fill_chunks R U n g = (if 8 \<le> n then (let (w, g1) = U g in le_bytes w @ fill_chunks R U (n - 8) g1) else fill_tail R n g)"

declare fill_chunks.simps [simp del]

definition fill_payload :: "'g rand_ops \<Rightarrow> ('g \<Rightarrow> 64 word \<times> 'g) \<Rightarrow> (64 word \<Rightarrow> 'g) \<Rightarrow> (string \<Rightarrow> 64 word) \<Rightarrow> nat \<Rightarrow> string \<Rightarrow> int \<Rightarrow> int
    \<Rightarrow> 8 word list" where
  "fill_payload R U src sha n cid idx b =
     fill_chunks R U n (src (content_seed sha cid idx XOR (word_of_int b * 7919)))"

section \<open>The origin\<close>

text \<open>A reply of the segment handler: a status 400 with the error, the segment with its headers, or the panic of
  \<open>make([]byte, size)\<close> with a negative size.\<close>

datatype origin_reply = Bad_request path_error | Crash
  | Segment (reply_content_id: string) (reply_type: string) (reply_length: string) (reply_cache_control: string) (reply_body: "8 word list")

definition origin_segment :: "'g rand_ops \<Rightarrow> ('g \<Rightarrow> 64 word \<times> 'g) \<Rightarrow> (64 word \<Rightarrow> 'g) \<Rightarrow> (string \<Rightarrow> 64 word) \<Rightarrow> int \<Rightarrow> string \<Rightarrow> origin_reply" where
  "origin_segment R U src sha secs path = (case parse_segment_path path of
     Inl e \<Rightarrow> Bad_request e
   | Inr (cid, idx, b) \<Rightarrow> (let size = payload_size R src sha cid idx b secs in
       if size < 0 then Crash
       else Segment cid ''application/octet-stream'' (itoa size) ''max-age=3600'' (fill_payload R U src sha (nat size) cid idx b)))"

section \<open>Round trips\<close>

lemma split_parts_no_sep: "\<forall>p\<in>set (split_on c s). c \<notin> set p"
  by (induction c s rule: split_on.induct) (auto split: list.splits)

lemma split_slashes: "length (split_on c s) = length (filter (\<lambda>x. x = c) s) + 1"
  by (induction c s rule: split_on.induct) (auto split: list.splits)

lemma atoi_range: "atoi s = Some v \<Longrightarrow> in_int64 v"
  by (auto simp: atoi_def Let_def split: if_splits option.splits)

lemma segment_path_split:
  "CHR ''/'' \<notin> set cid \<Longrightarrow> split_on (CHR ''/'') (cid @ CHR ''/'' # itoa idx @ CHR ''/'' # itoa b) = [cid, itoa idx, itoa b]"
  by (simp add: split_on_cons split_on_none itoa_no_slash)

lemma parse_segment_path_path:
  assumes "CHR ''/'' \<notin> set cid" "in_int64 idx" "in_int64 b"
  shows "parse_segment_path (segment_path cid idx b) = Inr (cid, idx, b)"
  using assms by (simp add: parse_segment_path_def segment_path_def Let_def segment_path_split atoi_itoa)

lemma parse_segment_path_fields:
  assumes "parse_segment_path path = Inr (cid, idx, b)"
  shows "CHR ''/'' \<notin> set cid \<and> in_int64 idx \<and> in_int64 b"
proof -
  let ?parts = "split_on (CHR ''/'') (trim_prefix path path_segment_prefix)"
  have p: "length ?parts = 3" "atoi (?parts ! 1) = Some idx" "atoi (?parts ! 2) = Some b" "cid = ?parts ! 0"
    using assms by (auto simp: parse_segment_path_def Let_def split: if_splits option.splits)
  have "?parts ! 0 \<in> set ?parts" using p(1) by (intro nth_mem) simp
  with p atoi_range split_parts_no_sep show ?thesis by metis
qed

text \<open>C32: Paths round trip. The path of a segment whose content id has no slash parses back to exactly its three
  fields, for every index and bitrate in the 64-bit range; whatever path parses, its fields have a canonical path that
  parses to the same; a content id with a slash makes a path that is refused; and a manifest path gives back any content id.\<close>

theorem segment_path_roundtrip:
  assumes "in_int64 idx" "in_int64 b"
  shows "(CHR ''/'' \<notin> set cid \<longrightarrow> parse_segment_path (segment_path cid idx b) = Inr (cid, idx, b))
    \<and> (CHR ''/'' \<in> set cid \<longrightarrow> parse_segment_path (segment_path cid idx b) = Inl (Malformed_path (segment_path cid idx b)))
    \<and> (parse_segment_path path = Inr (c, i, r) \<longrightarrow> parse_segment_path (segment_path c i r) = Inr (c, i, r))
    \<and> parse_manifest_path (manifest_path cid) = Inr cid"
proof -
  have "parse_segment_path (segment_path cid idx b) = Inl (Malformed_path (segment_path cid idx b))" if "CHR ''/'' \<in> set cid"
  proof -
    have "filter (\<lambda>x. x = CHR ''/'') cid \<noteq> []" using that by (simp add: filter_empty_conv)
    then have "length (split_on (CHR ''/'') (cid @ CHR ''/'' # itoa idx @ CHR ''/'' # itoa b)) \<noteq> 3" by (simp add: split_slashes)
    then show ?thesis by (simp add: parse_segment_path_def segment_path_def Let_def)
  qed
  then show ?thesis
    using parse_segment_path_path [OF _ assms] parse_segment_path_path parse_segment_path_fields [of path c i r]
    by (simp add: parse_manifest_path_def manifest_path_def)
qed

theorem segment_path_roundtrip_witness:
  "parse_segment_path ''/segment/a/3/400'' = Inr (''a'', 3, 400)"
proof -
  have "segment_path ''a'' 3 400 = ''/segment/a/3/400''" by code_simp
  then show ?thesis using segment_path_roundtrip [of 3 400 "''a''"] by (simp add: int64_defs)
qed

section \<open>Sizes\<close>

lemma le_bytes_length [simp]: "length (le_bytes w) = 8"
  by (simp add: le_bytes_def)

lemma fill_tail_length [simp]: "length (fill_tail R n g) = n"
  by (induction n arbitrary: g) (simp_all add: case_prod_unfold Let_def)

lemma fill_chunks_length [simp]: "length (fill_chunks R U n g) = n"
proof (induction R U n g rule: fill_chunks.induct)
  case (1 R U n g)
  show ?case
  proof (cases "8 \<le> n")
    case True
    with "1" [OF True refl prod.collapse] show ?thesis by (subst fill_chunks.simps) (simp add: case_prod_unfold Let_def)
  qed (subst fill_chunks.simps, simp)
qed

lemma payload_factor:
  assumes "rand_ok R"
  shows "1 / 2 \<le> fadd (1 / 2) (fmul (fst (r_float64 R g)) (fl (13 / 10))) \<and> fadd (1 / 2) (fmul (fst (r_float64 R g)) (fl (13 / 10))) \<le> 3"
proof -
  let ?u = "fst (r_float64 R g)"
  have u: "0 \<le> ?u" "?u < 1" using assms by (simp_all add: rand_ok_def)
  have k: "0 \<le> fl (13 / 10)" "fl (13 / 10) \<le> of_int 2" by (simp add: fl_nonneg) (intro fl_le_int, simp_all)
  have "?u * fl (13 / 10) \<le> 1 * of_int 2" using u k by (intro mult_mono) simp_all
  then have "fmul ?u (fl (13 / 10)) \<le> of_int 2" unfolding fmul_def by (intro fl_le_int) simp_all
  then have "fadd (1 / 2) (fmul ?u (fl (13 / 10))) \<le> of_int 3" unfolding fadd_def by (intro fl_le_int) simp_all
  moreover have "1 / 2 \<le> fadd (1 / 2) (fmul ?u (fl (13 / 10)))"
  proof -
    have "(1 / 2 :: real) = of_int 1 * 2 powi (- 1)" by simp
    then have "float_rep (1 / 2)" unfolding float_rep_def by (metis abs_one one_le_power one_le_numeral)
    then show ?thesis unfolding fadd_def using u k by (intro fl_ge_rep) (simp_all add: fmul_nonneg)
  qed
  ultimately show ?thesis by simp
qed

lemma payload_size_nonneg:
  assumes "rand_ok R" "0 \<le> b" "b \<le> 10 ^ 9" "secs \<le> 10 ^ 4"
  shows "0 \<le> payload_size R src sha cid idx b secs"
proof -
  define n where "n = (if secs \<le> 0 then 4 else secs)"
  define factor where "factor = fadd (1 / 2) (fmul (fst (r_float64 R (src (content_seed sha cid idx)))) (fl (13 / 10)))"
  define mean where "mean = fmul (fdiv (i2f (b * 1000)) 8) (i2f n)"
  have n: "1 \<le> n" "n \<le> 10 ^ 4" using assms(4) by (simp_all add: n_def)
  have "i2f (b * 1000) = of_int (b * 1000)" "i2f n = of_int n"
    using assms(2,3) n by (intro i2f_exact; simp)+
  then have i: "0 \<le> i2f (b * 1000)" "i2f (b * 1000) / 8 \<le> of_int (125 * 10 ^ 9)" "0 \<le> i2f n" "i2f n \<le> of_int (10 ^ 4)"
    using assms(2,3) n by simp_all
  have q: "fdiv (i2f (b * 1000)) 8 \<le> of_int (125 * 10 ^ 9)" "0 \<le> fdiv (i2f (b * 1000)) 8"
    using fl_le_int [OF i(2)] i(1) by (simp_all add: fdiv_def fl_nonneg)
  have "fdiv (i2f (b * 1000)) 8 * i2f n \<le> of_int (125 * 10 ^ 9) * of_int (10 ^ 4)" using i q by (intro mult_mono) simp_all
  then have m: "0 \<le> mean" "mean \<le> of_int (125 * 10 ^ 13)"
    using fl_le_int [of "fdiv (i2f (b * 1000)) 8 * i2f n" "125 * 10 ^ 13"] i(3) q(2) by (simp_all add: mean_def fmul_def fl_nonneg)
  have f: "0 \<le> factor" "factor \<le> 3" using payload_factor [OF assms(1), of "src (content_seed sha cid idx)"] by (simp_all add: factor_def)
  have "mean * factor \<le> of_int (125 * 10 ^ 13) * 3" using m f by (intro mult_mono) simp_all
  then have "fmul mean factor \<le> of_int (375 * 10 ^ 13)" unfolding fmul_def by (intro fl_le_int) simp_all
  moreover have "0 \<le> fmul mean factor" using m f by (simp add: fmul_nonneg)
  ultimately have "0 \<le> f2i (fmul mean factor)" using f2i_nonneg [of "fmul mean factor" "375 * 10 ^ 13"] by (simp add: int64_max_def)
  then show ?thesis by (simp add: payload_size_def Let_def n_def mean_def factor_def)
qed

lemma payload_size_negative:
  assumes "rand_ok R" "b < 0"
  shows "payload_size R src sha cid idx b secs < 0"
proof -
  define n where "n = (if secs \<le> 0 then 4 else secs)"
  define factor where "factor = fadd (1 / 2) (fmul (fst (r_float64 R (src (content_seed sha cid idx)))) (fl (13 / 10)))"
  define mean where "mean = fmul (fdiv (i2f (b * 1000)) 8) (i2f n)"
  have "1 \<le> n" by (simp add: n_def)
  then have n: "1 \<le> i2f n" using i2f_mono [of 1 n] i2f_exact [of 1] by simp
  have "i2f (b * 1000) \<le> - 1000" using assms(2) i2f_mono [of "b * 1000" "- 1000"] i2f_exact [of "- 1000"] by simp
  then have "fdiv (i2f (b * 1000)) 8 \<le> of_int (- 125)" unfolding fdiv_def by (intro fl_le_int) simp_all
  then have "fdiv (i2f (b * 1000)) 8 * i2f n \<le> of_int (- 125)"
    using n mult_mono [of 125 "- fdiv (i2f (b * 1000)) 8" 1 "i2f n"] by simp
  then have m: "mean \<le> of_int (- 125)" unfolding mean_def fmul_def by (intro fl_le_int) simp_all
  have "1 / 2 \<le> factor" using payload_factor [OF assms(1), of "src (content_seed sha cid idx)"] by (simp add: factor_def)
  then have "mean * factor \<le> of_int (- 62)" using m mult_mono [of 125 "- mean" "1 / 2" factor] by simp
  then have "fmul mean factor \<le> of_int (- 62)" unfolding fmul_def by (intro fl_le_int) simp_all
  from trunc_mono [OF this] have "trunc (fmul mean factor) \<le> - 62" by (simp only: trunc_of_int)
  then have "f2i (fmul mean factor) < 0" by (simp add: f2i_def int64_min_def)
  then show ?thesis by (simp add: payload_size_def Let_def n_def mean_def factor_def)
qed

text \<open>The origin's replies. For a segment of a slash-free content id the origin answers with a body of exactly the
  announced length, determined by content, index and bitrate alone, when the bitrate is between 0 and 10^9 kbps; a
  negative bitrate, which the path parser accepts, makes it panic; and a path that does not parse is a bad request.\<close>

lemma origin_replies:
  assumes "rand_ok R" "CHR ''/'' \<notin> set cid" "in_int64 idx" "in_int64 b" "secs \<le> 10 ^ 4"
  shows "(0 \<le> b \<and> b \<le> 10 ^ 9 \<longrightarrow> (\<exists>body. origin_segment R U src sha secs (segment_path cid idx b) =
        Segment cid ''application/octet-stream'' (itoa (int (length body))) ''max-age=3600'' body
        \<and> int (length body) = payload_size R src sha cid idx b secs))
    \<and> (b < 0 \<longrightarrow> origin_segment R U src sha secs (segment_path cid idx b) = Crash)
    \<and> (parse_segment_path path = Inl e \<longrightarrow> origin_segment R U src sha secs path = Bad_request e)"
proof -
  have p: "parse_segment_path (segment_path cid idx b) = Inr (cid, idx, b)" by (rule parse_segment_path_path [OF assms(2,3,4)])
  let ?n = "payload_size R src sha cid idx b secs"
  have "0 \<le> b \<and> b \<le> 10 ^ 9 \<Longrightarrow> 0 \<le> ?n" using payload_size_nonneg [OF assms(1)] assms(5) by blast
  then show ?thesis
    using payload_size_negative [OF assms(1), of b src sha cid idx secs] p
    by (auto simp: origin_segment_def Let_def fill_payload_def)
qed

end
