(* ===== verification/Edge.thy ===== *)
theory Edge
  imports Lru "HOL-Library.Word"
begin

text \<open>
  \<open>cmd/edge-server/main.go\<close>: the segment and manifest handlers of the edge over its LRU cache, the sidecar map
  of payload bytes and the counters. The upstream (an HTTP client) is a parameter with a state of its own. Requests
  are taken one after the other; the cache has a mutex and the map is a \<open>sync.Map\<close>, so a handler sees each of them
  atomically. A handler returns the reply it writes and the state it leaves.
\<close>

section \<open>State, upstream, replies\<close>

type_synonym bytes = "8 word list"

record cached_payload =
  pl_bytes :: bytes
  pl_type :: string
  pl_content_id :: string

record edge =
  edge_lru :: lru
  payloads :: "string \<rightharpoonup> cached_payload"
  edge_hits :: int
  edge_misses :: int

definition new_edge :: "int \<Rightarrow> edge" where
  "new_edge cache_mb = \<lparr>edge_lru = new_lru (cache_mb * 1024 * 1024), payloads = Map.empty, edge_hits = 0, edge_misses = 0\<rparr>"

text \<open>An upstream response: its status, two of its headers (empty when absent) and its body. The request, the
  round trip or reading the body may fail; the handlers answer all three alike.\<close>

record up_response =
  up_status :: int
  up_content_id :: string
  up_type :: string
  up_body :: bytes

type_synonym 'u upstream = "string \<Rightarrow> 'u \<Rightarrow> (string + up_response) \<times> 'u"

datatype edge_reply = Bad_gateway
  | Reply (x_cache: string) (x_edge_id: string) (x_content_id: string) (content_type: string) (content_length: int) (body: bytes)
  | Manifest_reply (m_edge_id: string) (m_body: bytes)

definition max_body_bytes :: nat where "max_body_bytes = 32 * 2 ^ 20"
definition max_manifest_bytes :: nat where "max_manifest_bytes = 2 ^ 20"

section \<open>The handlers\<close>

definition edge_lookup :: "string \<Rightarrow> instant \<Rightarrow> edge \<Rightarrow> cached_payload option \<times> edge" where
  "edge_lookup key now s = (let (r, c) = lru_get key now (edge_lru s); s1 = s\<lparr>edge_lru := c\<rparr>
     in (if r = None then None else payloads s key, s1))"

definition segment_handler :: "string \<Rightarrow> 'u upstream \<Rightarrow> string \<Rightarrow> instant \<Rightarrow> edge \<times> 'u \<Rightarrow> edge_reply \<times> edge \<times> 'u" where
  "segment_handler edge up key now su = (let (s, u) = su in
     case edge_lookup key now s of
       (Some p, s1) \<Rightarrow> (Reply ''HIT'' edge (pl_content_id p) (pl_type p) (int (length (pl_bytes p))) (pl_bytes p),
         s1\<lparr>edge_hits := edge_hits s1 + 1\<rparr>, u)
     | (None, s1) \<Rightarrow> (let s2 = s1\<lparr>edge_misses := edge_misses s1 + 1\<rparr> in
         case up key u of
           (Inl e, u1) \<Rightarrow> (Bad_gateway, s2, u1)
         | (Inr resp, u1) \<Rightarrow> (let
               b = take max_body_bytes (up_body resp);
               ctype = (if up_type resp = [] then ''application/octet-stream'' else up_type resp);
               item = \<lparr>item_key = key, size_bytes = int (length b), expiry = now + hour, item_value = None\<rparr>
             in (Reply ''MISS'' edge (up_content_id resp) ctype (int (length b)) b,
                 s2\<lparr>edge_lru := lru_put item now (edge_lru s2),
                   payloads := (payloads s2)(key \<mapsto> \<lparr>pl_bytes = b, pl_type = ctype, pl_content_id = up_content_id resp\<rparr>)\<rparr>, u1))))"

definition manifest_handler :: "string \<Rightarrow> 'u upstream \<Rightarrow> string \<Rightarrow> 'u \<Rightarrow> edge_reply \<times> 'u" where
  "manifest_handler edge up path u = (case up path u of
     (Inl e, u1) \<Rightarrow> (Bad_gateway, u1)
   | (Inr resp, u1) \<Rightarrow> (Manifest_reply edge (take max_manifest_bytes (up_body resp)), u1))"

text \<open>A sequence of segment requests, each with its time.\<close>

fun serve :: "string \<Rightarrow> 'u upstream \<Rightarrow> (string \<times> instant) list \<Rightarrow> edge \<times> 'u \<Rightarrow> edge_reply list \<times> edge \<times> 'u" where
  "serve edge up [] su = ([], su)"
| "serve edge up ((key, now) # rs) su = (let (r, su1) = segment_handler edge up key now su;
     (out, su2) = serve edge up rs su1 in (r # out, su2))"

section \<open>An upstream that keeps its answers\<close>

definition steady :: "(string \<Rightarrow> up_response) \<Rightarrow> 'u upstream \<Rightarrow> bool" where
  "steady f up \<longleftrightarrow> (\<forall>key u. fst (up key u) = Inr (f key))"

definition payload_of :: "up_response \<Rightarrow> cached_payload" where
  "payload_of r = \<lparr>pl_bytes = take max_body_bytes (up_body r),
     pl_type = (if up_type r = [] then ''application/octet-stream'' else up_type r), pl_content_id = up_content_id r\<rparr>"

definition edge_inv :: "(string \<Rightarrow> up_response) \<Rightarrow> edge \<Rightarrow> bool" where
  "edge_inv f s \<longleftrightarrow> lru_inv (edge_lru s) \<and> (\<forall>k p. payloads s k = Some p \<longrightarrow> p = payload_of (f k))
     \<and> (\<forall>k it. lru_resident (edge_lru s) k = Some it \<longrightarrow> payloads s k \<noteq> None)"

lemma lookup_inv:
  assumes "edge_inv f s"
  shows "edge_inv f (snd (edge_lookup key now s)) \<and> payloads (snd (edge_lookup key now s)) = payloads s
    \<and> edge_hits (snd (edge_lookup key now s)) = edge_hits s \<and> edge_misses (snd (edge_lookup key now s)) = edge_misses s
    \<and> (\<forall>p. fst (edge_lookup key now s) = Some p \<longrightarrow> p = payload_of (f key))"
proof -
  have i: "lru_inv (edge_lru s)" using assms by (simp add: edge_inv_def)
  have "lru_resident (snd (lru_get key now (edge_lru s))) k = Some it \<Longrightarrow> lru_resident (edge_lru s) k = Some it" for k it
    using lru.get_resident [OF i, of key now] by (auto split: option.splits if_splits)
  with assms lru.get_inv [OF i, of key now] show ?thesis
    by (auto simp: edge_lookup_def edge_inv_def case_prod_unfold Let_def split: if_splits)
qed

lemma handler_inv:
  assumes "steady f up" "edge_inv f s"
  shows "case segment_handler edge up key now (s, u) of (r, s', u') \<Rightarrow> edge_inv f s'
    \<and> edge_hits s' + edge_misses s' = edge_hits s + edge_misses s + 1
    \<and> (\<exists>c. r = Reply c edge (pl_content_id (payload_of (f key))) (pl_type (payload_of (f key)))
          (int (length (pl_bytes (payload_of (f key))))) (pl_bytes (payload_of (f key))))
    \<and> dom (payloads s') = insert key (dom (payloads s))"
proof -
  obtain r s1 where l: "edge_lookup key now s = (r, s1)" by fastforce
  note li = lookup_inv [OF assms(2), of key now, unfolded l, simplified]
  obtain u1 where up: "up key u = (Inr (f key), u1)" using assms(1) by (metis prod.collapse steady_def)
  show ?thesis
  proof (cases r)
    case (Some p)
    then have "payloads s key \<noteq> None" using l by (auto simp: edge_lookup_def case_prod_unfold Let_def split: if_splits)
    with Some li l show ?thesis by (auto simp: segment_handler_def edge_inv_def Let_def)
  next
    case None
    let ?b = "pl_bytes (payload_of (f key))"
    let ?it = "\<lparr>item_key = key, size_bytes = int (length ?b), expiry = now + hour, item_value = None\<rparr>"
    have i: "lru_inv (edge_lru s1)" using li by (simp add: edge_inv_def)
    have "lru_resident (lru_put ?it now (edge_lru s1)) k = Some x \<Longrightarrow> k \<noteq> key \<Longrightarrow> lru_resident (edge_lru s1) k = Some x" for k x
      using lru.put_others [OF i, of ?it k now x] by simp
    moreover have "lru_inv (lru_put ?it now (edge_lru s1))" using lru.put_inv [OF i, of ?it now] by simp
    ultimately show ?thesis using None li l up
      by (auto simp: segment_handler_def edge_inv_def Let_def payload_of_def)
  qed
qed

section \<open>What the edge promises\<close>

lemma serve_inv:
  "steady f up \<Longrightarrow> edge_inv f s \<Longrightarrow> case serve edge up rs (s, u) of (out, s', u') \<Rightarrow> edge_inv f s'
    \<and> edge_hits s' + edge_misses s' = edge_hits s + edge_misses s + int (length rs)
    \<and> list_all2 (\<lambda>r (key, now). \<exists>c. r = Reply c edge (pl_content_id (payload_of (f key))) (pl_type (payload_of (f key)))
          (int (length (pl_bytes (payload_of (f key))))) (pl_bytes (payload_of (f key)))) out rs
    \<and> dom (payloads s') = fst ` set rs \<union> dom (payloads s)"
proof (induction rs arbitrary: s u)
  case (Cons x rs)
  obtain key now where x: "x = (key, now)" by fastforce
  obtain r s1 u1 where h: "segment_handler edge up key now (s, u) = (r, s1, u1)" by (metis prod_cases3)
  note hi = handler_inv [OF Cons.prems, of edge key now u, unfolded h, simplified]
  obtain out s2 u2 where t: "serve edge up rs (s1, u1) = (out, s2, u2)" by (metis prod_cases3)
  from Cons.IH [OF Cons.prems(1), of s1 u1] hi t show ?case by (auto simp: x h)
qed simp

lemma edge_inv_new: "0 \<le> mb \<Longrightarrow> edge_inv f (new_edge mb)"
  by (simp add: edge_inv_def new_edge_def lru_inv_new) (simp add: lru_resident_def new_lru_def key_items_def)

text \<open>What the edge serves. Over an upstream that keeps its answers, a new edge answers every sequence of requests,
  in any order and at any times, each with the bytes (the first 32 MiB), content id and type the upstream has for that
  path, whether from the cache or not; it counts each request once as a hit or a miss; and its byte budget holds, while
  the sidecar map keeps the payload of every path ever requested.\<close>

lemma edge_serves_upstream:
  assumes "steady f up" "0 \<le> mb" "serve edge up rs (new_edge mb, u) = (out, s, u')"
  shows "list_all2 (\<lambda>r (key, now). \<exists>c. r = Reply c edge (up_content_id (f key)) (pl_type (payload_of (f key)))
          (int (length (take max_body_bytes (up_body (f key))))) (take max_body_bytes (up_body (f key)))) out rs
    \<and> edge_hits s + edge_misses s = int (length rs)
    \<and> current_size (edge_lru s) \<le> max_size (edge_lru s) \<and> dom (payloads s) = fst ` set rs"
proof -
  from serve_inv [OF assms(1) edge_inv_new [OF assms(2)], where edge = edge and rs = rs and u = u] assms(3)
  have "edge_inv f s" "edge_hits s + edge_misses s = int (length rs)"
    "list_all2 (\<lambda>r (key, now). \<exists>c. r = Reply c edge (pl_content_id (payload_of (f key))) (pl_type (payload_of (f key)))
          (int (length (pl_bytes (payload_of (f key))))) (pl_bytes (payload_of (f key)))) out rs"
    "dom (payloads s) = fst ` set rs"
    by (simp_all add: new_edge_def)
  then show ?thesis by (simp add: edge_inv_def lru_inv_def payload_of_def)
qed

definition demo_upstream :: "int upstream" where
  "demo_upstream key n = (Inr \<lparr>up_status = 404, up_content_id = [], up_type = ''text/plain'', up_body = [7, 8]\<rparr>, n + 1)"

text \<open>An error page is cached like a segment. Whatever status the upstream answers with, the handler replies with its
  body as a segment and stores it; for an hour the next request for that path gets the same body as a hit, without asking
  the upstream, when the body fits the cache.\<close>

lemma edge_caches_any_status:
  assumes "lru_inv (edge_lru s)" "fst (edge_lookup key now s) = None" "up key u = (Inr resp, u1)"
    and "int (length (take max_body_bytes (up_body resp))) \<le> max_size (edge_lru s)" "now' \<le> now + hour"
    and "segment_handler edge up key now (s, u) = (r, s1, u2)"
  shows "r = Reply ''MISS'' edge (up_content_id resp) (pl_type (payload_of resp))
        (int (length (take max_body_bytes (up_body resp)))) (take max_body_bytes (up_body resp))
    \<and> (\<exists>s2. segment_handler edge up key now' (s1, u2) =
        (Reply ''HIT'' edge (up_content_id resp) (pl_type (payload_of resp))
          (int (length (take max_body_bytes (up_body resp)))) (take max_body_bytes (up_body resp)), s2, u2))"
proof -
  let ?b = "take max_body_bytes (up_body resp)"
  let ?it = "\<lparr>item_key = key, size_bytes = int (length ?b), expiry = now + hour, item_value = None\<rparr>"
  define s0 where "s0 = snd (edge_lookup key now s)"
  have l: "edge_lookup key now s = (None, s0)" using assms(2) by (simp add: s0_def prod_eq_iff)
  have lru0: "edge_lru s0 = snd (lru_get key now (edge_lru s))" by (simp add: s0_def edge_lookup_def case_prod_unfold Let_def)
  have inv: "lru_inv (edge_lru s0)" using lru.get_inv [OF assms(1)] by (simp add: lru0)
  have "max_size (edge_lru s0) = max_size (edge_lru s)" using lru_get_max [OF lru_inv_wf [OF assms(1)]] by (simp add: lru0)
  then have fits: "size_bytes ?it \<le> bytes_max (lru_stats (edge_lru s0))" using assms(4) by (simp add: lru_bytes_max [OF inv])
  have "\<not> expired now' ?it" using assms(5) by (simp add: expired_def)
  from lru.put_then_get [OF inv _ fits this] have hit: "fst (lru_get key now' (lru_put ?it now (edge_lru s0))) = Some ?it" by simp
  have r: "r = Reply ''MISS'' edge (up_content_id resp) (pl_type (payload_of resp)) (int (length ?b)) ?b"
    "edge_lru s1 = lru_put ?it now (edge_lru s0)" "payloads s1 key = Some (payload_of resp)" "u2 = u1"
    using assms(3,6) by (auto simp: segment_handler_def l Let_def payload_of_def)
  have "fst (edge_lookup key now' s1) = Some (payload_of resp)"
    using hit r(2,3) by (simp add: edge_lookup_def case_prod_unfold Let_def)
  then obtain s2 where "edge_lookup key now' s1 = (Some (payload_of resp), s2)" by (metis prod.collapse)
  then show ?thesis using r(1) by (simp add: segment_handler_def payload_of_def)
qed

end
