(* ===== verification/Process.thy ===== *)
theory Process
  imports Prelude
begin

text \<open>
  What the concurrent parts share: a step relation that, within an invariant, uses up a measure with every step and is never stuck before
  its end. The handlers of the edge at work, the goroutines of a batch and a server that has been told to stop are such processes.
\<close>

locale ending_process =
  fixes step :: "'s \<Rightarrow> 's \<Rightarrow> bool" and inv :: "'s \<Rightarrow> bool" and final :: "'s \<Rightarrow> bool" and left :: "'s \<Rightarrow> nat"
  assumes step_inv: "inv S \<Longrightarrow> step S T \<Longrightarrow> inv T"
    and step_left: "inv S \<Longrightarrow> step S T \<Longrightarrow> left T < left S"
    and progress: "inv S \<Longrightarrow> \<not> final S \<Longrightarrow> \<exists>T. step S T"
begin

lemma runs_end: "inv S \<Longrightarrow> \<exists>T. step\<^sup>*\<^sup>* S T \<and> inv T \<and> final T"
proof (induction "left S" arbitrary: S rule: less_induct)
  case less
  show ?case
  proof (cases "final S")
    case False
    from progress [OF less.prems this] obtain T where T: "step S T" by blast
    from less.hyps [OF step_left [OF less.prems T] step_inv [OF less.prems T]] T show ?thesis
      by (blast intro: converse_rtranclp_into_rtranclp)
  qed (use less.prems in blast)
qed

lemma runs_inv: "inv S \<Longrightarrow> step\<^sup>*\<^sup>* S T \<Longrightarrow> inv T"
  by (rotate_tac, induction rule: rtranclp_induct) (auto intro: step_inv)

text \<open>No run is longer than the measure, so none is infinite.\<close>

lemma runs_short: "inv S \<Longrightarrow> (step ^^ n) S T \<Longrightarrow> n + left T \<le> left S"
proof (induction n arbitrary: S)
  case (Suc n)
  from relpowp_Suc_D2 [OF Suc.prems(2)] obtain U where U: "step S U" "(step ^^ n) U T" by blast
  with Suc.IH [OF step_inv [OF Suc.prems(1) U(1)] U(2)] step_left [OF Suc.prems(1) U(1)] show ?case by simp
qed simp

lemma no_infinite_run: "inv (f 0) \<Longrightarrow> \<exists>i. \<not> step (f i) (f (Suc i))"
proof (rule ccontr)
  assume i: "inv (f 0)" and s: "\<nexists>i. \<not> step (f i) (f (Suc i))"
  then have "(step ^^ n) (f 0) (f n)" for n by (induction n) auto
  from runs_short [OF i this [of "Suc (left (f 0))"]] show False by simp
qed

end

end
