(* ===== verification/EdgeConc.thy ===== *)
theory EdgeConc
  imports Edge Process
begin

text \<open>
  The edge server under load: \<open>net/http\<close> runs the segment handler of \<open>cmd/edge-server/main.go\<close> once per request, all at the same
  time. The LRU cache has a mutex, the map of payloads is a \<open>sync.Map\<close> and the counters are atomic, so a handler is a sequence of
  atomic steps between which every other handler may run. \<open>handler_step\<close> is one such step, \<open>edge_step\<close> the arrival of a request or
  a step of any handler, and \<open>edge_reach\<close> what a new edge can get to.
\<close>

section \<open>A handler, step by step\<close>

text \<open>The places of a handler between two atomic operations, with what it has in its variables there: before \<open>lru.Get\<close>, before
  \<open>payloads.Load\<close>, before the two counters, before the request upstream, before \<open>lru.Put\<close>, before \<open>payloads.Store\<close>, and at the end
  with the reply it has written.\<close>

datatype handler = H_get string instant | H_load string instant | H_hit string cached_payload | H_miss string instant
  | H_fetch string instant | H_put string instant cached_payload | H_store string cached_payload | H_done string edge_reply

definition reply_with :: "string \<Rightarrow> string \<Rightarrow> cached_payload \<Rightarrow> edge_reply" where
  "reply_with mark edge p = Reply mark edge (pl_content_id p) (pl_type p) (int (length (pl_bytes p))) (pl_bytes p)"

fun handler_step :: "string \<Rightarrow> 'u upstream \<Rightarrow> handler \<Rightarrow> edge \<times> 'u \<Rightarrow> handler \<times> edge \<times> 'u" where
  "handler_step edge up (H_get key now) (s, u) = (let (r, c) = lru_get key now (edge_lru s) in
     (if r = None then H_miss key now else H_load key now, s\<lparr>edge_lru := c\<rparr>, u))"
| "handler_step edge up (H_load key now) (s, u) = (case payloads s key of None \<Rightarrow> (H_miss key now, s, u) | Some p \<Rightarrow> (H_hit key p, s, u))"
| "handler_step edge up (H_hit key p) (s, u) = (H_done key (reply_with ''HIT'' edge p), s\<lparr>edge_hits := edge_hits s + 1\<rparr>, u)"
| "handler_step edge up (H_miss key now) (s, u) = (H_fetch key now, s\<lparr>edge_misses := edge_misses s + 1\<rparr>, u)"
| "handler_step edge up (H_fetch key now) (s, u) = (case up key u of
     (Inl e, u1) \<Rightarrow> (H_done key Bad_gateway, s, u1)
   | (Inr resp, u1) \<Rightarrow> (H_put key now (payload_of resp), s, u1))"
| "handler_step edge up (H_put key now p) (s, u) = (H_store key p, s\<lparr>edge_lru := lru_put
     \<lparr>item_key = key, size_bytes = int (length (pl_bytes p)), expiry = now + hour, item_value = None\<rparr> now (edge_lru s)\<rparr>, u)"
| "handler_step edge up (H_store key p) (s, u) = (H_done key (reply_with ''MISS'' edge p), s\<lparr>payloads := (payloads s)(key \<mapsto> p)\<rparr>, u)"
| "handler_step edge up (H_done key r) (s, u) = (H_done key r, s, u)"

fun finished :: "handler \<Rightarrow> bool" where
  "finished (H_done key r) = True" | "finished _ = False"

text \<open>How many steps of its own a handler has left at most.\<close>

fun steps_left :: "handler \<Rightarrow> nat" where
  "steps_left (H_get key now) = 6" | "steps_left (H_load key now) = 5" | "steps_left (H_hit key p) = 1" | "steps_left (H_miss key now) = 4"
| "steps_left (H_fetch key now) = 3" | "steps_left (H_put key now p) = 2" | "steps_left (H_store key p) = 1" | "steps_left (H_done key r) = 0"

section \<open>Many handlers at once\<close>

record 'u edge_system =
  sys_edge :: edge
  sys_upstream :: 'u
  sys_handlers :: "handler list"

inductive edge_step :: "string \<Rightarrow> 'u upstream \<Rightarrow> 'u edge_system \<Rightarrow> 'u edge_system \<Rightarrow> bool" for edge up where
  arrive: "edge_step edge up S (S\<lparr>sys_handlers := sys_handlers S @ [H_get key now]\<rparr>)"
| advance: "i < length (sys_handlers S) \<Longrightarrow> \<not> finished (sys_handlers S ! i) \<Longrightarrow>
    handler_step edge up (sys_handlers S ! i) (sys_edge S, sys_upstream S) = (h, s, u) \<Longrightarrow>
    edge_step edge up S \<lparr>sys_edge = s, sys_upstream = u, sys_handlers = (sys_handlers S)[i := h]\<rparr>"

inductive edge_reach :: "string \<Rightarrow> 'u upstream \<Rightarrow> int \<Rightarrow> 'u \<Rightarrow> 'u edge_system \<Rightarrow> bool" for edge up mb u0 where
  start: "edge_reach edge up mb u0 \<lparr>sys_edge = new_edge mb, sys_upstream = u0, sys_handlers = []\<rparr>"
| step: "edge_reach edge up mb u0 S \<Longrightarrow> edge_step edge up S T \<Longrightarrow> edge_reach edge up mb u0 T"

section \<open>The invariant\<close>

text \<open>An upstream that may fail, but never answers a path with anything but what it has for it.\<close>

definition honest :: "(string \<Rightarrow> up_response) \<Rightarrow> 'u upstream \<Rightarrow> bool" where
  "honest f up \<longleftrightarrow> (\<forall>key u r. fst (up key u) = Inr r \<longrightarrow> r = f key)"

definition right_reply :: "'u upstream \<Rightarrow> (string \<Rightarrow> up_response) \<Rightarrow> string \<Rightarrow> string \<Rightarrow> edge_reply \<Rightarrow> bool" where
  "right_reply up f edge key r \<longleftrightarrow> r = Bad_gateway \<and> (\<exists>u e. fst (up key u) = Inl e) \<or> r = reply_with ''HIT'' edge (payload_of (f key)) \<or> r = reply_with ''MISS'' edge (payload_of (f key))"

fun handler_ok :: "'u upstream \<Rightarrow> (string \<Rightarrow> up_response) \<Rightarrow> string \<Rightarrow> handler \<Rightarrow> bool" where
  "handler_ok up f edge (H_hit key p) = (p = payload_of (f key))"
| "handler_ok up f edge (H_put key now p) = (p = payload_of (f key))"
| "handler_ok up f edge (H_store key p) = (p = payload_of (f key))"
| "handler_ok up f edge (H_done key r) = right_reply up f edge key r"
| "handler_ok up f edge _ = True"

text \<open>Which handlers the two counters have counted.\<close>

definition served_hit :: "handler \<Rightarrow> bool" where
  "served_hit h \<longleftrightarrow> (\<exists>key r. h = H_done key r \<and> r \<noteq> Bad_gateway \<and> x_cache r = ''HIT'')"

fun past_miss :: "handler \<Rightarrow> bool" where
  "past_miss (H_fetch key now) = True" | "past_miss (H_put key now p) = True" | "past_miss (H_store key p) = True"
| "past_miss (H_done key r) = (r = Bad_gateway \<or> x_cache r \<noteq> ''HIT'')" | "past_miss _ = False"

definition tally :: "('a \<Rightarrow> bool) \<Rightarrow> 'a list \<Rightarrow> int" where
  "tally P xs = int (length (filter P xs))"

text \<open>The keys between \<open>lru.Put\<close> and \<open>payloads.Store\<close>: the cache knows them, the map may not.\<close>

definition pending :: "handler \<Rightarrow> string set" where
  "pending h = {k. \<exists>p. h = H_store k p}"

definition pending_keys :: "handler list \<Rightarrow> string set" where
  "pending_keys hs = (\<Union>h\<in>set hs. pending h)"

definition edge_ok :: "(string \<Rightarrow> up_response) \<Rightarrow> int \<Rightarrow> string set \<Rightarrow> edge \<Rightarrow> bool" where
  "edge_ok f mb late s \<longleftrightarrow> lru_inv (edge_lru s) \<and> max_size (edge_lru s) = mb * 1024 * 1024
     \<and> (\<forall>k p. payloads s k = Some p \<longrightarrow> p = payload_of (f k))
     \<and> dom (lru_resident (edge_lru s)) \<subseteq> dom (payloads s) \<union> late"

definition system_inv :: "'u upstream \<Rightarrow> (string \<Rightarrow> up_response) \<Rightarrow> string \<Rightarrow> int \<Rightarrow> 'u edge_system \<Rightarrow> bool" where
  "system_inv up f edge mb S \<longleftrightarrow> edge_ok f mb (pending_keys (sys_handlers S)) (sys_edge S)
     \<and> (\<forall>h\<in>set (sys_handlers S). handler_ok up f edge h)
     \<and> edge_hits (sys_edge S) = tally served_hit (sys_handlers S) \<and> edge_misses (sys_edge S) = tally past_miss (sys_handlers S)"

lemma tally_append: "tally P (xs @ ys) = tally P xs + tally P ys"
  by (simp add: tally_def)

lemma tally_Cons: "tally P (x # xs) = of_bool (P x) + tally P xs"
  by (simp add: tally_def)

lemma tally_update:
  "i < length xs \<Longrightarrow> tally P (xs[i := x]) = tally P xs - of_bool (P (xs ! i)) + of_bool (P x)"
proof (induction xs arbitrary: i)
  case (Cons y ys)
  then show ?case by (cases i) (simp_all add: tally_Cons)
qed simp

text \<open>One step of a handler: what it does to the edge, and what it is afterwards.\<close>

lemma resident_get:
  assumes "lru_inv c"
  shows "dom (lru_resident (snd (lru_get key now c))) \<subseteq> dom (lru_resident c)"
  using lru.get_resident [OF assms, of key now] by (auto split: option.splits if_splits)

lemma resident_put:
  assumes "lru_inv c" "0 \<le> size_bytes it"
  shows "dom (lru_resident (lru_put it now c)) \<subseteq> insert (item_key it) (dom (lru_resident c))"
proof
  fix k
  assume "k \<in> dom (lru_resident (lru_put it now c))"
  then obtain x where "lru_resident (lru_put it now c) k = Some x" by blast
  then show "k \<in> insert (item_key it) (dom (lru_resident c))"
    using lru.put_others [OF assms, of k now x] by (cases "k = item_key it") auto
qed

lemma edge_ok_lru:
  assumes "edge_ok f mb A s" "lru_inv c" "max_size c = max_size (edge_lru s)"
    and "dom (lru_resident c) \<subseteq> B \<union> dom (lru_resident (edge_lru s))"
  shows "edge_ok f mb (A \<union> B) (s\<lparr>edge_lru := c\<rparr>)"
  using assms by (simp add: edge_ok_def) blast

lemma pending_simps [simp]:
  "pending (H_store k p) = {k}" "pending (H_get k now) = {}" "pending (H_load k now) = {}" "pending (H_hit k p) = {}"
  "pending (H_miss k now) = {}" "pending (H_fetch k now) = {}" "pending (H_put k now p) = {}" "pending (H_done k r) = {}"
  by (auto simp: pending_def)

lemma handler_step_ok:
  assumes "honest f up" "edge_ok f mb (late \<union> pending h) s" "handler_ok up f edge h" "handler_step edge up h (s, u) = (h', s', u')"
  shows "edge_ok f mb (late \<union> pending h') s' \<and> handler_ok up f edge h'
    \<and> edge_hits s' = edge_hits s - of_bool (served_hit h) + of_bool (served_hit h')
    \<and> edge_misses s' = edge_misses s - of_bool (past_miss h) + of_bool (past_miss h')"
proof -
  have inv: "lru_inv (edge_lru s)" "max_size (edge_lru s) = mb * 1024 * 1024" using assms(2) by (simp_all add: edge_ok_def)
  show ?thesis
  proof (cases h)
    case (H_get key now)
    let ?c = "snd (lru_get key now (edge_lru s))"
    have "edge_ok f mb (late \<union> {}) (s\<lparr>edge_lru := ?c\<rparr>)"
      using assms(2) H_get lru.get_inv [OF inv(1), of key now] lru_get_max [OF lru_inv_wf [OF inv(1)], of key now]
        resident_get [OF inv(1), of key now] by (intro edge_ok_lru) simp_all
    with H_get assms(4) show ?thesis
      by (auto simp: served_hit_def case_prod_unfold Let_def split: if_splits)
  next
    case (H_put key now p)
    let ?it = "\<lparr>item_key = key, size_bytes = int (length (pl_bytes p)), expiry = now + hour, item_value = None\<rparr>"
    have "max_size (lru_put ?it now (edge_lru s)) = max_size (edge_lru s)" using lru_put_result [OF lru_inv_wf [OF inv(1)]] by simp
    then have "edge_ok f mb (late \<union> {key}) (s\<lparr>edge_lru := lru_put ?it now (edge_lru s)\<rparr>)"
      using assms(2) H_put lru.put_inv [OF inv(1), of ?it now] resident_put [OF inv(1), of ?it now] by (intro edge_ok_lru) simp_all
    with H_put assms(3,4) show ?thesis by (auto simp: served_hit_def)
  next
    case (H_fetch key now)
    then obtain r where r: "up key u = (r, u')" "s' = s"
      "h' = (case r of Inl e \<Rightarrow> H_done key Bad_gateway | Inr resp \<Rightarrow> H_put key now (payload_of resp))"
      using assms(4) by (auto split: prod.splits sum.splits)
    have "\<forall>x. r = Inr x \<longrightarrow> x = f key" "\<forall>e. r = Inl e \<longrightarrow> (\<exists>u e. fst (up key u) = Inl e)"
      using assms(1) r(1) by (metis fst_conv honest_def)+
    with H_fetch r assms(2) show ?thesis
      by (cases r) (auto simp: edge_ok_def served_hit_def right_reply_def)
  next
    case (H_load key now)
    with assms show ?thesis by (cases "payloads s key") (auto simp: served_hit_def edge_ok_def)
  next
    case (H_store key p)
    then have r: "h' = H_done key (reply_with ''MISS'' edge p)" "s' = s\<lparr>payloads := (payloads s)(key \<mapsto> p)\<rparr>" "p = payload_of (f key)"
      using assms(3,4) by simp_all
    have "edge_ok f mb late s'" using assms(2) H_store unfolding edge_ok_def r by auto
    with H_store r show ?thesis by (simp add: served_hit_def right_reply_def reply_with_def)
  next
    case (H_hit key p)
    with assms have "h' = H_done key (reply_with ''HIT'' edge p)" "s' = s\<lparr>edge_hits := edge_hits s + 1\<rparr>" "p = payload_of (f key)"
      by simp_all
    with H_hit assms(2) show ?thesis by (simp add: served_hit_def right_reply_def reply_with_def edge_ok_def)
  next
    case (H_miss key now)
    with assms have "h' = H_fetch key now" "s' = s\<lparr>edge_misses := edge_misses s + 1\<rparr>" by simp_all
    with H_miss assms(2) show ?thesis by (simp add: served_hit_def edge_ok_def)
  next
    case (H_done key r)
    with assms show ?thesis by auto
  qed
qed

lemma pending_keys_update:
  assumes "i < length hs"
  defines "others \<equiv> pending_keys (take i hs @ drop (Suc i) hs)"
  shows "pending_keys hs = others \<union> pending (hs ! i)" "pending_keys (hs[i := h]) = others \<union> pending h"
proof -
  have "hs = take i hs @ hs ! i # drop (Suc i) hs" using assms(1) by (rule id_take_nth_drop)
  then have "set hs = insert (hs ! i) (set (take i hs) \<union> set (drop (Suc i) hs))"
    by (metis Un_insert_right list.simps(15) set_append)
  then show "pending_keys hs = others \<union> pending (hs ! i)" by (auto simp: pending_keys_def others_def)
  show "pending_keys (hs[i := h]) = others \<union> pending h"
    using assms(1) by (auto simp: pending_keys_def others_def upd_conv_take_nth_drop)
qed

lemma edge_step_inv:
  assumes "edge_step edge up S T" "honest f up" "system_inv up f edge mb S"
  shows "system_inv up f edge mb T"
  using assms(1)
proof cases
  case (arrive key now)
  then show ?thesis using assms(3) by (simp add: system_inv_def pending_keys_def tally_append tally_def served_hit_def)
next
  case (advance i h s u)
  let ?hs = "sys_handlers S" and ?rest = "take i (sys_handlers S) @ drop (Suc i) (sys_handlers S)"
  have "edge_ok f mb (pending_keys ?rest \<union> pending (?hs ! i)) (sys_edge S)"
    using assms(3) pending_keys_update(1) [OF advance(2)] by (simp add: system_inv_def)
  moreover have "handler_ok up f edge (?hs ! i)" using assms(3) advance(2) by (simp add: system_inv_def)
  ultimately have ok: "edge_ok f mb (pending_keys ?rest \<union> pending h) s" "handler_ok up f edge h"
    "edge_hits s = edge_hits (sys_edge S) - of_bool (served_hit (?hs ! i)) + of_bool (served_hit h)"
    "edge_misses s = edge_misses (sys_edge S) - of_bool (past_miss (?hs ! i)) + of_bool (past_miss h)"
    using handler_step_ok [OF assms(2) _ _ advance(4)] by blast+
  moreover have "\<forall>g\<in>set (?hs[i := h]). handler_ok up f edge g"
    using assms(3) ok(2) set_update_subset_insert [of ?hs i h] by (auto simp: system_inv_def)
  ultimately show ?thesis
    using assms(3) pending_keys_update(2) [OF advance(2), of h]
    by (simp add: system_inv_def advance(1) tally_update [OF advance(2)])
qed

lemma edge_reach_inv: "edge_reach edge up mb u0 S \<Longrightarrow> honest f up \<Longrightarrow> 0 \<le> mb \<Longrightarrow> system_inv up f edge mb S"
proof (induction rule: edge_reach.induct)
  case start
  have "edge_inv f (new_edge mb)" using start by (intro edge_inv_new)
  then show ?case by (auto simp: system_inv_def edge_inv_def edge_ok_def tally_def new_edge_def new_lru_def)
next
  case (step S T)
  then show ?case by (blast intro: edge_step_inv)
qed

section \<open>What the edge promises under load\<close>

lemma finished_counts:
  "\<forall>h\<in>set hs. finished h \<and> handler_ok up f edge h \<Longrightarrow> tally served_hit hs + tally past_miss hs = int (length hs)"
proof (induction hs)
  case (Cons h hs)
  then obtain key r where h: "h = H_done key r" by (cases h) auto
  with Cons.prems have "of_bool (served_hit h) + of_bool (past_miss h) = (1 :: int)"
    by (auto simp: served_hit_def right_reply_def reply_with_def)
  with Cons show ?case by (simp add: tally_Cons)
qed (simp add: tally_def)

lemma reach_right_reply:
  assumes "edge_reach edge up mb u0 S" "honest f up" "0 \<le> mb" "H_done key r \<in> set (sys_handlers S)"
  shows "right_reply up f edge key r"
  using edge_reach_inv [OF assms(1-3)] assms(4) by (force simp: system_inv_def)

lemma finished_pending: "\<forall>h\<in>set hs. finished h \<Longrightarrow> pending_keys hs = {}"
  by (fastforce simp: pending_keys_def elim: finished.elims)

text \<open>C12: Concurrent requests do not corrupt the edge. Whatever requests arrive, and however the atomic steps of their handlers
  interleave, over an upstream that may fail but never lies every reply that has been written carries the bytes, content id
  and type the upstream has for the path of its own request, or is a 502 for a path the upstream fails on; the cache stays within its byte budget; the two counters
  count exactly the handlers that served a hit and those that went upstream; and once no handler is at work they add up to the
  requests, and every cached path has its payload.\<close>

theorem edge_concurrent_safe:
  assumes "edge_reach edge up mb u0 S" "honest f up" "0 \<le> mb"
  shows "(\<forall>key r. H_done key r \<in> set (sys_handlers S) \<longrightarrow> right_reply up f edge key r)
    \<and> current_size (edge_lru (sys_edge S)) \<le> mb * 1024 * 1024
    \<and> edge_hits (sys_edge S) = tally served_hit (sys_handlers S) \<and> edge_misses (sys_edge S) = tally past_miss (sys_handlers S)
    \<and> ((\<forall>h\<in>set (sys_handlers S). finished h) \<longrightarrow>
        edge_hits (sys_edge S) + edge_misses (sys_edge S) = int (length (sys_handlers S))
        \<and> dom (lru_resident (edge_lru (sys_edge S))) \<subseteq> dom (payloads (sys_edge S)))"
proof -
  from edge_reach_inv [OF assms] have inv: "system_inv up f edge mb S" .
  then have "lru_inv (edge_lru (sys_edge S))" "max_size (edge_lru (sys_edge S)) = mb * 1024 * 1024"
    by (simp_all add: system_inv_def edge_ok_def)
  then have "current_size (edge_lru (sys_edge S)) \<le> mb * 1024 * 1024" by (simp add: lru_inv_def)
  moreover have "right_reply up f edge key r" if "H_done key r \<in> set (sys_handlers S)" for key r
    using reach_right_reply [OF assms that] .
  ultimately show ?thesis
    using inv finished_counts [of "sys_handlers S" up f edge] finished_pending [of "sys_handlers S"]
    by (auto simp: system_inv_def edge_ok_def)
qed

fun handler_key :: "handler \<Rightarrow> string" where
  "handler_key (H_get key now) = key" | "handler_key (H_load key now) = key" | "handler_key (H_hit key p) = key"
| "handler_key (H_miss key now) = key" | "handler_key (H_fetch key now) = key" | "handler_key (H_put key now p) = key"
| "handler_key (H_store key p) = key" | "handler_key (H_done key r) = key"

lemma handler_step_progress:
  "\<not> finished h \<Longrightarrow> handler_step edge up h (s, u) = (h', s', u') \<Longrightarrow> steps_left h' < steps_left h \<and> handler_key h' = handler_key h"
  by (cases h) (auto simp: Let_def split: prod.splits sum.splits option.splits if_splits)

definition work :: "'u edge_system \<Rightarrow> nat" where
  "work S = sum_list (map steps_left (sys_handlers S))"

lemma work_update:
  "i < length hs \<Longrightarrow> steps_left h < steps_left (hs ! i) \<Longrightarrow> sum_list (map steps_left (hs[i := h])) < sum_list (map steps_left hs)"
proof (induction hs arbitrary: i)
  case (Cons g gs)
  then show ?case by (cases i) simp_all
qed simp

lemma advance_work:
  assumes "i < length (sys_handlers S)" "\<not> finished (sys_handlers S ! i)"
    and "handler_step edge up (sys_handlers S ! i) (sys_edge S, sys_upstream S) = (h, s, u)"
  shows "work \<lparr>sys_edge = s, sys_upstream = u, sys_handlers = (sys_handlers S)[i := h]\<rparr> < work S
    \<and> map handler_key ((sys_handlers S)[i := h]) = map handler_key (sys_handlers S)"
  using work_update [OF assms(1)] handler_step_progress [OF assms(2,3)] assms(1)
  by (simp add: work_def map_update list_update_same_conv)

text \<open>A step of some handler, with no new request.\<close>

definition edge_advance :: "string \<Rightarrow> 'u upstream \<Rightarrow> 'u edge_system \<Rightarrow> 'u edge_system \<Rightarrow> bool" where
  "edge_advance edge up S T \<longleftrightarrow> edge_step edge up S T \<and> work T < work S \<and> map handler_key (sys_handlers T) = map handler_key (sys_handlers S)"

lemma edge_advances: "\<not> (\<forall>h\<in>set (sys_handlers S). finished h) \<Longrightarrow> \<exists>T. edge_advance edge up S T"
proof -
  assume "\<not> (\<forall>h\<in>set (sys_handlers S). finished h)"
  then obtain i where i: "i < length (sys_handlers S)" "\<not> finished (sys_handlers S ! i)" by (auto simp: in_set_conv_nth)
  obtain h s u where st: "handler_step edge up (sys_handlers S ! i) (sys_edge S, sys_upstream S) = (h, s, u)" by (metis prod_cases3)
  from advance [OF i st] advance_work [OF i st] show ?thesis unfolding edge_advance_def by (metis edge_system.select_convs(3))
qed

interpretation handlers: ending_process "edge_advance edge up" "\<lambda>S. map handler_key (sys_handlers S) = keys"
    "\<lambda>S. \<forall>h\<in>set (sys_handlers S). finished h" work for edge up keys
  by unfold_locales (simp add: edge_advance_def, simp add: edge_advance_def, erule edge_advances)

lemma edge_advance_steps: "(edge_advance edge up)\<^sup>*\<^sup>* S T \<Longrightarrow> (edge_step edge up)\<^sup>*\<^sup>* S T"
  by (induction rule: rtranclp_induct) (auto simp: edge_advance_def)

lemma run_to_end:
  "\<exists>T. (edge_step edge up)\<^sup>*\<^sup>* S T \<and> map handler_key (sys_handlers T) = map handler_key (sys_handlers S)
    \<and> (\<forall>h\<in>set (sys_handlers T). finished h)"
  using handlers.runs_end [of S "map handler_key (sys_handlers S)" edge up] edge_advance_steps by blast

text \<open>C14: Every request to the edge ends. A handler that runs alone does in six steps what the sequential handler does, with the same
  reply and the same state; a step of any handler leaves less work, so between two arrivals only finitely many steps are possible;
  and from every state the handlers at work can all be run to their replies, with none added and none lost.\<close>

theorem edge_requests_end:
  "((\<lambda>(h, su). handler_step edge up h su) ^^ 6) (H_get key now, s, u) = apfst (H_done key) (segment_handler edge up key now (s, u))
    \<and> (edge_step edge up S T \<longrightarrow> (\<exists>key now. T = S\<lparr>sys_handlers := sys_handlers S @ [H_get key now]\<rparr>) \<or> work T < work S)
    \<and> (\<exists>T. (edge_step edge up)\<^sup>*\<^sup>* S T \<and> map handler_key (sys_handlers T) = map handler_key (sys_handlers S)
        \<and> (\<forall>h\<in>set (sys_handlers T). finished h))"
proof (intro conjI impI)
  show "((\<lambda>(h, su). handler_step edge up h su) ^^ 6) (H_get key now, s, u) = apfst (H_done key) (segment_handler edge up key now (s, u))"
    by (simp add: eval_nat_numeral segment_handler_def edge_lookup_def reply_with_def payload_of_def Let_def split: prod.splits option.splits sum.splits)
  assume "edge_step edge up S T"
  then show "(\<exists>key now. T = S\<lparr>sys_handlers := sys_handlers S @ [H_get key now]\<rparr>) \<or> work T < work S"
  proof cases
    case (advance i h s u)
    then show ?thesis using advance_work [OF advance(2,3,4)] by simp
  qed blast
qed (rule run_to_end)

section \<open>A concurrent run\<close>

lemma edge_reach_steps: "(edge_step edge up)\<^sup>*\<^sup>* S T \<Longrightarrow> edge_reach edge up mb u0 S \<Longrightarrow> edge_reach edge up mb u0 T"
  by (induction rule: rtranclp_induct) (auto intro: edge_reach.step)

theorem edge_concurrent_safe_witness:
  "\<exists>S. edge_reach ''e'' demo_upstream 1 0 S \<and> map handler_key (sys_handlers S) = [''/a'', ''/a'']
    \<and> edge_hits (sys_edge S) + edge_misses (sys_edge S) = 2 \<and> current_size (edge_lru (sys_edge S)) \<le> 1048576"
proof -
  let ?S0 = "\<lparr>sys_edge = new_edge 1, sys_upstream = 0, sys_handlers = []\<rparr>"
  let ?S = "?S0\<lparr>sys_handlers := [H_get ''/a'' 5, H_get ''/a'' 6]\<rparr>"
  have "edge_reach ''e'' demo_upstream 1 0 (?S0\<lparr>sys_handlers := [H_get ''/a'' 5]\<rparr>)"
    using edge_reach.step [OF edge_reach.start arrive [where key = "''/a''" and now = 5]] by simp
  from edge_reach.step [OF this arrive [where key = "''/a''" and now = 6]] have "edge_reach ''e'' demo_upstream 1 0 ?S" by simp
  moreover obtain T where T: "(edge_step ''e'' demo_upstream)\<^sup>*\<^sup>* ?S T" "map handler_key (sys_handlers T) = [''/a'', ''/a'']"
    "\<forall>h\<in>set (sys_handlers T). finished h"
    using run_to_end [of "''e''" demo_upstream ?S] by auto
  ultimately have r: "edge_reach ''e'' demo_upstream 1 0 T" by (blast intro: edge_reach_steps)
  have "honest (\<lambda>key. \<lparr>up_status = 404, up_content_id = [], up_type = ''text/plain'', up_body = [7, 8]\<rparr>) demo_upstream"
    by (simp add: honest_def demo_upstream_def)
  from edge_concurrent_safe [OF r this] T(2,3) arg_cong [OF T(2), of length] r show ?thesis by auto
qed

theorem edge_requests_end_witness:
  "\<exists>T. edge_step ''e'' demo_upstream \<lparr>sys_edge = new_edge 1, sys_upstream = 0, sys_handlers = [H_miss ''/a'' 5]\<rparr> T \<and> work T < 4"
proof -
  let ?S = "\<lparr>sys_edge = new_edge 1, sys_upstream = 0, sys_handlers = [H_miss ''/a'' 5]\<rparr>"
  let ?T = "\<lparr>sys_edge = (new_edge 1)\<lparr>edge_misses := 1\<rparr>, sys_upstream = 0, sys_handlers = [H_fetch ''/a'' 5]\<rparr>"
  have "edge_step ''e'' demo_upstream ?S ?T"
    using advance [of 0 ?S "''e''" demo_upstream] by (simp add: new_edge_def)
  with edge_requests_end [of "''e''" demo_upstream "[]" 0 "new_edge 1" 0 ?S ?T] show ?thesis by (auto simp: work_def)
qed

end
