(* ===== verification/Statistics.thy ===== *)
theory Statistics
  imports Rand
begin

text \<open>
  \<open>internal/analysis/statistics.go\<close> and \<open>internal/metrics/percentile.go\<close>: descriptive statistics, nearest-rank
  percentiles, effect sizes, the rank-sum test and the bootstrap intervals, on lists of finite floats.
\<close>

section \<open>Descriptive statistics\<close>

definition count_f :: "'a list \<Rightarrow> real" where "count_f xs = i2f (int (length xs))"

definition mean :: "real list \<Rightarrow> real" where
  "mean xs = (if xs = [] then 0 else fdiv (foldl fadd 0 xs) (count_f xs))"

definition square_sum :: "real \<Rightarrow> real list \<Rightarrow> real" where
  "square_sum m xs = foldl (\<lambda>s v. fadd s (fmul (fsub v m) (fsub v m))) 0 xs"

definition sample_variance :: "real list \<Rightarrow> real \<Rightarrow> real" where
  "sample_variance xs m = (if length xs < 2 then 0 else fdiv (square_sum m xs) (i2f (int (length xs) - 1)))"

definition std_dev :: "real list \<Rightarrow> real" where
  "std_dev xs = (if xs = [] then 0 else fsqrt (fdiv (square_sum (mean xs) xs) (count_f xs)))"

definition ecdf :: "real list \<Rightarrow> real list \<times> real list" where
  "ecdf xs = (sort xs, map (\<lambda>i. fdiv (i2f (int i + 1)) (count_f xs)) [0..<length xs])"

section \<open>Percentiles\<close>

text \<open>\<open>analysis.Percentile\<close> clamps the percentage, \<open>metrics.Percentile\<close> returns the ends early, and
  \<open>percentileSorted\<close> expects a sorted slice.\<close>

definition percentile :: "real list \<Rightarrow> real \<Rightarrow> real" where
  "percentile xs p = (if xs = [] then 0 else let
       p = (if p < 0 then 0 else p);
       p = (if p > 100 then 100 else p);
       n = int (length xs);
       rank = f2i (fceil (fmul (fdiv p 100) (i2f n)));
       rank = (if rank < 1 then 1 else rank);
       rank = (if rank > n then n else rank)
     in sort xs ! nat (rank - 1))"

definition median :: "real list \<Rightarrow> real" where "median xs = percentile xs 50"

definition sorted_rank :: "real \<Rightarrow> int \<Rightarrow> int" where
  "sorted_rank p n = (let rank = f2i (fceil (fmul (fdiv p 100) (i2f n))) - 1;
     rank = (if rank < 0 then 0 else rank) in if rank \<ge> n then n - 1 else rank)"

definition metrics_percentile :: "real list \<Rightarrow> real \<Rightarrow> real" where
  "metrics_percentile xs p = (if xs = [] then 0 else let s = sort xs in
     if p \<le> 0 then s ! 0 else if p \<ge> 100 then s ! (length s - 1)
     else s ! nat (sorted_rank p (int (length s))))"

definition percentile_sorted :: "real list \<Rightarrow> real \<Rightarrow> real" where
  "percentile_sorted s p = (if s = [] then 0 else s ! nat (sorted_rank p (int (length s))))"

record percentile_set =
  ps_p50 :: real
  ps_p95 :: real
  ps_p99 :: real
  ps_min :: real
  ps_max :: real

definition build_percentile_set :: "real list \<Rightarrow> percentile_set" where
  "build_percentile_set xs = (if xs = [] then \<lparr>ps_p50 = 0, ps_p95 = 0, ps_p99 = 0, ps_min = 0, ps_max = 0\<rparr>
     else let s = sort xs in \<lparr>ps_p50 = percentile_sorted s 50, ps_p95 = percentile_sorted s 95,
       ps_p99 = percentile_sorted s 99, ps_min = s ! 0, ps_max = s ! (length s - 1)\<rparr>)"

record stat_set =
  ss_mean :: real
  ss_std_dev :: real
  ss_min :: real
  ss_max :: real

definition build_stat_set :: "real list \<Rightarrow> stat_set" where
  "build_stat_set xs = (if xs = [] then \<lparr>ss_mean = 0, ss_std_dev = 0, ss_min = 0, ss_max = 0\<rparr> else let
       m = fdiv (foldl fadd 0 xs) (count_f xs)
     in \<lparr>ss_mean = m, ss_std_dev = fsqrt (fdiv (square_sum m xs) (count_f xs)),
         ss_min = foldl (\<lambda>a v. if v < a then v else a) (hd xs) xs,
         ss_max = foldl (\<lambda>a v. if v > a then v else a) (hd xs) xs\<rparr>)"

section \<open>Effect sizes and the rank-sum test\<close>

definition effect_label :: "real \<Rightarrow> string" where
  "effect_label d = (let d = (if d < 0 then - d else d) in
     if d < fl (1 / 5) then ''negligible'' else if d < 1 / 2 then ''small'' else if d < fl (4 / 5) then ''medium'' else ''large'')"

definition cohens_d :: "real list \<Rightarrow> real list \<Rightarrow> real \<times> string" where
  "cohens_d xs ys = (let n1 = int (length xs); n2 = int (length ys) in
     if n1 = 0 \<or> n2 = 0 \<or> n1 + n2 \<le> 2 then (0, ''negligible'') else let
       m1 = mean xs; m2 = mean ys;
       s1 = sample_variance xs m1; s2 = sample_variance ys m2;
       pooled = fdiv (fadd (fmul (i2f (n1 - 1)) s1) (fmul (i2f (n2 - 1)) s2)) (i2f (n1 + n2 - 2))
     in if pooled \<le> 0 then (0, ''negligible'') else let
       d = fdiv (fsub m1 m2) (fsqrt pooled);
       ad = \<bar>d\<bar>
     in (d, if ad < fl (1 / 5) then ''negligible'' else if ad < 1 / 2 then ''small''
            else if ad < fl (4 / 5) then ''medium'' else ''large''))"

text \<open>Average ranks of the sorted entries, tie group by tie group. The code's sort is not stable, but tied entries
  have the same rank and the sums of halves are exact, so their order does not matter.\<close>

function tie_ranks :: "int \<Rightarrow> (real \<times> bool) list \<Rightarrow> real list" where
  "tie_ranks i [] = []"
| "tie_ranks i (e # es) = (let t = length (takeWhile (\<lambda>x. fst x = fst e) es); j = i + int t;
     avg = fdiv (i2f ((i + 1) + (j + 1))) 2
   in replicate (Suc t) avg @ tie_ranks (j + 1) (drop t es))"
  by pat_completeness auto
termination by (relation "measure (\<lambda>(i, es). length es)") simp_all

definition phi :: "libm \<Rightarrow> real \<Rightarrow> real" where
  "phi M x = fmul (1 / 2) (fadd 1 (m_erf M (fdiv x (6369051672525773 / 4503599627370496))))"

definition mann_whitney_u :: "libm \<Rightarrow> real list \<Rightarrow> real list \<Rightarrow> real \<times> real" where
  "mann_whitney_u M xs ys = (if xs = [] \<or> ys = [] then (0, 1) else let
       combined = sort_key fst (map (\<lambda>v. (v, True)) xs @ map (\<lambda>v. (v, False)) ys);
       r1 = foldl (\<lambda>s (e, r). if snd e then fadd s r else s) 0 (zip combined (tie_ranks 0 combined));
       n1 = count_f xs; n2 = count_f ys;
       u1 = fsub r1 (fdiv (fmul n1 (fadd n1 1)) 2);
       u2 = fsub (fmul n1 n2) u1;
       u = min u1 u2;
       mean_u = fdiv (fmul n1 n2) 2;
       var_u = fdiv (fmul (fmul n1 n2) (fadd (fadd n1 n2) 1)) 12
     in if var_u \<le> 0 then (u, 1) else let
       diff = fsub \<bar>fsub u mean_u\<bar> (1 / 2);
       diff = (if diff < 0 then 0 else diff);
       z = fdiv diff (fsqrt var_u);
       p = fmul 2 (fsub 1 (phi M z));
       p = (if p > 1 then 1 else p)
     in (u, if p < 0 then 0 else p))"

section \<open>Bootstrap\<close>

fun resample :: "'g rand_ops \<Rightarrow> real list \<Rightarrow> nat \<Rightarrow> 'g \<Rightarrow> real list \<times> 'g" where
  "resample R xs 0 g = ([], g)"
| "resample R xs (Suc k) g = (let (j, g1) = r_intn R (int (length xs)) g; (ys, g2) = resample R xs k g1 in (xs ! nat j # ys, g2))"

fun boot_stats :: "'g rand_ops \<Rightarrow> (real list \<Rightarrow> real) \<Rightarrow> real list \<Rightarrow> nat \<Rightarrow> 'g \<Rightarrow> real list \<times> 'g" where
  "boot_stats R stat xs 0 g = ([], g)"
| "boot_stats R stat xs (Suc k) g = (let (ys, g1) = resample R xs (length xs) g;
     (out, g2) = boot_stats R stat xs k g1 in (stat ys # out, g2))"

definition clamp_index :: "int \<Rightarrow> int \<Rightarrow> int" where
  "clamp_index iters i = (let i = (if i < 0 then 0 else i) in if i > iters - 1 then iters - 1 else i)"

text \<open>The end of both bootstraps: the two order statistics.\<close>

definition interval :: "real list \<Rightarrow> int \<Rightarrow> real \<Rightarrow> real \<times> real" where
  "interval stats iters alpha = (let s = sort stats;
     lo = clamp_index iters (f2i (fmul (fdiv alpha 2) (i2f iters)));
     hi = clamp_index iters (f2i (fmul (fsub 1 (fdiv alpha 2)) (i2f iters)))
   in (s ! nat lo, s ! nat hi))"

definition bootstrap :: "'g rand_ops \<Rightarrow> real list \<Rightarrow> (real list \<Rightarrow> real) \<Rightarrow> int \<Rightarrow> real \<Rightarrow> 'g \<Rightarrow> (real \<times> real) \<times> 'g" where
  "bootstrap R xs stat iters alpha g = (if xs = [] \<or> iters \<le> 0 then ((0, 0), g)
     else let (stats, g1) = boot_stats R stat xs (nat iters) g in (interval stats iters alpha, g1))"

definition improvement_pct :: "bool \<Rightarrow> real \<Rightarrow> real \<Rightarrow> real" where
  "improvement_pct higher_better ma mb = (if ma \<noteq> 0
     then if higher_better then fmul (fdiv (fsub mb ma) ma) 100 else fmul (fdiv (fsub ma mb) ma) 100 else 0)"

fun improvements :: "'g rand_ops \<Rightarrow> bool \<Rightarrow> real list \<Rightarrow> real list \<Rightarrow> nat \<Rightarrow> 'g \<Rightarrow> real list \<times> 'g" where
  "improvements R hb xs ys 0 g = ([], g)"
| "improvements R hb xs ys (Suc k) g = (let (as, g1) = resample R xs (length xs) g; (bs, g2) = resample R ys (length ys) g1;
     (out, g3) = improvements R hb xs ys k g2 in (improvement_pct hb (mean as) (mean bs) # out, g3))"

definition bootstrap_improvement :: "'g rand_ops \<Rightarrow> real list \<Rightarrow> real list \<Rightarrow> bool \<Rightarrow> int \<Rightarrow> real \<Rightarrow> 'g \<Rightarrow> (real \<times> real) \<times> 'g" where
  "bootstrap_improvement R xs ys hb iters alpha g = (if xs = [] \<or> ys = [] \<or> iters \<le> 0 then ((0, 0), g)
     else let (imps, g1) = improvements R hb xs ys (nat iters) g in (interval imps iters alpha, g1))"

section \<open>Nearest ranks\<close>

text \<open>The percentages 50, 95 and 99 of the reports: the rounded product never changes the rank.\<close>

lemma exact_rank:
  assumes p: "p \<in> {50, 95, 99}" and n: "0 \<le> n" "n \<le> 2 ^ 45"
  shows "f2i (fceil (fmul (fdiv p 100) (i2f n))) = \<lceil>p / 100 * of_int n\<rceil>"
proof -
  define q where "q = fdiv p 100"
  define k where "k = \<lceil>p / 100 * of_int n\<rceil>"
  have q: "q \<le> p / 100 \<and> p / 100 - 1 / 2 ^ 53 \<le> q"
  proof -
    have "fdiv 50 100 \<le> 50 / 100 \<and> 50 / 100 - 1 / 2 ^ 53 \<le> fdiv 50 100" by code_simp
    moreover have "fdiv 95 100 \<le> 95 / 100 \<and> 95 / 100 - 1 / 2 ^ 53 \<le> fdiv 95 100" by code_simp
    moreover have "fdiv 99 100 \<le> 99 / 100 \<and> 99 / 100 - 1 / 2 ^ 53 \<le> fdiv 99 100" by code_simp
    ultimately show ?thesis using p by (auto simp: q_def)
  qed
  have P: "\<exists>m::int. p = of_int m" using p by (auto intro: exI [of _ 50] exI [of _ 95] exI [of _ 99])
  then obtain m :: int where m: "p = of_int m" by blast
  have pp: "0 \<le> p" "p \<le> 100" using p by auto
  have x: "p / 100 * of_int n \<le> of_int k" "of_int k - 1 < p / 100 * of_int n" unfolding k_def by linarith+
  have "p / 100 * of_int n \<le> 1 * of_int n" using pp n by (intro mult_right_mono) simp_all
  then have kn: "k \<le> n" using x(2) by linarith
  have "0 \<le> p / 100 * of_int n" using pp n by simp
  then have k0: "0 \<le> k" using x(1) by linarith
  have nf: "i2f n = of_int n" using n by (intro i2f_exact) simp
  have up: "fmul q (i2f n) \<le> of_int k"
  proof -
    have "q * of_int n \<le> p / 100 * of_int n" using q n by (intro mult_right_mono) simp_all
    then have "q * of_int n \<le> of_int k" using x(1) by linarith
    moreover have "\<bar>k\<bar> \<le> 2 ^ 53" using kn k0 n(2) by simp
    ultimately show ?thesis unfolding fmul_def nf by (rule fl_le_int)
  qed
  have low: "of_int k - 1 < fmul q (i2f n)"
  proof -
    have "of_int (100 * (k - 1)) < (of_int (m * n) :: real)" using x(2) by (simp add: m)
    then have "100 * (k - 1) + 1 \<le> m * n" by linarith
    then have "(of_int (100 * (k - 1) + 1) :: real) \<le> of_int (m * n)" by linarith
    then have a: "of_int k - 1 + 1 / 100 \<le> p / 100 * of_int n" by (simp add: m field_simps)
    have "(of_int n :: real) \<le> 2 ^ 45" using n(2) by (metis of_int_le_iff of_int_numeral of_int_power)
    then have "(p / 100 - 1 / 2 ^ 53) * of_int n \<ge> p / 100 * of_int n - 1 / 256" by (simp add: algebra_simps)
    moreover have "(p / 100 - 1 / 2 ^ 53) * of_int n \<le> q * of_int n" using q n by (intro mult_right_mono) simp_all
    ultimately have b: "of_int k - 1 + 1 / 256 \<le> q * of_int n" using a by simp
    have "(of_int k :: real) - 1 + 1 / 256 = of_int (256 * (k - 1) + 1) * 2 powi (- 8)" by (simp add: power_int_minus field_simps)
    moreover have "\<bar>256 * (k - 1) + 1\<bar> \<le> (2 ^ 53 :: int)" using k0 kn n by simp
    ultimately have "float_rep (of_int k - 1 + 1 / 256)" unfolding float_rep_def by blast
    from fl_ge_rep [OF b this] show ?thesis by (simp add: fmul_def nf)
  qed
  have "\<lceil>fmul q (i2f n)\<rceil> = k" using up low by linarith
  moreover have "in_int64 k" using k0 kn n by (simp add: int64_defs)
  ultimately show ?thesis using f2i_of_int [of k] by (simp add: fceil_def q_def k_def)
qed

section \<open>What the percentiles are\<close>

lemma sorted_rank_bounds: "0 < n \<Longrightarrow> 0 \<le> sorted_rank p n \<and> sorted_rank p n < n"
  by (simp add: sorted_rank_def Let_def)

lemma percentiles_agree: "length xs \<le> 2 ^ 45 \<Longrightarrow> percentile xs p = metrics_percentile xs p"
proof (cases "xs = []")
  case False
  assume len: "length xs \<le> 2 ^ 45"
  define n where "n = int (length xs)"
  have n: "1 \<le> n" "n \<le> 2 ^ 45" using False len by (simp_all add: n_def Suc_leI)
  have hundred: "f2i (fceil (fmul (fdiv 100 100) (i2f n))) = n"
  proof -
    have "i2f n = of_int n" using n by (intro i2f_exact) simp
    moreover have "fl (of_int n) = of_int n" using n by (intro fl_int) simp
    moreover have "in_int64 n" using n by (simp add: int64_defs)
    ultimately show ?thesis by (simp add: fdiv_def fmul_def fceil_def f2i_of_int)
  qed
  have zero: "f2i (fceil (fmul (fdiv 0 100) (i2f n))) = 0"
    by (simp add: fdiv_def fmul_def fceil_def f2i_def int64_defs)
  consider "p \<le> 0" | "100 \<le> p" | "0 < p" "p < 100" by linarith
  then show ?thesis
  proof cases
    case 1
    then have "percentile xs p = sort xs ! 0"
      using False zero n by (cases "p < 0") (simp_all add: percentile_def Let_def n_def [symmetric])
    with 1 False show ?thesis by (simp add: metrics_percentile_def Let_def)
  next
    case 2
    then have "percentile xs p = sort xs ! nat (n - 1)"
      using False hundred n by (cases "100 < p") (simp_all add: percentile_def Let_def n_def [symmetric])
    moreover have "nat (n - 1) = length xs - 1" by (simp add: n_def)
    ultimately show ?thesis using 2 False by (simp add: metrics_percentile_def Let_def)
  next
    case 3
    define k where "k = f2i (fceil (fmul (fdiv p 100) (i2f n)))"
    have "percentile xs p = sort xs ! nat ((if (if k < 1 then 1 else k) > n then n else (if k < 1 then 1 else k)) - 1)"
      using 3 False by (simp add: percentile_def Let_def n_def [symmetric] k_def [symmetric])
    moreover have "sorted_rank p n = (if (if k < 1 then 1 else k) > n then n else (if k < 1 then 1 else k)) - 1"
      using n by (simp add: sorted_rank_def Let_def k_def [symmetric])
    ultimately show ?thesis using 3 False by (simp add: metrics_percentile_def Let_def n_def [symmetric])
  qed
qed (simp add: percentile_def metrics_percentile_def)

lemma exact_sorted_rank:
  assumes "p \<in> {50, 95, 99}" "0 < n" "n \<le> 2 ^ 45"
  shows "sorted_rank p n = \<lceil>p / 100 * of_int n\<rceil> - 1"
proof -
  have "0 < p / 100 * of_int n" using assms by auto
  then have "1 \<le> \<lceil>p / 100 * of_int n\<rceil>" by linarith
  moreover have "p / 100 * of_int n \<le> 1 * of_int n" using assms by (intro mult_right_mono) auto
  then have "\<lceil>p / 100 * of_int n\<rceil> \<le> n" by linarith
  ultimately show ?thesis using exact_rank [OF assms(1) _ assms(3)] assms(2) by (simp add: sorted_rank_def Let_def)
qed

text \<open>Percentiles. The two implementations agree for every percentage, also outside 0 to 100. The 50th, 95th and
  99th percentiles of the reports are exactly the nearest ranks of the sorted sample, in spite of the rounded products, and
  a percentile set is ordered from its minimum to its maximum, each field an element of the sample.\<close>

lemma percentile_nearest_rank:
  assumes "xs \<noteq> []" "length xs \<le> 2 ^ 45"
  defines "s \<equiv> build_percentile_set xs"
  shows "percentile xs p = metrics_percentile xs p
    \<and> (\<forall>q\<in>{50, 95, 99}. percentile xs q = sort xs ! nat (\<lceil>q / 100 * of_int (int (length xs))\<rceil> - 1))
    \<and> ps_p50 s = percentile xs 50 \<and> ps_p95 s = percentile xs 95 \<and> ps_p99 s = percentile xs 99
    \<and> ps_min s \<le> ps_p50 s \<and> ps_p50 s \<le> ps_p95 s \<and> ps_p95 s \<le> ps_p99 s \<and> ps_p99 s \<le> ps_max s
    \<and> {ps_min s, ps_p50 s, ps_p95 s, ps_p99 s, ps_max s} \<subseteq> set xs"
proof -
  let ?n = "int (length xs)"
  have n: "0 < ?n" "?n \<le> 2 ^ 45" using assms(1,2) by simp_all
  have q: "percentile xs q = sort xs ! nat (sorted_rank q ?n)" if "q \<in> {50, 95, 99}" for q
    using that percentiles_agree [OF assms(2), of q] assms(1) by (auto simp: metrics_percentile_def Let_def)
  have r: "sorted_rank q ?n = \<lceil>q / 100 * of_int ?n\<rceil> - 1" if "q \<in> {50, 95, 99}" for q
    by (rule exact_sorted_rank [OF that n])
  have s: "ps_p50 s = sort xs ! nat (sorted_rank 50 ?n)" "ps_p95 s = sort xs ! nat (sorted_rank 95 ?n)"
    "ps_p99 s = sort xs ! nat (sorted_rank 99 ?n)" "ps_min s = sort xs ! 0" "ps_max s = sort xs ! (length xs - 1)"
    using assms(1) by (simp_all add: s_def build_percentile_set_def percentile_sorted_def Let_def)
      (metis length_0_conv length_sort)+
  have mono: "sorted_rank a ?n \<le> sorted_rank b ?n" if "a \<le> b" "a \<in> {50, 95, 99}" "b \<in> {50, 95, 99}" for a b
  proof -
    have "a / 100 * of_int ?n \<le> b / 100 * of_int ?n" using that(1) by (intro mult_right_mono) simp_all
    then have "\<lceil>a / 100 * of_int ?n\<rceil> \<le> \<lceil>b / 100 * of_int ?n\<rceil>" by (rule ceiling_mono)
    then show ?thesis unfolding r [OF that(2)] r [OF that(3)] by linarith
  qed
  have idx: "nat (sorted_rank a ?n) < length xs" for a using sorted_rank_bounds [OF n(1), of a] by linarith
  have ord: "sort xs ! i \<le> sort xs ! j" if "i \<le> j" "j < length xs" for i j
    using sorted_nth_mono [OF sorted_sort that(1)] that(2) by simp
  have mem: "sort xs ! i \<in> set xs" if "i < length xs" for i using nth_mem [of i "sort xs"] that by simp
  have "nat (sorted_rank 99 ?n) \<le> length xs - 1" using idx [of 99] by simp
  moreover have "nat (sorted_rank 50 ?n) \<le> nat (sorted_rank 95 ?n)" "nat (sorted_rank 95 ?n) \<le> nat (sorted_rank 99 ?n)"
    using mono [of 50 95] mono [of 95 99] by (simp_all add: nat_mono)
  ultimately have "ps_min s \<le> ps_p50 s \<and> ps_p50 s \<le> ps_p95 s \<and> ps_p95 s \<le> ps_p99 s \<and> ps_p99 s \<le> ps_max s"
    using ord idx assms(1) by (simp add: s)
  moreover have "{ps_min s, ps_p50 s, ps_p95 s, ps_p99 s, ps_max s} \<subseteq> set xs"
    using mem idx assms(1) by (simp add: s)
  ultimately show ?thesis using percentiles_agree [OF assms(2), of p] q r s by simp
qed

section \<open>What the effect size and the intervals are\<close>

lemma fsub_flip: "fsub y x = - fsub x y"
  using fl_minus [of "x - y"] by (simp add: fsub_def)

lemma fdiv_minus: "fdiv (- x) y = - fdiv x y"
  using fl_minus [of "x / y"] by (simp add: fdiv_def)

text \<open>Cohen's d. Swapping the groups changes only the sign of the effect size, and the interpretation returned
  with it is always the label \<open>EffectLabel\<close> gives that number.\<close>

lemma cohens_d_symmetric:
  "cohens_d ys xs = (- fst (cohens_d xs ys), snd (cohens_d xs ys)) \<and> snd (cohens_d xs ys) = effect_label (fst (cohens_d xs ys))"
proof -
  have "0 < fl (1 / 5)" by (simp add: fl_pos)
  moreover have "fadd a b = fadd b a" for a b by (simp add: fadd_def add.commute)
  moreover have "(if d < 0 then - d else d) = \<bar>d\<bar>" for d :: real by simp
  ultimately show ?thesis
    using fsub_flip [of "mean ys" "mean xs"]
    by (simp add: cohens_d_def Let_def effect_label_def fdiv_minus add.commute)
qed

lemma resample_from: "rand_ok R \<Longrightarrow> xs \<noteq> [] \<Longrightarrow> length (fst (resample R xs k g)) = k \<and> set (fst (resample R xs k g)) \<subseteq> set xs"
proof (induction k arbitrary: g)
  case (Suc k)
  have "0 < int (length xs)" using Suc.prems(2) by simp
  then have "0 \<le> fst (r_intn R (int (length xs)) g)" "fst (r_intn R (int (length xs)) g) < int (length xs)"
    using Suc.prems(1) unfolding rand_ok_def by blast+
  then have "nat (fst (r_intn R (int (length xs)) g)) < length xs" by linarith
  then show ?case using Suc by (simp add: case_prod_unfold Let_def)
qed simp

lemma boot_stats_from:
  assumes "rand_ok R" "xs \<noteq> []"
  shows "length (fst (boot_stats R stat xs k g)) = k \<and>
    (\<forall>v\<in>set (fst (boot_stats R stat xs k g)). \<exists>ys. length ys = length xs \<and> set ys \<subseteq> set xs \<and> v = stat ys)"
proof (induction k arbitrary: g)
  case (Suc k)
  with resample_from [OF assms] show ?case by (auto simp: case_prod_unfold Let_def)
qed simp

lemma clamp_index_bounds: "0 < n \<Longrightarrow> 0 \<le> clamp_index n i \<and> clamp_index n i < n"
  by (simp add: clamp_index_def Let_def)

lemma clamp_index_mono: "i \<le> j \<Longrightarrow> clamp_index n i \<le> clamp_index n j"
  by (simp add: clamp_index_def Let_def)

lemma float_rep_half: "float_rep (1 / 2)"
proof -
  have "(1 / 2 :: real) = of_int 1 * 2 powi (- 1)" by simp
  then show ?thesis unfolding float_rep_def by (metis abs_one one_le_power one_le_numeral)
qed

lemma interval_spec:
  assumes "length stats = nat n" "0 < n" "n \<le> 2 ^ 53" "0 \<le> alpha" "alpha \<le> 1"
  shows "case interval stats n alpha of (lo, hi) \<Rightarrow> lo \<le> hi \<and> lo \<in> set stats \<and> hi \<in> set stats"
proof -
  let ?x = "fmul (fdiv alpha 2) (i2f n)" and ?y = "fmul (fsub 1 (fdiv alpha 2)) (i2f n)"
  have nf: "i2f n = of_int n" using assms(2,3) by (intro i2f_exact) simp
  have a: "0 \<le> fdiv alpha 2" "fdiv alpha 2 \<le> 1 / 2"
    using assms(4,5) fl_le_rep [OF _ float_rep_half, of "alpha / 2"] by (simp_all add: fdiv_def fl_nonneg)
  have b: "1 / 2 \<le> fsub 1 (fdiv alpha 2)" "fsub 1 (fdiv alpha 2) \<le> 1"
    using a fl_ge_rep [OF _ float_rep_half, of "1 - fdiv alpha 2"] fl_le_int [of "1 - fdiv alpha 2" 1] by (simp_all add: fsub_def)
  have "0 \<le> ?x" using a assms(2) by (simp add: fmul_nonneg nf)
  moreover have "?x \<le> ?y" unfolding fmul_def nf using a b assms(2) by (intro fl_mono mult_right_mono) simp_all
  moreover have "?y \<le> of_int n"
  proof -
    have "fsub 1 (fdiv alpha 2) * of_int n \<le> of_int n" using b assms(2) by (simp add: mult_left_le_one_le)
    then show ?thesis unfolding fmul_def nf using assms(2,3) by (intro fl_le_int) simp_all
  qed
  ultimately have "f2i ?x \<le> f2i ?y" using trunc_f2i [of ?x ?y n] assms(3) by (simp add: int64_max_def)
  then have "clamp_index n (f2i ?x) \<le> clamp_index n (f2i ?y)" by (rule clamp_index_mono)
  moreover note clamp_index_bounds [OF assms(2), of "f2i ?x"] clamp_index_bounds [OF assms(2), of "f2i ?y"]
  ultimately have i: "nat (clamp_index n (f2i ?x)) \<le> nat (clamp_index n (f2i ?y))"
    "nat (clamp_index n (f2i ?x)) < length stats" "nat (clamp_index n (f2i ?y)) < length stats"
    using assms(1) by linarith+
  then have "sort stats ! nat (clamp_index n (f2i ?x)) \<le> sort stats ! nat (clamp_index n (f2i ?y))"
    by (intro sorted_nth_mono) simp_all
  moreover have "sort stats ! j \<in> set stats" if "j < length stats" for j using nth_mem [of j "sort stats"] that by simp
  ultimately show ?thesis using i by (simp add: interval_def Let_def)
qed

text \<open>Bootstrap intervals. For a level between 0 and 1 the lower end is at most the upper end, and both are values of
  the statistic on resamples of the data's size drawn from the data. The improvement interval is ordered as well.\<close>

lemma bootstrap_interval:
  assumes "rand_ok R" "xs \<noteq> []" "ys \<noteq> []" "0 < iters" "iters \<le> 2 ^ 53" "0 \<le> alpha" "alpha \<le> 1"
  shows "(case fst (bootstrap R xs stat iters alpha g) of (lo, hi) \<Rightarrow> lo \<le> hi
      \<and> (\<exists>as bs. length as = length xs \<and> set as \<subseteq> set xs \<and> lo = stat as \<and> length bs = length xs \<and> set bs \<subseteq> set xs \<and> hi = stat bs))
    \<and> (case fst (bootstrap_improvement R xs ys hb iters alpha g) of (lo, hi) \<Rightarrow> lo \<le> hi)"
proof (intro conjI)
  let ?st = "fst (boot_stats R stat xs (nat iters) g)"
  note st = boot_stats_from [OF assms(1,2), of stat "nat iters" g]
  obtain lo hi where i: "interval ?st iters alpha = (lo, hi)" by fastforce
  have "lo \<le> hi \<and> lo \<in> set ?st \<and> hi \<in> set ?st" using interval_spec [of ?st iters alpha] st i assms(4-7) by simp
  with st have "lo \<le> hi \<and> (\<exists>as. length as = length xs \<and> set as \<subseteq> set xs \<and> lo = stat as)
    \<and> (\<exists>bs. length bs = length xs \<and> set bs \<subseteq> set xs \<and> hi = stat bs)" by blast
  then show "case fst (bootstrap R xs stat iters alpha g) of (lo, hi) \<Rightarrow> lo \<le> hi
      \<and> (\<exists>as bs. length as = length xs \<and> set as \<subseteq> set xs \<and> lo = stat as \<and> length bs = length xs \<and> set bs \<subseteq> set xs \<and> hi = stat bs)"
    using i assms(2,4) by (auto simp: bootstrap_def case_prod_unfold Let_def)
next
  have "length (fst (improvements R hb xs ys k g)) = k" for k
    by (induction k arbitrary: g) (simp_all add: case_prod_unfold Let_def)
  from interval_spec [OF this [of "nat iters"] assms(4-7)]
  show "case fst (bootstrap_improvement R xs ys hb iters alpha g) of (lo, hi) \<Rightarrow> lo \<le> hi"
    using assms(2-4) by (auto simp: bootstrap_improvement_def case_prod_unfold Let_def)
qed

end
