(* ===== verification/RankSum.thy ===== *)
theory RankSum
  imports Statistics "HOL-Library.Multiset"
begin

text \<open>
  The rank-sum test of \<open>internal/analysis/statistics.go\<close> against its definition by pairs: the statistic
  computed from the average ranks of the sorted pool is the number of pairs in which the first group wins,
  ties counting one half. All sums are of halves of integers below 2^53, so the floats are exact.
\<close>

section \<open>Halves\<close>

lemma float_rep_halves: "\<bar>k\<bar> \<le> 2 ^ 53 \<Longrightarrow> float_rep (of_int k / 2)"
proof -
  assume "\<bar>k\<bar> \<le> 2 ^ 53"
  moreover have "(of_int k :: real) / 2 = of_int k * 2 powi (- 1)" by (simp add: power_int_minus)
  ultimately show ?thesis unfolding float_rep_def by blast
qed

lemma fl_halves: "\<bar>k\<bar> \<le> 2 ^ 53 \<Longrightarrow> fl (of_int k / 2) = of_int k / 2"
  by (simp add: fl_exact float_rep_halves)

lemma fadd_halves: "0 \<le> a \<Longrightarrow> 0 \<le> b \<Longrightarrow> a + b \<le> 2 ^ 53 \<Longrightarrow> fadd (of_int a / 2) (of_int b / 2) = of_int (a + b) / 2"
  using fl_halves [of "a + b"] by (simp add: fadd_def add_divide_distrib)

lemma fold_halves:
  "0 \<le> a \<Longrightarrow> \<forall>e\<in>set es. 0 \<le> k e \<Longrightarrow> a + sum_list (map k (filter P es)) \<le> 2 ^ 53 \<Longrightarrow>
    foldl (\<lambda>s (e, r). if P e then fadd s r else s) (of_int a / 2) (zip es (map (\<lambda>e. of_int (k e) / 2) es))
      = of_int (a + sum_list (map k (filter P es))) / 2"
proof (induction es arbitrary: a)
  case (Cons e es)
  have "0 \<le> sum_list (map k (filter P es))" using Cons.prems(2) by (intro sum_list_nonneg) auto
  then show ?case
  proof (cases "P e")
    case True
    have "fadd (of_int a / 2) (of_int (k e) / 2) = of_int (a + k e) / 2"
      using Cons.prems \<open>0 \<le> sum_list _\<close> True by (intro fadd_halves) simp_all
    moreover have "foldl (\<lambda>s (e, r). if P e then fadd s r else s) (of_int (a + k e) / 2) (zip es (map (\<lambda>e. of_int (k e) / 2) es))
        = of_int (a + k e + sum_list (map k (filter P es))) / 2"
      by (rule Cons.IH) (use Cons.prems True in auto)
    ultimately show ?thesis using True by (simp only: list.map zip_Cons_Cons foldl_Cons prod.case if_True filter.simps sum_list.Cons add.assoc)
  next
    case False
    with Cons show ?thesis by simp
  qed
qed simp

section \<open>Ranks by counting\<close>

definition less_count :: "real \<Rightarrow> (real \<times> 'a) list \<Rightarrow> int" where
  "less_count v es = int (length (filter (\<lambda>x. fst x < v) es))"

definition eq_count :: "real \<Rightarrow> (real \<times> 'a) list \<Rightarrow> int" where
  "eq_count v es = int (length (filter (\<lambda>x. fst x = v) es))"

text \<open>Twice the average rank of an entry in a pool.\<close>

definition twice_rank :: "(real \<times> 'a) list \<Rightarrow> real \<Rightarrow> int" where
  "twice_rank es v = 2 * less_count v es + eq_count v es + 1"

lemma counts_append:
  "less_count v (xs @ ys) = less_count v xs + less_count v ys" "eq_count v (xs @ ys) = eq_count v xs + eq_count v ys"
  by (simp_all add: less_count_def eq_count_def)

lemma counts_mset: "mset es = mset fs \<Longrightarrow> less_count v es = less_count v fs \<and> eq_count v es = eq_count v fs"
  unfolding less_count_def eq_count_def by (metis mset_filter size_mset)

lemma after_group: "sorted (map fst (e # es)) \<Longrightarrow> x \<in> set (dropWhile (\<lambda>x. fst x = fst e) es) \<Longrightarrow> fst e < fst x"
proof (induction es)
  case (Cons y ys)
  then show ?case by (cases "fst y = fst e") (auto simp: less_le)
qed simp

lemma group_counts:
  assumes "sorted (map fst (e # es))"
  defines "tied \<equiv> e # takeWhile (\<lambda>x. fst x = fst e) es" and "rest \<equiv> dropWhile (\<lambda>x. fst x = fst e) es"
  shows "\<forall>x\<in>set tied. less_count (fst x) (e # es) = 0 \<and> eq_count (fst x) (e # es) = int (length tied)"
    and "\<forall>x\<in>set rest. less_count (fst x) (e # es) = less_count (fst x) rest + int (length tied) \<and> eq_count (fst x) (e # es) = eq_count (fst x) rest"
proof -
  have split: "e # es = tied @ rest" by (simp add: tied_def rest_def)
  have t: "fst x = fst e" if "x \<in> set tied" for x using that by (auto simp: tied_def dest: set_takeWhileD)
  have r: "fst e < fst x" if "x \<in> set rest" for x using after_group [OF assms(1)] that by (simp add: rest_def)
  have "filter (\<lambda>x. fst x = fst e) tied = tied" "filter (\<lambda>x. fst x = fst e) rest = []" "filter (\<lambda>x. fst x < fst e) tied = []"
    "filter (\<lambda>x. fst x < fst e) rest = []"
    using t r by (fastforce simp: filter_id_conv filter_empty_conv)+
  then show "\<forall>x\<in>set tied. less_count (fst x) (e # es) = 0 \<and> eq_count (fst x) (e # es) = int (length tied)"
    using t unfolding split counts_append by (simp add: less_count_def eq_count_def)
  have "filter (\<lambda>y. fst y < fst x) tied = tied" "filter (\<lambda>y. fst y = fst x) tied = []" if "x \<in> set rest" for x
    using t r [OF that] by (fastforce simp: filter_id_conv filter_empty_conv)+
  then show "\<forall>x\<in>set rest. less_count (fst x) (e # es) = less_count (fst x) rest + int (length tied)
      \<and> eq_count (fst x) (e # es) = eq_count (fst x) rest"
    unfolding split counts_append by (simp add: less_count_def eq_count_def)
qed

lemma tie_ranks_counts:
  "sorted (map fst es) \<Longrightarrow> 0 \<le> i \<Longrightarrow> i + int (length es) \<le> 2 ^ 40 \<Longrightarrow>
    tie_ranks i es = map (\<lambda>e. of_int (2 * i + twice_rank es (fst e)) / 2) es"
proof (induction i es rule: tie_ranks.induct)
  case (2 i e es)
  define t where "t = length (takeWhile (\<lambda>x. fst x = fst e) es)"
  let ?tied = "e # takeWhile (\<lambda>x. fst x = fst e) es" and ?rest = "dropWhile (\<lambda>x. fst x = fst e) es"
  note g = group_counts [OF "2.prems"(1)]
  have es: "drop t es = ?rest" by (simp add: t_def dropWhile_eq_drop)
  have le: "t \<le> length es" by (simp add: t_def length_takeWhile_le)
  have "sorted (map fst ?rest)" using "2.prems"(1) unfolding es [symmetric] by (simp add: sorted_wrt_drop flip: drop_map)
  with "2.IH" [OF t_def refl refl] "2.prems" le
  have ih: "tie_ranks (i + int t + 1) ?rest = map (\<lambda>e. of_int (2 * (i + int t + 1) + twice_rank ?rest (fst e)) / 2) ?rest"
    unfolding es [symmetric] by simp
  have avg: "fdiv (i2f ((i + 1) + (i + int t + 1))) 2 = of_int (2 * i + int t + 2) / 2"
  proof -
    have b: "\<bar>2 * i + int t + 2\<bar> \<le> 2 ^ 53" using "2.prems"(2,3) le by simp
    have "(i + 1) + (i + int t + 1) = 2 * i + int t + 2" by simp
    then show ?thesis using i2f_exact [OF b] fl_halves [OF b] by (simp only: fdiv_def)
  qed
  have "map (\<lambda>x. of_int (2 * i + twice_rank (e # es) (fst x)) / 2 :: real) ?tied = replicate (Suc t) (of_int (2 * i + int t + 2) / 2)"
  proof (rule replicate_eqI)
    show "length (map (\<lambda>x. of_int (2 * i + twice_rank (e # es) (fst x)) / 2 :: real) ?tied) = Suc t" by (simp add: t_def)
    fix y assume "y \<in> set (map (\<lambda>x. of_int (2 * i + twice_rank (e # es) (fst x)) / 2 :: real) ?tied)"
    then obtain x where x: "x \<in> set ?tied" "y = of_int (2 * i + twice_rank (e # es) (fst x)) / 2" unfolding set_map by blast
    have "twice_rank (e # es) (fst x) = int t + 2" using g(1) x(1) by (simp only: twice_rank_def t_def) simp
    then show "y = of_int (2 * i + int t + 2) / 2" by (simp add: x(2))
  qed
  moreover have "map (\<lambda>x. of_int (2 * i + twice_rank (e # es) (fst x)) / 2 :: real) ?rest
      = map (\<lambda>e. of_int (2 * (i + int t + 1) + twice_rank ?rest (fst e)) / 2) ?rest"
  proof (rule map_cong [OF refl])
    fix x assume "x \<in> set ?rest"
    with g(2) have "twice_rank (e # es) (fst x) = twice_rank ?rest (fst x) + 2 * (int t + 1)"
      by (simp add: twice_rank_def t_def)
    then show "of_int (2 * i + twice_rank (e # es) (fst x)) / 2 = (of_int (2 * (i + int t + 1) + twice_rank ?rest (fst x)) / 2 :: real)"
      by simp
  qed
  moreover have "e # es = ?tied @ ?rest" by simp
  ultimately have "map (\<lambda>x. of_int (2 * i + twice_rank (e # es) (fst x)) / 2 :: real) (e # es)
      = replicate (Suc t) (of_int (2 * i + int t + 2) / 2) @ map (\<lambda>e. of_int (2 * (i + int t + 1) + twice_rank ?rest (fst e)) / 2) ?rest"
    by (metis map_append)
  then show ?case by (simp only: tie_ranks.simps Let_def t_def [symmetric] es ih avg)
qed simp

section \<open>The statistic\<close>

text \<open>Twice the number of pairs in which an element of \<open>xs\<close> exceeds one of \<open>ys\<close>, ties counting one.\<close>

definition wins :: "real list \<Rightarrow> real list \<Rightarrow> int" where
  "wins xs ys = sum_list (map (\<lambda>x. 2 * int (length (filter (\<lambda>y. y < x) ys)) + int (length (filter (\<lambda>y. y = x) ys))) xs)"

lemma wins_Cons:
  "wins (x # xs) ys = 2 * int (length (filter (\<lambda>y. y < x) ys)) + int (length (filter (\<lambda>y. y = x) ys)) + wins xs ys"
  by (simp add: wins_def)

lemma wins_Cons_right: "wins xs (y # ys) = wins xs [y] + wins xs ys"
  by (induction xs) (simp_all add: wins_def)

lemma wins_single: "wins [x] ys + wins ys [x] = 2 * int (length ys)"
  by (induction ys) (auto simp: wins_def)

lemma wins_total: "wins xs ys + wins ys xs = 2 * int (length xs) * int (length ys)"
proof (induction xs)
  case (Cons x xs)
  have "wins (x # xs) ys = wins [x] ys + wins xs ys" by (simp add: wins_def)
  moreover have "wins ys (x # xs) = wins ys [x] + wins ys xs" by (rule wins_Cons_right)
  ultimately show ?case using Cons wins_single [of x ys] by (simp add: algebra_simps)
qed (simp add: wins_def)

lemma wins_nonneg: "0 \<le> wins xs ys"
  unfolding wins_def by (intro sum_list_nonneg) auto

lemma wins_self: "wins xs xs = int (length xs) * int (length xs)"
  using wins_total [of xs xs] by simp

definition pool :: "real list \<Rightarrow> real list \<Rightarrow> (real \<times> bool) list" where
  "pool xs ys = sort_key fst (map (\<lambda>v. (v, True)) xs @ map (\<lambda>v. (v, False)) ys)"

lemma mset_sum_list: "mset as = mset bs \<Longrightarrow> sum_list (map k as) = (sum_list (map k bs) :: int)"
  by (metis mset_map sum_mset_sum_list)

lemma pool_rank_sum:
  "sum_list (map (\<lambda>e. twice_rank (pool xs ys) (fst e)) (filter snd (pool xs ys)))
    = int (length xs) * (int (length xs) + 1) + wins xs ys"
proof -
  let ?all = "map (\<lambda>v. (v, True)) xs @ map (\<lambda>v. (v, False)) ys"
  have m: "mset (pool xs ys) = mset ?all" by (simp add: pool_def)
  have "twice_rank (pool xs ys) v = (2 * int (length (filter (\<lambda>x. x < v) xs)) + int (length (filter (\<lambda>x. x = v) xs)))
      + (2 * int (length (filter (\<lambda>y. y < v) ys)) + int (length (filter (\<lambda>y. y = v) ys))) + 1" for v
  proof -
    have "twice_rank (pool xs ys) v = twice_rank ?all v" using counts_mset [OF m, of v] by (simp add: twice_rank_def)
    then show ?thesis by (simp add: twice_rank_def counts_append) (simp add: less_count_def eq_count_def filter_map comp_def)
  qed
  moreover have "mset (filter snd (pool xs ys)) = mset (map (\<lambda>v. (v, True)) xs)"
  proof -
    have "filter snd ?all = map (\<lambda>v. (v, True)) xs" by (simp add: filter_map comp_def)
    with m show ?thesis by (metis mset_filter)
  qed
  then have "sum_list (map (\<lambda>e. twice_rank (pool xs ys) (fst e)) (filter snd (pool xs ys)))
      = sum_list (map (\<lambda>v. twice_rank (pool xs ys) v) xs)"
    using mset_sum_list [of "filter snd (pool xs ys)" "map (\<lambda>v. (v, True)) xs" "\<lambda>e. twice_rank (pool xs ys) (fst e)"]
    by (simp add: comp_def)
  ultimately have "sum_list (map (\<lambda>e. twice_rank (pool xs ys) (fst e)) (filter snd (pool xs ys))) = wins xs xs + wins xs ys + int (length xs)"
    by (simp add: sum_list_addf wins_def sum_list_triv)
  then show ?thesis by (simp add: wins_self algebra_simps)
qed

lemma u_statistic:
  assumes "xs \<noteq> []" "ys \<noteq> []" "length xs + length ys \<le> 2 ^ 25"
  shows "foldl (\<lambda>s (e, r). if snd e then fadd s r else s) 0 (zip (pool xs ys) (tie_ranks 0 (pool xs ys)))
      = of_int (int (length xs) * (int (length xs) + 1) + wins xs ys) / 2"
    and "fsub (of_int (int (length xs) * (int (length xs) + 1) + wins xs ys) / 2) (fdiv (fmul (count_f xs) (fadd (count_f xs) 1)) 2)
      = of_int (wins xs ys) / 2"
    and "fsub (fmul (count_f xs) (count_f ys)) (of_int (wins xs ys) / 2) = of_int (wins ys xs) / 2"
proof -
  define a b where "a = int (length xs)" and "b = int (length ys)"
  have ab: "0 \<le> a" "0 \<le> b" "a + b \<le> 2 ^ 25" using assms(3) by (simp_all add: a_def b_def)
  have sq: "a * b \<le> 2 ^ 25 * 2 ^ 25" "a * a \<le> 2 ^ 25 * 2 ^ 25" using ab by (intro mult_mono; simp)+
  have w: "0 \<le> wins xs ys" "0 \<le> wins ys xs" "wins xs ys + wins ys xs = 2 * (a * b)"
    using wins_nonneg wins_total [of xs ys] by (simp_all add: a_def b_def)
  have bound: "a * (a + 1) + wins xs ys \<le> 2 ^ 53" using sq w ab by (simp add: distrib_left)
  have cf: "count_f xs = of_int a" "count_f ys = of_int b" using ab by (simp_all add: count_f_def a_def b_def i2f_exact)
  have "sorted (map fst (pool xs ys))" by (simp add: pool_def)
  moreover have "int (length (pool xs ys)) \<le> 2 ^ 40" using ab by (simp add: pool_def a_def b_def)
  ultimately have "tie_ranks 0 (pool xs ys) = map (\<lambda>e. of_int (twice_rank (pool xs ys) (fst e)) / 2) (pool xs ys)"
    using tie_ranks_counts [of "pool xs ys" 0] by simp
  moreover have "0 \<le> twice_rank es v" for es :: "(real \<times> bool) list" and v by (simp add: twice_rank_def less_count_def eq_count_def)
  ultimately show "foldl (\<lambda>s (e, r). if snd e then fadd s r else s) 0 (zip (pool xs ys) (tie_ranks 0 (pool xs ys)))
      = of_int (int (length xs) * (int (length xs) + 1) + wins xs ys) / 2"
    using fold_halves [of 0 "pool xs ys" "\<lambda>e. twice_rank (pool xs ys) (fst e)" snd] bound
    by (simp add: pool_rank_sum a_def)
  have "fadd (of_int a) 1 = of_int (a + 1)" using fl_int [of "a + 1"] ab by (simp add: fadd_def)
  moreover have "fmul (of_int a) (of_int (a + 1)) = of_int (a * (a + 1))" using fl_int [of "a * (a + 1)"] ab bound w
    by (simp add: fmul_def)
  moreover have "fdiv (of_int (a * (a + 1))) 2 = of_int (a * (a + 1)) / 2" using fl_halves [of "a * (a + 1)"] ab bound w
    by (simp add: fdiv_def)
  moreover have "of_int (a * (a + 1) + wins xs ys) / 2 - of_int (a * (a + 1)) / 2 = (of_int (wins xs ys) / 2 :: real)"
    by (simp add: add_divide_distrib)
  moreover have "wins xs ys \<le> 2 ^ 53" using sq w by simp
  ultimately show "fsub (of_int (int (length xs) * (int (length xs) + 1) + wins xs ys) / 2) (fdiv (fmul (count_f xs) (fadd (count_f xs) 1)) 2)
      = of_int (wins xs ys) / 2"
    using fl_halves [of "wins xs ys"] w(1) unfolding cf a_def [symmetric] by (simp only: fsub_def)
  have "fmul (of_int a) (of_int b) = of_int (a * b)" using fl_int [of "a * b"] ab sq by (simp add: fmul_def)
  moreover have "of_int (a * b) - of_int (wins xs ys) / 2 = (of_int (wins ys xs) / 2 :: real)"
  proof -
    have "wins ys xs = 2 * (a * b) - wins xs ys" using w(3) by linarith
    then show ?thesis by (simp add: diff_divide_distrib)
  qed
  moreover have "fl (of_int (wins ys xs) / 2) = of_int (wins ys xs) / 2" using sq w by (intro fl_halves) simp
  ultimately show "fsub (fmul (count_f xs) (count_f ys)) (of_int (wins xs ys) / 2) = of_int (wins ys xs) / 2"
    unfolding cf by (simp only: fsub_def)
qed

lemma mann_whitney_fst:
  assumes "xs \<noteq> []" "ys \<noteq> []" "length xs + length ys \<le> 2 ^ 25"
  shows "fst (mann_whitney_u M xs ys) = min (of_int (wins xs ys) / 2) (of_int (wins ys xs) / 2)"
proof -
  have "fst (mann_whitney_u M xs ys) = min
      (fsub (foldl (\<lambda>s (e, r). if snd e then fadd s r else s) 0 (zip (pool xs ys) (tie_ranks 0 (pool xs ys))))
        (fdiv (fmul (count_f xs) (fadd (count_f xs) 1)) 2))
      (fsub (fmul (count_f xs) (count_f ys)) (fsub (foldl (\<lambda>s (e, r). if snd e then fadd s r else s) 0
        (zip (pool xs ys) (tie_ranks 0 (pool xs ys)))) (fdiv (fmul (count_f xs) (fadd (count_f xs) 1)) 2)))"
    using assms(1,2) by (simp add: mann_whitney_u_def Let_def pool_def)
  then show ?thesis by (simp only: u_statistic [OF assms])
qed


lemma wins_pos_total:
  assumes "xs \<noteq> []" "ys \<noteq> []"
  shows "0 < wins xs ys + wins ys xs"
  using assms by (simp add: wins_total)

text \<open>C36: The U statistic of \<open>MannWhitneyU\<close> is the number of pairs its definition asks for: with \<open>wins xs ys\<close>
  twice the number of pairs in which the first sample's value is larger (ties counting one), the rank computation
  through the sorted pool with averaged ties yields exactly half the smaller of \<open>wins xs ys\<close> and \<open>wins ys xs\<close>,
  for non-empty samples of together at most \<open>2 ^ 25\<close> values; it does not depend on which sample is named first.\<close>

theorem mann_whitney_counts_pairs:
  assumes "xs \<noteq> []" "ys \<noteq> []" "length xs + length ys \<le> 2 ^ 25"
  shows "fst (mann_whitney_u M xs ys) = of_int (min (wins xs ys) (wins ys xs)) / 2
    \<and> fst (mann_whitney_u M ys xs) = fst (mann_whitney_u M xs ys)"
proof -
  have m: "min (of_int a / 2) (of_int b / 2) = (of_int (min a b) / 2 :: real)" for a b :: int by (simp add: min_def)
  have "length ys + length xs \<le> 2 ^ 25" using assms(3) by simp
  then show ?thesis
    using mann_whitney_fst [OF assms, of M] mann_whitney_fst [OF assms(2,1), of M] by (simp only: m min.commute simp_thms)
qed

theorem mann_whitney_counts_pairs_witness:
  "fst (mann_whitney_u flat_libm [3, 1] [1, 2]) = 3 / 2"
proof -
  have "wins [3, 1] [1, 2] = 5" "wins [1, 2] [3, 1] = 3" by (simp_all add: wins_def)
  then show ?thesis using mann_whitney_counts_pairs [of "[3, 1]" "[1, 2]"] by simp
qed

end
