(* ===== verification/Config.thy ===== *)
theory Config
  imports Routing "HOL-Library.Word"
begin

text \<open>
  \<open>internal/experiment/config.go\<close>: the schema of a scenario file and \<open>Validate\<close>, which refuses some
  configurations and fills the defaults of the others in place. Reading the file and decoding the YAML are
  not modelled: a configuration is the decoded value.
\<close>

section \<open>The schema\<close>

record lat_lon =
  ll_latitude :: real
  ll_longitude :: real

record topology_config =
  tc_edges :: "edge_pop list"
  tc_origin_location :: lat_lon
  tc_origin_network :: network_profile

record content_config =
  catalog_size :: int
  zipf_alpha :: real
  duration_seconds :: int
  segment_seconds :: int

record client_config =
  cc_count :: int
  cc_policy :: string
  misroute_prob :: real
  cc_geos :: "string list"
  geo_weighted :: bool
  client_locations :: "lat_lon list"

record cache_config =
  cache_type :: string
  cache_bytes :: int
  warm_up :: bool
  cache_ttl :: int

record shield_config =
  sh_bytes :: int
  sh_ttl :: int

record quic_config =
  qc_zero_rtt :: real

record bandwidth_config =
  bw_enabled :: bool
  variability :: real

record output_config =
  out_dir :: string
  emit_csv :: bool
  emit_json :: bool

record playback_yaml =
  py_max_buffer :: int
  py_startup :: int
  py_prefetch :: int

record emulated_edge =
  em_id :: string
  h2_url :: string
  h3_url :: string

record emulated_config =
  em_edges :: "emulated_edge list"
  ca_cert_path :: string
  netem_profile :: string
  insecure_tls :: bool

record experiment_config =
  ex_name :: string
  ex_description :: string
  ex_mode :: string
  ex_seed :: "64 word"
  ex_topology :: topology_config
  ex_content :: content_config
  ex_clients :: client_config
  ex_protocols :: "string list"
  ex_abr :: string
  ex_cache :: cache_config
  ex_shield :: "shield_config option"
  ex_quic :: quic_config
  ex_bandwidth :: "bandwidth_config option"
  ex_playback :: playback_yaml
  ex_runs :: int
  ex_output :: output_config
  ex_emulated :: "emulated_config option"

section \<open>Validation\<close>

datatype config_error = Name_required | No_protocols | No_clients | No_edges | Bad_mode string
  | No_emulated_edges | Edge_id_required int | Edge_urls_required int

text \<open>The defaults that stand between the checks, from \<open>Content.CatalogSize\<close> to \<open>Mode\<close>.\<close>

definition default_content :: "content_config \<Rightarrow> content_config" where
  "default_content c = (let
       c = (if catalog_size c \<le> 0 then c\<lparr>catalog_size := 100\<rparr> else c);
       c = (if zipf_alpha c \<le> 1 then c\<lparr>zipf_alpha := fl (11 / 10)\<rparr> else c);
       c = (if duration_seconds c \<le> 0 then c\<lparr>duration_seconds := 60\<rparr> else c)
     in if segment_seconds c \<le> 0 then c\<lparr>segment_seconds := 4\<rparr> else c)"

definition default_cache :: "cache_config \<Rightarrow> cache_config" where
  "default_cache c = (let c = (if cache_type c = [] then c\<lparr>cache_type := ''lru''\<rparr> else c)
     in if cache_bytes c \<le> 0 then c\<lparr>cache_bytes := 2 ^ 30\<rparr> else c)"

definition fill_defaults :: "experiment_config \<Rightarrow> experiment_config" where
  "fill_defaults c = (let
       c = c\<lparr>ex_content := default_content (ex_content c)\<rparr>;
       c = c\<lparr>ex_cache := default_cache (ex_cache c)\<rparr>;
       c = (if ex_abr c = [] then c\<lparr>ex_abr := ''buffer_based''\<rparr> else c);
       c = (if cc_policy (ex_clients c) = [] then c\<lparr>ex_clients := (ex_clients c)\<lparr>cc_policy := ''latency_based''\<rparr>\<rparr> else c)
     in if ex_mode c = [] then c\<lparr>ex_mode := ''modeled''\<rparr> else c)"

text \<open>The loop over the emulated edges; the errors carry the index.\<close>

fun check_edges :: "int \<Rightarrow> emulated_edge list \<Rightarrow> config_error option" where
  "check_edges i [] = None"
| "check_edges i (e # es) = (if em_id e = [] then Some (Edge_id_required i)
     else if h2_url e = [] \<or> h3_url e = [] then Some (Edge_urls_required i) else check_edges (i + 1) es)"

definition check_mode :: "experiment_config \<Rightarrow> config_error option" where
  "check_mode c = (if ex_mode c \<noteq> ''modeled'' \<and> ex_mode c \<noteq> ''emulated'' then Some (Bad_mode (ex_mode c))
     else if ex_mode c = ''emulated'' then (case ex_emulated c of
         None \<Rightarrow> Some No_emulated_edges
       | Some em \<Rightarrow> if em_edges em = [] then Some No_emulated_edges else check_edges 0 (em_edges em))
     else None)"

text \<open>\<open>Validate\<close> has a pointer receiver: what it has set stays set when a later check fails.\<close>

definition validate :: "experiment_config \<Rightarrow> config_error option \<times> experiment_config" where
  "validate c = (if ex_name c = [] then (Some Name_required, c)
     else if ex_protocols c = [] then (Some No_protocols, c)
     else let c1 = (if ex_runs c \<le> 0 then c\<lparr>ex_runs := 1\<rparr> else c)
       in if cc_count (ex_clients c1) \<le> 0 then (Some No_clients, c1)
          else if tc_edges (ex_topology c1) = [] then (Some No_edges, c1)
          else let c2 = fill_defaults c1 in (check_mode c2, c2))"

section \<open>What a valid configuration is\<close>

definition config_ok :: "experiment_config \<Rightarrow> bool" where
  "config_ok c \<longleftrightarrow> ex_name c \<noteq> [] \<and> ex_protocols c \<noteq> [] \<and> 1 \<le> ex_runs c \<and> 1 \<le> cc_count (ex_clients c)
    \<and> tc_edges (ex_topology c) \<noteq> [] \<and> 1 \<le> catalog_size (ex_content c) \<and> 1 < zipf_alpha (ex_content c)
    \<and> 1 \<le> duration_seconds (ex_content c) \<and> 1 \<le> segment_seconds (ex_content c)
    \<and> cache_type (ex_cache c) \<noteq> [] \<and> 1 \<le> cache_bytes (ex_cache c) \<and> ex_abr c \<noteq> [] \<and> cc_policy (ex_clients c) \<noteq> []
    \<and> (ex_mode c = ''modeled'' \<or> ex_mode c = ''emulated'' \<and>
        (\<exists>em. ex_emulated c = Some em \<and> em_edges em \<noteq> [] \<and> (\<forall>e\<in>set (em_edges em). em_id e \<noteq> [] \<and> h2_url e \<noteq> [] \<and> h3_url e \<noteq> [])))"

lemma check_edges_None: "check_edges i es = None \<longleftrightarrow> (\<forall>e\<in>set es. em_id e \<noteq> [] \<and> h2_url e \<noteq> [] \<and> h3_url e \<noteq> [])"
  by (induction es arbitrary: i) auto

lemma check_mode_None: "check_mode c = None \<longleftrightarrow> ex_mode c = ''modeled'' \<or> ex_mode c = ''emulated'' \<and>
    (\<exists>em. ex_emulated c = Some em \<and> em_edges em \<noteq> [] \<and> (\<forall>e\<in>set (em_edges em). em_id e \<noteq> [] \<and> h2_url e \<noteq> [] \<and> h3_url e \<noteq> []))"
  by (auto simp: check_mode_def check_edges_None split: option.splits if_splits)

lemma default_alpha: "1 < fl (11 / 10)"
  by code_simp

lemma default_content_ok:
  "1 \<le> catalog_size (default_content c)" "1 < zipf_alpha (default_content c)"
  "1 \<le> duration_seconds (default_content c)" "1 \<le> segment_seconds (default_content c)"
  by (auto simp: default_content_def Let_def default_alpha)

lemma default_content_id:
  "1 \<le> catalog_size c \<Longrightarrow> 1 < zipf_alpha c \<Longrightarrow> 1 \<le> duration_seconds c \<Longrightarrow> 1 \<le> segment_seconds c \<Longrightarrow> default_content c = c"
  by (auto simp: default_content_def Let_def)

lemma default_cache_ok: "cache_type (default_cache c) \<noteq> []" "1 \<le> cache_bytes (default_cache c)"
  by (auto simp: default_cache_def Let_def)

lemma default_cache_id: "cache_type c \<noteq> [] \<Longrightarrow> 1 \<le> cache_bytes c \<Longrightarrow> default_cache c = c"
  by (auto simp: default_cache_def Let_def)

lemma fill_defaults_fields:
  "ex_name (fill_defaults c) = ex_name c" "ex_protocols (fill_defaults c) = ex_protocols c" "ex_runs (fill_defaults c) = ex_runs c"
  "cc_count (ex_clients (fill_defaults c)) = cc_count (ex_clients c)" "ex_topology (fill_defaults c) = ex_topology c"
  "ex_content (fill_defaults c) = default_content (ex_content c)" "ex_cache (fill_defaults c) = default_cache (ex_cache c)"
  "ex_abr (fill_defaults c) \<noteq> []" "cc_policy (ex_clients (fill_defaults c)) \<noteq> []" "ex_mode (fill_defaults c) \<noteq> []"
  by (simp_all add: fill_defaults_def Let_def)

lemma fill_defaults_id: "config_ok c \<Longrightarrow> fill_defaults c = c"
  by (auto simp: fill_defaults_def config_ok_def Let_def default_content_id default_cache_id)

lemma validate_None:
  "validate c = (None, c') \<longleftrightarrow> ex_name c \<noteq> [] \<and> ex_protocols c \<noteq> [] \<and> 1 \<le> cc_count (ex_clients c) \<and> tc_edges (ex_topology c) \<noteq> []
    \<and> c' = fill_defaults (if ex_runs c \<le> 0 then c\<lparr>ex_runs := 1\<rparr> else c) \<and> check_mode c' = None"
  by (auto simp: validate_def Let_def)

lemma validate_ok: "validate c = (None, c') \<Longrightarrow> config_ok c'"
  unfolding validate_None check_mode_None config_ok_def
  using default_content_ok default_cache_ok by (auto simp: fill_defaults_fields split: if_splits)

lemma validate_id: "config_ok c \<Longrightarrow> validate c = (None, c)"
  unfolding validate_None check_mode_None using fill_defaults_id [of c] by (auto simp: config_ok_def)

text \<open>C39: Validation normalises. It accepts exactly the configurations with a name, a protocol, a client, an edge and
  a mode that is empty, \<open>modeled\<close>, or \<open>emulated\<close> with complete edge addresses; what it accepts then satisfies every
  bound the runner relies on (run count, catalogue, Zipf exponent above one, durations, cache size, named policies), keeps the
  name, seed, topology, protocols and client count, and is a fixed point: validating again changes nothing.\<close>

theorem validate_normalises:
  "(fst (validate c) = None \<longleftrightarrow> ex_name c \<noteq> [] \<and> ex_protocols c \<noteq> [] \<and> 1 \<le> cc_count (ex_clients c)
      \<and> tc_edges (ex_topology c) \<noteq> [] \<and> (ex_mode c \<in> {[], ''modeled''} \<or> ex_mode c = ''emulated'' \<and>
        (\<exists>em. ex_emulated c = Some em \<and> em_edges em \<noteq> [] \<and> (\<forall>e\<in>set (em_edges em). em_id e \<noteq> [] \<and> h2_url e \<noteq> [] \<and> h3_url e \<noteq> []))))
    \<and> (\<forall>c'. validate c = (None, c') \<longrightarrow> config_ok c' \<and> validate c' = (None, c')
        \<and> ex_name c' = ex_name c \<and> ex_seed c' = ex_seed c \<and> ex_topology c' = ex_topology c
        \<and> ex_protocols c' = ex_protocols c \<and> cc_count (ex_clients c') = cc_count (ex_clients c))
    \<and> (config_ok c \<longrightarrow> validate c = (None, c))"
proof -
  have "ex_mode (fill_defaults d) = (if ex_mode d = [] then ''modeled'' else ex_mode d)"
    "ex_emulated (fill_defaults d) = ex_emulated d" "ex_seed (fill_defaults d) = ex_seed d" for d
    by (simp_all add: fill_defaults_def Let_def)
  note f = this fill_defaults_fields(1-5)
  have "fst (validate c) = None \<longleftrightarrow> (\<exists>c'. validate c = (None, c'))" by (metis fst_conv prod.collapse)
  then have "fst (validate c) = None \<longleftrightarrow> ex_name c \<noteq> [] \<and> ex_protocols c \<noteq> [] \<and> 1 \<le> cc_count (ex_clients c)
      \<and> tc_edges (ex_topology c) \<noteq> [] \<and> (ex_mode c \<in> {[], ''modeled''} \<or> ex_mode c = ''emulated'' \<and>
        (\<exists>em. ex_emulated c = Some em \<and> em_edges em \<noteq> [] \<and> (\<forall>e\<in>set (em_edges em). em_id e \<noteq> [] \<and> h2_url e \<noteq> [] \<and> h3_url e \<noteq> [])))"
    unfolding validate_None check_mode_None by (auto simp: f)
  moreover have "ex_name c' = ex_name c \<and> ex_seed c' = ex_seed c \<and> ex_topology c' = ex_topology c
        \<and> ex_protocols c' = ex_protocols c \<and> cc_count (ex_clients c') = cc_count (ex_clients c)" if "validate c = (None, c')" for c'
    using that unfolding validate_None by (auto simp: f)
  ultimately show ?thesis using validate_ok validate_id by blast
qed

section \<open>An example\<close>

text \<open>A scenario that leaves every optional field at its zero value.\<close>

definition blank_config :: experiment_config where
  "blank_config = \<lparr>ex_name = ''demo'', ex_description = [], ex_mode = [], ex_seed = 42,
     ex_topology = \<lparr>tc_edges = [demo_edge ''e1'' 10 0, demo_edge ''e2'' 5 0], tc_origin_location = \<lparr>ll_latitude = 0, ll_longitude = 0\<rparr>,
       tc_origin_network = client_profile (demo_edge ''e1'' 10 0)\<rparr>,
     ex_content = \<lparr>catalog_size = 0, zipf_alpha = 0, duration_seconds = 8, segment_seconds = 0\<rparr>,
     ex_clients = \<lparr>cc_count = 3, cc_policy = [], misroute_prob = 0, cc_geos = [], geo_weighted = False, client_locations = []\<rparr>,
     ex_protocols = [''tcp-h2'', ''quic-h3''], ex_abr = [],
     ex_cache = \<lparr>cache_type = [], cache_bytes = 0, warm_up = True, cache_ttl = 0\<rparr>,
     ex_shield = Some \<lparr>sh_bytes = 10 ^ 6, sh_ttl = 60\<rparr>, ex_quic = \<lparr>qc_zero_rtt = 1 / 2\<rparr>, ex_bandwidth = None,
     ex_playback = \<lparr>py_max_buffer = 0, py_startup = 0, py_prefetch = 0\<rparr>, ex_runs = 0,
     ex_output = \<lparr>out_dir = [], emit_csv = False, emit_json = False\<rparr>, ex_emulated = None\<rparr>"

theorem validate_normalises_witness:
  "fst (validate blank_config) = None \<and> config_ok (snd (validate blank_config)) \<and> ex_runs (snd (validate blank_config)) = 1"
proof -
  have "fst (validate blank_config) = None"
    unfolding conjunct1 [OF validate_normalises [of blank_config]] by (simp add: blank_config_def)
  then have "validate blank_config = (None, snd (validate blank_config))" by (metis prod.collapse)
  with validate_normalises [of blank_config] show ?thesis
    by (auto simp: validate_None blank_config_def fill_defaults_fields)
qed

end
