(* ===== verification/Population.thy ===== *)
theory Population
  imports Config GoStrings "HOL-Library.Char_ord" "HOL-Library.List_Lexorder"
begin

text \<open>
  The inputs a run draws for its sessions: the clients and their seeds (\<open>buildClients\<close>, \<open>geoCenter\<close> and \<open>hash\<close> of
  \<open>internal/experiment/runner.go\<close>) and the popularity of the contents (\<open>internal/cache/popularity.go\<close>).
\<close>

section \<open>The environment of a run\<close>

text \<open>\<open>e_source\<close> is \<open>rand.New(rand.NewSource(seed))\<close>; \<open>e_zipf alpha imax\<close> is \<open>Uint64\<close> of \<open>rand.NewZipf(rng, alpha, 1, imax)\<close>,
  which draws from the generator only when asked for a value; \<open>e_clock\<close> is \<open>time.Now()\<close>.\<close>

record 'g env =
  e_math :: libm
  e_rand :: "'g rand_ops"
  e_source :: "64 word \<Rightarrow> 'g"
  e_zipf :: "real \<Rightarrow> int \<Rightarrow> 'g \<Rightarrow> int \<times> 'g"
  e_clock :: instant

definition env_ok :: "'g env \<Rightarrow> bool" where
  "env_ok E \<longleftrightarrow> libm_ok (e_math E) \<and> rand_ok (e_rand E)
    \<and> (\<forall>a imax g. 1 < a \<longrightarrow> 0 \<le> imax \<longrightarrow> 0 \<le> fst (e_zipf E a imax g) \<and> fst (e_zipf E a imax g) \<le> imax)"

section \<open>Popularity\<close>

record 'g popularity =
  pop_catalog :: int
  pop_alpha :: real
  pop_rng :: 'g

definition new_zipf_popularity :: "int \<Rightarrow> real \<Rightarrow> 'g \<Rightarrow> 'g popularity" where
  "new_zipf_popularity catalog a g = (let
       catalog = (if catalog \<le> 0 then 1 else catalog);
       a = (if a \<le> 1 then fl (105 / 100) else a)
     in \<lparr>pop_catalog = catalog, pop_alpha = a, pop_rng = g\<rparr>)"

definition next_index :: "'g env \<Rightarrow> 'g popularity \<Rightarrow> int \<times> 'g popularity" where
  "next_index E z = (let (i, g) = e_zipf E (pop_alpha z) (pop_catalog z - 1) (pop_rng z) in (i, z\<lparr>pop_rng := g\<rparr>))"

definition content_name :: "int \<Rightarrow> string" where
  "content_name i = ''content-'' @ itoa i"

definition next_content_id :: "'g env \<Rightarrow> 'g popularity \<Rightarrow> string \<times> 'g popularity" where
  "next_content_id E z = (let (i, z') = next_index E z in (content_name i, z'))"

lemma new_popularity_ok: "1 \<le> pop_catalog (new_zipf_popularity n a g) \<and> 1 < pop_alpha (new_zipf_popularity n a g)"
proof -
  have "1 < fl (105 / 100)" by code_simp
  then show ?thesis by (simp add: new_zipf_popularity_def Let_def)
qed

section \<open>Seeds\<close>

text \<open>FNV-1a on 32 bits.\<close>

definition fnv1a32 :: "string \<Rightarrow> 32 word" where
  "fnv1a32 s = foldl (\<lambda>h c. xor h (of_nat (of_char c)) * 16777619) 2166136261 s"

text \<open>\<open>int64(hash(s))\<close> zero-extends.\<close>

definition seed_offset :: "string \<Rightarrow> 64 word" where
  "seed_offset s = ucast (fnv1a32 s)"

section \<open>Clients\<close>

definition geo_center :: "string \<Rightarrow> real \<times> real" where
  "geo_center geo = (if geo = ''asia'' then (fl (135 / 100), fl (10382 / 100))
     else if geo = ''europe'' then (fl (5011 / 100), fl (868 / 100))
     else if geo = ''us-east'' then (fl (4071 / 100), - 74)
     else if geo = ''us-west'' then (fl (3777 / 100), fl (- 12242 / 100))
     else if geo = ''south-america'' then (fl (- 2355 / 100), fl (- 4663 / 100))
     else if geo = ''africa'' then (fl (- 2620 / 100), fl (2804 / 100))
     else (0, 0))"

definition default_geos :: "string list" where
  "default_geos = [''asia'', ''europe'', ''us-east'', ''us-west'']"

definition client_name :: "nat \<Rightarrow> string" where
  "client_name i = ''client-'' @ pad_left 4 (nat_digits i)"

definition build_client :: "'g rand_ops \<Rightarrow> string list \<Rightarrow> nat \<Rightarrow> 'g \<Rightarrow> client_info \<times> 'g" where
  "build_client R geos i g = (let
       geo = geos ! (i mod length geos);
       (lat, lon) = geo_center geo;
       (u, g1) = r_float64 R g;
       (v, g2) = r_float64 R g1
     in (\<lparr>client_id = client_name i, client_geo = geo, client_lat = fadd lat (fmul (fsub u (1 / 2)) 4),
          client_lon = fadd lon (fmul (fsub v (1 / 2)) 4)\<rparr>, g2))"

text \<open>\<open>k\<close> clients from index \<open>i\<close> on.\<close>

fun clients_from :: "'g rand_ops \<Rightarrow> string list \<Rightarrow> nat \<Rightarrow> nat \<Rightarrow> 'g \<Rightarrow> client_info list \<times> 'g" where
  "clients_from R geos i 0 g = ([], g)"
| "clients_from R geos i (Suc k) g = (let (c, g1) = build_client R geos i g; (cs, g2) = clients_from R geos (Suc i) k g1 in (c # cs, g2))"

definition build_clients :: "'g rand_ops \<Rightarrow> client_config \<Rightarrow> 'g \<Rightarrow> client_info list \<times> 'g" where
  "build_clients R cc g = clients_from R (if cc_geos cc = [] then default_geos else cc_geos cc) 0 (nat (cc_count cc)) g"

lemma clients_from_length [simp]: "length (fst (clients_from R geos i k g)) = k"
  by (induction k arbitrary: i g) (simp_all add: case_prod_unfold Let_def)

lemma clients_from_ids: "map client_id (fst (clients_from R geos i k g)) = map client_name [i..<i + k]"
proof (induction k arbitrary: i g)
  case (Suc k)
  then show ?case by (simp add: case_prod_unfold Let_def build_client_def upt_rec [of i])
qed simp

lemma clients_from_take: "j \<le> k \<Longrightarrow> take j (fst (clients_from R geos i k g)) = fst (clients_from R geos i j g)"
proof (induction k arbitrary: i j g)
  case (Suc k)
  then show ?case by (cases j) (simp_all add: case_prod_unfold Let_def)
qed simp

section \<open>The order of the clients\<close>

lemma digit_char_less: "d < 10 \<Longrightarrow> e < 10 \<Longrightarrow> digit_char d < digit_char e \<longleftrightarrow> d < e"
  by (simp add: digit_char_def less_char_def of_char_of)

lemma nat_digits_step: "10 \<le> n \<Longrightarrow> nat_digits n = nat_digits (n div 10) @ [digit_char (n mod 10)]"
  and nat_digits_small: "n < 10 \<Longrightarrow> nat_digits n = [digit_char n]"
  by (subst nat_digits.simps, simp)+

lemma pad4: "n < 10000 \<Longrightarrow> pad_left 4 (nat_digits n)
    = [digit_char (n div 1000), digit_char (n div 100 mod 10), digit_char (n div 10 mod 10), digit_char (n mod 10)]"
proof -
  have z: "digit_char 0 = CHR ''0''" by code_simp
  have reps: "replicate 3 x = [x, x, x]" "replicate 2 x = [x, x]" for x :: char by (simp_all add: numeral_3_eq_3 numeral_2_eq_2)
  assume n: "n < 10000"
  consider "n < 10" | "10 \<le> n" "n < 100" | "100 \<le> n" "n < 1000" | "1000 \<le> n" by linarith
  then show ?thesis
  proof cases
    case 1
    then show ?thesis by (simp add: nat_digits_small pad_left_def z reps)
  next
    case 2
    then have "n div 10 < 10" "n div 100 = 0" "n div 1000 = 0" by simp_all
    with 2 show ?thesis by (simp add: nat_digits_step nat_digits_small pad_left_def z reps)
  next
    case 3
    then have "n div 10 div 10 < 10" "10 \<le> n div 10" "n div 1000 = 0" "n div 10 div 10 = n div 100" "n div 100 < 10" by (simp_all add: div_mult2_eq [symmetric])
    with 3 show ?thesis by (simp add: nat_digits_step nat_digits_small pad_left_def z reps)
  next
    case 4
    then have a: "10 \<le> n" "10 \<le> n div 10" "10 \<le> n div 10 div 10" "n div 10 div 10 div 10 < 10"
      "n div 10 div 10 = n div 100" "n div 10 div 10 div 10 = n div 1000"
      using n by (simp_all add: div_mult2_eq [symmetric])
    have "nat_digits n = [digit_char (n div 10 div 10 div 10)] @ [digit_char (n div 10 div 10 mod 10)] @ [digit_char (n div 10 mod 10)] @ [digit_char (n mod 10)]"
      unfolding nat_digits_step [OF a(1)] nat_digits_step [OF a(2)] nat_digits_step [OF a(3)] nat_digits_small [OF a(4)] by simp
    then show ?thesis by (simp add: pad_left_def a(5) flip: div_mult2_eq)
  qed
qed

lemma client_name_less: "i < j \<Longrightarrow> j < 10000 \<Longrightarrow> client_name i < client_name j"
proof -
  assume ij: "i < j" "j < 10000"
  define a b c where "a n = n div 1000" and "b n = n div 100 mod 10" and "c n = n div 10 mod 10" for n :: nat
  have val: "n = 1000 * a n + 100 * b n + 10 * c n + n mod 10" for n
  proof -
    define x y z u v w where "x = n div 10" and "y = x div 10" and "z = y div 10" and "u = n mod 10" and "v = x mod 10" and "w = y mod 10"
    have "a n = z" "b n = w" "c n = v"
      by (simp_all add: a_def b_def c_def x_def y_def z_def v_def w_def flip: div_mult2_eq)
    moreover have "n = 10 * x + u" "x = 10 * y + v" "y = 10 * z + w" by (simp_all add: x_def y_def z_def u_def v_def w_def)
    ultimately show ?thesis unfolding u_def [symmetric] by simp
  qed
  have small: "b n < 10" "c n < 10" for n by (simp_all add: b_def c_def)
  have "a i < a j \<or> a i = a j \<and> (b i < b j \<or> b i = b j \<and> (c i < c j \<or> c i = c j \<and> i mod 10 < j mod 10))"
    using val [of i] val [of j] small [of i] small [of j] ij(1) mod_less_divisor [of 10 i] mod_less_divisor [of 10 j] by linarith
  moreover have "a n < 10" if "n < 10000" for n using that by (simp add: a_def)
  moreover have "pad_left 4 (nat_digits n) = [digit_char (a n), digit_char (b n), digit_char (c n), digit_char (n mod 10)]" if "n < 10000" for n
    unfolding pad4 [OF that] a_def b_def c_def ..
  ultimately have "pad_left 4 (nat_digits i) < pad_left 4 (nat_digits j)"
    using ij small [of i] small [of j] mod_less_divisor [of 10 i] mod_less_divisor [of 10 j]
    by (simp add: digit_char_less digit_char_eq)
  then show ?thesis by (simp add: client_name_def)
qed

lemma client_name_inj: "client_name i = client_name j \<Longrightarrow> i = j"
proof -
  have z: "read_digits 0 (replicate k (CHR ''0'') @ s) = read_digits 0 s" for k s
    by (induction k) (simp_all add: digit_value_def)
  assume "client_name i = client_name j"
  then have "pad_left 4 (nat_digits i) = pad_left 4 (nat_digits j)" by (simp add: client_name_def)
  then have "read_digits 0 (nat_digits i) = read_digits 0 (nat_digits j)" unfolding pad_left_def by (metis z)
  then show ?thesis by (simp add: read_nat_digits)
qed

lemma client_name_10000: "client_name 10000 < client_name 9999"
proof -
  have "nat_digits 10000 = [digit_char 1, digit_char 0, digit_char 0, digit_char 0, digit_char 0]"
    "nat_digits 9999 = [digit_char 9, digit_char 9, digit_char 9, digit_char 9]"
    by (simp_all add: nat_digits_step nat_digits_small)
  then show ?thesis by (simp add: client_name_def pad_left_def digit_char_less)
qed

text \<open>The population is stable under growth, up to ten thousand. The first m clients of a population of n are the
  population of m, with the same positions; identifiers are distinct; and up to 10000 clients the order of identifiers
  that the runner sorts by is the order of creation. Beyond that the padding is too short: client-10000 sorts before
  client-9999, so adding clients then moves others to later draws of the shared popularity generator.\<close>

lemma population_stable:
  fixes R :: "'g rand_ops" and cc :: client_config and g :: 'g
  defines "pop n \<equiv> fst (build_clients R (cc\<lparr>cc_count := int n\<rparr>) g)"
  shows "(m \<le> n \<longrightarrow> take m (pop n) = pop m) \<and> length (pop n) = n \<and> distinct (map client_id (pop n))
    \<and> (n \<le> 10000 \<longrightarrow> sort_key client_id (pop n) = pop n) \<and> (10000 < n \<longrightarrow> sort_key client_id (pop n) \<noteq> pop n)"
proof -
  have ids: "map client_id (pop n) = map client_name [0..<n]"
    using clients_from_ids [of R _ 0 n g] by (simp add: pop_def build_clients_def)
  have "sorted (map client_name [0..<n])" if "n \<le> 10000"
    using that client_name_less by (fastforce simp: sorted_iff_nth_mono_less intro: less_imp_le)
  moreover have "\<not> sorted (map client_name [0..<n])" if "10000 < n"
  proof
    assume "sorted (map client_name [0..<n])"
    with that have "map client_name [0..<n] ! 9999 \<le> map client_name [0..<n] ! 10000" by (intro sorted_nth_mono) simp_all
    with that client_name_10000 show False by simp
  qed
  moreover have "sort_key client_id (pop n) = pop n \<longleftrightarrow> sorted (map client_id (pop n))"
    by (metis sort_key_id_if_sorted sorted_sort_key)
  moreover have "distinct (map client_name [0..<n])" by (simp add: distinct_map inj_on_def) (metis client_name_inj)
  moreover have "take m (pop n) = pop m" if "m \<le> n" using that by (simp add: pop_def build_clients_def clients_from_take)
  ultimately show ?thesis unfolding ids by (simp add: pop_def build_clients_def)
qed

end
