(* ===== verification/Metrics.thy ===== *)
theory Metrics
  imports Statistics Player "HOL-Library.Char_ord" "HOL-Library.List_Lexorder" "HOL-Library.Multiset"
begin

text \<open>
  \<open>internal/metrics/collector.go\<close> with the types of \<open>types.go\<close>: the collector of playback results, the metrics it
  aggregates for a protocol, and the comparison report of two protocols. The mutex serialises the operations,
  so a collector is the list of the results added so far.
\<close>

section \<open>Aggregated metrics\<close>

type_synonym collector = "playback_result list"

record aggregated_metrics =
  am_protocol :: string
  am_abr :: string
  num_sessions :: int
  segment_ttfb :: percentile_set
  segment_latency :: percentile_set
  am_startup :: percentile_set
  am_rebuffer_count :: stat_set
  am_rebuffer_duration :: stat_set
  am_avg_bitrate :: stat_set
  am_bitrate_changes :: stat_set
  am_hit_rate :: stat_set
  am_goodput :: percentile_set
  hol_block_rate :: stat_set
  am_zero_rtt_rate :: real

definition new_collector :: collector where "new_collector = []"

definition collector_add :: "playback_result \<Rightarrow> collector \<Rightarrow> collector" where
  "collector_add r c = c @ [r]"

definition collector_results :: "collector \<Rightarrow> playback_result list" where
  "collector_results c = c"

text \<open>\<open>float64(d.Milliseconds())\<close>.\<close>

definition millis :: "duration \<Rightarrow> real" where
  "millis d = i2f (dur_milliseconds d)"

definition hol_events :: "playback_result \<Rightarrow> real" where
  "hol_events r = i2f (int (length (filter sr_hol_blocked (pr_segments r))))"

definition no_percentiles :: percentile_set where
  "no_percentiles = \<lparr>ps_p50 = 0, ps_p95 = 0, ps_p99 = 0, ps_min = 0, ps_max = 0\<rparr>"

definition no_stats :: stat_set where
  "no_stats = \<lparr>ss_mean = 0, ss_std_dev = 0, ss_min = 0, ss_max = 0\<rparr>"

definition empty_metrics :: "string \<Rightarrow> aggregated_metrics" where
  "empty_metrics proto = \<lparr>am_protocol = proto, am_abr = [], num_sessions = 0, segment_ttfb = no_percentiles,
     segment_latency = no_percentiles, am_startup = no_percentiles, am_rebuffer_count = no_stats,
     am_rebuffer_duration = no_stats, am_avg_bitrate = no_stats, am_bitrate_changes = no_stats, am_hit_rate = no_stats,
     am_goodput = no_percentiles, hol_block_rate = no_stats, am_zero_rtt_rate = 0\<rparr>"

definition aggregate :: "collector \<Rightarrow> string \<Rightarrow> aggregated_metrics" where
  "aggregate c proto = (let filtered = filter (\<lambda>r. pr_protocol r = proto) c in
     if filtered = [] then empty_metrics proto
     else let segs = concat (map pr_segments filtered) in
       \<lparr>am_protocol = proto, am_abr = pr_abr_name (hd filtered), num_sessions = int (length filtered),
        segment_ttfb = build_percentile_set (map (\<lambda>s. millis (sr_ttfb s)) segs),
        segment_latency = build_percentile_set (map (\<lambda>s. millis (sr_latency s)) segs),
        am_startup = build_percentile_set (map (\<lambda>r. millis (startup_latency r)) filtered),
        am_rebuffer_count = build_stat_set (map (\<lambda>r. i2f (rebuffer_count r)) filtered),
        am_rebuffer_duration = build_stat_set (map (\<lambda>r. millis (rebuffer_duration r)) filtered),
        am_avg_bitrate = build_stat_set (map avg_bitrate filtered),
        am_bitrate_changes = build_stat_set (map (\<lambda>r. i2f (bitrate_changes r)) filtered),
        am_hit_rate = build_stat_set (map (\<lambda>r. fmul (cache_hit_rate r) 100) filtered),
        am_goodput = build_percentile_set (map sr_goodput segs),
        hol_block_rate = build_stat_set (map hol_events filtered),
        am_zero_rtt_rate = 0\<rparr>)"

section \<open>The comparison report\<close>

record improvement_result =
  ir_metric :: string
  ir_tcp :: real
  ir_quic :: real
  ir_pct :: real
  ir_ci_lower :: real
  ir_ci_upper :: real
  ir_cohens_d :: real
  ir_effect :: string
  ir_higher_good :: bool

record comparison_report =
  cr_scenario :: string
  cr_tcp :: aggregated_metrics
  cr_quic :: aggregated_metrics
  cr_improvement :: "improvement_result list"

definition sessions_for :: "collector \<Rightarrow> string \<Rightarrow> playback_result list" where
  "sessions_for c proto = sort_key pr_content_id (filter (\<lambda>r. pr_protocol r = proto) c)"

definition segment_latency_p95 :: "playback_result \<Rightarrow> real" where
  "segment_latency_p95 r = metrics_percentile (map (\<lambda>s. millis (sr_latency s)) (pr_segments r)) 95"

definition startup_p95 :: "playback_result \<Rightarrow> real" where "startup_p95 r = millis (startup_latency r)"
definition rebuffer_dur_ms :: "playback_result \<Rightarrow> real" where "rebuffer_dur_ms r = millis (rebuffer_duration r)"
definition rebuffer_count_of :: "playback_result \<Rightarrow> real" where "rebuffer_count_of r = i2f (rebuffer_count r)"
definition avg_bitrate_of :: "playback_result \<Rightarrow> real" where "avg_bitrate_of r = avg_bitrate r"

definition project :: "playback_result list \<Rightarrow> (playback_result \<Rightarrow> real) \<Rightarrow> real list" where
  "project rs fn = map fn rs"

definition bootstrap_ci :: "'g rand_ops \<Rightarrow> real list \<Rightarrow> real list \<Rightarrow> bool \<Rightarrow> int \<Rightarrow> 'g \<Rightarrow> (real \<times> real) \<times> 'g" where
  "bootstrap_ci R tcp quic higher iters g = (if tcp = [] \<or> quic = [] then ((0, 0), g)
     else bootstrap_improvement R tcp quic higher iters (fl (5 / 100)) g)"

definition improvement :: "'g rand_ops \<Rightarrow> playback_result list \<Rightarrow> playback_result list \<Rightarrow> string \<Rightarrow> (playback_result \<Rightarrow> real) \<Rightarrow>
    bool \<Rightarrow> 'g \<Rightarrow> improvement_result \<times> 'g" where
  "improvement R tcp quic label fn higher g = (let
       tcp_vals = project tcp fn; quic_vals = project quic fn;
       tcp_mean = mean tcp_vals; quic_mean = mean quic_vals;
       pct = (if higher then (if tcp_mean \<noteq> 0 then fmul (fdiv (fsub quic_mean tcp_mean) tcp_mean) 100 else 0)
              else (if tcp_mean \<noteq> 0 then fmul (fdiv (fsub tcp_mean quic_mean) tcp_mean) 100 else 0));
       ((low, high), g1) = bootstrap_ci R tcp_vals quic_vals higher 1000 g;
       d = fst (cohens_d tcp_vals quic_vals)
     in (\<lparr>ir_metric = label, ir_tcp = tcp_mean, ir_quic = quic_mean, ir_pct = pct, ir_ci_lower = low, ir_ci_upper = high,
          ir_cohens_d = d, ir_effect = effect_label d, ir_higher_good = higher\<rparr>, g1))"

text \<open>The rows of \<open>Compare\<close>, in their order; each draws from the generator the previous one left.\<close>

definition compare_rows :: "(string \<times> (playback_result \<Rightarrow> real) \<times> bool) list" where
  "compare_rows = [(''segment_latency_p95_ms'', segment_latency_p95, False), (''startup_latency_p95_ms'', startup_p95, False),
     (''rebuffer_duration_ms'', rebuffer_dur_ms, False), (''rebuffer_count'', rebuffer_count_of, False),
     (''avg_bitrate_kbps'', avg_bitrate_of, True)]"

fun compare_loop :: "'g rand_ops \<Rightarrow> playback_result list \<Rightarrow> playback_result list \<Rightarrow> (string \<times> (playback_result \<Rightarrow> real) \<times> bool) list \<Rightarrow> 'g \<Rightarrow>
    improvement_result list \<times> 'g" where
  "compare_loop R tcp quic [] g = ([], g)"
| "compare_loop R tcp quic ((label, fn, higher) # rows) g = (let (r, g1) = improvement R tcp quic label fn higher g;
     (rs, g2) = compare_loop R tcp quic rows g1 in (r # rs, g2))"

definition compare :: "'g rand_ops \<Rightarrow> collector \<Rightarrow> string \<Rightarrow> string \<Rightarrow> string \<Rightarrow> 'g \<Rightarrow> comparison_report \<times> 'g" where
  "compare R c scenario tcp_proto quic_proto g = (let
       (rows, g1) = compare_loop R (sessions_for c tcp_proto) (sessions_for c quic_proto) compare_rows g
     in (\<lparr>cr_scenario = scenario, cr_tcp = aggregate c tcp_proto, cr_quic = aggregate c quic_proto, cr_improvement = rows\<rparr>, g1))"

section \<open>Aggregation does not depend on the order of arrival\<close>

lemma percentile_set_mset: "mset xs = mset ys \<Longrightarrow> build_percentile_set xs = build_percentile_set ys"
proof -
  assume m: "mset xs = mset ys"
  have "sort xs = sort ys" using m by (metis properties_for_sort sorted_sort mset_sort)
  moreover have "xs = [] \<longleftrightarrow> ys = []" using m by auto
  ultimately show ?thesis by (simp add: build_percentile_set_def)
qed

lemma Min_min: "finite S \<Longrightarrow> Min (insert (min x a) S) = Min (insert a (insert x (S :: real set)))"
  by (cases "S = {}") (simp_all add: min.commute min.left_commute min.assoc)

lemma Max_max: "finite S \<Longrightarrow> Max (insert (max x a) S) = Max (insert a (insert x (S :: real set)))"
  by (cases "S = {}") (simp_all add: max.commute max.left_commute max.assoc)

lemma stat_min: "foldl (\<lambda>a v. if v < a then v else a) a xs = Min (insert a (set (xs :: real list)))"
proof (induction xs arbitrary: a)
  case (Cons x xs)
  have "(if x < a then x else a) = min x a" by (simp add: min_def)
  with Cons show ?case by (simp only: foldl_Cons list.simps Min_min [OF finite_set])
qed simp

lemma stat_max: "foldl (\<lambda>a v. if v > a then v else a) a xs = Max (insert a (set (xs :: real list)))"
proof (induction xs arbitrary: a)
  case (Cons x xs)
  have "(if x > a then x else a) = max x a" by (simp add: max_def)
  with Cons show ?case by (simp only: foldl_Cons list.simps Max_max [OF finite_set])
qed simp

lemma stat_extremes:
  "xs \<noteq> [] \<Longrightarrow> ss_min (build_stat_set xs) = Min (set xs)" "xs \<noteq> [] \<Longrightarrow> ss_max (build_stat_set xs) = Max (set xs)"
  by (simp_all add: build_stat_set_def Let_def stat_min stat_max insert_absorb)

lemma stat_extremes_mset: "mset xs = mset ys \<Longrightarrow> ss_min (build_stat_set xs) = ss_min (build_stat_set ys) \<and> ss_max (build_stat_set xs) = ss_max (build_stat_set ys)"
proof -
  assume m: "mset xs = mset ys"
  then have "xs = [] \<longleftrightarrow> ys = []" by (metis mset_zero_iff)
  with mset_eq_setD [OF m] show ?thesis by (cases "ys = []") (simp_all add: stat_extremes)
qed

lemma concat_mset: "mset xs = mset ys \<Longrightarrow> mset (concat (map f xs)) = mset (concat (map f ys))"
  unfolding mset_concat by (metis mset_map sum_mset_sum_list)

text \<open>Aggregation does not depend on the order of arrival. Two collectors that hold the same results in different
  orders, as concurrent sessions may leave them, give the same number of sessions, the same percentile sets, exactly, and
  the same extremes of every statistic, for each protocol.\<close>

lemma aggregate_order_free:
  fixes proto :: string
  assumes "mset c = mset c'"
  defines "m \<equiv> aggregate c proto" and "m' \<equiv> aggregate c' proto"
  shows "num_sessions m = num_sessions m' \<and> segment_ttfb m = segment_ttfb m' \<and> segment_latency m = segment_latency m'
    \<and> am_startup m = am_startup m' \<and> am_goodput m = am_goodput m'
    \<and> (\<forall>f\<in>{am_rebuffer_count, am_rebuffer_duration, am_avg_bitrate, am_bitrate_changes, am_hit_rate, hol_block_rate}.
        ss_min (f m) = ss_min (f m') \<and> ss_max (f m) = ss_max (f m'))"
proof -
  let ?f = "filter (\<lambda>r. pr_protocol r = proto) c" and ?f' = "filter (\<lambda>r. pr_protocol r = proto) c'"
  have f: "mset ?f = mset ?f'" using assms(1) by (metis mset_filter)
  have maps: "mset (map h ?f) = mset (map h ?f')" for h :: "playback_result \<Rightarrow> real" using f by simp
  have segs: "mset (map h (concat (map pr_segments ?f))) = mset (map h (concat (map pr_segments ?f')))" for h :: "segment_result \<Rightarrow> real"
    using concat_mset [OF f, of pr_segments] by simp
  show ?thesis
  proof (cases "?f = []")
    case True
    with f show ?thesis by (simp add: m_def m'_def aggregate_def)
  next
    case False
    with f have "?f' \<noteq> []" by (metis mset_zero_iff)
    moreover have "length ?f = length ?f'" using f by (metis size_mset)
    ultimately show ?thesis
      using False percentile_set_mset [OF segs] percentile_set_mset [OF maps] stat_extremes_mset [OF maps]
      unfolding m_def m'_def aggregate_def Let_def by simp
  qed
qed

definition demo_result :: "string \<Rightarrow> string \<Rightarrow> duration \<Rightarrow> real \<Rightarrow> playback_result" where
  "demo_result proto cid lat rate = \<lparr>pr_content_id = cid, pr_protocol = proto, pr_abr_name = ''buffer_based'', startup_latency = lat,
     total_play_time = 10 * second, rebuffer_count = 1, rebuffer_duration = lat, avg_bitrate = rate, bitrate_changes = 0,
     pr_segments = [\<lparr>sr_index = 0, sr_bitrate = 400, sr_size = 1000, sr_ttfb = lat, sr_latency = lat, sr_goodput = 1,
       sr_cache_hit = False, sr_shield_hit = False, sr_hol_blocked = True, sr_buffer_before = 0, sr_buffer_after = 0, sr_rebuffered = False\<rparr>],
     cache_hit_rate = 0\<rparr>"

end
