(* ===== verification/Comparison.thy ===== *)
theory Comparison
  imports Metrics RankSum GoStrings
begin

text \<open>
  \<open>internal/metrics/comparison.go\<close>: the enhanced comparison of two protocols with its verdict and its findings in
  words, and how it relates to the report of \<open>collector.go\<close>.
\<close>

section \<open>Formatting\<close>

text \<open>The verbs \<open>%.1f\<close> and \<open>%.3f\<close> of \<open>fmt\<close>: the decimal nearest to the float, ties to even, and \<open>%+.1f\<close> with a sign.\<close>

definition fmt_fixed :: "nat \<Rightarrow> real \<Rightarrow> string" where
  "fmt_fixed d x = (let n = nat (rne (\<bar>x\<bar> * 10 ^ d)) in
     (if x < 0 then ''-'' else []) @ nat_digits (n div 10 ^ d) @ ''.'' @ pad_left d (nat_digits (n mod 10 ^ d)))"

definition fmt_signed :: "nat \<Rightarrow> real \<Rightarrow> string" where
  "fmt_signed d x = (if x < 0 then [] else ''+'') @ fmt_fixed d x"

definition dash :: string where "dash = [CHR 0xE2, CHR 0x80, CHR 0x94]"

definition format_p :: "real \<Rightarrow> string" where
  "format_p p = (if p < fl (1 / 1000) then ''p < 0.001'' else if p < fl (1 / 100) then ''p < 0.01''
     else if p < fl (5 / 100) then ''p < 0.05'' else ''p = '' @ fmt_fixed 3 p)"

section \<open>The enhanced comparison\<close>

record improvement_detail =
  id_metric :: string
  id_tcp :: real
  id_quic :: real
  id_pct :: real
  id_ci_lower :: real
  id_ci_upper :: real
  id_effect :: real
  id_interp :: string
  id_p :: real
  id_significant :: bool
  id_higher_good :: bool

record enhanced_comparison =
  ec_scenario :: string
  ec_tcp :: aggregated_metrics
  ec_quic :: aggregated_metrics
  ec_improvements :: "string \<rightharpoonup> improvement_detail"
  quic_advantage :: string
  key_findings :: "string list"

record metric_spec =
  ms_key :: string
  ms_extract :: "playback_result \<Rightarrow> real"
  ms_higher :: bool

definition session_p :: "real \<Rightarrow> playback_result \<Rightarrow> real" where
  "session_p p r = (if pr_segments r = [] then 0 else percentile (map (\<lambda>s. millis (sr_latency s)) (pr_segments r)) p)"

definition mk_spec :: "string \<Rightarrow> (playback_result \<Rightarrow> real) \<Rightarrow> bool \<Rightarrow> metric_spec" where
  "mk_spec k f h = \<lparr>ms_key = k, ms_extract = f, ms_higher = h\<rparr>"

definition enhanced_metric_specs :: "metric_spec list" where
  "enhanced_metric_specs = [
     mk_spec ''segment_latency_p50_ms'' (session_p 50) False,
     mk_spec ''segment_latency_p95_ms'' (session_p 95) False,
     mk_spec ''segment_latency_p99_ms'' (session_p 99) False,
     mk_spec ''startup_latency_ms'' (\<lambda>r. millis (startup_latency r)) False,
     mk_spec ''rebuffer_count'' (\<lambda>r. i2f (rebuffer_count r)) False,
     mk_spec ''rebuffer_duration_ms'' (\<lambda>r. millis (rebuffer_duration r)) False,
     mk_spec ''avg_bitrate_kbps'' avg_bitrate True,
     mk_spec ''cache_hit_rate_pct'' (\<lambda>r. fmul (cache_hit_rate r) 100) True,
     mk_spec ''hol_block_events'' hol_events False]"

definition pct_improvement :: "real \<Rightarrow> real \<Rightarrow> bool \<Rightarrow> real" where
  "pct_improvement tcp_mean quic_mean higher = (if tcp_mean = 0
     then (if quic_mean = 0 then 0 else if higher then 100 else - 100)
     else if higher then fmul (fdiv (fsub quic_mean tcp_mean) tcp_mean) 100
     else fmul (fdiv (fsub tcp_mean quic_mean) tcp_mean) 100)"

fun pct_resamples :: "'g rand_ops \<Rightarrow> bool \<Rightarrow> real list \<Rightarrow> real list \<Rightarrow> nat \<Rightarrow> 'g \<Rightarrow> real list \<times> 'g" where
  "pct_resamples R higher xs ys 0 g = ([], g)"
| "pct_resamples R higher xs ys (Suc k) g = (let (as, g1) = resample R xs (length xs) g; (bs, g2) = resample R ys (length ys) g1;
     (out, g3) = pct_resamples R higher xs ys k g2 in (pct_improvement (mean as) (mean bs) higher # out, g3))"

definition bootstrap_improvement_ci :: "'g rand_ops \<Rightarrow> real list \<Rightarrow> real list \<Rightarrow> bool \<Rightarrow> int \<Rightarrow> 'g \<Rightarrow> (real \<times> real) \<times> 'g" where
  "bootstrap_improvement_ci R tcp quic higher iters g = (if tcp = [] \<or> quic = [] \<or> iters \<le> 0 then ((0, 0), g)
     else let (imps, g1) = pct_resamples R higher tcp quic (nat iters) g; s = sort imps
       in ((s ! nat (f2i (fmul (fl (25 / 1000)) (i2f iters))), s ! nat (f2i (fmul (fl (975 / 1000)) (i2f iters)))), g1))"

definition compute_improvement :: "libm \<Rightarrow> 'g rand_ops \<Rightarrow> metric_spec \<Rightarrow> real list \<Rightarrow> real list \<Rightarrow> 'g \<Rightarrow> improvement_detail \<times> 'g" where
  "compute_improvement M R spec tcp quic g = (let
       tcp_mean = mean tcp; quic_mean = mean quic;
       ((lo, hi), g1) = bootstrap_improvement_ci R tcp quic (ms_higher spec) 1000 g;
       (d, label) = (if ms_higher spec then cohens_d quic tcp else cohens_d tcp quic);
       p = snd (mann_whitney_u M tcp quic)
     in (\<lparr>id_metric = ms_key spec, id_tcp = tcp_mean, id_quic = quic_mean, id_pct = pct_improvement tcp_mean quic_mean (ms_higher spec),
          id_ci_lower = lo, id_ci_upper = hi, id_effect = d, id_interp = label, id_p = p, id_significant = (p < fl (5 / 100)),
          id_higher_good = ms_higher spec\<rparr>, g1))"

fun enhanced_loop :: "libm \<Rightarrow> 'g rand_ops \<Rightarrow> playback_result list \<Rightarrow> playback_result list \<Rightarrow> metric_spec list \<Rightarrow>
    (string \<rightharpoonup> improvement_detail) \<Rightarrow> 'g \<Rightarrow> (string \<rightharpoonup> improvement_detail) \<times> 'g" where
  "enhanced_loop M R tcp quic [] m g = (m, g)"
| "enhanced_loop M R tcp quic (spec # specs) m g = (let
     (d, g1) = compute_improvement M R spec (project tcp (ms_extract spec)) (project quic (ms_extract spec)) g
   in enhanced_loop M R tcp quic specs (m(ms_key spec \<mapsto> d)) g1)"

definition derive_verdict :: "(string \<rightharpoonup> improvement_detail) \<Rightarrow> string" where
  "derive_verdict imps = (case imps ''segment_latency_p95_ms'' of
       None \<Rightarrow> ''negligible''
     | Some p95 \<Rightarrow>
         if (case imps ''rebuffer_duration_ms'' of None \<Rightarrow> False
             | Some rebuf \<Rightarrow> id_pct p95 \<ge> 30 \<and> id_significant p95 \<and> id_pct rebuf \<ge> 50 \<and> id_significant rebuf) then ''dominant''
         else if id_pct p95 \<ge> 20 \<and> id_significant p95 then ''large''
         else if id_pct p95 \<ge> 5 \<and> id_significant p95 then ''moderate''
         else ''negligible'')"

definition finding :: "(string \<rightharpoonup> improvement_detail) \<Rightarrow> string \<Rightarrow> (improvement_detail \<Rightarrow> bool) \<Rightarrow> (improvement_detail \<Rightarrow> string) \<Rightarrow> string list" where
  "finding imps key cond text = (case imps key of None \<Rightarrow> [] | Some d \<Rightarrow> if cond d then [text d] else [])"

definition with_ci :: "improvement_detail \<Rightarrow> string" where
  "with_ci d = fmt_fixed 1 (id_pct d) @ ''% [CI '' @ fmt_fixed 1 (id_ci_lower d) @ ''% '' @ dash @ '' '' @ fmt_fixed 1 (id_ci_upper d) @ ''%]''"

definition derive_key_findings :: "(string \<rightharpoonup> improvement_detail) \<Rightarrow> string list" where
  "derive_key_findings imps =
     finding imps ''segment_latency_p95_ms'' id_significant
       (\<lambda>d. ''p95 segment latency improved by '' @ with_ci d @ '', statistically significant ('' @ format_p (id_p d) @ '')'')
     @ finding imps ''rebuffer_duration_ms'' (\<lambda>d. id_significant d \<and> id_pct d > 10)
       (\<lambda>d. ''Rebuffer duration reduced by '' @ with_ci d)
     @ finding imps ''avg_bitrate_kbps'' (\<lambda>d. id_significant d \<and> id_pct d > 5)
       (\<lambda>d. ''Average achieved bitrate increased by '' @ fmt_fixed 1 (id_pct d) @ ''%'')
     @ finding imps ''cache_hit_rate_pct'' (\<lambda>d. \<bar>id_pct d\<bar> \<le> 2 \<and> id_p d > fl (1 / 10))
       (\<lambda>d. ''Cache behavior is transport-independent'')
     @ finding imps ''hol_block_events'' (\<lambda>d. id_tcp d > 0)
       (\<lambda>d. ''HOL blocking eliminated by QUIC: TCP averaged '' @ fmt_fixed 1 (id_tcp d) @ '' events/session'')
     @ finding imps ''segment_latency_p95_ms'' (\<lambda>d. id_pct d < - 2)
       (\<lambda>d. ''Under these (low-loss) conditions QUIC's userspace overhead exceeds its protocol benefits: '' @
          ''TCP p95 = '' @ fmt_fixed 1 (id_tcp d) @ ''ms vs QUIC p95 = '' @ fmt_fixed 1 (id_quic d) @
          ''ms (change '' @ fmt_signed 1 (id_pct d) @ ''%)'')"

definition compare_enhanced :: "libm \<Rightarrow> 'g rand_ops \<Rightarrow> collector \<Rightarrow> string \<Rightarrow> string \<Rightarrow> string \<Rightarrow> 'g \<Rightarrow> enhanced_comparison \<times> 'g" where
  "compare_enhanced M R c scenario tcp_proto quic_proto g = (let
       (imps, g1) = enhanced_loop M R (sessions_for c tcp_proto) (sessions_for c quic_proto) enhanced_metric_specs Map.empty g
     in (\<lparr>ec_scenario = scenario, ec_tcp = aggregate c tcp_proto, ec_quic = aggregate c quic_proto, ec_improvements = imps,
          quic_advantage = derive_verdict imps, key_findings = derive_key_findings imps\<rparr>, g1))"

section \<open>The two reports\<close>

text \<open>An entry of the map is the row of its own specification, computed from some state of the generator.\<close>

lemma enhanced_loop_other: "k \<notin> ms_key ` set specs \<Longrightarrow> fst (enhanced_loop M R tcp quic specs m g) k = m k"
  by (induction specs arbitrary: m g) (auto simp: case_prod_unfold Let_def)

lemma enhanced_loop_entry:
  "distinct (map ms_key specs) \<Longrightarrow> spec \<in> set specs \<Longrightarrow>
    \<exists>g'. fst (enhanced_loop M R tcp quic specs m g) (ms_key spec)
      = Some (fst (compute_improvement M R spec (project tcp (ms_extract spec)) (project quic (ms_extract spec)) g'))"
proof (induction specs arbitrary: m g)
  case (Cons s specs)
  show ?case
  proof (cases "spec = s")
    case True
    with Cons.prems show ?thesis by (auto simp: case_prod_unfold Let_def enhanced_loop_other)
  next
    case False
    with Cons show ?thesis by (auto simp: case_prod_unfold Let_def)
  qed
qed simp

lemma compare_loop_entry:
  "r \<in> set (fst (compare_loop R tcp quic rows g)) \<Longrightarrow> \<exists>label fn higher g'. (label, fn, higher) \<in> set rows
    \<and> r = fst (improvement R tcp quic label fn higher g')"
proof (induction rows arbitrary: g)
  case (Cons row rows)
  obtain label fn higher where row: "row = (label, fn, higher)" by (cases row)
  let ?g = "snd (improvement R tcp quic label fn higher g)"
  have "r = fst (improvement R tcp quic label fn higher g) \<or> r \<in> set (fst (compare_loop R tcp quic rows ?g))"
    using Cons.prems by (simp add: row case_prod_unfold Let_def)
  then show ?case
  proof
    assume "r = fst (improvement R tcp quic label fn higher g)"
    then show ?thesis unfolding row
      by (intro exI [of _ label] exI [of _ fn] exI [of _ higher] exI [of _ g] conjI) simp_all
  next
    assume "r \<in> set (fst (compare_loop R tcp quic rows ?g))"
    from Cons.IH [OF this] show ?thesis by (elim exE conjE) (intro exI conjI list.set_intros(2), assumption+)
  qed
qed simp

lemma session_p_p95: "length (pr_segments r) \<le> 2 ^ 45 \<Longrightarrow> session_p 95 r = segment_latency_p95 r"
  by (simp add: session_p_def segment_latency_p95_def percentiles_agree) (simp add: metrics_percentile_def)

lemma improvement_fields:
  fixes tcp quic :: "playback_result list"
  defines "t fn \<equiv> mean (map fn tcp)" and "q fn \<equiv> mean (map fn quic)"
  shows "ir_metric (fst (improvement R tcp quic label fn higher g)) = label"
    "ir_tcp (fst (improvement R tcp quic label fn higher g)) = t fn"
    "ir_quic (fst (improvement R tcp quic label fn higher g)) = q fn"
    "ir_pct (fst (improvement R tcp quic label fn higher g)) = (if t fn = 0 then 0 else pct_improvement (t fn) (q fn) higher)"
    "ir_cohens_d (fst (improvement R tcp quic label fn higher g)) = fst (cohens_d (map fn tcp) (map fn quic))"
    "ir_effect (fst (improvement R tcp quic label fn higher g)) = effect_label (fst (cohens_d (map fn tcp) (map fn quic)))"
    "ir_higher_good (fst (improvement R tcp quic label fn higher g)) = higher"
  by (simp_all add: improvement_def project_def t_def q_def case_prod_unfold Let_def pct_improvement_def)

lemma compute_fields:
  "id_tcp (fst (compute_improvement M R spec tcp quic g)) = mean tcp"
  "id_quic (fst (compute_improvement M R spec tcp quic g)) = mean quic"
  "id_pct (fst (compute_improvement M R spec tcp quic g)) = pct_improvement (mean tcp) (mean quic) (ms_higher spec)"
  "id_effect (fst (compute_improvement M R spec tcp quic g)) = fst (if ms_higher spec then cohens_d quic tcp else cohens_d tcp quic)"
  "id_interp (fst (compute_improvement M R spec tcp quic g)) = snd (if ms_higher spec then cohens_d quic tcp else cohens_d tcp quic)"
  "id_p (fst (compute_improvement M R spec tcp quic g)) = snd (mann_whitney_u M tcp quic)"
  "id_significant (fst (compute_improvement M R spec tcp quic g)) = (snd (mann_whitney_u M tcp quic) < fl (5 / 100))"
  by (simp_all add: compute_improvement_def case_prod_unfold Let_def)

lemma sessions_for_set: "set (sessions_for c proto) = {r \<in> set c. pr_protocol r = proto}"
  by (auto simp: sessions_for_def)

definition same_row :: "improvement_result \<Rightarrow> improvement_detail \<Rightarrow> bool" where
  "same_row r d \<longleftrightarrow> id_tcp d = ir_tcp r \<and> id_quic d = ir_quic r \<and> ir_pct r = (if ir_tcp r = 0 then 0 else id_pct d)
    \<and> id_interp d = ir_effect r \<and> id_effect d = (if ir_higher_good r then - ir_cohens_d r else ir_cohens_d r)"

lemma same_rowI:
  assumes "\<forall>r\<in>set tcp \<union> set quic. ms_extract spec r = fn r"
  shows "same_row (fst (improvement R tcp quic label fn (ms_higher spec) g))
    (fst (compute_improvement M R spec (project tcp (ms_extract spec)) (project quic (ms_extract spec)) g'))"
proof -
  have e: "map (ms_extract spec) tcp = map fn tcp" "map (ms_extract spec) quic = map fn quic" using assms by auto
  show ?thesis
    unfolding same_row_def improvement_fields compute_fields project_def e
    using cohens_d_symmetric [of "map fn quic" "map fn tcp"] cohens_d_symmetric [of "map fn tcp" "map fn quic"] by auto
qed

lemma enhanced_keys_distinct: "distinct (map ms_key enhanced_metric_specs)"
  by (simp add: enhanced_metric_specs_def mk_spec_def)

text \<open>C34: The two reports of a run agree. For every metric both have (all rows of \<open>Compare\<close> but the start-up latency,
  which the enhanced report has under another key) the means, the effect label and, unless the TCP mean is zero, the
  improvement are the same, although the percentiles come from two implementations. With a zero TCP mean the first
  report says 0 and the second may say 100 or -100, and for a metric where higher is better the effect sizes have
  opposite signs.\<close>

theorem reports_agree:
  assumes "\<forall>r\<in>set c. length (pr_segments r) \<le> 2 ^ 45" "row \<in> set (cr_improvement (fst (compare R c scenario p q g)))"
  shows "ir_metric row = ''startup_latency_p95_ms'' \<or>
    (\<exists>d. ec_improvements (fst (compare_enhanced M R c scenario p q g')) (ir_metric row) = Some d \<and> same_row row d)"
proof -
  let ?t = "sessions_for c p" and ?q = "sessions_for c q"
  have ec: "ec_improvements (fst (compare_enhanced M R c scenario p q g'))
      = fst (enhanced_loop M R ?t ?q enhanced_metric_specs Map.empty g')"
    by (simp add: compare_enhanced_def case_prod_unfold Let_def)
  have "row \<in> set (fst (compare_loop R ?t ?q compare_rows g))"
    using assms(2) by (simp add: compare_def case_prod_unfold Let_def)
  then obtain label fn higher g1 where l: "(label, fn, higher) \<in> set compare_rows"
    and row: "row = fst (improvement R ?t ?q label fn higher g1)"
    by (elim compare_loop_entry [elim_format] exE conjE) (rule that)
  have short: "\<forall>r\<in>set ?t \<union> set ?q. session_p 95 r = segment_latency_p95 r"
    using assms(1) by (auto simp: sessions_for_set session_p_p95)
  have *: "\<exists>d. ec_improvements (fst (compare_enhanced M R c scenario p q g')) (ms_key spec) = Some d \<and> same_row row d"
    if spec: "spec \<in> set enhanced_metric_specs" "ms_higher spec = higher" "\<forall>r\<in>set ?t \<union> set ?q. ms_extract spec r = fn r" for spec
  proof -
    obtain g2 where "fst (enhanced_loop M R ?t ?q enhanced_metric_specs Map.empty g') (ms_key spec)
        = Some (fst (compute_improvement M R spec (project ?t (ms_extract spec)) (project ?q (ms_extract spec)) g2))"
      using enhanced_loop_entry [OF enhanced_keys_distinct spec(1), where M = M and R = R and tcp = ?t and quic = ?q and m = Map.empty and g = g']
      by (elim exE)
    with same_rowI [OF spec(3), where R = R and label = label and g = g1 and M = M and g' = g2] spec(2)
    show ?thesis unfolding ec row by simp
  qed
  from l have "label = ''segment_latency_p95_ms'' \<and> fn = segment_latency_p95 \<and> higher = False
    \<or> label = ''startup_latency_p95_ms'' \<and> fn = startup_p95 \<and> higher = False
    \<or> label = ''rebuffer_duration_ms'' \<and> fn = rebuffer_dur_ms \<and> higher = False
    \<or> label = ''rebuffer_count'' \<and> fn = rebuffer_count_of \<and> higher = False
    \<or> label = ''avg_bitrate_kbps'' \<and> fn = avg_bitrate_of \<and> higher = True"
    unfolding compare_rows_def by (simp only: list.set insert_iff empty_iff prod.inject simp_thms)
  then consider "label = ''startup_latency_p95_ms''" | "label = ''segment_latency_p95_ms''" "fn = segment_latency_p95" "\<not> higher"
    | "label = ''rebuffer_duration_ms''" "fn = rebuffer_dur_ms" "\<not> higher" | "label = ''rebuffer_count''" "fn = rebuffer_count_of" "\<not> higher"
    | "label = ''avg_bitrate_kbps''" "fn = avg_bitrate_of" higher
    by (elim disjE conjE) simp_all
  then show ?thesis
  proof cases
    case 2
    then show ?thesis using * [of "mk_spec label (session_p 95) False"] short
      by (simp add: row improvement_fields enhanced_metric_specs_def mk_spec_def)
  next
    case 3
    then show ?thesis using * [of "mk_spec label (\<lambda>r. millis (rebuffer_duration r)) False"]
      by (simp add: row improvement_fields enhanced_metric_specs_def mk_spec_def rebuffer_dur_ms_def)
  next
    case 4
    then show ?thesis using * [of "mk_spec label (\<lambda>r. i2f (rebuffer_count r)) False"]
      by (simp add: row improvement_fields enhanced_metric_specs_def mk_spec_def rebuffer_count_of_def)
  next
    case 5
    then show ?thesis using * [of "mk_spec label avg_bitrate True"]
      by (simp add: row improvement_fields enhanced_metric_specs_def mk_spec_def avg_bitrate_of_def)
  qed (simp add: row improvement_fields)
qed

section \<open>The verdict\<close>

lemma enhanced_entry:
  assumes "spec \<in> set enhanced_metric_specs"
  shows "\<exists>g'. ec_improvements (fst (compare_enhanced M R c scenario p q g)) (ms_key spec)
    = Some (fst (compute_improvement M R spec (map (ms_extract spec) (sessions_for c p)) (map (ms_extract spec) (sessions_for c q)) g'))"
  using enhanced_loop_entry [OF enhanced_keys_distinct assms, where M = M and R = R and tcp = "sessions_for c p" and quic = "sessions_for c q"
      and m = Map.empty and g = g]
  by (simp add: compare_enhanced_def case_prod_unfold Let_def project_def)

lemma fold_fadd_nonneg: "0 \<le> a \<Longrightarrow> \<forall>x\<in>set xs. 0 \<le> x \<Longrightarrow> 0 \<le> foldl fadd a xs"
  by (induction xs arbitrary: a) (simp_all add: fadd_nonneg)

lemma mean_nonneg: "\<forall>x\<in>set xs. 0 \<le> x \<Longrightarrow> 0 \<le> mean xs"
  by (simp add: mean_def fdiv_nonneg fold_fadd_nonneg count_f_def i2f_nonneg)

lemma millis_nonneg: "0 \<le> d \<Longrightarrow> 0 \<le> millis d"
  by (simp add: millis_def dur_milliseconds_def i2f_nonneg millisecond_def)

lemma percentile_in: "xs \<noteq> [] \<Longrightarrow> percentile xs p \<in> set xs"
proof -
  assume ne: "xs \<noteq> []"
  have r: "sort xs ! nat (r - 1) \<in> set xs" if "1 \<le> r" "r \<le> int (length xs)" for r
    using that nth_mem [of "nat (r - 1)" "sort xs"] by simp
  from ne have "1 \<le> int (length xs)" by (cases xs) simp_all
  with r [of "int (length xs)"] r ne show ?thesis unfolding percentile_def Let_def by simp
qed

lemma session_p_nonneg: "\<forall>s\<in>set (pr_segments r). 0 \<le> sr_latency s \<Longrightarrow> 0 \<le> session_p p r"
  using percentile_in [of "map (\<lambda>s. millis (sr_latency s)) (pr_segments r)" p] millis_nonneg
  by (auto simp: session_p_def)

text \<open>An improvement of a metric where lower is better, over a mean that is not negative, is a decrease.\<close>

lemma pct_lower: "0 < pct_improvement t u False \<Longrightarrow> 0 \<le> t \<Longrightarrow> u < t"
proof (rule ccontr)
  assume a: "0 < pct_improvement t u False" "0 \<le> t" "\<not> u < t"
  then have t: "t \<noteq> 0" by (auto simp: pct_improvement_def split: if_splits)
  have "0 \<le> fsub u t" using a(3) by (simp add: fsub_def fl_nonneg)
  then have "0 \<le> fmul (fdiv (fsub u t) t) 100" using a(2) by (simp add: fmul_nonneg fdiv_nonneg)
  moreover have "fmul (fdiv (fsub t u) t) 100 = - fmul (fdiv (fsub u t) t) 100"
    using fsub_flip [of t u] by (simp add: fdiv_minus) (simp add: fmul_def fl_minus)
  ultimately show False using a(1) t by (simp add: pct_improvement_def)
qed

lemma no_sessions_p: "xs = [] \<or> ys = [] \<Longrightarrow> \<not> snd (mann_whitney_u M xs ys) < fl (5 / 100)"
proof -
  have "fl (5 / 100) \<le> 1" by code_simp
  then show "xs = [] \<or> ys = [] \<Longrightarrow> ?thesis" by (auto simp: mann_whitney_u_def)
qed

text \<open>C35: The verdict is earned, at these thresholds. Take the means over the sessions of the 95th percentile of latency and of the stall time, by how many
  percent of the TCP mean QUIC lowers each, and whether the rank-sum test on the sessions is below 0.05. The advantage is dominant exactly when both are
  significant, the latency is lower by at least 30 and the stall time by at least 50 percent; otherwise it is large from 20 and moderate from 5 percent of a
  significant latency improvement, and negligible below. So anything but negligible means that both protocols have sessions and that the mean
  of QUIC is smaller, and dominant that TCP sessions stalled for longer.\<close>

theorem verdict_sound:
  fixes R :: "'g rand_ops" and M :: libm and p q scenario :: string and g :: 'g
  assumes nonneg: "\<forall>r\<in>set c. 0 \<le> rebuffer_duration r \<and> (\<forall>s\<in>set (pr_segments r). 0 \<le> sr_latency s)"
  defines "v \<equiv> quic_advantage (fst (compare_enhanced M R c scenario p q g))"
    and "t f \<equiv> map f (sessions_for c p)" and "u f \<equiv> map f (sessions_for c q)"
  defines "stall \<equiv> (\<lambda>r. millis (rebuffer_duration r))"
    and "lower f \<equiv> if mean (t f) = 0 then (if mean (u f) = 0 then 0 else - 100) else fmul (fdiv (fsub (mean (t f)) (mean (u f))) (mean (t f))) 100"
    and "significant f \<equiv> snd (mann_whitney_u M (t f) (u f)) < fl (5 / 100)"
  shows "(v = ''dominant'' \<longleftrightarrow> significant (session_p 95) \<and> 30 \<le> lower (session_p 95) \<and> significant stall \<and> 50 \<le> lower stall)
    \<and> (v = ''large'' \<longleftrightarrow> v \<noteq> ''dominant'' \<and> significant (session_p 95) \<and> 20 \<le> lower (session_p 95))
    \<and> (v = ''moderate'' \<longleftrightarrow> significant (session_p 95) \<and> 5 \<le> lower (session_p 95) \<and> lower (session_p 95) < 20)
    \<and> (v = ''negligible'' \<longleftrightarrow> \<not> significant (session_p 95) \<or> lower (session_p 95) < 5)
    \<and> (v \<noteq> ''negligible'' \<longrightarrow> sessions_for c p \<noteq> [] \<and> sessions_for c q \<noteq> [] \<and> mean (u (session_p 95)) < mean (t (session_p 95)))
    \<and> (v = ''dominant'' \<longrightarrow> mean (u stall) < mean (t stall))"
proof -
  let ?imps = "ec_improvements (fst (compare_enhanced M R c scenario p q g))"
  have low: "lower f = pct_improvement (mean (t f)) (mean (u f)) False" for f by (simp add: lower_def pct_improvement_def)
  have v: "v = derive_verdict ?imps" by (simp add: v_def compare_enhanced_def case_prod_unfold Let_def)
  obtain a where a: "?imps ''segment_latency_p95_ms'' = Some a"
    and a': "id_pct a = lower (session_p 95)" "id_significant a = significant (session_p 95)"
    using enhanced_entry [of "mk_spec ''segment_latency_p95_ms'' (session_p 95) False" M R c scenario p q g]
    by (auto simp: enhanced_metric_specs_def mk_spec_def compute_fields t_def u_def low significant_def)
  obtain b where b: "?imps ''rebuffer_duration_ms'' = Some b" and b': "id_pct b = lower stall" "id_significant b = significant stall"
    using enhanced_entry [of "mk_spec ''rebuffer_duration_ms'' stall False" M R c scenario p q g]
    by (auto simp: enhanced_metric_specs_def mk_spec_def compute_fields t_def u_def low significant_def stall_def)
  have n: "0 \<le> mean (t (session_p 95))" "0 \<le> mean (t stall)"
    using nonneg by (auto simp: t_def stall_def sessions_for_set intro!: mean_nonneg session_p_nonneg millis_nonneg)
  have cases: "v = (if significant (session_p 95) \<and> 30 \<le> lower (session_p 95) \<and> significant stall \<and> 50 \<le> lower stall then ''dominant''
      else if significant (session_p 95) \<and> 20 \<le> lower (session_p 95) then ''large''
      else if significant (session_p 95) \<and> 5 \<le> lower (session_p 95) then ''moderate'' else ''negligible'')"
    unfolding v derive_verdict_def a b option.case a' b' by (simp add: conj_ac)
  have "significant (session_p 95) \<and> 5 \<le> lower (session_p 95)" if "v \<noteq> ''negligible''" using that unfolding cases by (auto split: if_splits)
  then have better: "sessions_for c p \<noteq> [] \<and> sessions_for c q \<noteq> [] \<and> mean (u (session_p 95)) < mean (t (session_p 95))" if "v \<noteq> ''negligible''"
    using that n(1) no_sessions_p [of "t (session_p 95)" "u (session_p 95)" M] pct_lower [of "mean (t (session_p 95))" "mean (u (session_p 95))"]
    unfolding low significant_def by (auto simp: t_def u_def)
  have "50 \<le> lower stall" if "v = ''dominant''" using that unfolding cases by (auto split: if_splits)
  then have stalled: "mean (u stall) < mean (t stall)" if "v = ''dominant''" using that n(2) pct_lower unfolding low by fastforce
  show ?thesis using better stalled unfolding cases by (auto split: if_splits)
qed

section \<open>Examples\<close>

lemma compare_loop_metrics: "map ir_metric (fst (compare_loop R tcp quic rows g)) = map fst rows"
proof (induction rows arbitrary: g)
  case (Cons row rows)
  then show ?case by (cases row) (simp add: case_prod_unfold Let_def improvement_fields)
qed simp

lemma compare_metric_names: "''avg_bitrate_kbps'' \<in> set (map fst compare_rows)"
  by (simp add: compare_rows_def)

definition demo_results :: collector where
  "demo_results = [demo_result ''tcp-h2'' ''a'' (30 * millisecond) 400, demo_result ''quic-h3'' ''a'' (20 * millisecond) 800]"

theorem reports_agree_witness:
  "\<exists>row d. ir_metric row = ''avg_bitrate_kbps''
    \<and> row \<in> set (cr_improvement (fst (compare lcg demo_results ''s'' ''tcp-h2'' ''quic-h3'' 7)))
    \<and> ec_improvements (fst (compare_enhanced flat_libm lcg demo_results ''s'' ''tcp-h2'' ''quic-h3'' 7)) ''avg_bitrate_kbps'' = Some d
    \<and> same_row row d"
proof -
  have short: "\<forall>r\<in>set demo_results. length (pr_segments r) \<le> 2 ^ 45" by (simp add: demo_results_def demo_result_def)
  obtain row where row: "row \<in> set (cr_improvement (fst (compare lcg demo_results ''s'' ''tcp-h2'' ''quic-h3'' 7)))"
    "ir_metric row = ''avg_bitrate_kbps''"
  proof -
    let ?rows = "cr_improvement (fst (compare lcg demo_results ''s'' ''tcp-h2'' ''quic-h3'' 7))"
    have "map ir_metric ?rows = map fst compare_rows" by (simp add: compare_def case_prod_unfold Let_def compare_loop_metrics)
    then have "''avg_bitrate_kbps'' \<in> ir_metric ` set ?rows" by (metis (no_types) compare_metric_names list.set_map)
    then show ?thesis using that by auto
  qed
  with reports_agree [OF short row(1), of flat_libm 7] show ?thesis by auto
qed

text \<open>Four sessions of 40 milliseconds against four of 10, with an error function that is one from 1 on.\<close>

definition step_libm :: libm where
  "step_libm = flat_libm\<lparr>m_erf := (\<lambda>x. if x < 1 then 0 else 1)\<rparr>"

definition clear_results :: collector where
  "clear_results = replicate 4 (demo_result ''tcp-h2'' ''a'' (40 * millisecond) 400) @ replicate 4 (demo_result ''quic-h3'' ''a'' (10 * millisecond) 400)"

lemma clear_test: "snd (mann_whitney_u step_libm [40, 40, 40, 40] [10, 10, 10, 10]) = 0"
proof -
  have s: "sort_key fst (map (\<lambda>v. (v, True)) [40, 40, 40, 40] @ map (\<lambda>v. (v, False)) [10, 10, 10, 10])
      = map (\<lambda>v. (v, False)) [10, 10, 10, 10] @ map (\<lambda>v. (v, True)) [40, 40, 40, 40 :: real]" by simp
  have n: "count_f [40, 40, 40, 40 :: real] = 4" "count_f [10, 10, 10, 10 :: real] = 4" by code_simp+
  have r: "foldl (\<lambda>s (e, r). if snd e then fadd s r else s) 0 (zip (map (\<lambda>v. (v, False)) [10, 10, 10, 10] @ map (\<lambda>v. (v, True)) [40, 40, 40, 40 :: real])
      (tie_ranks 0 (map (\<lambda>v. (v, False)) [10, 10, 10, 10] @ map (\<lambda>v. (v, True)) [40, 40, 40, 40 :: real]))) = 26" by code_simp
  have u: "fmul 4 4 = 16" "fadd 4 1 = 5" "fmul 4 5 = 20" "fdiv 20 2 = 10" "fsub 26 10 = 16" "fsub 16 16 = 0" "fdiv 16 2 = 8" "fadd 4 4 = 8"
    "fadd 8 1 = 9" "fmul 16 9 = 144" "fdiv 144 12 = 12" "fsub 0 8 = - 8" "fsub 8 (1 / 2) = 15 / 2" by code_simp+
  have "sqrt 12 \<le> 7 / 2" by (rule real_le_lsqrt) (simp_all add: power2_eq_square)
  moreover have "sqrt 4 \<le> sqrt 12" by (rule real_sqrt_le_mono) simp
  then have "2 \<le> sqrt 12" by simp
  moreover have h: "float_rep (7 / 2)" using float_rep_halves [of 7] by simp
  ultimately have q: "fsqrt 12 \<le> 7 / 2" "2 \<le> fsqrt 12"
    unfolding fsqrt_def using fl_le_rep [OF _ h] fl_ge_rep [of 2 "sqrt 12"] float_rep_int [of 2] by simp_all
  have "2 \<le> 15 / 2 / fsqrt 12" using q by (simp add: field_simps)
  then have z: "2 \<le> fdiv (15 / 2) (fsqrt 12)" unfolding fdiv_def by (intro fl_ge_rep) (use float_rep_int [of 2] in simp_all)
  have "1 \<le> fdiv (15 / 2) (fsqrt 12) / (6369051672525773 / 4503599627370496)" using z by (simp add: field_simps)
  then have "1 \<le> fdiv (fdiv (15 / 2) (fsqrt 12)) (6369051672525773 / 4503599627370496)"
    unfolding fdiv_def [of _ "6369051672525773 / 4503599627370496"] by (intro fl_ge_rep) (use float_rep_int [of 1] in simp_all)
  then have phi: "phi step_libm (fdiv (15 / 2) (fsqrt 12)) = fmul (1 / 2) (fadd 1 1)" by (simp add: phi_def step_libm_def)
  have p: "fmul (1 / 2) (fadd 1 1) = 1" "fsub 1 1 = 0" "fmul 2 0 = 0" by code_simp+
  show ?thesis unfolding mann_whitney_u_def s r n Let_def u by (simp add: u phi p)
qed

theorem verdict_sound_witness:
  "quic_advantage (fst (compare_enhanced step_libm lcg clear_results ''s'' ''tcp-h2'' ''quic-h3'' 7)) = ''dominant''"
proof -
  have nonneg: "\<forall>r\<in>set clear_results. 0 \<le> rebuffer_duration r \<and> (\<forall>s\<in>set (pr_segments r). 0 \<le> sr_latency s)"
    by (auto simp: clear_results_def demo_result_def millisecond_def)
  have ms: "millis (40 * millisecond) = 40" "millis (10 * millisecond) = 10" by code_simp+
  have one: "percentile [x] y = x" for x y by (simp add: percentile_def Let_def)
  have p95: "map (session_p 95) (sessions_for clear_results ''tcp-h2'') = [40, 40, 40, 40]"
    "map (session_p 95) (sessions_for clear_results ''quic-h3'') = [10, 10, 10, 10]"
    "map (\<lambda>r. millis (rebuffer_duration r)) (sessions_for clear_results ''tcp-h2'') = [40, 40, 40, 40]"
    "map (\<lambda>r. millis (rebuffer_duration r)) (sessions_for clear_results ''quic-h3'') = [10, 10, 10, 10]"
    by (simp_all add: sessions_for_def clear_results_def demo_result_def session_p_def one ms eval_nat_numeral)
  have m: "mean [40, 40, 40, 40] = 40" "mean [10, 10, 10, 10] = 10" "fmul (fdiv (fsub 40 10) 40) 100 = 75" "0 < fl (1 / 20)" by code_simp+
  from verdict_sound [OF nonneg, of step_libm lcg "''s''" "''tcp-h2''" "''quic-h3''" 7] show ?thesis
    unfolding p95 clear_test m using m(4) by simp
qed

end
