(* ===== verification/Tls.thy ===== *)
theory Tls
  imports Config
begin

text \<open>
  The TLS configuration of the emulated mode: \<open>buildEmulatedTLSConfig\<close> of \<open>internal/experiment/emulated.go\<close> and the
  protocol list the transports of \<open>internal/transport/emulated\<close> add to it. Reading a file (\<open>os.ReadFile\<close>) and
  \<open>AppendCertsFromPEM\<close> on a fresh pool are parameters.
\<close>

datatype tls_error = Read_ca string string | Parse_ca string | Ca_and_insecure | No_trust_anchor

record 'p tls_config =
  tls_min_version :: int
  tls_roots :: "'p option"
  tls_insecure :: bool
  tls_protos :: "string list"

definition tls13 :: int where "tls13 = 772"

definition build_emulated_tls :: "(string \<Rightarrow> string + string) \<Rightarrow> (string \<Rightarrow> 'p option) \<Rightarrow> emulated_config \<Rightarrow> tls_error + 'p tls_config" where
  "build_emulated_tls read_file pool_of em = (let c = \<lparr>tls_min_version = tls13, tls_roots = None, tls_insecure = False, tls_protos = []\<rparr> in
     if ca_cert_path em \<noteq> [] then (case read_file (ca_cert_path em) of
         Inl e \<Rightarrow> Inl (Read_ca (ca_cert_path em) e)
       | Inr pem \<Rightarrow> (case pool_of pem of
           None \<Rightarrow> Inl (Parse_ca (ca_cert_path em))
         | Some pool \<Rightarrow> let c = c\<lparr>tls_roots := Some pool\<rparr> in if insecure_tls em then Inl Ca_and_insecure else Inr c))
     else if \<not> insecure_tls em then Inl No_trust_anchor
     else Inr (c\<lparr>tls_insecure := True\<rparr>))"

text \<open>The clone with the transport's own protocol, unless the caller has set some.\<close>

definition with_proto :: "string \<Rightarrow> 'p tls_config \<Rightarrow> 'p tls_config" where
  "with_proto p c = (if tls_protos c = [] then c\<lparr>tls_protos := [p]\<rparr> else c)"

text \<open>Certificate checks are never switched off silently. A configuration is built exactly in two cases: a CA file that
  reads and parses, without the insecure option, and then certificates are checked against exactly its pool; or no CA file and
  the insecure option given explicitly. In every configuration TLS 1.3 is the least version, and what a transport adds to it
  changes neither; giving neither option, or both with a CA file that parses, is an error.\<close>

lemma tls_never_silently_insecure:
  "(\<forall>c. build_emulated_tls rd pool em = Inr c \<longrightarrow> tls_min_version (with_proto p c) = tls13
      \<and> tls_insecure (with_proto p c) = insecure_tls em \<and> tls_protos (with_proto p c) = [p]
      \<and> (if insecure_tls em then ca_cert_path em = [] \<and> tls_roots (with_proto p c) = None
         else \<exists>pem ca. rd (ca_cert_path em) = Inr pem \<and> pool pem = Some ca \<and> tls_roots (with_proto p c) = Some ca))
    \<and> ((\<exists>c. build_emulated_tls rd pool em = Inr c) \<longleftrightarrow>
        (if ca_cert_path em = [] then insecure_tls em
         else \<not> insecure_tls em \<and> (\<exists>pem ca. rd (ca_cert_path em) = Inr pem \<and> pool pem = Some ca)))
    \<and> (ca_cert_path em = [] \<and> \<not> insecure_tls em \<longrightarrow> build_emulated_tls rd pool em = Inl No_trust_anchor)
    \<and> (ca_cert_path em \<noteq> [] \<and> insecure_tls em \<and> rd (ca_cert_path em) = Inr pem' \<and> pool pem' = Some ca' \<longrightarrow>
        build_emulated_tls rd pool em = Inl Ca_and_insecure)"
  by (auto simp: build_emulated_tls_def with_proto_def Let_def split: sum.splits option.splits if_splits)

end
