(* ===== verification/Runner.thy ===== *)
theory Runner
  imports Population Comparison Playback Bandwidth Tls
begin

text \<open>
  \<open>internal/experiment/runner.go\<close>: a run of an experiment. For one protocol and run index the runner builds the
  clients, the edges with their caches, the shield and the popularity generator, routes one client after the other to an
  edge and plays one content over a fresh transport; an experiment repeats this for every protocol and run and
  aggregates. The transport and the cache are chosen by the configuration, so the loop is generic in both.
\<close>

section \<open>Choices by configuration\<close>

text \<open>The two branches of \<open>buildTransport\<close>. The transport and the trace generator share one \<open>*rand.Rand\<close>, so the
  transport goes on with the state the trace has left. The trace gets one unit of fuel per second, which
  suffices for every duration that is not negative (lemma \<open>run_trace_Some\<close> of theory Runs).\<close>

definition run_trace :: "'g env \<Rightarrow> experiment_config \<Rightarrow> network_profile \<Rightarrow> 'g \<Rightarrow> (bw_trace option \<times> 'g) option" where
  "run_trace E cfg p g = (case ex_bandwidth cfg of None \<Rightarrow> Some (None, g)
     | Some b \<Rightarrow> if bw_enabled b then
         (let secs = duration_seconds (ex_content cfg) * 2
          in map_option (\<lambda>(bt, g'). (Some bt, g')) (new_synthetic_trace (e_rand E) (nat secs) secs (profile_mbps p) (variability b) g))
       else Some (None, g))"

definition build_tcp :: "'g env \<Rightarrow> experiment_config \<Rightarrow> network_profile \<Rightarrow> 'g \<Rightarrow> 'g tcp option" where
  "build_tcp E cfg p g = (let t = new_modeled_tcp (\<lambda>n. e_source E (word_of_int n)) (e_rand E) p g
     in map_option (\<lambda>(bt, g'). (case bt of None \<Rightarrow> t | Some bt \<Rightarrow> tcp_with_trace bt t)\<lparr>tcp_rng := g'\<rparr>) (run_trace E cfg p (tcp_rng t)))"

definition build_quic :: "'g env \<Rightarrow> experiment_config \<Rightarrow> network_profile \<Rightarrow> 'g \<Rightarrow> 'g quic option" where
  "build_quic E cfg p g = (let q = new_modeled_quic (\<lambda>n. e_source E (word_of_int n)) (e_rand E) p (qc_zero_rtt (ex_quic cfg)) g
     in map_option (\<lambda>(bt, g'). (case bt of None \<Rightarrow> q | Some bt \<Rightarrow> quic_with_trace bt q)\<lparr>quic_rng := g'\<rparr>) (run_trace E cfg p (quic_rng q)))"

definition build_abr :: "string \<Rightarrow> abr_ops" where
  "build_abr name = (if name = ''throughput_based''
     then \<lparr>a_select = throughput_select new_throughput_abr, a_name = throughput_name\<rparr>
     else \<lparr>a_select = buffer_select new_buffer_abr, a_name = buffer_name\<rparr>)"

definition build_policy :: "'g env \<Rightarrow> client_config \<Rightarrow> client_info \<Rightarrow> edge_pop list \<Rightarrow> 'g \<Rightarrow> (string + edge_pop) \<times> 'g" where
  "build_policy E cc = (if cc_policy cc = ''weighted_capacity'' then weighted_route (e_math E) (e_rand E)
     else if cc_policy cc = ''geo_affinity'' then geo_route (e_math E)
     else if cc_policy cc = ''realistic_bgp''
       then bgp_route (e_math E) (e_rand E) (if misroute_prob cc \<le> 0 then fl (15 / 100) else misroute_prob cc)
     else latency_route (e_math E))"

definition run_playback_config :: "playback_yaml \<Rightarrow> playback_config" where
  "run_playback_config y = (let
       c = default_playback_config;
       c = (if py_max_buffer y > 0 then c\<lparr>max_buffer := py_max_buffer y * second\<rparr> else c);
       c = (if py_startup y > 0 then c\<lparr>startup_threshold := py_startup y * second\<rparr> else c)
     in if py_prefetch y > 0 then c\<lparr>prefetch_depth := py_prefetch y\<rparr> else c)"

text \<open>The manifest of a content, seeded by its index alone.\<close>

definition content_manifest :: "'g env \<Rightarrow> content_config \<Rightarrow> int \<Rightarrow> manifest" where
  "content_manifest E cc idx = fst (generate_manifest (e_math E) (e_rand E) (content_name idx)
     (duration_seconds cc * second) (segment_seconds cc * second) [] (e_source E (word_of_int ((idx + 1) * 9973))))"

section \<open>Warm-up\<close>

definition warm_items :: "'g env \<Rightarrow> content_config \<Rightarrow> int \<Rightarrow> item list" where
  "warm_items E cc idx = (let m = content_manifest E cc idx; rep = representations m ! (length (representations m) div 2)
     in map (\<lambda>seg. \<lparr>item_key = segment_id_of (content_name idx) (int seg) (bitrate rep),
          size_bytes = segment_sizes rep ! seg, expiry = 0, item_value = None\<rparr>) [0..<nat (total_segments m)])"

definition warm_all :: "'g env \<Rightarrow> content_config \<Rightarrow> item list" where
  "warm_all E cc = (let top = catalog_size cc div 10; top = (if top < 1 then 1 else top)
     in concat (map (\<lambda>i. warm_items E cc (int i)) [0..<nat top]))"

definition put_items :: "'c cache_ops \<Rightarrow> item list \<Rightarrow> 'c \<Rightarrow> 'c" where
  "put_items C its c = foldl (\<lambda>c it. c_put C it sim_epoch c) c its"

text \<open>Edges with the same identifier share a cache, and warm it twice.\<close>

definition warm_up_caches :: "'g env \<Rightarrow> 'c cache_ops \<Rightarrow> content_config \<Rightarrow> edge_pop list \<Rightarrow> (string \<rightharpoonup> 'c) \<Rightarrow> (string \<rightharpoonup> 'c)" where
  "warm_up_caches E C cc edges m = foldl (\<lambda>m e. m(edge_id e := map_option (put_items C (warm_all E cc)) (m (edge_id e)))) m edges"

section \<open>One run\<close>

text \<open>\<open>Unsupported_protocol\<close> only comes from the emulated mode.\<close>

datatype run_error = Route_failed string | Play_failed call_error | Trace_diverges | Unsupported_protocol string

record ('c, 't, 'g) run_state =
  rs_edges :: "edge_pop list"
  rs_caches :: "string \<rightharpoonup> 'c"
  rs_shield :: "(lru, 't) shield option"
  rs_pop :: "'g popularity"
  rs_results :: collector

text \<open>What a run is generic in: the operations of the transport and the cache, and how a transport is built.\<close>

record ('c, 't, 'g) parts =
  p_transport :: "'t transport_ops"
  p_build :: "network_profile \<Rightarrow> 'g \<Rightarrow> 't option"
  p_cache :: "'c cache_ops"
  p_new_cache :: "int \<Rightarrow> 'c"

definition edge_profile :: "experiment_config \<Rightarrow> edge_pop \<Rightarrow> network_profile" where
  "edge_profile cfg e = (if profile_mbps (client_profile e) = 0 then tc_origin_network (ex_topology cfg) else client_profile e)"

text \<open>The session of a client that has its edge and its content.\<close>

definition play_session :: "'g env \<Rightarrow> ('c, 't, 'g) parts \<Rightarrow> experiment_config \<Rightarrow> 64 word \<Rightarrow> string option \<Rightarrow> client_info \<Rightarrow> edge_pop \<Rightarrow> int \<Rightarrow>
    ('c, 't, 'g) run_state \<Rightarrow> run_error option \<times> ('c, 't, 'g) run_state" where
  "play_session E P cfg base ctx client edge idx s = (case p_build P (edge_profile cfg edge)
       (e_source E (base + seed_offset (client_id client @ ''-tr''))) of
     None \<Rightarrow> (Some Trace_diverges, s)
   | Some t \<Rightarrow> (case run_playback (build_abr (ex_abr cfg)) (p_cache P) (p_transport P)
         (shield_fetch lru_ops (p_transport P) (e_clock E)) ctx
         \<lparr>s_manifest = content_manifest E (ex_content cfg) idx, s_content_id = content_name idx,
          s_config = run_playback_config (ex_playback cfg)\<rparr>
         \<lparr>w_cache = rs_caches s (edge_id edge), w_transport = t, w_shield = rs_shield s\<rparr> of
       (pr, err, w) \<Rightarrow>
         let s1 = s\<lparr>rs_caches := (rs_caches s)(edge_id edge := w_cache w), rs_shield := w_shield w\<rparr>
         in case err of Some e \<Rightarrow> (Some (Play_failed e), s1)
            | None \<Rightarrow> (None, s1\<lparr>rs_results := collector_add pr (rs_results s1)\<rparr>)))"

definition run_client :: "'g env \<Rightarrow> ('c, 't, 'g) parts \<Rightarrow> experiment_config \<Rightarrow> 64 word \<Rightarrow> string option \<Rightarrow> client_info \<Rightarrow>
    ('c, 't, 'g) run_state \<Rightarrow> run_error option \<times> ('c, 't, 'g) run_state" where
  "run_client E P cfg base ctx client s = (case fst (build_policy E (ex_clients cfg) client (rs_edges s)
       (e_source E (base + seed_offset (client_id client)))) of
     Inl e \<Rightarrow> (Some (Route_failed e), s)
   | Inr edge \<Rightarrow> (let
         s1 = s\<lparr>rs_edges := add_load (edge_id edge) (rs_edges s)\<rparr>;
         (idx, pop) = next_index E (rs_pop s1)
       in play_session E P cfg base ctx client edge idx (s1\<lparr>rs_pop := pop\<rparr>)))"

fun run_clients :: "'g env \<Rightarrow> ('c, 't, 'g) parts \<Rightarrow> experiment_config \<Rightarrow> 64 word \<Rightarrow> string option \<Rightarrow> client_info list \<Rightarrow>
    ('c, 't, 'g) run_state \<Rightarrow> run_error option \<times> ('c, 't, 'g) run_state" where
  "run_clients E P cfg base ctx [] s = (None, s)"
| "run_clients E P cfg base ctx (c # cs) s = (case run_client E P cfg base ctx c s of
     (Some e, s1) \<Rightarrow> (Some e, s1) | (None, s1) \<Rightarrow> run_clients E P cfg base ctx cs s1)"

definition base_seed :: "experiment_config \<Rightarrow> int \<Rightarrow> 64 word" where
  "base_seed cfg run_idx = ex_seed cfg + word_of_int run_idx * 1000003"

definition run_population :: "'g env \<Rightarrow> experiment_config \<Rightarrow> int \<Rightarrow> client_info list" where
  "run_population E cfg run_idx =
     sort_key client_id (fst (build_clients (e_rand E) (ex_clients cfg) (e_source E (base_seed cfg run_idx))))"

definition new_caches :: "('c, 't, 'g) parts \<Rightarrow> experiment_config \<Rightarrow> string \<rightharpoonup> 'c" where
  "new_caches P cfg = foldl (\<lambda>m e. m(edge_id e \<mapsto> p_new_cache P (cache_bytes (ex_cache cfg)))) Map.empty (tc_edges (ex_topology cfg))"

text \<open>The state before the first client; \<open>None\<close> when the shield's transport cannot be built.\<close>

definition initial_state :: "'g env \<Rightarrow> ('c, 't, 'g) parts \<Rightarrow> experiment_config \<Rightarrow> int \<Rightarrow> collector \<Rightarrow> ('c, 't, 'g) run_state option" where
  "initial_state E P cfg run_idx results = (let
       base = base_seed cfg run_idx;
       edges = tc_edges (ex_topology cfg);
       caches = new_caches P cfg;
       caches = (if warm_up (ex_cache cfg) then warm_up_caches E (p_cache P) (ex_content cfg) edges caches else caches);
       pop = new_zipf_popularity (catalog_size (ex_content cfg)) (zipf_alpha (ex_content cfg)) (e_source E (base + 31));
       start = (\<lambda>sh. \<lparr>rs_edges = edges, rs_caches = caches, rs_shield = sh, rs_pop = pop, rs_results = results\<rparr>)
     in case ex_shield cfg of
          None \<Rightarrow> Some (start None)
        | Some sc \<Rightarrow> map_option (\<lambda>t. start (Some (new_origin_shield (Some (new_lru (sh_bytes sc))) t (sh_ttl sc))))
            (p_build P (tc_origin_network (ex_topology cfg)) (e_source E (base + 17))))"

text \<open>What a run leaves for the others: its error, the results and, for the theorems, the loads of the edges.\<close>

definition run_with :: "'g env \<Rightarrow> ('c, 't, 'g) parts \<Rightarrow> experiment_config \<Rightarrow> string option \<Rightarrow> int \<Rightarrow> collector \<Rightarrow>
    run_error option \<times> collector \<times> edge_pop list" where
  "run_with E P cfg ctx run_idx results = (case initial_state E P cfg run_idx results of
     None \<Rightarrow> (Some Trace_diverges, results, tc_edges (ex_topology cfg))
   | Some s \<Rightarrow> (case run_clients E P cfg (base_seed cfg run_idx) ctx (run_population E cfg run_idx) s of
       (e, s1) \<Rightarrow> (e, rs_results s1, rs_edges s1)))"

definition tcp_parts :: "'g env \<Rightarrow> experiment_config \<Rightarrow> 'c cache_ops \<Rightarrow> (int \<Rightarrow> 'c) \<Rightarrow> ('c, 'g tcp, 'g) parts" where
  "tcp_parts E cfg C new = \<lparr>p_transport = tcp_ops (e_math E) (e_rand E), p_build = build_tcp E cfg, p_cache = C, p_new_cache = new\<rparr>"

definition quic_parts :: "'g env \<Rightarrow> experiment_config \<Rightarrow> 'c cache_ops \<Rightarrow> (int \<Rightarrow> 'c) \<Rightarrow> ('c, 'g quic, 'g) parts" where
  "quic_parts E cfg C new = \<lparr>p_transport = quic_ops (e_math E) (e_rand E), p_build = build_quic E cfg, p_cache = C, p_new_cache = new\<rparr>"

definition run_over :: "'g env \<Rightarrow> experiment_config \<Rightarrow> string \<Rightarrow> 'c cache_ops \<Rightarrow> (int \<Rightarrow> 'c) \<Rightarrow> string option \<Rightarrow> int \<Rightarrow> collector \<Rightarrow>
    run_error option \<times> collector \<times> edge_pop list" where
  "run_over E cfg proto C new ctx run_idx results = (if proto = ''quic-h3''
     then run_with E (quic_parts E cfg C new) cfg ctx run_idx results
     else run_with E (tcp_parts E cfg C new) cfg ctx run_idx results)"

definition run_one :: "'g env \<Rightarrow> experiment_config \<Rightarrow> string option \<Rightarrow> string \<Rightarrow> int \<Rightarrow> collector \<Rightarrow>
    run_error option \<times> collector \<times> edge_pop list" where
  "run_one E cfg ctx proto run_idx results = (if cache_type (ex_cache cfg) = ''arc''
     then run_over E cfg proto arc_ops new_arc ctx run_idx results
     else run_over E cfg proto lru_ops new_lru ctx run_idx results)"

section \<open>An experiment\<close>

datatype experiment_error = Cancelled string | Run_failed string int run_error | Emulated_edges_missing | Tls_failed tls_error

record experiment_results =
  er_config :: experiment_config
  er_by_protocol :: "string \<rightharpoonup> aggregated_metrics"
  er_comparison :: "comparison_report option"
  er_enhanced :: "enhanced_comparison option"
  er_raw :: collector

definition has_both :: "string list \<Rightarrow> bool" where
  "has_both ps \<longleftrightarrow> ''tcp-h2'' \<in> set ps \<and> ''quic-h3'' \<in> set ps"

text \<open>The inner loop over the run indices from \<open>i\<close> on, and the outer one over the protocols.\<close>

fun run_indices :: "'g env \<Rightarrow> experiment_config \<Rightarrow> string option \<Rightarrow> string \<Rightarrow> int \<Rightarrow> nat \<Rightarrow> collector \<Rightarrow> experiment_error option \<times> collector" where
  "run_indices E cfg ctx proto i 0 results = (None, results)"
| "run_indices E cfg ctx proto i (Suc k) results = (case ctx of Some e \<Rightarrow> (Some (Cancelled e), results)
     | None \<Rightarrow> (case run_one E cfg ctx proto i results of
         (Some e, results1, _) \<Rightarrow> (Some (Run_failed proto i e), results1)
       | (None, results1, _) \<Rightarrow> run_indices E cfg ctx proto (i + 1) k results1))"

fun run_protocols :: "'g env \<Rightarrow> experiment_config \<Rightarrow> string option \<Rightarrow> string list \<Rightarrow> collector \<Rightarrow> experiment_error option \<times> collector" where
  "run_protocols E cfg ctx [] results = (None, results)"
| "run_protocols E cfg ctx (p # ps) results = (case run_indices E cfg ctx p 0 (nat (ex_runs cfg)) results of
     (Some e, results1) \<Rightarrow> (Some e, results1) | (None, results1) \<Rightarrow> run_protocols E cfg ctx ps results1)"

definition collect_results :: "'g env \<Rightarrow> experiment_config \<Rightarrow> collector \<Rightarrow> experiment_results" where
  "collect_results E cfg c = (let
       by_protocol = foldl (\<lambda>m p. m(p \<mapsto> aggregate c p)) Map.empty (ex_protocols cfg);
       g = e_source E (ex_seed cfg)
     in if has_both (ex_protocols cfg)
        then \<lparr>er_config = cfg, er_by_protocol = by_protocol,
          er_comparison = Some (fst (compare (e_rand E) c (ex_name cfg) ''tcp-h2'' ''quic-h3'' g)),
          er_enhanced = Some (fst (compare_enhanced (e_math E) (e_rand E) c (ex_name cfg) ''tcp-h2'' ''quic-h3'' g)),
          er_raw = collector_results c\<rparr>
        else \<lparr>er_config = cfg, er_by_protocol = by_protocol, er_comparison = None, er_enhanced = None, er_raw = collector_results c\<rparr>)"

text \<open>\<open>Run\<close>; the emulated mode, which sends real requests, is the argument \<open>emulated\<close>.\<close>

definition run_experiment :: "'g env \<Rightarrow> (experiment_config \<Rightarrow> experiment_error + experiment_results) \<Rightarrow> experiment_config \<Rightarrow> string option \<Rightarrow>
    experiment_error + experiment_results" where
  "run_experiment E emulated cfg ctx = (if ex_mode cfg = ''emulated'' then emulated cfg
     else case run_protocols E cfg ctx (ex_protocols cfg) new_collector of
         (Some e, c) \<Rightarrow> Inl e | (None, c) \<Rightarrow> Inr (collect_results E cfg c))"

end
