(* ===== verification/Runs.thy ===== *)
theory Runs
  imports Runner
begin

text \<open>
  What the runs of an experiment do: they differ between the protocols in the transport only, fail for want of an
  edge only, keep the capacities of the edges, and are reported under the label of the transport.
\<close>

section \<open>The label of a result\<close>

definition label :: "playback_result \<Rightarrow> string \<times> string \<times> string" where
  "label r = (pr_content_id r, pr_protocol r, pr_abr_name r)"

lemma label_steps:
  "label (r\<lparr>rebuffer_duration := x, rebuffer_count := y\<rparr>) = label r" "label (r\<lparr>startup_latency := x\<rparr>) = label r"
  "label (r\<lparr>bitrate_changes := y\<rparr>) = label r" "label (r\<lparr>pr_segments := xs\<rparr>) = label r"
  by (simp_all add: label_def)

lemma label_settle: "label (result (fst (settle cfg d fetch p))) = label (result p)"
  by (simp add: settle_def drain_def fill_buffer_def start_playback_def Let_def case_prod_unfold label_steps)

lemma label_note: "label (result (note_bitrate b p)) = label (result p)"
  by (simp add: note_bitrate_def Let_def label_steps)

lemma label_finish: "label (result (finish_batch s b batch n p)) = label (result p)"
  by (simp add: finish_batch_def Let_def case_prod_unfold label_steps label_note label_settle)

lemma label_playback:
  assumes "run_playback A C T X ctx s w = (r, None, w')"
  shows "label r = (s_content_id s, t_protocol T, a_name A)"
proof -
  obtain hs t p where l: "play_loop A C T X ctx (defaulted s) (w\<lparr>w_transport := t\<rparr>)
      (initial_play hs (initial_result (defaulted s) (t_protocol T) (a_name A))) = (None, w', p)" and r: "r = final_result p"
    using run_playback_Some [OF assms] by blast
  have "label (result p) = (s_content_id s, t_protocol T, a_name A) \<and> total_segments (s_manifest (defaulted s)) \<le> p_index p"
  proof (rule play_loop_rule [OF l, where I = "\<lambda>w p. label (result p) = (s_content_id s, t_protocol T, a_name A)"])
    show "label (result (initial_play hs (initial_result (defaulted s) (t_protocol T) (a_name A)))) = (s_content_id s, t_protocol T, a_name A)"
      by (simp add: label_def initial_play_def initial_result_def)
  next
    fix w p w1 p1 assume "label (result p) = (s_content_id s, t_protocol T, a_name A)"
      and "play_batch A C T X ctx (defaulted s) w p = (None, w1, p1)"
    then show "label (result p1) = (s_content_id s, t_protocol T, a_name A)"
      using play_batch_Some [of A C T X ctx "defaulted s" w p w1 p1] by (auto simp: label_finish)
  qed
  then show ?thesis by (simp add: r final_result_def label_def Let_def)
qed

section \<open>What a session changes\<close>

lemma play_session_frame:
  "rs_edges (snd (play_session E P cfg base ctx client edge idx s)) = rs_edges s"
  "rs_pop (snd (play_session E P cfg base ctx client edge idx s)) = rs_pop s"
  by (simp_all add: play_session_def Let_def case_prod_unfold split: option.split)

lemma play_session_results:
  "fst (play_session E P cfg base ctx client edge idx s) = None \<Longrightarrow>
    \<exists>r. rs_results (snd (play_session E P cfg base ctx client edge idx s)) = rs_results s @ [r]
      \<and> label r = (content_name idx, t_protocol (p_transport P), a_name (build_abr (ex_abr cfg)))"
  "fst (play_session E P cfg base ctx client edge idx s) \<noteq> None \<Longrightarrow>
    rs_results (snd (play_session E P cfg base ctx client edge idx s)) = rs_results s"
  using label_playback
  by (fastforce simp: play_session_def collector_add_def Let_def split: option.splits prod.splits)+

text \<open>The edges and the contents of a run, without its sessions: what remains when nothing fails.\<close>

fun plan :: "'g env \<Rightarrow> experiment_config \<Rightarrow> 64 word \<Rightarrow> client_info list \<Rightarrow> edge_pop list \<Rightarrow> 'g popularity \<Rightarrow>
    (string + (string \<times> string \<times> int) list \<times> edge_pop list)" where
  "plan E cfg base [] edges pop = Inr ([], edges)"
| "plan E cfg base (c # cs) edges pop = (case fst (build_policy E (ex_clients cfg) c edges (e_source E (base + seed_offset (client_id c)))) of
     Inl e \<Rightarrow> Inl e
   | Inr edge \<Rightarrow> (case next_index E pop of (idx, pop') \<Rightarrow>
       (case plan E cfg base cs (add_load (edge_id edge) edges) pop' of
          Inl e \<Rightarrow> Inl e | Inr (xs, edges') \<Rightarrow> Inr ((client_id c, edge_id edge, idx) # xs, edges'))))"

lemma run_clients_plan:
  "run_clients E P cfg base ctx cs s = (None, s') \<Longrightarrow>
    \<exists>xs rs. plan E cfg base cs (rs_edges s) (rs_pop s) = Inr (xs, rs_edges s') \<and> rs_results s' = rs_results s @ rs
      \<and> map label rs = map (\<lambda>(c, e, idx). (content_name idx, t_protocol (p_transport P), a_name (build_abr (ex_abr cfg)))) xs"
proof (induction cs arbitrary: s)
  case (Cons c cs)
  obtain edge where edge: "fst (build_policy E (ex_clients cfg) c (rs_edges s) (e_source E (base + seed_offset (client_id c)))) = Inr edge"
    using Cons.prems by (auto simp: run_client_def split: sum.splits)
  obtain idx pop where pop: "next_index E (rs_pop s) = (idx, pop)" by fastforce
  let ?s1 = "s\<lparr>rs_edges := add_load (edge_id edge) (rs_edges s), rs_pop := pop\<rparr>"
  have step: "run_client E P cfg base ctx c s = play_session E P cfg base ctx c edge idx ?s1"
    by (simp add: run_client_def edge pop)
  obtain s2 where s2: "play_session E P cfg base ctx c edge idx ?s1 = (None, s2)" "run_clients E P cfg base ctx cs s2 = (None, s')"
    using Cons.prems step by (auto split: prod.splits option.splits)
  note frame = play_session_frame [of E P cfg base ctx c edge idx ?s1, unfolded s2(1), simplified]
  from play_session_results(1) [of E P cfg base ctx c edge idx ?s1] s2(1) obtain r where
    r: "rs_results s2 = rs_results s @ [r]" "label r = (content_name idx, t_protocol (p_transport P), a_name (build_abr (ex_abr cfg)))"
    by auto
  from Cons.IH [OF s2(2)] obtain xs rs where
    "plan E cfg base cs (add_load (edge_id edge) (rs_edges s)) pop = Inr (xs, rs_edges s')" "rs_results s' = rs_results s @ r # rs"
    "map label rs = map (\<lambda>(c, e, idx). (content_name idx, t_protocol (p_transport P), a_name (build_abr (ex_abr cfg)))) xs"
    by (auto simp: frame r(1))
  then have "plan E cfg base (c # cs) (rs_edges s) (rs_pop s) = Inr ((client_id c, edge_id edge, idx) # xs, rs_edges s')
      \<and> rs_results s' = rs_results s @ (r # rs)
      \<and> map label (r # rs) = map (\<lambda>(c, e, idx). (content_name idx, t_protocol (p_transport P), a_name (build_abr (ex_abr cfg))))
          ((client_id c, edge_id edge, idx) # xs)"
    by (simp add: edge pop r(2))
  then show ?case by blast
qed simp

lemma initial_state_frame:
  "initial_state E P cfg i results = Some s \<Longrightarrow> rs_edges s = tc_edges (ex_topology cfg) \<and> rs_results s = results
    \<and> rs_pop s = new_zipf_popularity (catalog_size (ex_content cfg)) (zipf_alpha (ex_content cfg)) (e_source E (base_seed cfg i + 31))"
  by (auto simp: initial_state_def Let_def split: option.splits)

definition run_plan :: "'g env \<Rightarrow> experiment_config \<Rightarrow> int \<Rightarrow> string + (string \<times> string \<times> int) list \<times> edge_pop list" where
  "run_plan E cfg i = plan E cfg (base_seed cfg i) (run_population E cfg i) (tc_edges (ex_topology cfg))
     (new_zipf_popularity (catalog_size (ex_content cfg)) (zipf_alpha (ex_content cfg)) (e_source E (base_seed cfg i + 31)))"

definition planned :: "experiment_config \<Rightarrow> string \<Rightarrow> (string \<times> string \<times> int) list \<Rightarrow> (string \<times> string \<times> string) list" where
  "planned cfg proto xs = map (\<lambda>(c, e, idx). (content_name idx, proto, a_name (build_abr (ex_abr cfg)))) xs"

lemma run_with_plan:
  assumes "run_with E P cfg ctx i results = (None, c, es)"
  shows "\<exists>xs rs. run_plan E cfg i = Inr (xs, es) \<and> c = results @ rs \<and> map label rs = planned cfg (t_protocol (p_transport P)) xs"
proof -
  obtain s where s: "initial_state E P cfg i results = Some s"
    using assms by (auto simp: run_with_def split: option.splits)
  obtain s1 where s1: "run_clients E P cfg (base_seed cfg i) ctx (run_population E cfg i) s = (None, s1)" "rs_results s1 = c" "rs_edges s1 = es"
    using assms s by (auto simp: run_with_def split: prod.splits)
  from run_clients_plan [OF s1(1)] initial_state_frame [OF s] s1(2,3) show ?thesis
    unfolding run_plan_def planned_def by auto
qed

text \<open>The protocol a run really uses: anything that is not QUIC is TCP.\<close>

definition effective :: "string \<Rightarrow> string" where
  "effective proto = (if proto = quic_protocol then quic_protocol else tcp_protocol)"

lemma parts_protocol:
  "t_protocol (p_transport (tcp_parts E cfg C new)) = tcp_protocol" "t_protocol (p_transport (quic_parts E cfg C new)) = quic_protocol"
  by (simp_all add: tcp_parts_def quic_parts_def tcp_ops_def quic_ops_def)

lemma run_over_plan:
  assumes "run_over E cfg proto C new ctx i results = (None, c, es)"
  shows "\<exists>xs rs. run_plan E cfg i = Inr (xs, es) \<and> c = results @ rs \<and> map label rs = planned cfg (effective proto) xs"
proof (cases "proto = quic_protocol")
  case True
  then have "run_with E (quic_parts E cfg C new) cfg ctx i results = (None, c, es)" using assms by (simp add: run_over_def quic_protocol_def)
  from run_with_plan [OF this] True show ?thesis by (simp add: effective_def parts_protocol)
next
  case False
  then have "run_with E (tcp_parts E cfg C new) cfg ctx i results = (None, c, es)" using assms by (simp add: run_over_def quic_protocol_def)
  from run_with_plan [OF this] False show ?thesis by (simp add: effective_def parts_protocol)
qed

lemma run_one_plan:
  assumes "run_one E cfg ctx proto i results = (None, c, es)"
  shows "\<exists>xs rs. run_plan E cfg i = Inr (xs, es) \<and> c = results @ rs \<and> map label rs = planned cfg (effective proto) xs"
  using assms run_over_plan [of E cfg proto arc_ops] run_over_plan [of E cfg proto lru_ops] by (auto simp: run_one_def split: if_splits)

lemma plan_length: "plan E cfg base cs edges pop = Inr (xs, es) \<Longrightarrow> map fst xs = map client_id cs"
  by (induction cs arbitrary: edges pop xs) (auto split: sum.splits prod.splits)

lemma planned_contents: "map label rs = planned cfg p xs \<Longrightarrow> map pr_content_id rs = map (\<lambda>(c, e, idx). content_name idx) xs"
proof -
  assume "map label rs = planned cfg p xs"
  then have "map fst (map label rs) = map fst (planned cfg p xs)" by simp
  then show ?thesis by (simp add: planned_def label_def comp_def case_prod_unfold)
qed

lemma builds_paired:
  "map_option (\<lambda>t. (tcp_profile t, tcp_rng t, tcp_loss t, tcp_bandwidth t, tcp_wall_clock t)) (build_tcp E cfg p g)
    = map_option (\<lambda>q. (quic_profile q, quic_rng q, quic_loss q, quic_bandwidth q, quic_wall_clock q)) (build_quic E cfg p g)"
proof (cases "run_trace E cfg p (snd (r_int63 (e_rand E) g))")
  case (Some x)
  then show ?thesis
    by (cases x; cases "fst x") (simp_all add: build_tcp_def build_quic_def new_modeled_tcp_def new_modeled_quic_def tcp_with_trace_def
        quic_with_trace_def Let_def case_prod_unfold)
qed (simp add: build_tcp_def build_quic_def new_modeled_tcp_def new_modeled_quic_def Let_def case_prod_unfold)

text \<open>The sessions a run plays one after the other: each client at the edge the policy picks for it, which takes the load, with the
  next content of the catalogue, over a transport and with the caches and the shield of the run.\<close>

fun played :: "'g env \<Rightarrow> ('c, 't, 'g) parts \<Rightarrow> experiment_config \<Rightarrow> 64 word \<Rightarrow> string option \<Rightarrow> (client_info \<times> edge_pop \<times> int) list \<Rightarrow>
    ('c, 't, 'g) run_state \<Rightarrow> ('c, 't, 'g) run_state \<Rightarrow> bool" where
  "played E P cfg base ctx [] s s' \<longleftrightarrow> s' = s"
| "played E P cfg base ctx ((c, edge, idx) # xs) s s' \<longleftrightarrow>
     fst (build_policy E (ex_clients cfg) c (rs_edges s) (e_source E (base + seed_offset (client_id c)))) = Inr edge
     \<and> fst (next_index E (rs_pop s)) = idx
     \<and> (\<exists>s1. play_session E P cfg base ctx c edge idx
          (s\<lparr>rs_edges := add_load (edge_id edge) (rs_edges s), rs_pop := snd (next_index E (rs_pop s))\<rparr>) = (None, s1)
        \<and> played E P cfg base ctx xs s1 s')"

definition plays :: "'g env \<Rightarrow> ('c, 't, 'g) parts \<Rightarrow> experiment_config \<Rightarrow> string option \<Rightarrow> int \<Rightarrow> (client_info \<times> edge_pop \<times> int) list \<Rightarrow>
    collector \<Rightarrow> collector \<Rightarrow> bool" where
  "plays E P cfg ctx i xs c c' \<longleftrightarrow> (\<exists>s s'. initial_state E P cfg i c = Some s \<and> played E P cfg (base_seed cfg i) ctx xs s s' \<and> rs_results s' = c')"

definition plays_over :: "'g env \<Rightarrow> experiment_config \<Rightarrow> string option \<Rightarrow> string \<Rightarrow> int \<Rightarrow> (client_info \<times> edge_pop \<times> int) list \<Rightarrow>
    collector \<Rightarrow> collector \<Rightarrow> bool" where
  "plays_over E cfg ctx proto i xs c c' \<longleftrightarrow> (if cache_type (ex_cache cfg) = ''arc''
     then (if proto = ''quic-h3'' then plays E (quic_parts E cfg arc_ops new_arc) cfg ctx i xs c c'
       else plays E (tcp_parts E cfg arc_ops new_arc) cfg ctx i xs c c')
     else (if proto = ''quic-h3'' then plays E (quic_parts E cfg lru_ops new_lru) cfg ctx i xs c c'
       else plays E (tcp_parts E cfg lru_ops new_lru) cfg ctx i xs c c'))"

text \<open>Which sessions those are depends on the policy and the generators alone.\<close>

fun choices :: "'g env \<Rightarrow> experiment_config \<Rightarrow> 64 word \<Rightarrow> client_info list \<Rightarrow> edge_pop list \<Rightarrow> 'g popularity \<Rightarrow>
    (client_info \<times> edge_pop \<times> int) list" where
  "choices E cfg base [] edges pop = []"
| "choices E cfg base (c # cs) edges pop = (case fst (build_policy E (ex_clients cfg) c edges (e_source E (base + seed_offset (client_id c)))) of
     Inl e \<Rightarrow> []
   | Inr edge \<Rightarrow> (c, edge, fst (next_index E pop)) # choices E cfg base cs (add_load (edge_id edge) edges) (snd (next_index E pop)))"

lemma run_clients_played:
  "run_clients E P cfg base ctx cs s = (None, s') \<Longrightarrow> played E P cfg base ctx (choices E cfg base cs (rs_edges s) (rs_pop s)) s s'
    \<and> map fst (choices E cfg base cs (rs_edges s) (rs_pop s)) = cs"
proof (induction cs arbitrary: s)
  case (Cons c cs)
  obtain edge where edge: "fst (build_policy E (ex_clients cfg) c (rs_edges s) (e_source E (base + seed_offset (client_id c)))) = Inr edge"
    using Cons.prems by (auto simp: run_client_def split: sum.splits)
  obtain idx pop where pop: "next_index E (rs_pop s) = (idx, pop)" by fastforce
  let ?s1 = "s\<lparr>rs_edges := add_load (edge_id edge) (rs_edges s), rs_pop := pop\<rparr>"
  have step: "run_client E P cfg base ctx c s = play_session E P cfg base ctx c edge idx ?s1"
    by (simp add: run_client_def edge pop)
  obtain s2 where s2: "play_session E P cfg base ctx c edge idx ?s1 = (None, s2)" "run_clients E P cfg base ctx cs s2 = (None, s')"
    using Cons.prems step by (auto split: prod.splits option.splits)
  note frame = play_session_frame [of E P cfg base ctx c edge idx ?s1, unfolded s2(1), simplified]
  from Cons.IH [OF s2(2)] s2(1) show ?case by (simp add: edge pop frame)
qed simp

definition run_choices :: "'g env \<Rightarrow> experiment_config \<Rightarrow> int \<Rightarrow> (client_info \<times> edge_pop \<times> int) list" where
  "run_choices E cfg i = choices E cfg (base_seed cfg i) (run_population E cfg i) (tc_edges (ex_topology cfg))
     (new_zipf_popularity (catalog_size (ex_content cfg)) (zipf_alpha (ex_content cfg)) (e_source E (base_seed cfg i + 31)))"

lemma run_with_plays:
  assumes "run_with E P cfg ctx i c = (None, c', es)"
  shows "plays E P cfg ctx i (run_choices E cfg i) c c' \<and> map fst (run_choices E cfg i) = run_population E cfg i"
proof -
  obtain s where s: "initial_state E P cfg i c = Some s"
    using assms by (auto simp: run_with_def split: option.splits)
  obtain s1 where s1: "run_clients E P cfg (base_seed cfg i) ctx (run_population E cfg i) s = (None, s1)" "rs_results s1 = c'"
    using assms s by (auto simp: run_with_def split: prod.splits)
  from run_clients_played [OF s1(1)] initial_state_frame [OF s] s s1(2) show ?thesis
    unfolding plays_def run_choices_def by auto
qed

lemma run_one_plays:
  "run_one E cfg ctx proto i c = (None, c', es) \<Longrightarrow>
    plays_over E cfg ctx proto i (run_choices E cfg i) c c' \<and> map fst (run_choices E cfg i) = run_population E cfg i"
  unfolding run_one_def run_over_def plays_over_def
  by (cases "cache_type (ex_cache cfg) = ''arc''"; cases "proto = ''quic-h3''"; simp; drule run_with_plays; simp)


section \<open>Capacities\<close>

lemma plan_routes:
  "plan E cfg base cs edges pop = Inr (xs, es) \<Longrightarrow>
    route_clients (build_policy E (ex_clients cfg)) (\<lambda>c. e_source E (base + seed_offset (client_id c))) cs edges
      = Inr (map (\<lambda>x. fst (snd x)) xs, es)"
  by (induction cs arbitrary: edges pop xs) (fastforce split: sum.splits prod.splits)+

lemma build_policy_room: "rand_ok (e_rand E) \<Longrightarrow> cc_policy cc \<noteq> ''weighted_capacity'' \<Longrightarrow> policy_iface (build_policy E cc)"
  by (simp add: build_policy_def bgp_policy latency.policy_iface_axioms geo.policy_iface_axioms)

lemma policy_in:
  assumes "rand_ok (e_rand E)" "fst (build_policy E cc c edges g) = Inr e"
  shows "e \<in> set edges"
proof (cases "cc_policy cc = ''weighted_capacity''")
  case True
  then show ?thesis using assms weighted_spec [OF assms(1), where M = "e_math E" and c = c and edges = edges and g = g] by (simp add: build_policy_def)
next
  case False
  from policy_iface.route_room [OF build_policy_room [OF assms(1) False] assms(2)] show ?thesis by simp
qed

lemma route_clients_counts:
  assumes "\<And>c es g e. fst (route c es g) = Inr e \<Longrightarrow> e \<in> set es"
  shows "distinct (map edge_id es) \<Longrightarrow> route_clients route seed cs es = Inr (taken, es') \<Longrightarrow>
    map edge_id es' = map edge_id es \<and> sum_list (map current_load es') = sum_list (map current_load es) + int (length cs)"
proof (induction cs arbitrary: es taken)
  case (Cons c cs)
  obtain e where e: "fst (route c es (seed c)) = Inr e" using Cons.prems(2) by (auto split: sum.splits)
  obtain taken' where r: "route_clients route seed cs (add_load (edge_id e) es) = Inr (taken', es')"
    using Cons.prems(2) e by (auto split: sum.splits)
  have "edge_id e \<in> edge_id ` set es" using assms [OF e] by blast
  with Cons.IH [OF _ r] Cons.prems(1) show ?case by (simp add: add_load_sum)
qed simp

text \<open>C15: A run counts its clients, and only the weighted policy can overload an edge. Under every policy, whatever the protocol and the
  caches, a run that succeeds has counted each client once on one of the edges it was given. Under every policy but \<open>weighted_capacity\<close>,
  which can pick a full edge, it also keeps every load within its edge's capacity, so it can only succeed when the
  edges, if they are all bounded, have room for all clients. Edges are told apart by their identifiers.\<close>

theorem run_keeps_capacity:
  assumes "rand_ok (e_rand E)" "loads_ok (tc_edges (ex_topology cfg))"
    and "run_one E cfg ctx proto i results = (None, c, es)"
  shows "map edge_id es = map edge_id (tc_edges (ex_topology cfg))
    \<and> sum_list (map current_load es) = sum_list (map current_load (tc_edges (ex_topology cfg))) + int (nat (cc_count (ex_clients cfg)))
    \<and> (cc_policy (ex_clients cfg) \<noteq> ''weighted_capacity'' \<longrightarrow> loads_ok es
      \<and> ((\<forall>e\<in>set (tc_edges (ex_topology cfg)). 0 < capacity e) \<longrightarrow>
        sum_list (map current_load (tc_edges (ex_topology cfg))) + int (nat (cc_count (ex_clients cfg)))
          \<le> sum_list (map capacity (tc_edges (ex_topology cfg)))))"
proof -
  obtain xs where "run_plan E cfg i = Inr (xs, es)" using run_one_plan [OF assms(3)] by blast
  from plan_routes [OF this [unfolded run_plan_def]]
  have r: "route_clients (build_policy E (ex_clients cfg)) (\<lambda>c. e_source E (base_seed cfg i + seed_offset (client_id c)))
      (run_population E cfg i) (tc_edges (ex_topology cfg)) = Inr (map (\<lambda>x. fst (snd x)) xs, es)" .
  have len: "length (run_population E cfg i) = nat (cc_count (ex_clients cfg))" by (simp add: run_population_def build_clients_def)
  note counts = route_clients_counts [OF policy_in [OF assms(1)] _ r, unfolded len]
  note p = build_policy_room [OF assms(1)]
  have "loads_ok es" "(\<forall>e\<in>set (tc_edges (ex_topology cfg)). 0 < capacity e) \<longrightarrow>
        sum_list (map current_load (tc_edges (ex_topology cfg))) + int (nat (cc_count (ex_clients cfg)))
          \<le> sum_list (map capacity (tc_edges (ex_topology cfg)))" if w: "cc_policy (ex_clients cfg) \<noteq> ''weighted_capacity''"
    using policy_iface.route_clients_loads [OF p [OF w] assms(2) r] policy_iface.run_fits [OF p [OF w] assms(2) _ r] unfolding len by auto
  with counts assms(2) show ?thesis by (simp add: loads_ok_def)
qed

section \<open>What is reported\<close>

lemma labels_protocol: "map label rs = planned cfg p xs \<Longrightarrow> map pr_protocol rs = replicate (length xs) p"
proof -
  assume "map label rs = planned cfg p xs"
  then have "map (\<lambda>l. fst (snd l)) (map label rs) = map (\<lambda>l. fst (snd l)) (planned cfg p xs)" by simp
  then show ?thesis by (simp add: planned_def label_def comp_def case_prod_unfold map_replicate_const)
qed

lemma run_one_protocols:
  assumes "run_one E cfg ctx proto i results = (None, c, es)"
  shows "map pr_protocol c = map pr_protocol results @ replicate (nat (cc_count (ex_clients cfg))) (effective proto)"
proof -
  obtain xs rs where x: "run_plan E cfg i = Inr (xs, es)" "c = results @ rs" "map label rs = planned cfg (effective proto) xs"
    using run_one_plan [OF assms] by blast
  have "length xs = nat (cc_count (ex_clients cfg))"
    using arg_cong [OF plan_length [OF x(1) [unfolded run_plan_def]], of length] by (simp add: run_population_def build_clients_def)
  with labels_protocol [OF x(3)] show ?thesis by (simp add: x(2))
qed

lemma run_indices_protocols:
  "run_indices E cfg ctx proto i k results = (None, c) \<Longrightarrow>
    map pr_protocol c = map pr_protocol results @ replicate (k * nat (cc_count (ex_clients cfg))) (effective proto)"
proof (induction k arbitrary: i results)
  case (Suc k)
  obtain c1 es where r: "run_one E cfg ctx proto i results = (None, c1, es)" "run_indices E cfg ctx proto (i + 1) k c1 = (None, c)"
    using Suc.prems by (auto split: option.splits prod.splits)
  from Suc.IH [OF r(2)] run_one_protocols [OF r(1)] show ?case by (simp add: replicate_add)
qed simp

lemma run_protocols_protocols:
  "run_protocols E cfg ctx ps results = (None, c) \<Longrightarrow>
    map pr_protocol c = map pr_protocol results @ concat (map (\<lambda>p. replicate (nat (ex_runs cfg) * nat (cc_count (ex_clients cfg))) (effective p)) ps)"
proof (induction ps arbitrary: results)
  case (Cons p ps)
  obtain c1 where r: "run_indices E cfg ctx p 0 (nat (ex_runs cfg)) results = (None, c1)" "run_protocols E cfg ctx ps c1 = (None, c)"
    using Cons.prems by (auto split: option.splits prod.splits)
  from Cons.IH [OF r(2)] run_indices_protocols [OF r(1)] show ?case by simp
qed simp

lemma by_protocol_fold: "foldl (\<lambda>m p. m(p \<mapsto> f p)) m ps q = (if q \<in> set ps then Some (f q) else m q)"
  by (induction ps arbitrary: m) auto

lemma filter_protocols:
  "length (filter (\<lambda>r. pr_protocol r = q) c) = length (filter (\<lambda>p. p = q) (map pr_protocol c))"
  by (simp add: filter_map comp_def)

lemma filter_effective:
  "length (filter (\<lambda>p. p = q) (concat (map (\<lambda>p. replicate n (effective p)) ps))) = n * length (filter (\<lambda>p. effective p = q) ps)"
  by (induction ps) (auto simp: filter_replicate)

lemma aggregate_sessions: "num_sessions (aggregate c q) = int (length (filter (\<lambda>r. pr_protocol r = q) c))"
  by (simp add: aggregate_def empty_metrics_def Let_def)

text \<open>The runs of an experiment in their order, and what it means that a list of them succeeds, each adding to the results of the ones before.\<close>

definition all_runs :: "experiment_config \<Rightarrow> (string \<times> int) list" where
  "all_runs cfg = concat (map (\<lambda>p. map (\<lambda>i. (p, i)) [0..ex_runs cfg - 1]) (ex_protocols cfg))"

fun runs_ok :: "'g env \<Rightarrow> experiment_config \<Rightarrow> (string \<times> int) list \<Rightarrow> collector \<Rightarrow> collector \<Rightarrow> bool" where
  "runs_ok E cfg [] c c' \<longleftrightarrow> c' = c"
| "runs_ok E cfg ((p, i) # rs) c c' \<longleftrightarrow> (\<exists>c1 es. run_one E cfg None p i c = (None, c1, es) \<and> runs_ok E cfg rs c1 c')"

definition first_failure :: "'g env \<Rightarrow> experiment_config \<Rightarrow> (string \<times> int) list \<Rightarrow> collector \<Rightarrow> experiment_error \<Rightarrow> bool" where
  "first_failure E cfg rs c err \<longleftrightarrow> (\<exists>m p i e c1. m < length rs \<and> rs ! m = (p, i) \<and> runs_ok E cfg (take m rs) c c1
     \<and> fst (run_one E cfg None p i c1) = Some e \<and> err = Run_failed p i e)"

lemma runs_ok_append: "runs_ok E cfg (rs @ rs') c c' \<longleftrightarrow> (\<exists>c1. runs_ok E cfg rs c c1 \<and> runs_ok E cfg rs' c1 c')"
  by (induction rs arbitrary: c) (simp, force)

lemma first_failure_append:
  "first_failure E cfg rs c err \<Longrightarrow> first_failure E cfg (rs @ rs') c err"
  "runs_ok E cfg rs c c1 \<Longrightarrow> first_failure E cfg rs' c1 err \<Longrightarrow> first_failure E cfg (rs @ rs') c err"
proof -
  assume "first_failure E cfg rs c err"
  then obtain m p i e c1 where m: "m < length rs" "rs ! m = (p, i)" "runs_ok E cfg (take m rs) c c1"
    "fst (run_one E cfg None p i c1) = Some e" "err = Run_failed p i e" unfolding first_failure_def by blast
  then show "first_failure E cfg (rs @ rs') c err"
    unfolding first_failure_def by (intro exI [of _ m] exI [of _ p] exI [of _ i] exI [of _ e] exI [of _ c1]) (simp add: nth_append)
next
  assume ok: "runs_ok E cfg rs c c1" and "first_failure E cfg rs' c1 err"
  then obtain m p i e c2 where m: "m < length rs'" "rs' ! m = (p, i)" "runs_ok E cfg (take m rs') c1 c2"
    "fst (run_one E cfg None p i c2) = Some e" "err = Run_failed p i e" unfolding first_failure_def by blast
  with ok show "first_failure E cfg (rs @ rs') c err"
    unfolding first_failure_def
    by (intro exI [of _ "length rs + m"] exI [of _ p] exI [of _ i] exI [of _ e] exI [of _ c2]) (auto simp: nth_append runs_ok_append)
qed

lemma first_failure_Cons:
  "fst (run_one E cfg None p i c) = Some e \<Longrightarrow> first_failure E cfg ((p, i) # rs) c (Run_failed p i e)"
  unfolding first_failure_def by (intro exI [of _ 0]) auto

lemma run_indices_outcome:
  "case run_indices E cfg None proto i k c of (None, c') \<Rightarrow> runs_ok E cfg (map (\<lambda>i. (proto, i)) [i..i + int k - 1]) c c'
    | (Some err, _) \<Rightarrow> first_failure E cfg (map (\<lambda>i. (proto, i)) [i..i + int k - 1]) c err"
proof (induction k arbitrary: i c)
  case (Suc k)
  have r: "map (\<lambda>i. (proto, i)) [i..i + int (Suc k) - 1] = [(proto, i)] @ map (\<lambda>i. (proto, i)) [i + 1..i + 1 + int k - 1]"
    by (subst upto_rec1) (simp_all add: algebra_simps)
  obtain e c1 es where o: "run_one E cfg None proto i c = (e, c1, es)" by (metis prod_cases3)
  show ?case
  proof (cases e)
    case None
    with o have "runs_ok E cfg [(proto, i)] c c1" by simp
    then show ?thesis using Suc.IH [of "i + 1" c1] o None unfolding r
      by (auto simp: runs_ok_append intro!: first_failure_append(2) [of _ _ "[(proto, i)]", simplified] split: prod.splits option.splits)
  next
    case (Some x)
    with o have "fst (run_one E cfg None proto i c) = Some x" by simp
    from first_failure_Cons [OF this] o Some show ?thesis unfolding r by simp
  qed
qed simp

lemma run_protocols_outcome:
  "case run_protocols E cfg None ps c of
      (None, c') \<Rightarrow> runs_ok E cfg (concat (map (\<lambda>p. map (\<lambda>i. (p, i)) [0..ex_runs cfg - 1]) ps)) c c'
    | (Some err, _) \<Rightarrow> first_failure E cfg (concat (map (\<lambda>p. map (\<lambda>i. (p, i)) [0..ex_runs cfg - 1]) ps)) c err"
proof (induction ps arbitrary: c)
  case (Cons p ps)
  have n: "[0..int (nat (ex_runs cfg)) - 1] = [0..ex_runs cfg - 1]" by (cases "0 \<le> ex_runs cfg") simp_all
  obtain e c1 where o: "run_indices E cfg None p 0 (nat (ex_runs cfg)) c = (e, c1)" by fastforce
  note run_indices_outcome [of E cfg p 0 "nat (ex_runs cfg)" c, unfolded o, simplified n add_0]
  with Cons.IH [of c1] o show ?case
    by (cases e) (auto simp: runs_ok_append intro: first_failure_append split: prod.splits option.splits)
qed simp

lemma run_protocols_cancelled:
  "run_protocols E cfg (Some x) ps c = (if ps \<noteq> [] \<and> 0 < ex_runs cfg then (Some (Cancelled x), c) else (None, c))"
proof (cases "0 < ex_runs cfg")
  case True
  then obtain k where "nat (ex_runs cfg) = Suc k" by (metis zero_less_nat_eq gr0_conv_Suc)
  with True show ?thesis by (cases ps) simp_all
next
  case False
  then show ?thesis by (induction ps) simp_all
qed

lemma experiment_counts:
  assumes "run_experiment E emulated cfg ctx = Inr res" "ex_mode cfg \<noteq> ''emulated''"
  defines "n \<equiv> nat (ex_runs cfg) * nat (cc_count (ex_clients cfg))"
  shows "length (er_raw res) = length (ex_protocols cfg) * n
    \<and> (\<forall>p\<in>set (ex_protocols cfg). er_by_protocol res p = Some (aggregate (er_raw res) p)
        \<and> (p \<notin> {''tcp-h2'', ''quic-h3''} \<longrightarrow> er_by_protocol res p = Some (empty_metrics p)))
    \<and> num_sessions (aggregate (er_raw res) ''tcp-h2'') = int (n * length (filter (\<lambda>p. p \<noteq> ''quic-h3'') (ex_protocols cfg)))
    \<and> num_sessions (aggregate (er_raw res) ''quic-h3'') = int (n * length (filter (\<lambda>p. p = ''quic-h3'') (ex_protocols cfg)))"
proof -
  obtain c where c: "run_protocols E cfg ctx (ex_protocols cfg) new_collector = (None, c)" "res = collect_results E cfg c"
    using assms(1,2) by (auto simp: run_experiment_def split: prod.splits option.splits)
  have raw: "er_raw res = c" and byp: "er_by_protocol res = foldl (\<lambda>m p. m(p \<mapsto> aggregate c p)) Map.empty (ex_protocols cfg)"
    by (simp_all add: c(2) collect_results_def Let_def collector_results_def)
  have ps: "map pr_protocol c = concat (map (\<lambda>p. replicate n (effective p)) (ex_protocols cfg))"
    using run_protocols_protocols [OF c(1)] by (simp add: new_collector_def n_def)
  have e: "effective p = ''tcp-h2'' \<longleftrightarrow> p \<noteq> ''quic-h3''" "effective p = ''quic-h3'' \<longleftrightarrow> p = ''quic-h3''" for p
    by (simp_all add: effective_def tcp_protocol_def quic_protocol_def)
  have "length c = length (ex_protocols cfg) * n"
    using arg_cong [OF ps, of length] by (simp add: length_concat comp_def sum_list_triv)
  moreover have "aggregate c p = empty_metrics p" if "p \<notin> {''tcp-h2'', ''quic-h3''}" for p
  proof -
    have "p \<notin> set (map pr_protocol c)"
      using that unfolding ps by (auto simp: effective_def tcp_protocol_def quic_protocol_def split: if_splits)
    then have "filter (\<lambda>r. pr_protocol r = p) c = []" by (auto simp: filter_empty_conv)
    then show ?thesis by (simp add: aggregate_def)
  qed
  ultimately show ?thesis
    unfolding raw byp by_protocol_fold aggregate_sessions filter_protocols ps filter_effective by (simp add: e)
qed

text \<open>C9: What an experiment reports. Run after run, for each protocol listed and each index, an experiment either succeeds with the
  results of all runs, or returns the error of the first one that fails, named by its protocol and index, when all before it have succeeded; with
  a cancelled context it returns that error before its first run. One that succeeds has played every client of every run once for every
  protocol listed, and reports the aggregate for each. A name that is not one of the two protocols is accepted, runs over
  TCP and is counted there: its own report is empty, and the sessions under \<open>tcp-h2\<close> are those of all names but
  \<open>quic-h3\<close>.\<close>

theorem experiment_reports:
  assumes "ex_mode cfg \<noteq> ''emulated''"
  defines "n \<equiv> nat (ex_runs cfg) * nat (cc_count (ex_clients cfg))"
  shows "(\<forall>err. run_experiment E emulated cfg ctx = Inl err \<longrightarrow> all_runs cfg \<noteq> []
        \<and> (case ctx of Some x \<Rightarrow> err = Cancelled x | None \<Rightarrow> first_failure E cfg (all_runs cfg) new_collector err))
    \<and> (\<forall>res. run_experiment E emulated cfg ctx = Inr res \<longrightarrow>
      (case ctx of Some x \<Rightarrow> all_runs cfg = [] | None \<Rightarrow> runs_ok E cfg (all_runs cfg) new_collector (er_raw res))
    \<and> length (er_raw res) = length (ex_protocols cfg) * n
    \<and> (\<forall>p\<in>set (ex_protocols cfg). er_by_protocol res p = Some (aggregate (er_raw res) p)
        \<and> (p \<notin> {''tcp-h2'', ''quic-h3''} \<longrightarrow> er_by_protocol res p = Some (empty_metrics p)))
    \<and> num_sessions (aggregate (er_raw res) ''tcp-h2'') = int (n * length (filter (\<lambda>p. p \<noteq> ''quic-h3'') (ex_protocols cfg)))
    \<and> num_sessions (aggregate (er_raw res) ''quic-h3'') = int (n * length (filter (\<lambda>p. p = ''quic-h3'') (ex_protocols cfg))))"
proof (intro conjI allI impI)
  fix err assume "run_experiment E emulated cfg ctx = Inl err"
  with assms(1) obtain c where c: "run_protocols E cfg ctx (ex_protocols cfg) new_collector = (Some err, c)"
    by (auto simp: run_experiment_def split: prod.splits option.splits)
  show "all_runs cfg \<noteq> []" "case ctx of Some x \<Rightarrow> err = Cancelled x | None \<Rightarrow> first_failure E cfg (all_runs cfg) new_collector err"
  proof (atomize (full), cases ctx)
    case None
    with c run_protocols_outcome [of E cfg "ex_protocols cfg" new_collector] have "first_failure E cfg (all_runs cfg) new_collector err"
      by (simp add: all_runs_def)
    moreover from this have "all_runs cfg \<noteq> []" by (auto simp: first_failure_def)
    ultimately show "all_runs cfg \<noteq> [] \<and> (case ctx of Some x \<Rightarrow> err = Cancelled x | None \<Rightarrow> first_failure E cfg (all_runs cfg) new_collector err)"
      using None by simp
  next
    case (Some x)
    with c have "ex_protocols cfg \<noteq> [] \<and> 0 < ex_runs cfg \<and> err = Cancelled x" by (simp add: run_protocols_cancelled split: if_splits)
    with Some show "all_runs cfg \<noteq> [] \<and> (case ctx of Some x \<Rightarrow> err = Cancelled x | None \<Rightarrow> first_failure E cfg (all_runs cfg) new_collector err)"
      by (auto simp: all_runs_def neq_Nil_conv)
  qed
next
  fix res assume r: "run_experiment E emulated cfg ctx = Inr res"
  with assms(1) obtain c where c: "run_protocols E cfg ctx (ex_protocols cfg) new_collector = (None, c)" "res = collect_results E cfg c"
    by (auto simp: run_experiment_def split: prod.splits option.splits)
  then have "er_raw res = c" by (simp add: collect_results_def Let_def collector_results_def)
  with c(1) show "case ctx of Some x \<Rightarrow> all_runs cfg = [] | None \<Rightarrow> runs_ok E cfg (all_runs cfg) new_collector (er_raw res)"
    using run_protocols_outcome [of E cfg "ex_protocols cfg" new_collector]
    by (cases ctx) (auto simp: run_protocols_cancelled all_runs_def split: if_splits)
  note experiment_counts [OF r assms(1), folded n_def]
  then show "length (er_raw res) = length (ex_protocols cfg) * n"
    "num_sessions (aggregate (er_raw res) ''tcp-h2'') = int (n * length (filter (\<lambda>p. p \<noteq> ''quic-h3'') (ex_protocols cfg)))"
    "num_sessions (aggregate (er_raw res) ''quic-h3'') = int (n * length (filter (\<lambda>p. p = ''quic-h3'') (ex_protocols cfg)))"
    "\<forall>p\<in>set (ex_protocols cfg). er_by_protocol res p = Some (aggregate (er_raw res) p)
        \<and> (p \<notin> {''tcp-h2'', ''quic-h3''} \<longrightarrow> er_by_protocol res p = Some (empty_metrics p))" by blast+
qed

section \<open>Runs fail only for want of an edge\<close>

lemma dur_seconds_whole: "0 \<le> n \<Longrightarrow> n \<le> 2 ^ 53 \<Longrightarrow> dur_seconds (n * second) = of_int n"
proof -
  assume n: "0 \<le> n" "n \<le> 2 ^ 53"
  then have "go_quot (n * second) second = n" "go_rem (n * second) second = 0" by (simp_all add: second_def)
  then show ?thesis using n by (simp add: dur_seconds_def fadd_def fdiv_def i2f_exact fl_int)
qed

lemma mean_bytes_whole:
  assumes "0 \<le> b" "0 \<le> n" "b * 1000 \<le> 2 ^ 53" "b * 125 * n \<le> 2 ^ 53" "n \<le> 2 ^ 53"
  shows "mean_bytes b (n * second) = of_int (b * 125 * n)"
proof -
  have "fdiv (i2f (b * 1000)) 8 = of_int (b * 125)"
  proof -
    have "(of_int (b * 1000) :: real) / 8 = of_int (b * 125)" by simp
    moreover have "i2f (b * 1000) = of_int (b * 1000)" "\<bar>b * 125\<bar> \<le> 2 ^ 53" using assms by (simp_all add: i2f_exact)
    ultimately show ?thesis unfolding fdiv_def by (simp only: fl_int)
  qed
  moreover have "fl (of_int (b * 125) * of_int n) = of_int (b * 125 * n)" using fl_int [of "b * 125 * n"] assms by simp
  ultimately show ?thesis using assms by (simp only: mean_bytes_def fmul_def dur_seconds_whole)
qed

lemma default_ladder: "r \<in> set default_representations \<Longrightarrow> 400 \<le> bitrate r \<and> bitrate r \<le> 12000"
  by (auto simp: default_representations_def mk_rep_def)

lemma segment_size_bounds:
  assumes "400 \<le> b" "b \<le> 12000" "1 \<le> n" "n \<le> 400" "1 / 2 \<le> f" "f \<le> fl (18 / 10)"
  shows "0 < f2i (fmul (mean_bytes b (n * second)) f) \<and> f2i (fmul (mean_bytes b (n * second)) f) \<le> 3000000 * n"
proof -
  have "b * 125 * n \<le> 12000 * 125 * n" "400 * 125 * 1 \<le> b * 125 * n" using assms by (intro mult_mono; simp)+
  then have x2: "b * 125 * n \<le> 1500000 * n" "50000 \<le> b * 125 * n" using assms by simp_all
  have "1500000 * n \<le> 2 ^ 53" using assms(4) by simp
  with x2(1) have "b * 125 * n \<le> 2 ^ 53" by (rule order_trans)
  then have "mean_bytes b (n * second) = of_int (b * 125 * n)" using assms(1-4) by (intro mean_bytes_whole) (assumption | simp)+
  note x = this x2
  have "fl (18 / 10) \<le> 2" by code_simp
  then have f: "f \<le> 2" using assms(6) by linarith
  have r: "real_of_int (b * 125 * n) \<le> of_int (1500000 * n)" "(of_int 50000 :: real) \<le> of_int (b * 125 * n)"
    using x(2,3) by (simp_all only: of_int_le_iff)
  have "of_int (b * 125 * n) * f \<le> of_int (1500000 * n) * 2"
    by (rule mult_mono [OF r(1) f]) (use assms(3,5) in simp_all)
  then have "of_int (b * 125 * n) * f \<le> of_int (3000000 * n)" by simp
  moreover have "of_int 25000 \<le> of_int (b * 125 * n) * f"
  proof -
    have "(of_int 50000 :: real) * (1 / 2) \<le> of_int (b * 125 * n) * f"
      by (rule mult_mono [OF r(2) assms(5)]) (use r(2) in simp_all)
    then show ?thesis by simp
  qed
  ultimately have "of_int 25000 \<le> fmul (mean_bytes b (n * second)) f \<and> fmul (mean_bytes b (n * second)) f \<le> of_int (3000000 * n)"
    unfolding x(1) fmul_def using assms(3,4) by (intro conjI fl_ge_rep float_rep_int fl_le_int) (assumption | simp)+
  moreover have "3000000 * n \<le> int64_max" using assms(4) by (simp add: int64_max_def)
  ultimately show ?thesis
    using trunc_f2i [of "of_int 25000" "fmul (mean_bytes b (n * second)) f" "3000000 * n"]
      f2i_nonneg [of "fmul (mean_bytes b (n * second)) f" "3000000 * n"] f2i_of_int [of 25000]
    by (simp add: int64_defs)
qed

definition sized_ok :: "experiment_config \<Rightarrow> bool" where
  "sized_ok cfg \<longleftrightarrow> 1 \<le> segment_seconds (ex_content cfg)
     \<and> max 1 (py_prefetch (ex_playback cfg)) * segment_seconds (ex_content cfg) \<le> 333"

lemma content_playable:
  assumes "sized_ok cfg"
  shows "playable (defaulted \<lparr>s_manifest = content_manifest E (ex_content cfg) idx, s_content_id = cid,
    s_config = run_playback_config (ex_playback cfg)\<rparr>)"
proof -
  let ?n = "segment_seconds (ex_content cfg)" and ?d = "max 1 (py_prefetch (ex_playback cfg))"
  let ?m = "content_manifest E (ex_content cfg) idx" and ?c = "run_playback_config (ex_playback cfg)"
  have n: "1 \<le> ?n" "?d * ?n \<le> 333" using assms by (simp_all add: sized_ok_def)
  have "1 * ?n \<le> ?d * ?n" using n(1) by (intro mult_right_mono) simp_all
  with n have n2: "?n \<le> 400" by linarith
  obtain fs g' where g: "draw_factors (e_math E) (e_rand E) (nat (num_segments (duration_seconds (ex_content cfg) * second) (?n * second)))
      (e_source E (word_of_int ((idx + 1) * 9973))) = (fs, g')" by fastforce
  have fs: "length fs = nat (total_segments ?m)" "\<forall>f\<in>set fs. 1 / 2 \<le> f \<and> f \<le> fl (18 / 10)"
    and reps: "representations ?m = map (with_sizes (?n * second) fs) default_representations"
    using draw_factors_clamped [of "e_math E" "e_rand E" _ "e_source E (word_of_int ((idx + 1) * 9973))"] g
    by (simp_all add: content_manifest_def generate_manifest_def) (metis fst_conv)+
  have size: "0 < z \<and> ?d * z \<le> 10 ^ 9" if "z \<in> set (segment_sizes rep)" "rep \<in> set (representations ?m)" for z rep
  proof -
    from that(2) obtain r where r: "r \<in> set default_representations" "rep = with_sizes (?n * second) fs r" by (auto simp: reps)
    with that(1) obtain f where f: "f \<in> set fs" "z = f2i (fmul (mean_bytes (bitrate r) (?n * second)) f)" by (auto simp: with_sizes_def)
    note b = segment_size_bounds [OF _ _ n(1) n2, of "bitrate r" f] default_ladder [OF r(1)] fs(2)
    then have z: "0 < z" "z \<le> 3000000 * ?n" using f by auto
    have "?d * z \<le> ?d * (3000000 * ?n)" using z by (intro mult_left_mono) simp_all
    also have "\<dots> = 3000000 * (?d * ?n)" by simp
    also have "\<dots> \<le> 3000000 * 333" using n(2) by (intro mult_left_mono) simp_all
    finally show ?thesis using z(1) by simp
  qed
  have len: "total_segments ?m \<le> int (length (segment_sizes rep))" if "rep \<in> set (representations ?m)" for rep
    using that fs(1) by (auto simp: reps with_sizes_def)
  have pre: "prefetch_depth (s_config (defaulted \<lparr>s_manifest = ?m, s_content_id = cid, s_config = ?c\<rparr>)) = ?d"
    by (simp add: defaulted_def run_playback_config_def default_playback_config_def second_def Let_def)
  have "representations ?m \<noteq> []" by (simp add: reps default_representations_def)
  with size len show ?thesis unfolding playable_def pre by (simp add: pre)
qed

definition link_ok :: "experiment_config \<Rightarrow> network_profile \<Rightarrow> bool" where
  "link_ok cfg p \<longleftrightarrow> profile_ok p \<and> (\<forall>b. ex_bandwidth cfg = Some b \<and> bw_enabled b \<longrightarrow>
     rate_ok (fmul (profile_mbps p) (fsub 1 (variability b))) \<and> rate_ok (fmul (profile_mbps p) (fadd 1 (variability b))))"

definition links_ok :: "experiment_config \<Rightarrow> edge_pop list \<Rightarrow> bool" where
  "links_ok cfg edges \<longleftrightarrow> link_ok cfg (tc_origin_network (ex_topology cfg)) \<and> (\<forall>e\<in>set edges. link_ok cfg (client_profile e))"

lemma run_trace_Some:
  assumes "rand_ok (e_rand E)" "0 \<le> duration_seconds (ex_content cfg)" "link_ok cfg p"
  shows "\<exists>bt g'. run_trace E cfg p g = Some (bt, g') \<and> trace_ok bt"
proof (cases "\<exists>b. ex_bandwidth cfg = Some b \<and> bw_enabled b")
  case True
  then obtain b where b: "ex_bandwidth cfg = Some b" "bw_enabled b" by blast
  let ?secs = "duration_seconds (ex_content cfg) * 2" and ?v = "variability b" and ?base = "profile_mbps p"
  have rates: "rate_ok (fmul ?base (fsub 1 ?v))" "rate_ok (fmul ?base (fadd 1 ?v))" "rate_ok ?base"
    using assms(3) b by (simp_all add: link_ok_def profile_ok_def)
  show ?thesis
  proof (cases "?v = 0")
    case True
    then show ?thesis using b rates by (simp add: run_trace_def new_synthetic_trace_def Let_def trace_ok_def)
  next
    case False
    have "?secs * 1000 - 0 \<le> 1000 * int (nat ?secs)" using assms(2) by linarith
    from trace_loop_spec [OF assms(1) _ _ this, of 1 "[fmul ?base (fsub 1 ?v), ?base, fmul ?base (fadd 1 ?v)]" g]
    obtain ivs g' where "trace_loop (e_rand E) [fmul ?base (fsub 1 ?v), ?base, fmul ?base (fadd 1 ?v)] (?secs * 1000) (nat ?secs) 0 1 g = Some (ivs, g')"
      "\<forall>iv\<in>set ivs. bandwidth_mbps iv \<in> {fmul ?base (fsub 1 ?v), ?base, fmul ?base (fadd 1 ?v)}" by auto
    then show ?thesis using b False rates by (auto simp: run_trace_def new_synthetic_trace_def Let_def trace_ok_def)
  qed
next
  case False
  then show ?thesis by (auto simp: run_trace_def trace_ok_def split: option.splits)
qed

lemma build_total:
  assumes "env_ok E" "0 \<le> duration_seconds (ex_content cfg)" "link_ok cfg p"
  shows "\<exists>t. build_tcp E cfg p g = Some t \<and> tcp_inv (e_math E) (e_rand E) t"
    and "\<exists>q. build_quic E cfg p g = Some q \<and> quic_inv (e_math E) (e_rand E) q"
proof -
  have E: "libm_ok (e_math E)" "rand_ok (e_rand E)" and p: "profile_ok p" using assms(1,3) by (simp_all add: env_ok_def link_ok_def)
  obtain bt g' where "run_trace E cfg p (snd (r_int63 (e_rand E) g)) = Some (bt, g') \<and> trace_ok bt"
    using run_trace_Some [OF E(2) assms(2,3)] by blast
  then show "\<exists>t. build_tcp E cfg p g = Some t \<and> tcp_inv (e_math E) (e_rand E) t"
    "\<exists>q. build_quic E cfg p g = Some q \<and> quic_inv (e_math E) (e_rand E) q"
    using E p by (cases bt; simp add: loss_ok_sim profile_ok_def build_tcp_def build_quic_def new_modeled_tcp_def new_modeled_quic_def tcp_with_trace_def
        quic_with_trace_def tcp_inv_def quic_inv_def Let_def case_prod_unfold)+
qed

text \<open>Parts whose transports can always be built and always play; \<open>J\<close> is what the shield's transport keeps.\<close>

definition parts_play :: "'g env \<Rightarrow> ('c, 't, 'g) parts \<Rightarrow> ('t \<Rightarrow> bool) \<Rightarrow> experiment_config \<Rightarrow> bool" where
  "parts_play E P J cfg \<longleftrightarrow> (\<forall>p g. link_ok cfg p \<longrightarrow> (\<exists>t. p_build P p g = Some t \<and> J t \<and> (\<forall>A s c x. playable (defaulted s) \<longrightarrow>
     (\<forall>sh. x = Some sh \<longrightarrow> J (shield_transport sh)) \<longrightarrow>
     (\<exists>r w. run_playback A (p_cache P) (p_transport P) (shield_fetch lru_ops (p_transport P) (e_clock E)) None s
        \<lparr>w_cache = c, w_transport = t, w_shield = x\<rparr> = (r, None, w) \<and> shield_in (\<lambda>x. J (shield_transport x)) w))))"

lemma tcp_parts_play:
  assumes "env_ok E" "0 \<le> duration_seconds (ex_content cfg)"
  shows "parts_play E (tcp_parts E cfg C new) (\<lambda>t. sim_ok (tcp_loss t)) cfg"
  unfolding parts_play_def
proof (intro allI impI)
  fix p g assume "link_ok cfg p"
  from build_total(1) [OF assms this, of g] obtain t where t: "build_tcp E cfg p g = Some t" "tcp_inv (e_math E) (e_rand E) t" by blast
  show "\<exists>t. p_build (tcp_parts E cfg C new) p g = Some t \<and> sim_ok (tcp_loss t) \<and> (\<forall>A s c x. playable (defaulted s) \<longrightarrow>
     (\<forall>sh. x = Some sh \<longrightarrow> sim_ok (tcp_loss (shield_transport sh))) \<longrightarrow>
     (\<exists>r w. run_playback A (p_cache (tcp_parts E cfg C new)) (p_transport (tcp_parts E cfg C new))
        (shield_fetch lru_ops (p_transport (tcp_parts E cfg C new)) (e_clock E)) None s
        \<lparr>w_cache = c, w_transport = t, w_shield = x\<rparr> = (r, None, w) \<and> shield_in (\<lambda>x. sim_ok (tcp_loss (shield_transport x))) w))"
    unfolding tcp_parts_def parts.select_convs using t
    by (intro exI [of _ t] conjI allI impI session_completes_tcp tcp_shield_serves) (simp_all add: tcp_inv_def)
qed

lemma quic_parts_play:
  assumes "env_ok E" "0 \<le> duration_seconds (ex_content cfg)"
  shows "parts_play E (quic_parts E cfg C new) (\<lambda>t. sim_ok (quic_loss t)) cfg"
  unfolding parts_play_def
proof (intro allI impI)
  fix p g assume "link_ok cfg p"
  from build_total(2) [OF assms this, of g] obtain t where t: "build_quic E cfg p g = Some t" "quic_inv (e_math E) (e_rand E) t" by blast
  show "\<exists>t. p_build (quic_parts E cfg C new) p g = Some t \<and> sim_ok (quic_loss t) \<and> (\<forall>A s c x. playable (defaulted s) \<longrightarrow>
     (\<forall>sh. x = Some sh \<longrightarrow> sim_ok (quic_loss (shield_transport sh))) \<longrightarrow>
     (\<exists>r w. run_playback A (p_cache (quic_parts E cfg C new)) (p_transport (quic_parts E cfg C new))
        (shield_fetch lru_ops (p_transport (quic_parts E cfg C new)) (e_clock E)) None s
        \<lparr>w_cache = c, w_transport = t, w_shield = x\<rparr> = (r, None, w) \<and> shield_in (\<lambda>x. sim_ok (quic_loss (shield_transport x))) w))"
    unfolding quic_parts_def parts.select_convs using t
    by (intro exI [of _ t] conjI allI impI session_completes_quic quic_shield_serves) (simp_all add: quic_inv_def)
qed

lemma add_load_profiles: "client_profile ` set (add_load i es) = client_profile ` set es"
  by (induction es) auto

lemma links_ok_add_load: "links_ok cfg es \<Longrightarrow> links_ok cfg (add_load i es)"
  using add_load_profiles [of i es] unfolding links_ok_def by (metis image_iff)

text \<open>A client either finds no edge or plays its session.\<close>

lemma run_client_total:
  assumes E: "env_ok E" and P: "parts_play E P J cfg" and cfg: "sized_ok cfg" "links_ok cfg (rs_edges s)"
    and sh: "\<forall>sh. rs_shield s = Some sh \<longrightarrow> J (shield_transport sh)"
  shows "(\<exists>msg. fst (run_client E P cfg base None c s) = Some (Route_failed msg))
    \<or> fst (run_client E P cfg base None c s) = None \<and> links_ok cfg (rs_edges (snd (run_client E P cfg base None c s)))
      \<and> (\<forall>sh. rs_shield (snd (run_client E P cfg base None c s)) = Some sh \<longrightarrow> J (shield_transport sh))"
proof (cases "fst (build_policy E (ex_clients cfg) c (rs_edges s) (e_source E (base + seed_offset (client_id c))))")
  case (Inl msg)
  then show ?thesis by (simp add: run_client_def)
next
  case (Inr edge)
  have "rand_ok (e_rand E)" using E by (simp add: env_ok_def)
  from policy_in [OF this Inr] cfg(2) have link: "link_ok cfg (edge_profile cfg edge)"
    by (simp add: edge_profile_def links_ok_def)
  obtain idx pop where pop: "next_index E (rs_pop s) = (idx, pop)" by fastforce
  define s1 where "s1 = s\<lparr>rs_edges := add_load (edge_id edge) (rs_edges s), rs_pop := pop\<rparr>"
  have step: "run_client E P cfg base None c s = play_session E P cfg base None c edge idx s1"
    by (simp add: run_client_def Inr pop s1_def)
  from P link obtain t where t: "p_build P (edge_profile cfg edge) (e_source E (base + seed_offset (client_id c @ ''-tr''))) = Some t"
    "\<And>A s c x. playable (defaulted s) \<Longrightarrow> (\<forall>sh. x = Some sh \<longrightarrow> J (shield_transport sh)) \<Longrightarrow> \<exists>r w. run_playback A (p_cache P) (p_transport P)
        (shield_fetch lru_ops (p_transport P) (e_clock E)) None s \<lparr>w_cache = c, w_transport = t, w_shield = x\<rparr> = (r, None, w)
        \<and> shield_in (\<lambda>x. J (shield_transport x)) w"
    unfolding parts_play_def by meson
  have "\<forall>sh. rs_shield s1 = Some sh \<longrightarrow> J (shield_transport sh)" using sh by (simp add: s1_def)
  from t(2) [OF content_playable [OF cfg(1), of E idx "content_name idx"] this, of "build_abr (ex_abr cfg)" "rs_caches s1 (edge_id edge)"]
  have "fst (play_session E P cfg base None c edge idx s1) = None
      \<and> (\<forall>sh. rs_shield (snd (play_session E P cfg base None c edge idx s1)) = Some sh \<longrightarrow> J (shield_transport sh))"
    unfolding play_session_def t(1) by (auto simp: Let_def)
  moreover have "links_ok cfg (rs_edges (snd (play_session E P cfg base None c edge idx s1)))"
    using cfg(2) by (simp add: play_session_frame s1_def links_ok_add_load)
  ultimately show ?thesis unfolding step by blast
qed

lemma run_clients_total:
  assumes "env_ok E" "parts_play E P J cfg" "sized_ok cfg"
  shows "links_ok cfg (rs_edges s) \<Longrightarrow> \<forall>sh. rs_shield s = Some sh \<longrightarrow> J (shield_transport sh) \<Longrightarrow> (\<exists>msg. fst (run_clients E P cfg base None cs s) = Some (Route_failed msg))
    \<or> fst (run_clients E P cfg base None cs s) = None"
proof (induction cs arbitrary: s)
  case (Cons c cs)
  obtain e s1 where s1: "run_client E P cfg base None c s = (e, s1)" by fastforce
  with run_client_total [OF assms Cons.prems, of base c] have "(\<exists>msg. e = Some (Route_failed msg)) \<or> e = None \<and> links_ok cfg (rs_edges s1)
      \<and> (\<forall>sh. rs_shield s1 = Some sh \<longrightarrow> J (shield_transport sh))"
    by simp
  with Cons.IH [of s1] s1 show ?case by auto
qed simp

text \<open>An edge of unlimited capacity that every client can reach keeps the latency policy going.\<close>

definition reachable :: "'g env \<Rightarrow> client_info list \<Rightarrow> edge_pop list \<Rightarrow> bool" where
  "reachable E cs edges \<longleftrightarrow> (\<exists>e\<in>set edges. capacity e \<le> 0 \<and> (\<forall>c\<in>set cs. edge_rtt (e_math E) c e \<noteq> None))"

definition latency_policy :: "string \<Rightarrow> bool" where
  "latency_policy p \<longleftrightarrow> p \<notin> {''weighted_capacity'', ''geo_affinity'', ''realistic_bgp''}"

lemma add_load_member: "e \<in> set es \<Longrightarrow> \<exists>e'\<in>set (add_load i es). capacity e' = capacity e \<and> edge_rtt M c e' = edge_rtt M c e
    \<and> edge_lat e' = edge_lat e \<and> edge_lon e' = edge_lon e"
  by (induction es) (auto simp: edge_rtt_def)

lemma reachable_add_load: "reachable E cs es \<Longrightarrow> reachable E cs (add_load i es)"
proof -
  assume "reachable E cs es"
  then obtain e where e: "e \<in> set es" "capacity e \<le> 0" "\<forall>c\<in>set cs. edge_rtt (e_math E) c e \<noteq> None" unfolding reachable_def by blast
  obtain e' where "e' \<in> set (add_load i es)" "capacity e' = capacity e" "edge_lat e' = edge_lat e" "edge_lon e' = edge_lon e"
    using add_load_member [OF e(1)] by blast
  with e show ?thesis unfolding reachable_def by (intro bexI [of _ e']) (simp_all add: edge_rtt_def)
qed

lemma reachable_routes:
  assumes "trig_ok (e_math E)" "latency_policy (cc_policy cc)" "reachable E (c # cs) edges"
  shows "fst (build_policy E cc c edges g) \<noteq> Inl msg"
proof
  assume "fst (build_policy E cc c edges g) = Inl msg"
  with assms(2) have "fst (latency_route (e_math E) c edges g) = Inl msg" by (simp add: build_policy_def latency_policy_def)
  with latency_spec [OF assms(1), of edges c g] have "\<forall>e\<in>set edges. full e \<or> edge_rtt (e_math E) c e = None" by simp
  with assms(3) show False unfolding reachable_def full_def by force
qed

lemma run_client_edges: "fst (run_client E P cfg base ctx c s) = None \<Longrightarrow>
    \<exists>i. rs_edges (snd (run_client E P cfg base ctx c s)) = add_load i (rs_edges s)"
  by (auto simp: run_client_def play_session_frame case_prod_unfold Let_def split: sum.splits)

lemma play_session_not_routing: "fst (play_session E P cfg base ctx c edge idx s) \<noteq> Some (Route_failed msg)"
  by (simp add: play_session_def Let_def case_prod_unfold split: option.split)

lemma run_clients_routed:
  assumes "trig_ok (e_math E)" "latency_policy (cc_policy (ex_clients cfg))"
  shows "reachable E cs (rs_edges s) \<Longrightarrow> fst (run_clients E P cfg base ctx cs s) \<noteq> Some (Route_failed msg)"
proof (induction cs arbitrary: s)
  case (Cons c cs)
  obtain e s1 where s1: "run_client E P cfg base ctx c s = (e, s1)" by fastforce
  have "fst (run_client E P cfg base ctx c s) \<noteq> Some (Route_failed msg)"
    using reachable_routes [OF assms Cons.prems]
    by (simp add: run_client_def case_prod_unfold Let_def play_session_not_routing split: sum.split)
  moreover have "reachable E cs (rs_edges s1)" if "e = None"
  proof -
    obtain i where "rs_edges s1 = add_load i (rs_edges s)" using run_client_edges [of E P cfg base ctx c s] s1 \<open>e = None\<close> by auto
    moreover have "reachable E cs (rs_edges s)" using Cons.prems by (auto simp: reachable_def)
    ultimately show ?thesis by (simp add: reachable_add_load)
  qed
  ultimately show ?case using Cons.IH [of s1] s1 by (auto split: option.split)
qed simp

definition always_routes :: "'g env \<Rightarrow> experiment_config \<Rightarrow> int \<Rightarrow> bool" where
  "always_routes E cfg i \<longleftrightarrow> trig_ok (e_math E) \<and> latency_policy (cc_policy (ex_clients cfg))
     \<and> reachable E (run_population E cfg i) (tc_edges (ex_topology cfg))"

definition ends_well :: "bool \<Rightarrow> run_error option \<Rightarrow> bool" where
  "ends_well routed e \<longleftrightarrow> (e = None \<or> (\<exists>msg. e = Some (Route_failed msg))) \<and> (routed \<longrightarrow> e = None)"

lemma run_with_total:
  assumes "env_ok E" "parts_play E P J cfg" "sized_ok cfg" "links_ok cfg (tc_edges (ex_topology cfg))"
  shows "ends_well (always_routes E cfg i) (fst (run_with E P cfg None i results))"
proof -
  have "link_ok cfg (tc_origin_network (ex_topology cfg))" using assms(4) by (simp add: links_ok_def)
  with assms(2) have "\<exists>t. p_build P (tc_origin_network (ex_topology cfg)) g = Some t \<and> J t" for g unfolding parts_play_def by blast
  from this [of "e_source E (base_seed cfg i + 17)"]
  obtain s where s: "initial_state E P cfg i results = Some s" and sh: "\<forall>sh. rs_shield s = Some sh \<longrightarrow> J (shield_transport sh)"
    by (cases "ex_shield cfg") (auto simp: initial_state_def Let_def new_origin_shield_def)
  note frame = initial_state_frame [OF s]
  then have "links_ok cfg (rs_edges s)" using assms(4) by simp
  from run_clients_total [OF assms(1-3) this sh, of "base_seed cfg i" "run_population E cfg i"]
  have "fst (run_with E P cfg None i results) = None \<or> (\<exists>msg. fst (run_with E P cfg None i results) = Some (Route_failed msg))"
    using s by (auto simp: run_with_def case_prod_unfold)
  moreover have "fst (run_with E P cfg None i results) \<noteq> Some (Route_failed msg)" if a: "always_routes E cfg i" for msg
    using run_clients_routed [of E cfg "run_population E cfg i" s P "base_seed cfg i" None msg] a s frame
    by (simp add: run_with_def always_routes_def case_prod_unfold)
  ultimately show ?thesis unfolding ends_well_def by blast
qed

lemma run_over_total:
  assumes "env_ok E" "0 \<le> duration_seconds (ex_content cfg)" "sized_ok cfg" "links_ok cfg (tc_edges (ex_topology cfg))"
  shows "ends_well (always_routes E cfg i) (fst (run_over E cfg proto C new None i results))"
  using run_with_total [OF assms(1) quic_parts_play [OF assms(1,2)] assms(3,4), where C1 = C and new1 = new and i = i and results = results]
    run_with_total [OF assms(1) tcp_parts_play [OF assms(1,2)] assms(3,4), where C1 = C and new1 = new and i = i and results = results]
  unfolding run_over_def by auto

lemma run_one_total:
  assumes "env_ok E" "0 \<le> duration_seconds (ex_content cfg)" "sized_ok cfg" "links_ok cfg (tc_edges (ex_topology cfg))"
  shows "ends_well (always_routes E cfg i) (fst (run_one E cfg None proto i results))"
  using run_over_total [OF assms, of i proto arc_ops new_arc results] run_over_total [OF assms, of i proto lru_ops new_lru results]
  unfolding run_one_def by auto

text \<open>C4: A run can only fail for want of an edge. With links whose round trip, jitter and rates are sane and whose loss rates are probabilities, segments and
  prefetch depth within the bound (333 segment-seconds per batch), and a context that is not cancelled, the run over either
  protocol, with either cache, with or without shield, warm-up and bandwidth trace, plays every session to its end, unless the routing
  policy refuses a client; in particular the trace generators return. Under the latency policy, with an edge of unlimited
  capacity that every client can reach, it always succeeds.\<close>

theorem run_completes:
  assumes "env_ok E" "0 \<le> duration_seconds (ex_content cfg)" "sized_ok cfg" "links_ok cfg (tc_edges (ex_topology cfg))"
  shows "(fst (run_one E cfg None proto i results) = None \<or> (\<exists>msg. fst (run_one E cfg None proto i results) = Some (Route_failed msg)))
    \<and> (always_routes E cfg i \<longrightarrow> fst (run_one E cfg None proto i results) = None)"
  using run_one_total [OF assms] unfolding ends_well_def by blast

section \<open>An example\<close>

definition demo_env :: "int env" where
  "demo_env = \<lparr>e_math = flat_libm, e_rand = lcg, e_source = (\<lambda>w. uint w), e_zipf = (\<lambda>a imax g. (g mod (imax + 1), lcg_next g)), e_clock = 1\<rparr>"

lemma demo_env_ok: "env_ok demo_env"
  unfolding env_ok_def
proof (intro conjI allI impI)
  fix a :: real and imax g :: int assume "0 \<le> imax"
  then have i: "0 < imax + 1" by simp
  from pos_mod_sign [OF i, of g] pos_mod_bound [OF i, of g] have "0 \<le> g mod (imax + 1)" "g mod (imax + 1) \<le> imax"
    by (simp_all only: zle_add1_eq_le)
  then show "0 \<le> fst (e_zipf demo_env a imax g)" "fst (e_zipf demo_env a imax g) \<le> imax" by (simp_all add: demo_env_def)
qed (simp_all add: demo_env_def lcg_ok flat_libm_ok)

text \<open>The configuration of \<open>blank_config\<close> with its defaults and edges without a limit.\<close>

definition demo_config :: experiment_config where
  "demo_config = (fill_defaults blank_config)\<lparr>ex_runs := 1,
     ex_topology := (ex_topology blank_config)\<lparr>tc_edges := [demo_edge ''e1'' 0 0, demo_edge ''e2'' 0 0]\<rparr>\<rparr>"

lemma demo_config_fields:
  "tc_edges (ex_topology demo_config) = [demo_edge ''e1'' 0 0, demo_edge ''e2'' 0 0]"
  "tc_origin_network (ex_topology demo_config) = client_profile (demo_edge ''e1'' 10 0)"
  "cc_policy (ex_clients demo_config) = ''latency_based''" "cc_count (ex_clients demo_config) = 3" "ex_bandwidth demo_config = None"
  "duration_seconds (ex_content demo_config) = 8" "segment_seconds (ex_content demo_config) = 4" "py_prefetch (ex_playback demo_config) = 0"
  "ex_mode demo_config = ''modeled''" "ex_protocols demo_config = [''tcp-h2'', ''quic-h3'']" "ex_runs demo_config = 1"
  by (simp_all add: demo_config_def blank_config_def fill_defaults_def default_content_def default_cache_def Let_def)

lemma demo_config_runs:
  "0 \<le> duration_seconds (ex_content demo_config)" "sized_ok demo_config" "links_ok demo_config (tc_edges (ex_topology demo_config))"
  "always_routes demo_env demo_config i"
proof -
  show "0 \<le> duration_seconds (ex_content demo_config)" "sized_ok demo_config" "links_ok demo_config (tc_edges (ex_topology demo_config))"
    by (simp_all add: demo_config_fields sized_ok_def links_ok_def link_ok_def demo_edge_def profile_ok_def rate_ok_def loss_ok_def demo_loss_def)
  show "always_routes demo_env demo_config i"
    by (simp add: always_routes_def latency_policy_def reachable_def demo_config_fields demo_env_def flat_trig_ok flat_rtt) (simp add: demo_edge_def)
qed

lemma demo_run_one: "\<exists>c es. run_one demo_env demo_config None proto i results = (None, c, es)"
  using run_one_total [OF demo_env_ok demo_config_runs(1-3), of i proto results] demo_config_runs(4) [of i]
  by (cases "run_one demo_env demo_config None proto i results") (simp add: ends_well_def)

theorem run_completes_witness:
  "fst (run_one demo_env demo_config None ''quic-h3'' 0 []) = None"
  using run_completes [OF demo_env_ok demo_config_runs(1-3), of "''quic-h3''" 0 "[]"] demo_config_runs(4) by blast


theorem run_keeps_capacity_witness:
  "\<exists>c es. run_one demo_env demo_config None ''tcp-h2'' 0 [] = (None, c, es) \<and> loads_ok es \<and> sum_list (map current_load es) = 3"
proof -
  obtain c es where r: "run_one demo_env demo_config None ''tcp-h2'' 0 [] = (None, c, es)" using demo_run_one by blast
  have "rand_ok (e_rand demo_env)" using demo_env_ok by (simp add: env_ok_def)
  from run_keeps_capacity [OF this _ r] r show ?thesis by (auto simp: demo_config_fields loads_ok_def demo_edge_def)
qed

theorem experiment_reports_witness:
  "\<exists>res. run_experiment demo_env (\<lambda>c. Inl (Cancelled [])) demo_config None = Inr res \<and> length (er_raw res) = 6
    \<and> num_sessions (aggregate (er_raw res) ''quic-h3'') = 3"
proof -
  have i: "\<exists>c. run_indices demo_env demo_config None p 0 (nat 1) results = (None, c)" for p results
    using demo_run_one [of p 0 results] by (auto simp: eval_nat_numeral)
  obtain c1 where 1: "run_indices demo_env demo_config None ''tcp-h2'' 0 (nat 1) new_collector = (None, c1)" using i by blast
  obtain c2 where 2: "run_indices demo_env demo_config None ''quic-h3'' 0 (nat 1) c1 = (None, c2)" using i by blast
  have r: "run_experiment demo_env (\<lambda>c. Inl (Cancelled [])) demo_config None = Inr (collect_results demo_env demo_config c2)"
    using 1 2 by (simp add: run_experiment_def demo_config_fields)
  have "ex_mode demo_config \<noteq> ''emulated''" by (simp add: demo_config_fields)
  from experiment_reports [OF this, of demo_env] r show ?thesis by (auto simp: demo_config_fields)
qed

end
