(* ===== verification/Warmup.thy ===== *)
theory Warmup
  imports Runs
begin

text \<open>
  The warm-up of a run (\<open>warmUpCaches\<close> of \<open>internal/experiment/runner.go\<close>): with an LRU cache that holds them all, every
  segment put in advance is found by the sessions of the run, at any simulated time, with the size their manifest gives it.
\<close>

section \<open>Putting items that fit\<close>

lemma spec_put_fits:
  assumes "size_bytes it + sum_list (map size_bytes xs) \<le> mx" "\<forall>x\<in>set xs. 0 \<le> size_bytes x" "item_key it \<notin> item_key ` set xs"
  shows "spec_put mx it xs = it # xs"
proof -
  have "filter (\<lambda>x. item_key x \<noteq> item_key it) xs = xs" using assms(3) by (auto simp: filter_id_conv image_iff)
  moreover have "0 \<le> sum_list (map size_bytes xs)" using assms(2) by (intro sum_list_nonneg) auto
  ultimately show ?thesis using assms(1) by (simp add: spec_put_def trim.simps)
qed

lemma put_items_fit:
  assumes "lru_inv c" "distinct (map item_key its)" "item_key ` set its \<inter> item_key ` set (lru_entries c) = {}"
    and "\<forall>x\<in>set its. 0 \<le> size_bytes x" "sum_list (map size_bytes its) + sum_list (map size_bytes (lru_entries c)) \<le> max_size c"
  shows "lru_entries (put_items lru_ops its c) = rev its @ lru_entries c \<and> lru_inv (put_items lru_ops its c)"
  using assms
proof (induction its arbitrary: c)
  case Nil
  then show ?case by (simp add: put_items_def)
next
  case (Cons it its)
  have wf: "lru_wf c" using Cons.prems(1) by (simp add: lru_inv_def)
  have size: "0 \<le> size_bytes it" "0 \<le> sum_list (map size_bytes its)" using Cons.prems(4) by (auto intro!: sum_list_nonneg)
  note put = lru_put_result [OF wf size(1), of sim_epoch]
  have "spec_put (max_size c) it (lru_entries c) = it # lru_entries c"
    using Cons.prems(3,5) size lru_entries_nonneg [OF wf] by (intro spec_put_fits) auto
  with put have c1: "lru_entries (lru_put it sim_epoch c) = it # lru_entries c" "max_size (lru_put it sim_epoch c) = max_size c" by simp_all
  have "lru_entries (put_items lru_ops its (lru_put it sim_epoch c)) = rev its @ lru_entries (lru_put it sim_epoch c)
      \<and> lru_inv (put_items lru_ops its (lru_put it sim_epoch c))"
    using Cons.prems lru_inv_put [OF Cons.prems(1) size(1)] by (intro Cons.IH) (auto simp: c1)
  then show ?case by (simp add: put_items_def lru_ops_def c1)
qed

lemma put_items_new:
  assumes "distinct (map item_key its)" "\<forall>x\<in>set its. 0 \<le> size_bytes x" "sum_list (map size_bytes its) \<le> mx" "it \<in> set its"
  shows "lru_resident (put_items lru_ops its (new_lru mx)) (item_key it) = Some it \<and> lru_inv (put_items lru_ops its (new_lru mx))"
proof -
  have "0 \<le> mx" using assms(2,3) sum_list_nonneg [of "map size_bytes its"] by force
  then have inv: "lru_inv (new_lru mx)" by (rule lru_inv_new)
  have new: "lru_entries (new_lru mx) = []" "max_size (new_lru mx) = mx" by (simp_all add: lru_entries_def new_lru_def)
  from put_items_fit [OF inv assms(1)] assms(2,3) have p: "lru_entries (put_items lru_ops its (new_lru mx)) = rev its"
    "lru_inv (put_items lru_ops its (new_lru mx))" by (simp_all add: new)
  then have "lru_wf (put_items lru_ops its (new_lru mx))" by (simp add: lru_inv_def)
  from lru_resident_entries [OF lru_wf_elems [OF this]] p assms(4) show ?thesis by simp
qed

section \<open>The warmed segments\<close>

lemma content_name_no_slash: "CHR ''/'' \<notin> set (content_name i)"
  using itoa_no_slash [of i] by (simp add: content_name_def)

lemma content_name_inj: "content_name i = content_name j \<longleftrightarrow> i = j"
  using itoa_inj [of i j] by (auto simp: content_name_def)

lemma warm_item_key:
  "map item_key (warm_items E cc i) = map (\<lambda>seg. segment_id_of (content_name i) (int seg)
     (bitrate (representations (content_manifest E cc i) ! (length (representations (content_manifest E cc i)) div 2))))
     [0..<nat (total_segments (content_manifest E cc i))]"
  by (simp add: warm_items_def Let_def)

lemma content_keys_inj:
  "segment_id_of (content_name i) x b = segment_id_of (content_name j) y b' \<longleftrightarrow> i = j \<and> x = y \<and> b = b'"
  using segment_id_inj [of "content_name i" x b "content_name j" y b'] content_name_no_slash content_name_inj by auto

lemma distinct_concat_upt:
  "\<forall>i<n. distinct (f i) \<Longrightarrow> \<forall>i<n. \<forall>j<n. i \<noteq> j \<longrightarrow> set (f i) \<inter> set (f j) = {} \<Longrightarrow> distinct (concat (map f [0..<n]))"
proof (induction n)
  case (Suc n)
  have d: "x \<notin> set (f i)" if "x \<in> set (f n)" "i < n" for x i
    using Suc.prems(2) [rule_format, of i n] that by auto
  have "distinct (concat (map f [0..<n]))" using Suc by simp
  then show ?case using Suc.prems(1) by (auto dest: d)
qed simp

lemma warm_keys_distinct: "distinct (map item_key (warm_all E cc))"
proof -
  let ?n = "nat (if catalog_size cc div 10 < 1 then 1 else catalog_size cc div 10)"
  have "distinct (concat (map (\<lambda>i. map item_key (warm_items E cc (int i))) [0..<?n]))"
    by (rule distinct_concat_upt) (auto simp: warm_item_key distinct_map inj_on_def content_keys_inj)
  moreover have "map item_key (warm_all E cc) = concat (map (\<lambda>i. map item_key (warm_items E cc (int i))) [0..<?n])"
    by (simp add: warm_all_def Let_def map_concat comp_def)
  ultimately show ?thesis by simp
qed

section \<open>The caches of a run\<close>

lemma foldl_upd_const: "foldl (\<lambda>m e. m(key e \<mapsto> v)) m es k = (if k \<in> key ` set es then Some v else m k)"
  by (induction es arbitrary: m) auto

lemma new_caches_at: "e \<in> set (tc_edges (ex_topology cfg)) \<Longrightarrow> new_caches P cfg (edge_id e) = Some (p_new_cache P (cache_bytes (ex_cache cfg)))"
  by (simp add: new_caches_def foldl_upd_const)

lemma warm_up_caches_at:
  "distinct (map edge_id edges) \<Longrightarrow> e \<in> set edges \<Longrightarrow>
    warm_up_caches E C cc edges m (edge_id e) = map_option (put_items C (warm_all E cc)) (m (edge_id e))"
proof -
  let ?f = "\<lambda>m e. m(edge_id e := map_option (put_items C (warm_all E cc)) (m (edge_id e)))"
  have other: "k \<notin> edge_id ` set es \<Longrightarrow> foldl ?f m es k = m k" for es m k by (induction es arbitrary: m) auto
  have "distinct (map edge_id es) \<Longrightarrow> e \<in> set es \<Longrightarrow> foldl ?f m es (edge_id e) = map_option (put_items C (warm_all E cc)) (m (edge_id e))" for es
    by (induction es arbitrary: m) (auto simp: other)
  then show "distinct (map edge_id edges) \<Longrightarrow> e \<in> set edges \<Longrightarrow> ?thesis" by (simp add: warm_up_caches_def)
qed

lemma warm_initial_cache:
  assumes "initial_state E P cfg i results = Some s" "warm_up (ex_cache cfg)" "distinct (map edge_id (tc_edges (ex_topology cfg)))"
    and "e \<in> set (tc_edges (ex_topology cfg))"
  shows "rs_caches s (edge_id e) = Some (put_items (p_cache P) (warm_all E (ex_content cfg)) (p_new_cache P (cache_bytes (ex_cache cfg))))"
proof -
  have "rs_caches s = warm_up_caches E (p_cache P) (ex_content cfg) (tc_edges (ex_topology cfg)) (new_caches P cfg)"
    using assms(1,2) by (auto simp: initial_state_def Let_def split: option.splits)
  then show ?thesis by (simp add: warm_up_caches_at [OF assms(3,4)] new_caches_at [OF assms(4)])
qed

lemma warm_size_bounds:
  assumes "1 \<le> segment_seconds cc" "segment_seconds cc \<le> 400" "rep \<in> set (representations (content_manifest E cc i))"
  shows "length (segment_sizes rep) = nat (total_segments (content_manifest E cc i))
    \<and> (\<forall>z\<in>set (segment_sizes rep). 0 < z \<and> z \<le> 3000000 * segment_seconds cc)"
proof -
  let ?n = "segment_seconds cc"
  obtain fs g' where g: "draw_factors (e_math E) (e_rand E) (nat (num_segments (duration_seconds cc * second) (?n * second)))
      (e_source E (word_of_int ((i + 1) * 9973))) = (fs, g')" by fastforce
  have fs: "length fs = nat (total_segments (content_manifest E cc i))" "\<forall>f\<in>set fs. 1 / 2 \<le> f \<and> f \<le> fl (18 / 10)"
    and reps: "representations (content_manifest E cc i) = map (with_sizes (?n * second) fs) default_representations"
    using draw_factors_clamped [of "e_math E" "e_rand E" _ "e_source E (word_of_int ((i + 1) * 9973))"] g
    by (simp_all add: content_manifest_def generate_manifest_def) (metis fst_conv)+
  from assms(3) obtain r where r: "r \<in> set default_representations" "rep = with_sizes (?n * second) fs r" by (auto simp: reps)
  have "0 < f2i (fmul (mean_bytes (bitrate r) (?n * second)) f) \<and> f2i (fmul (mean_bytes (bitrate r) (?n * second)) f) \<le> 3000000 * ?n"
    if "f \<in> set fs" for f
    using segment_size_bounds [OF _ _ assms(1,2), of "bitrate r" f] default_ladder [OF r(1)] fs(2) that by auto
  then show ?thesis by (auto simp: r(2) with_sizes_def fs(1))
qed

text \<open>The representation that is warmed: the middle one of the ladder.\<close>

definition middle :: "manifest \<Rightarrow> representation" where
  "middle m = representations m ! (length (representations m) div 2)"

lemma middle_in: "middle (content_manifest E cc i) \<in> set (representations (content_manifest E cc i))"
proof -
  have "representations (content_manifest E cc i) \<noteq> []"
    by (simp add: content_manifest_def generate_manifest_def default_representations_def Let_def split: prod.split)
  then show ?thesis unfolding middle_def by (intro nth_mem) simp
qed

lemma warm_items_sizes:
  assumes "1 \<le> segment_seconds cc" "segment_seconds cc \<le> 400" "x \<in> set (warm_items E cc i)"
  shows "0 < size_bytes x \<and> size_bytes x \<le> 3000000 * segment_seconds cc \<and> expiry x = 0"
proof -
  note sz = warm_size_bounds [OF assms(1,2) middle_in [of E cc i]]
  from assms(3) obtain seg where "seg < length (segment_sizes (middle (content_manifest E cc i)))"
    "x = \<lparr>item_key = segment_id_of (content_name i) (int seg) (bitrate (middle (content_manifest E cc i))),
      size_bytes = segment_sizes (middle (content_manifest E cc i)) ! seg, expiry = 0, item_value = None\<rparr>"
    using sz by (auto simp: warm_items_def Let_def middle_def)
  with sz show ?thesis by simp
qed

text \<open>C31: Warm-up works: after it, the first tenth of the catalogue (at least one content) is served by every edge. For an
  LRU cache with room for all the warmed segments, segments of at most 400 seconds and edges with distinct identifiers, a lookup
  in the initial cache of any edge, at any simulated time, of any segment of such a content at the middle bitrate of its
  manifest returns an item of exactly the size that manifest gives the segment; and the cache satisfies the LRU invariant.\<close>

theorem warm_up_hits:
  assumes "initial_state E P cfg i results = Some s" "warm_up (ex_cache cfg)" "p_cache P = lru_ops" "p_new_cache P = new_lru"
    and "distinct (map edge_id (tc_edges (ex_topology cfg)))" "e \<in> set (tc_edges (ex_topology cfg))"
    and "1 \<le> segment_seconds (ex_content cfg)" "segment_seconds (ex_content cfg) \<le> 400"
    and "sum_list (map size_bytes (warm_all E (ex_content cfg))) \<le> cache_bytes (ex_cache cfg)"
    and "idx < max 1 (nat (catalog_size (ex_content cfg) div 10))" "m = content_manifest E (ex_content cfg) (int idx)" "int seg < total_segments m"
  shows "\<exists>c it. rs_caches s (edge_id e) = Some c \<and> lru_inv c
    \<and> fst (lru_get (segment_id_of (content_name (int idx)) (int seg) (bitrate (middle m))) now c) = Some it
    \<and> size_bytes it = segment_sizes (middle m) ! seg"
proof -
  let ?cc = "ex_content cfg"
  let ?it = "\<lparr>item_key = segment_id_of (content_name (int idx)) (int seg) (bitrate (middle m)), size_bytes = segment_sizes (middle m) ! seg,
    expiry = 0, item_value = None\<rparr>"
  let ?c = "put_items lru_ops (warm_all E ?cc) (new_lru (cache_bytes (ex_cache cfg)))"
  have c: "rs_caches s (edge_id e) = Some ?c" using warm_initial_cache [OF assms(1,2,5,6)] assms(3,4) by simp
  have top: "idx < nat (if catalog_size ?cc div 10 < 1 then 1 else catalog_size ?cc div 10)" using assms(10) by auto
  have "?it \<in> set (warm_items E ?cc (int idx))" using assms(11,12) by (auto simp: warm_items_def Let_def middle_def)
  then have it: "?it \<in> set (warm_all E ?cc)" using top unfolding warm_all_def Let_def by fastforce
  have "\<forall>x\<in>set (warm_all E ?cc). 0 \<le> size_bytes x"
    using warm_items_sizes [OF assms(7,8)] by (fastforce simp: warm_all_def Let_def)
  from put_items_new [OF warm_keys_distinct this assms(9) it]
  have r: "lru_resident ?c (item_key ?it) = Some ?it" and inv: "lru_inv ?c" by auto
  then have "fst (lru_get (item_key ?it) now ?c) = Some ?it"
    using lru_get_result [of ?c] by (simp add: lru_inv_def expired_def is_zero_time_def)
  then show ?thesis using c inv by (intro exI [of _ ?c] exI [of _ ?it]) simp
qed

section \<open>An example\<close>

lemma demo_content: "duration_seconds (ex_content demo_config) = 8" "segment_seconds (ex_content demo_config) = 4"
  "catalog_size (ex_content demo_config) = 100" "warm_up (ex_cache demo_config)" "cache_bytes (ex_cache demo_config) = 2 ^ 30"
  by (simp_all add: demo_config_def blank_config_def fill_defaults_def default_content_def default_cache_def Let_def)

lemma demo_total_segments: "total_segments (content_manifest demo_env (ex_content demo_config) i) = 2"
proof -
  have "num_segments (8 * second) (4 * second) = 2" by code_simp
  then show ?thesis by (simp add: content_manifest_def generate_manifest_def demo_content Let_def split: prod.split)
qed

lemma demo_warm_fits: "sum_list (map size_bytes (warm_all demo_env (ex_content demo_config))) \<le> cache_bytes (ex_cache demo_config)"
proof -
  let ?xs = "warm_all demo_env (ex_content demo_config)"
  have "x \<in> set ?xs \<Longrightarrow> size_bytes x \<le> 12000000" for x
    using warm_items_sizes [of "ex_content demo_config" x demo_env] by (fastforce simp: warm_all_def Let_def demo_content)
  then have "sum_list (map size_bytes ?xs) \<le> sum_list (map (\<lambda>x. 12000000) ?xs)" by (intro sum_list_mono) simp
  moreover have "length ?xs = 20"
    by (simp add: warm_all_def Let_def demo_content length_concat comp_def warm_items_def demo_total_segments sum_list_triv)
  ultimately show ?thesis by (simp add: demo_content sum_list_triv)
qed

theorem warm_up_hits_witness:
  "\<exists>s c it. initial_state demo_env (tcp_parts demo_env demo_config lru_ops new_lru) demo_config 0 [] = Some s
    \<and> rs_caches s ''e1'' = Some c \<and> fst (lru_get (segment_id_of (content_name 3) 1
      (bitrate (middle (content_manifest demo_env (ex_content demo_config) 3)))) sim_epoch c) = Some it"
proof -
  let ?P = "tcp_parts demo_env demo_config lru_ops new_lru"
  have "initial_state demo_env ?P demo_config 0 [] \<noteq> None"
    by (simp add: initial_state_def tcp_parts_def build_tcp_def run_trace_def demo_config_fields Let_def split: option.split)
  then obtain s where s: "initial_state demo_env ?P demo_config 0 [] = Some s" by blast
  have "demo_edge ''e1'' 0 0 \<in> set (tc_edges (ex_topology demo_config))" "edge_id (demo_edge ''e1'' 0 0) = ''e1''"
    by (simp_all add: demo_config_fields demo_edge_def)
  then obtain c it where "rs_caches s ''e1'' = Some c" "fst (lru_get (segment_id_of (content_name (int 3)) (int 1)
      (bitrate (middle (content_manifest demo_env (ex_content demo_config) (int 3))))) sim_epoch c) = Some it"
    using warm_up_hits [OF s, where e = "demo_edge ''e1'' 0 0" and idx = 3 and seg = 1
        and m = "content_manifest demo_env (ex_content demo_config) (int 3)" and now = sim_epoch]
      demo_warm_fits demo_total_segments
    by (auto simp: demo_content tcp_parts_def demo_config_fields demo_edge_def)
  with s show ?thesis by auto
qed

end
