(* ===== verification/Emulated.thy ===== *)
theory Emulated
  imports Runs Serverapi
begin

text \<open>
  The emulated mode: the transports of \<open>internal/transport/emulated\<close>, which send real HTTP/2 and HTTP/3 requests, and the
  runner of \<open>internal/experiment/emulated.go\<close>, which plays the same sessions over them. The network is a parameter: what a
  client gets for the URLs it asks for, with the times it measures. URL construction, the treatment of the answers, the batch
  discipline and the runner are the code's own.
\<close>

section \<open>URLs\<close>

definition seg_prefix :: string where "seg_prefix = ''seg-''"

definition build_segment_url :: "string \<Rightarrow> string \<Rightarrow> string" where
  "build_segment_url edge_url sid = (let
       parts = split_on (CHR ''/'') sid;
       base = trim_right (CHR ''/'') edge_url
     in if length parts = 3 \<and> has_prefix (parts ! 2) seg_prefix
        then base @ path_segment_prefix @ parts ! 0 @ CHR ''/'' # trim_prefix (parts ! 2) seg_prefix @ CHR ''/'' # parts ! 1
        else base @ path_segment_prefix @ sid)"

section \<open>The transports\<close>

text \<open>A read answer: the length of the body, the time of the first byte (zero when the trace did not fire), the
  total time and the CPU time. One call of \<open>net_get\<close> answers a group of concurrent requests: the answer to each is given by
  its index, as the goroutines store it, whatever their order; an error of the request, of the client, of the body or of the
  cancellation by a sibling is the same to the code. \<open>net_close\<close> is what closing an \<open>http3.Transport\<close> does to the sockets; \<open>et_rt\<close> says
  that a transport keeps one for that (the field \<open>rt\<close>).\<close>

record net_answer =
  na_bytes :: int
  na_ttfb :: duration
  na_total :: duration
  na_cpu :: duration

record ('p, 'n) network =
  net_get :: "'p tls_config \<Rightarrow> string option \<Rightarrow> string list \<Rightarrow> 'n \<Rightarrow> (nat \<Rightarrow> string + net_answer) \<times> 'n"
  net_head :: "'p tls_config \<Rightarrow> string option \<Rightarrow> string \<Rightarrow> 'n \<Rightarrow> (string + duration) \<times> 'n"
  net_close :: "'p tls_config \<Rightarrow> string \<Rightarrow> 'n \<Rightarrow> string option \<times> 'n"

record 'p emu_transport =
  et_url :: string
  et_tls :: "'p tls_config"
  et_protocol :: string
  et_kind :: string
  et_rt :: bool

definition new_emulated_tcp :: "string \<Rightarrow> 'p tls_config \<Rightarrow> 'p emu_transport" where
  "new_emulated_tcp url c = \<lparr>et_url = url, et_tls = with_proto ''h2'' c, et_protocol = ''tcp-h2'', et_kind = ''tcp'', et_rt = False\<rparr>"

definition new_emulated_quic :: "string \<Rightarrow> 'p tls_config \<Rightarrow> 'p emu_transport" where
  "new_emulated_quic url c = \<lparr>et_url = url, et_tls = with_proto ''h3'' c, et_protocol = ''quic-h3'', et_kind = ''quic'', et_rt = True\<rparr>"

text \<open>What \<open>FetchSegment\<close> makes of an answer.\<close>

definition segment_of_answer :: "'p emu_transport \<Rightarrow> segment_request \<Rightarrow> string + net_answer \<Rightarrow> string + segment_response" where
  "segment_of_answer et r a = (case a of
     Inl e \<Rightarrow> Inl (''emulated '' @ et_kind et @ '' fetch '' @ build_segment_url (et_url et) (req_id r) @ '': '' @ e)
   | Inr a \<Rightarrow> Inr (zero_response\<lparr>segment_id := req_id r, bytes_received := na_bytes a,
       ttfb := (if na_ttfb a = 0 then na_total a else na_ttfb a), total_latency := na_total a,
       goodput_mbps := (if na_total a > 0 then fdiv (fdiv (fmul (i2f (na_bytes a)) 8) 1000000) (dur_seconds (na_total a)) else 0),
       protocol := et_protocol et, cpu_time := na_cpu a\<rparr>))"

definition emu_fetch_segment :: "('p, 'n) network \<Rightarrow> 'p emu_transport \<Rightarrow> string option \<Rightarrow> segment_request \<Rightarrow> 'n \<Rightarrow>
    (string + segment_response) \<times> 'n" where
  "emu_fetch_segment N et ctx r n = (case net_get N (et_tls et) ctx [build_segment_url (et_url et) (req_id r)] n of
     (as, n1) \<Rightarrow> (segment_of_answer et r (as 0), n1))"

text \<open>The loop over \<open>errs\<close>: the first error with its index, or all results.\<close>

fun collect_all :: "nat \<Rightarrow> ('e + 'a) list \<Rightarrow> (nat \<times> 'e) + 'a list" where
  "collect_all i [] = Inr []"
| "collect_all i (Inl e # xs) = Inl (i, e)"
| "collect_all i (Inr x # xs) = map_sum id (Cons x) (collect_all (Suc i) xs)"

definition emu_fetch :: "('p, 'n) network \<Rightarrow> 'p emu_transport \<Rightarrow> string option \<Rightarrow> segment_request list \<Rightarrow> 'n \<Rightarrow>
    (string + segment_response list) \<times> 'n" where
  "emu_fetch N et ctx reqs n = (case net_get N (et_tls et) ctx (map (\<lambda>r. build_segment_url (et_url et) (req_id r)) reqs) n of
     (as, n1) \<Rightarrow> (case collect_all 0 (map (\<lambda>i. segment_of_answer et (reqs ! i) (as i)) [0..<length reqs]) of
         Inl (i, e) \<Rightarrow> (Inl (''emulated '' @ et_kind et @ '' concurrent (req '' @ itoa (int i) @ '' of '' @ itoa (int (length reqs)) @ ''): '' @ e), n1)
       | Inr resps \<Rightarrow> (Inr resps, n1)))"

definition emu_handshake :: "('p, 'n) network \<Rightarrow> 'p emu_transport \<Rightarrow> string option \<Rightarrow> bool \<Rightarrow> 'n \<Rightarrow> (string + duration) \<times> 'n" where
  "emu_handshake N et ctx resumption n = (let url = trim_right (CHR ''/'') (et_url et) @ ''/healthz'' in
     case net_head N (et_tls et) ctx url n of
       (Inl e, n1) \<Rightarrow> (Inl (''emulated '' @ et_kind et @ '' handshake '' @ url @ '': '' @ e), n1)
     | (Inr d, n1) \<Rightarrow> (Inr d, n1))"

definition emu_ops :: "('p, 'n) network \<Rightarrow> 'p emu_transport \<Rightarrow> 'n transport_ops" where
  "emu_ops N et = \<lparr>t_fetch_segment = (\<lambda>ctx r n. map_prod (map_sum Failed id) id (emu_fetch_segment N et ctx r n)),
     t_fetch_concurrent = (\<lambda>ctx reqs n. map_prod (map_sum Failed id) id (emu_fetch N et ctx reqs n)),
     t_handshake = emu_handshake N et, t_protocol = et_protocol et\<rparr>"

definition emu_close :: "('p, 'n) network \<Rightarrow> 'p emu_transport \<Rightarrow> 'n \<Rightarrow> string option \<times> 'n" where
  "emu_close N et n = (if et_rt et then net_close N (et_tls et) (et_url et) n else (None, n))"

section \<open>The runner\<close>

text \<open>A transport and its closer, if it has one.\<close>

type_synonym 'n closer = "'n \<Rightarrow> string option \<times> 'n"

definition build_emulated_transport :: "('p, 'n) network \<Rightarrow> string \<Rightarrow> emulated_edge \<Rightarrow> 'p tls_config \<Rightarrow>
    string + 'p emu_transport \<times> 'n closer option" where
  "build_emulated_transport N proto edge c = (if proto = ''quic-h3'' then
       (let t = new_emulated_quic (h3_url edge) c in Inr (t, Some (emu_close N t)))
     else if proto = ''tcp-h2'' then (let t = new_emulated_tcp (h2_url edge) c in Inr (t, None))
     else Inl proto)"

record ('g, 'n) emu_state =
  es_edges :: "edge_pop list"
  es_pop :: "'g popularity"
  es_results :: collector
  es_net :: 'n
  es_closers :: "'n closer list"

definition note_closer :: "'n closer option \<Rightarrow> ('g, 'n) emu_state \<Rightarrow> ('g, 'n) emu_state" where
  "note_closer closer s = (case closer of None \<Rightarrow> s | Some f \<Rightarrow> s\<lparr>es_closers := es_closers s @ [f]\<rparr>)"

text \<open>The deferred loop at the end of a run; the errors of the closers are dropped.\<close>

fun run_closers :: "'n closer list \<Rightarrow> 'n \<Rightarrow> 'n" where
  "run_closers [] n = n"
| "run_closers (f # fs) n = run_closers fs (snd (f n))"

definition emu_base_seed :: "experiment_config \<Rightarrow> string \<Rightarrow> int \<Rightarrow> 64 word" where
  "emu_base_seed cfg proto run_idx = base_seed cfg run_idx + (if proto = ''quic-h3'' then 2 ^ 32 else 0)"

text \<open>A session without a cache and without a shield; the operations named for them are never called.\<close>

definition play_emulated :: "'g env \<Rightarrow> ('p, 'n) network \<Rightarrow> experiment_config \<Rightarrow> 'p emu_transport \<Rightarrow> string option \<Rightarrow> int \<Rightarrow> 'n \<Rightarrow>
    playback_result \<times> call_error option \<times> 'n" where
  "play_emulated E N cfg et ctx idx n = (case run_playback (build_abr (ex_abr cfg)) lru_ops (emu_ops N et)
       (shield_fetch lru_ops (emu_ops N et) (e_clock E)) ctx
       \<lparr>s_manifest = content_manifest E (ex_content cfg) idx, s_content_id = content_name idx,
        s_config = run_playback_config (ex_playback cfg)\<rparr>
       \<lparr>w_cache = None, w_transport = n, w_shield = None\<rparr> of (pr, err, w) \<Rightarrow> (pr, err, w_transport w))"

definition run_emu_client :: "'g env \<Rightarrow> ('p, 'n) network \<Rightarrow> experiment_config \<Rightarrow> 'p tls_config \<Rightarrow> emulated_config \<Rightarrow> string \<Rightarrow> 64 word \<Rightarrow>
    string option \<Rightarrow> nat \<Rightarrow> client_info \<Rightarrow> ('g, 'n) emu_state \<Rightarrow> run_error option \<times> ('g, 'n) emu_state" where
  "run_emu_client E N cfg tls em proto base ctx i client s = (case fst (build_policy E (ex_clients cfg) client (es_edges s)
       (e_source E (base + seed_offset (client_id client)))) of
     Inl e \<Rightarrow> (Some (Route_failed e), s)
   | Inr edge \<Rightarrow> (let
         s1 = s\<lparr>es_edges := add_load (edge_id edge) (es_edges s)\<rparr>;
         emu_edge = em_edges em ! (i mod length (em_edges em));
         (idx, pop) = next_index E (es_pop s1);
         s2 = s1\<lparr>es_pop := pop\<rparr>
       in case build_emulated_transport N proto emu_edge tls of
            Inl p \<Rightarrow> (Some (Unsupported_protocol p), s2)
          | Inr (et, closer) \<Rightarrow> (case play_emulated E N cfg et ctx idx (es_net s2) of (pr, err, n) \<Rightarrow>
              let s3 = note_closer closer s2\<lparr>es_net := n\<rparr> in case err of Some e \<Rightarrow> (Some (Play_failed e), s3)
                | None \<Rightarrow> (None, s3\<lparr>es_results := collector_add pr (es_results s3)\<rparr>))))"

fun run_emu_clients :: "'g env \<Rightarrow> ('p, 'n) network \<Rightarrow> experiment_config \<Rightarrow> 'p tls_config \<Rightarrow> emulated_config \<Rightarrow> string \<Rightarrow> 64 word \<Rightarrow>
    string option \<Rightarrow> nat \<Rightarrow> client_info list \<Rightarrow> ('g, 'n) emu_state \<Rightarrow> run_error option \<times> ('g, 'n) emu_state" where
  "run_emu_clients E N cfg tls em proto base ctx i [] s = (None, s)"
| "run_emu_clients E N cfg tls em proto base ctx i (c # cs) s = (case run_emu_client E N cfg tls em proto base ctx i c s of
     (Some e, s1) \<Rightarrow> (Some e, s1) | (None, s1) \<Rightarrow> run_emu_clients E N cfg tls em proto base ctx (Suc i) cs s1)"

definition run_one_emulated :: "'g env \<Rightarrow> ('p, 'n) network \<Rightarrow> experiment_config \<Rightarrow> 'p tls_config \<Rightarrow> emulated_config \<Rightarrow> string option \<Rightarrow>
    string \<Rightarrow> int \<Rightarrow> collector \<Rightarrow> 'n \<Rightarrow> run_error option \<times> collector \<times> 'n" where
  "run_one_emulated E N cfg tls em ctx proto run_idx results n = (let
       base = emu_base_seed cfg proto run_idx;
       clients = sort_key client_id (fst (build_clients (e_rand E) (ex_clients cfg) (e_source E base)));
       pop = new_zipf_popularity (catalog_size (ex_content cfg)) (zipf_alpha (ex_content cfg)) (e_source E (base + 31))
     in case run_emu_clients E N cfg tls em proto base ctx 0 clients
          \<lparr>es_edges = tc_edges (ex_topology cfg), es_pop = pop, es_results = results, es_net = n, es_closers = []\<rparr> of
        (e, s) \<Rightarrow> (e, es_results s, run_closers (es_closers s) (es_net s)))"

fun run_emu_indices :: "'g env \<Rightarrow> ('p, 'n) network \<Rightarrow> experiment_config \<Rightarrow> 'p tls_config \<Rightarrow> emulated_config \<Rightarrow> string option \<Rightarrow> string \<Rightarrow>
    int \<Rightarrow> nat \<Rightarrow> collector \<Rightarrow> 'n \<Rightarrow> experiment_error option \<times> collector \<times> 'n" where
  "run_emu_indices E N cfg tls em ctx proto i 0 results n = (None, results, n)"
| "run_emu_indices E N cfg tls em ctx proto i (Suc k) results n = (case ctx of Some e \<Rightarrow> (Some (Cancelled e), results, n)
     | None \<Rightarrow> (case run_one_emulated E N cfg tls em ctx proto i results n of
         (Some e, results1, n1) \<Rightarrow> (Some (Run_failed proto i e), results1, n1)
       | (None, results1, n1) \<Rightarrow> run_emu_indices E N cfg tls em ctx proto (i + 1) k results1 n1))"

fun run_emu_protocols :: "'g env \<Rightarrow> ('p, 'n) network \<Rightarrow> experiment_config \<Rightarrow> 'p tls_config \<Rightarrow> emulated_config \<Rightarrow> string option \<Rightarrow>
    string list \<Rightarrow> collector \<Rightarrow> 'n \<Rightarrow> experiment_error option \<times> collector \<times> 'n" where
  "run_emu_protocols E N cfg tls em ctx [] results n = (None, results, n)"
| "run_emu_protocols E N cfg tls em ctx (p # ps) results n = (case run_emu_indices E N cfg tls em ctx p 0 (nat (ex_runs cfg)) results n of
     (Some e, results1, n1) \<Rightarrow> (Some e, results1, n1)
   | (None, results1, n1) \<Rightarrow> run_emu_protocols E N cfg tls em ctx ps results1 n1)"

text \<open>\<open>runEmulated\<close>; unlike \<open>Run\<close> it makes no enhanced comparison.\<close>

definition collect_emulated :: "'g env \<Rightarrow> experiment_config \<Rightarrow> collector \<Rightarrow> experiment_results" where
  "collect_emulated E cfg c = \<lparr>er_config = cfg,
     er_by_protocol = foldl (\<lambda>m p. m(p \<mapsto> aggregate c p)) Map.empty (ex_protocols cfg),
     er_comparison = (if has_both (ex_protocols cfg)
       then Some (fst (compare (e_rand E) c (ex_name cfg) ''tcp-h2'' ''quic-h3'' (e_source E (ex_seed cfg)))) else None),
     er_enhanced = None, er_raw = collector_results c\<rparr>"

definition run_emulated :: "'g env \<Rightarrow> ('p, 'n) network \<Rightarrow> (string \<Rightarrow> string + string) \<Rightarrow> (string \<Rightarrow> 'p option) \<Rightarrow> string option \<Rightarrow> 'n \<Rightarrow>
    experiment_config \<Rightarrow> experiment_error + experiment_results" where
  "run_emulated E N read_file pool_of ctx n cfg = (case ex_emulated cfg of None \<Rightarrow> Inl Emulated_edges_missing
     | Some em \<Rightarrow> if em_edges em = [] then Inl Emulated_edges_missing
       else (case build_emulated_tls read_file pool_of em of Inl e \<Rightarrow> Inl (Tls_failed e)
         | Inr tls \<Rightarrow> (case run_emu_protocols E N cfg tls em ctx (ex_protocols cfg) new_collector n of
             (Some e, c, n1) \<Rightarrow> Inl e | (None, c, n1) \<Rightarrow> Inr (collect_emulated E cfg c))))"

lemma note_closer_fields [simp]:
  "es_edges (note_closer f s) = es_edges s" "es_pop (note_closer f s) = es_pop s"
  "es_results (note_closer f s) = es_results s" "es_net (note_closer f s) = es_net s"
  "es_closers (note_closer f s) = es_closers s @ (case f of None \<Rightarrow> [] | Some c \<Rightarrow> [c])"
  by (simp_all add: note_closer_def split: option.splits)

section \<open>What the servers are asked for\<close>

lemma trim_right_slash [simp]: "trim_right c (s @ replicate k c) = trim_right c s"
proof -
  have "dropWhile (\<lambda>x. x = c) (replicate k c @ xs) = dropWhile (\<lambda>x. x = c) xs" for xs by (induction k) simp_all
  then show ?thesis by (simp add: trim_right_def)
qed

lemma segment_id_parts:
  "CHR ''/'' \<notin> set cid \<Longrightarrow> split_on (CHR ''/'') (segment_id_of cid idx b) = [cid, itoa b, seg_prefix @ itoa idx]"
  by (simp add: segment_id_of_def seg_prefix_def split_on_cons split_on_none itoa_no_slash)

lemma segment_url:
  "CHR ''/'' \<notin> set cid \<Longrightarrow> build_segment_url url (segment_id_of cid idx b) = trim_right (CHR ''/'') url @ segment_path cid idx b"
  by (simp add: build_segment_url_def segment_id_parts segment_path_def Let_def)

lemma itoa_slashes: "filter (\<lambda>x. x = CHR ''/'') (itoa n) = []"
  using itoa_no_slash [of n] by (auto simp: filter_empty_conv)

lemma segment_url_refused:
  assumes "CHR ''/'' \<in> set cid"
  shows "build_segment_url url (segment_id_of cid idx b) = trim_right (CHR ''/'') url @ path_segment_prefix @ segment_id_of cid idx b
    \<and> parse_segment_path (path_segment_prefix @ segment_id_of cid idx b) = Inl (Malformed_path (path_segment_prefix @ segment_id_of cid idx b))"
proof -
  have "length (split_on (CHR ''/'') (segment_id_of cid idx b)) = length (filter (\<lambda>x. x = CHR ''/'') cid) + 3"
    by (simp add: split_slashes segment_id_of_def itoa_slashes)
  moreover have "filter (\<lambda>x. x = CHR ''/'') cid \<noteq> []" using assms by (auto simp: filter_empty_conv)
  then have "length (filter (\<lambda>x. x = CHR ''/'') cid) \<noteq> 0" by simp
  ultimately have "length (split_on (CHR ''/'') (segment_id_of cid idx b)) \<noteq> 3" by simp
  then show ?thesis by (simp add: build_segment_url_def parse_segment_path_def Let_def)
qed

text \<open>C16: Client and server agree on segment URLs. Whatever the edge URL, with or without trailing slashes, the URL an
  emulated transport asks for a segment of a content without a slash in its id ends in a path the servers parse to exactly
  that content, index and bitrate; every content of the catalogue is of this kind. A content id with a slash gives a path that
  the servers refuse.\<close>

theorem emulated_reaches_segment:
  assumes "in_int64 idx" "in_int64 b"
  shows "(CHR ''/'' \<notin> set cid \<longrightarrow> (\<exists>path. build_segment_url (url @ replicate k (CHR ''/'')) (segment_id_of cid idx b)
        = trim_right (CHR ''/'') url @ path \<and> parse_segment_path path = Inr (cid, idx, b)))
    \<and> (CHR ''/'' \<in> set cid \<longrightarrow> (\<exists>path. build_segment_url (url @ replicate k (CHR ''/'')) (segment_id_of cid idx b)
        = trim_right (CHR ''/'') url @ path \<and> parse_segment_path path = Inl (Malformed_path path)))
    \<and> CHR ''/'' \<notin> set (content_name i)"
proof (intro conjI impI)
  assume c: "CHR ''/'' \<notin> set cid"
  show "\<exists>path. build_segment_url (url @ replicate k (CHR ''/'')) (segment_id_of cid idx b) = trim_right (CHR ''/'') url @ path
      \<and> parse_segment_path path = Inr (cid, idx, b)"
    using segment_url [OF c, of "url @ replicate k (CHR ''/'')"] parse_segment_path_path [OF c assms] unfolding trim_right_slash by blast
next
  assume c: "CHR ''/'' \<in> set cid"
  show "\<exists>path. build_segment_url (url @ replicate k (CHR ''/'')) (segment_id_of cid idx b) = trim_right (CHR ''/'') url @ path
      \<and> parse_segment_path path = Inl (Malformed_path path)"
    using segment_url_refused [OF c, of "url @ replicate k (CHR ''/'')"] unfolding trim_right_slash by blast
next
  show "CHR ''/'' \<notin> set (content_name i)" using itoa_no_slash [of i] by (simp add: content_name_def)
qed

theorem emulated_reaches_segment_witness:
  "build_segment_url ''https://e:1//'' ''content-3/800/seg-7'' = ''https://e:1/segment/content-3/7/800''
    \<and> (\<exists>path. build_segment_url ''https://e:1//'' (segment_id_of ''content-3'' 7 800) = ''https://e:1'' @ path
      \<and> parse_segment_path path = Inr (''content-3'', 7, 800))"
proof
  show "build_segment_url ''https://e:1//'' ''content-3/800/seg-7'' = ''https://e:1/segment/content-3/7/800''" by code_simp
  have "trim_right (CHR ''/'') ''https://e:1'' = ''https://e:1''" by code_simp
  then show "\<exists>path. build_segment_url ''https://e:1//'' (segment_id_of ''content-3'' 7 800) = ''https://e:1'' @ path
      \<and> parse_segment_path path = Inr (''content-3'', 7, 800)"
    using emulated_reaches_segment [of 7 800 "''content-3''" "''https://e:1''" 2 0] by (simp add: int64_defs eval_nat_numeral)
qed

section \<open>Batches\<close>

lemma collect_all_cases:
  obtains (all) ys where "xs = map Inr ys" "collect_all i xs = Inr ys"
    | (failed) ys e zs where "xs = map Inr ys @ Inl e # zs" "collect_all i xs = Inl (i + length ys, e)"
proof -
  have "(\<exists>ys. xs = map Inr ys \<and> collect_all i xs = Inr ys)
      \<or> (\<exists>ys e zs. xs = map Inr ys @ Inl e # zs \<and> collect_all i xs = Inl (i + length ys, e))"
  proof (induction i xs rule: collect_all.induct)
    case (2 i e xs)
    show ?case by (intro disjI2 exI [of _ "[]"] exI [of _ e] exI [of _ xs]) simp
  next
    case (3 i x xs)
    then show ?case
    proof (elim disjE exE conjE)
      fix ys assume "xs = map Inr ys" "collect_all (Suc i) xs = Inr ys"
      then show ?thesis by (intro disjI1 exI [of _ "x # ys"]) simp
    next
      fix ys e zs assume "xs = map Inr ys @ Inl e # zs" "collect_all (Suc i) xs = Inl (Suc i + length ys, e)"
      then show ?thesis by (intro disjI2 exI [of _ "x # ys"] exI [of _ e] exI [of _ zs]) simp
    qed
  qed simp
  with all failed show ?thesis by blast
qed

lemma segment_of_answer_Inr: "(\<exists>r. segment_of_answer et req a = Inr r) \<longleftrightarrow> (\<exists>x. a = Inr x)"
  by (auto simp: segment_of_answer_def split: sum.splits)

text \<open>An emulated batch is all or nothing. When every request of a batch is answered, the responses come in the order of the
  requests, with their ids, the lengths read and the protocol's name, and with no first byte at time zero; as soon as one is
  not, the whole batch is an error that names the first request that failed, and no response is handed out.\<close>

lemma emulated_batch:
  assumes "net_get N (et_tls et) ctx (map (\<lambda>r. build_segment_url (et_url et) (req_id r)) reqs) n = (ans, n')"
  shows "((\<forall>i<length reqs. \<exists>a. ans i = Inr a) \<longrightarrow> (\<exists>resps. emu_fetch N et ctx reqs n = (Inr resps, n') \<and> length resps = length reqs
        \<and> (\<forall>i<length reqs. \<exists>a. ans i = Inr a \<and> segment_id (resps ! i) = req_id (reqs ! i) \<and> bytes_received (resps ! i) = na_bytes a
            \<and> total_latency (resps ! i) = na_total a \<and> protocol (resps ! i) = et_protocol et
            \<and> (ttfb (resps ! i) = 0 \<longrightarrow> na_total a = 0))))
    \<and> ((\<exists>i<length reqs. \<exists>e. ans i = Inl e) \<longrightarrow> (\<exists>i<length reqs. \<exists>e. ans i = Inl e \<and> (\<forall>k<i. \<exists>a. ans k = Inr a)
        \<and> emu_fetch N et ctx reqs n = (Inl (''emulated '' @ et_kind et @ '' concurrent (req '' @ itoa (int i) @ '' of ''
            @ itoa (int (length reqs)) @ ''): emulated '' @ et_kind et @ '' fetch ''
            @ build_segment_url (et_url et) (req_id (reqs ! i)) @ '': '' @ e), n')))"
proof -
  let ?xs = "map (\<lambda>i. segment_of_answer et (reqs ! i) (ans i)) [0..<length reqs]"
  have emu: "emu_fetch N et ctx reqs n = (case collect_all 0 ?xs of
      Inl (i, e) \<Rightarrow> (Inl (''emulated '' @ et_kind et @ '' concurrent (req '' @ itoa (int i) @ '' of '' @ itoa (int (length reqs)) @ ''): '' @ e), n')
    | Inr resps \<Rightarrow> (Inr resps, n'))" by (simp add: emu_fetch_def assms)
  have len: "length ?xs = length reqs" and at: "i < length reqs \<Longrightarrow> ?xs ! i = segment_of_answer et (reqs ! i) (ans i)" for i by simp_all
  show ?thesis
  proof (cases rule: collect_all_cases [of ?xs 0])
    case (all resps)
    have n: "length resps = length reqs" using len unfolding all(1) by simp
    have r: "segment_of_answer et (reqs ! i) (ans i) = Inr (resps ! i)" if "i < length reqs" for i
      using at [OF that] that n unfolding all(1) by simp
    have no: "\<exists>a. ans i = Inr a" if "i < length reqs" for i using r [OF that] segment_of_answer_Inr by metis
    have "\<exists>a. ans i = Inr a \<and> segment_id (resps ! i) = req_id (reqs ! i) \<and> bytes_received (resps ! i) = na_bytes a
            \<and> total_latency (resps ! i) = na_total a \<and> protocol (resps ! i) = et_protocol et
            \<and> (ttfb (resps ! i) = 0 \<longrightarrow> na_total a = 0)" if "i < length reqs" for i
    proof -
      from no [OF that] obtain a where a: "ans i = Inr a" by blast
      have "resps ! i = projr (segment_of_answer et (reqs ! i) (Inr a))" using r [OF that] by (simp add: a)
      with a show ?thesis by (simp add: segment_of_answer_def)
    qed
    with all(2) n no show ?thesis by (fastforce simp: emu)
  next
    case (failed ys e zs)
    let ?j = "length ys"
    have j: "?j < length reqs" using len unfolding failed(1) by simp
    then have "segment_of_answer et (reqs ! ?j) (ans ?j) = Inl e" using at [OF j] unfolding failed(1) by (simp add: nth_append)
    then obtain m where m: "ans ?j = Inl m"
      "e = ''emulated '' @ et_kind et @ '' fetch '' @ build_segment_url (et_url et) (req_id (reqs ! ?j)) @ '': '' @ m"
      by (auto simp: segment_of_answer_def split: sum.splits)
    have "\<exists>a. ans k = Inr a" if "k < ?j" for k
    proof -
      have "segment_of_answer et (reqs ! k) (ans k) = Inr (ys ! k)" using at [of k] that j unfolding failed(1) by (simp add: nth_append)
      then show ?thesis using segment_of_answer_Inr by metis
    qed
    with j m failed(2) show ?thesis by (auto simp: emu)
  qed
qed

section \<open>Sessions without an index out of range\<close>

text \<open>The player relies on a transport for two things when it puts a batch together: it does not panic, and an answer that is not an error has a
  response for every request. Then no session of a video with a size for each segment panics without a shield, whatever goes wrong.\<close>

locale counted_transport =
  fixes fetch :: "segment_request list \<Rightarrow> 's \<Rightarrow> (call_error + segment_response list) \<times> 's"
  assumes counted: "fst (fetch reqs s) = Inr resps \<Longrightarrow> length resps = length reqs"
    and calm: "fst (fetch reqs s) \<noteq> Inl Panic"

definition sized :: "session \<Rightarrow> bool" where
  "sized s \<longleftrightarrow> representations (s_manifest s) \<noteq> []
    \<and> (\<forall>rep\<in>set (representations (s_manifest s)). total_segments (s_manifest s) \<le> int (length (segment_sizes rep)))"

lemma shield_loop_length: "fst (shield_loop X ctx now rs x) = Inr hs \<Longrightarrow> length hs = length rs"
proof (induction rs arbitrary: x hs)
  case (Cons r rs)
  obtain v x1 where v: "X ctx r now x = (v, x1)" by fastforce
  obtain u x2 where u: "shield_loop X ctx now rs x1 = (u, x2)" by fastforce
  from Cons.prems obtain resp hit1 hs' where "v = Inr (resp, hit1)" "u = Inr hs'" "hs = hit1 # hs'"
    by (auto simp: v u split: sum.splits)
  with Cons.IH [of x1 hs'] u show ?case by simp
qed simp

lemma play_loop_error_rule:
  assumes init: "I w p"
    and ok: "\<And>w p. I w p \<Longrightarrow> p_index p < total_segments (s_manifest s) \<Longrightarrow> fst (play_batch A C T X ctx s w p) \<noteq> Some e"
    and step: "\<And>w p w1 p1. I w p \<Longrightarrow> p_index p < total_segments (s_manifest s) \<Longrightarrow>
      play_batch A C T X ctx s w p = (None, w1, p1) \<Longrightarrow> I w1 p1"
  shows "fst (play_loop A C T X ctx s w p) \<noteq> Some e"
  using init
proof (induction "nat (total_segments (s_manifest s) - p_index p)" arbitrary: w p rule: less_induct)
  case less
  show ?case
  proof (cases "p_index p < total_segments (s_manifest s)")
    case True
    obtain e' w1 p1 where b: "play_batch A C T X ctx s w p = (e', w1, p1)" by (cases "play_batch A C T X ctx s w p") auto
    show ?thesis
    proof (cases e')
      case None
      from less.hyps [OF play_batch_decreases [OF True b [unfolded None, symmetric]] step [OF less.prems True b [unfolded None]]]
      show ?thesis using True b None by (subst play_loop.simps) simp
    next
      case (Some x)
      with ok [OF less.prems True] b True show ?thesis by (subst play_loop.simps) simp
    qed
  next
    case False
    then show ?thesis by (subst play_loop.simps) simp
  qed
qed

lemma play_batch_failed:
  "fst (play_batch A C T X ctx s w p) = Some (Failed m) \<Longrightarrow>
    \<exists>now reqs c1. fst (fetch_misses C T X ctx now reqs (w\<lparr>w_cache := c1\<rparr>)) = Inl (Failed m)"
  by (auto simp: play_batch_def Let_def split: option.splits sum.splits prod.splits) (metis fst_conv)+

lemma fetch_misses_unshielded:
  "w_shield w = None \<Longrightarrow> w_shield (snd (fetch_misses C T X ctx now reqs w)) = None"
  by (simp add: fetch_misses_def split: sum.split prod.split)

lemma play_batch_unshielded:
  assumes "play_batch A C T X ctx s w p = (None, w1, p1)" "w_shield w = None"
  shows "w_shield w1 = None"
proof -
  from play_batch_Some [OF assms(1)] obtain rep slots c1 flags resps where
    "fetch_misses C T X ctx (wall_clock_to_time (wall p)) (miss_requests rep slots) (w\<lparr>w_cache := c1\<rparr>) = (Inr (flags, resps), w1)" by blast
  with fetch_misses_unshielded [of "w\<lparr>w_cache := c1\<rparr>" C T X ctx "wall_clock_to_time (wall p)" "miss_requests rep slots"] assms(2)
  show ?thesis by simp
qed

context counted_transport
begin

lemma fetch_misses_calm:
  assumes "t_fetch_concurrent T ctx = fetch" "w_shield w = None"
  shows "fst (fetch_misses C T X ctx now reqs w) \<noteq> Inl Panic"
proof -
  obtain u t where f: "fetch reqs (w_transport w) = (u, t)" by fastforce
  have "u \<noteq> Inl Panic" using calm [of reqs "w_transport w"] f by simp
  with f assms show ?thesis by (auto simp: fetch_misses_def wrap_error_def split: sum.split call_error.split)
qed

lemma fetch_misses_length:
  assumes "t_fetch_concurrent T ctx = fetch" "fst (fetch_misses C T X ctx now reqs w) = Inr (flags, resps)"
  shows "length flags = length reqs \<and> length resps = length reqs"
proof (cases "reqs = []")
  case False
  let ?shield = "case w_shield w of None \<Rightarrow> (Inr (replicate (length reqs) False), w)
     | Some x \<Rightarrow> (case shield_loop X ctx now reqs x of
         (Inl e, x') \<Rightarrow> (Inl (wrap_error ''shield fetch: '' e), w\<lparr>w_shield := Some x'\<rparr>)
       | (Inr hs, x') \<Rightarrow> (Inr hs, w\<lparr>w_shield := Some x'\<rparr>))"
  obtain v w1 where sh: "?shield = (v, w1)" by fastforce
  have hs: "length hs = length reqs" if "v = Inr hs" for hs
    using sh that shield_loop_length [of X ctx now reqs] by (auto split: option.splits sum.splits prod.splits) (metis fst_conv)
  obtain u t where f: "fetch reqs (w_transport w1) = (u, t)" by fastforce
  from assms(2) False obtain hs where v: "v = Inr hs" "u = Inr resps" "flags = hs"
    by (auto simp: fetch_misses_def sh f assms(1) split: sum.splits)
  with hs counted [of reqs "w_transport w1"] f show ?thesis by simp
qed (use assms in \<open>simp add: fetch_misses_def\<close>)

lemma batch_no_panic:
  assumes T: "t_fetch_concurrent T ctx = fetch" and s: "sized s" and p: "0 \<le> p_index p" "p_index p < total_segments (s_manifest s)"
    and w: "w_shield w = None"
  shows "fst (play_batch A C T X ctx s w p) \<noteq> Some Panic"
proof -
  obtain rep where rep: "representation_for_bitrate (s_manifest s) (d_bitrate (a_select A (view s p) (s_manifest s))) = Some rep"
    using s by (cases "representations (s_manifest s)") (auto simp: representation_for_bitrate_def sized_def)
  have "p_index p + int (nat (batch_size s p)) \<le> int (length (segment_sizes rep))"
    using batch_size_bounds [OF p(2)] s rep_in [OF rep] by (force simp: sized_def)
  from lookup_total [OF p(1) this] obtain slots c1 where
    lk: "lookup_batch C (s_content_id s) rep (wall_clock_to_time (wall p)) (p_index p) (nat (batch_size s p)) (w_cache w) = (Some slots, c1)" by blast
  have "\<exists>batch. assemble (t_protocol T) slots flags resps = Some batch"
    if f: "fetch_misses C T X ctx (wall_clock_to_time (wall p)) (miss_requests rep slots) (w\<lparr>w_cache := c1\<rparr>) = (Inr (flags, resps), w')"
    for flags resps w'
    using fetch_misses_length [OF T, of C X "wall_clock_to_time (wall p)" "miss_requests rep slots" "w\<lparr>w_cache := c1\<rparr>" flags resps]
    by (intro assemble_total) (simp_all add: f)
  moreover have "fetch_misses C T X ctx now reqs (w\<lparr>w_cache := c1\<rparr>) \<noteq> (Inl Panic, w')" for now reqs w'
    using fetch_misses_calm [OF T, of "w\<lparr>w_cache := c1\<rparr>" C X now reqs] w by auto
  ultimately show ?thesis using rep lk by (auto simp: play_batch_def Let_def split: option.splits sum.splits prod.splits)
qed

lemma loop_no_panic:
  fixes C :: "'c cache_ops" and X :: "'x shield_op"
  assumes T: "t_fetch_concurrent T ctx = fetch" and s: "sized s" and p: "0 \<le> p_index p" and w: "w_shield w = None"
  shows "fst (play_loop A C T X ctx s w p) \<noteq> Some Panic"
proof (rule play_loop_error_rule [where I = "\<lambda>w p. 0 \<le> p_index p \<and> w_shield w = None"])
  fix w :: "('c, 's, 'x) world" and p :: play assume "0 \<le> p_index p \<and> w_shield w = None" "p_index p < total_segments (s_manifest s)"
  then show "fst (play_batch A C T X ctx s w p) \<noteq> Some Panic" using batch_no_panic [OF T s] by blast
next
  fix w :: "('c, 's, 'x) world" and p :: play and w1 p1 assume "0 \<le> p_index p \<and> w_shield w = None" "p_index p < total_segments (s_manifest s)"
    "play_batch A C T X ctx s w p = (None, w1, p1)"
  then show "0 \<le> p_index p1 \<and> w_shield w1 = None"
    using play_batch_progress [of A C T X ctx s w p w1 p1] batch_size_pos [of p s] play_batch_unshielded [of A C T X ctx s w p w1 p1] by fastforce
qed (use p w in simp)

lemma session_no_panic:
  assumes "t_fetch_concurrent T ctx = fetch" "sized s" "w_shield w = None"
  shows "fst (snd (run_playback A C T X ctx s w)) \<noteq> Some Panic"
proof -
  have s: "sized (defaulted s)" using assms(2) by (simp add: sized_def)
  have "fst (play_loop A C T X ctx (defaulted s) (w\<lparr>w_transport := t\<rparr>) (initial_play hs r)) \<noteq> Some Panic" for t hs r
    by (rule loop_no_panic [OF assms(1) s]) (simp_all add: initial_play_def assms(3))
  then have np: "play_loop A C T X ctx (defaulted s) (w\<lparr>w_transport := t\<rparr>) (initial_play hs r) \<noteq> (Some Panic, w', p')" for t hs r w' p'
    by (metis fst_conv)
  show ?thesis by (auto simp: run_playback_def np Let_def split: sum.splits prod.splits option.splits)
qed

text \<open>Without a shield, the only errors are those of the transport.\<close>

lemma loop_no_failure:
  fixes C :: "'c cache_ops" and X :: "'x shield_op"
  assumes T: "t_fetch_concurrent T ctx = fetch" and up: "\<forall>reqs t. \<exists>r. fst (fetch reqs t) = Inr r" and w: "w_shield w = None"
  shows "fst (play_loop A C T X ctx s w p) \<noteq> Some (Failed m)"
proof (rule play_loop_error_rule [where I = "\<lambda>w p. w_shield w = None"])
  have m: "\<exists>flags resps w'. fetch_misses C T X ctx now reqs w = (Inr (flags, resps), w') \<and> w_shield w' = None"
    if "w_shield w = None" for now reqs and w :: "('c, 's, 'x) world"
  proof -
    obtain r t where "fetch reqs (w_transport w) = (Inr r, t)" using up by (metis prod.collapse)
    with that show ?thesis by (simp add: fetch_misses_def T)
  qed
  fix w :: "('c, 's, 'x) world" and p assume w: "w_shield w = None"
  have "fst (fetch_misses C T X ctx now reqs (w\<lparr>w_cache := c1\<rparr>)) \<noteq> Inl (Failed m)" for c1 now reqs
    using m [of "w\<lparr>w_cache := c1\<rparr>" now reqs] w by auto
  then show "fst (play_batch A C T X ctx s w p) \<noteq> Some (Failed m)" using play_batch_failed by blast
  fix w1 p1 assume "play_batch A C T X ctx s w p = (None, w1, p1)"
  then obtain c1 now reqs fr where "fetch_misses C T X ctx now reqs (w\<lparr>w_cache := c1\<rparr>) = (Inr fr, w1)"
    using play_batch_Some [of A C T X ctx s w p w1 p1] by blast
  with m [of "w\<lparr>w_cache := c1\<rparr>" now reqs] w show "w_shield w1 = None" by auto
qed (rule w)

lemma session_succeeds:
  assumes T: "t_fetch_concurrent T ctx = fetch" "\<forall>reqs t. \<exists>r. fst (fetch reqs t) = Inr r"
    and h: "\<forall>b t. \<exists>d. fst (t_handshake T ctx b t) = Inr d" and s: "sized s" "w_shield w = None"
  shows "fst (snd (run_playback A C T X ctx s w)) = None"
proof -
  obtain hs t where t: "t_handshake T ctx False (w_transport w) = (Inr hs, t)" using h by (metis prod.collapse)
  let ?p = "initial_play hs (initial_result (defaulted s) (t_protocol T) (a_name A))"
  have "fst (play_loop A C T X ctx (defaulted s) (w\<lparr>w_transport := t\<rparr>) ?p) \<noteq> Some (Failed m)" for m
    by (rule loop_no_failure [OF T]) (simp add: s(2))
  moreover have "fst (play_loop A C T X ctx (defaulted s) (w\<lparr>w_transport := t\<rparr>) ?p) \<noteq> Some Panic"
    by (rule loop_no_panic [OF T(1)]) (use s in \<open>simp_all add: sized_def initial_play_def\<close>)
  ultimately have "fst (play_loop A C T X ctx (defaulted s) (w\<lparr>w_transport := t\<rparr>) ?p) = None"
    by (metis option.exhaust call_error.exhaust)
  then show ?thesis by (auto simp: run_playback_def t Let_def split: prod.splits option.splits)
qed

end

lemma emu_fetch_counted: "fst (emu_fetch N et ctx reqs n) = Inr resps \<Longrightarrow> length resps = length reqs"
proof -
  assume a: "fst (emu_fetch N et ctx reqs n) = Inr resps"
  let ?as = "fst (net_get N (et_tls et) ctx (map (\<lambda>r. build_segment_url (et_url et) (req_id r)) reqs) n)"
  let ?xs = "map (\<lambda>i. segment_of_answer et (reqs ! i) (?as i)) [0..<length reqs]"
  show ?thesis
  proof (cases rule: collect_all_cases [of ?xs 0])
    case (all ys)
    with a have "ys = resps" by (simp add: emu_fetch_def case_prod_unfold)
    with arg_cong [OF all(1), of length] show ?thesis by simp
  next
    case (failed ys e zs)
    with a show ?thesis by (simp add: emu_fetch_def case_prod_unfold)
  qed
qed

interpretation emulated: counted_transport "\<lambda>reqs n. map_prod (map_sum Failed id) id (emu_fetch N et ctx reqs n)" for N et ctx
proof
  fix reqs :: "segment_request list" and n :: 'a
  show "fst (map_prod (map_sum Failed id) id (emu_fetch N et ctx reqs n)) = Inr resps \<Longrightarrow> length resps = length reqs" for resps
    using emu_fetch_counted [of N et ctx reqs n resps] by (cases "fst (emu_fetch N et ctx reqs n)") simp_all
  show "fst (map_prod (map_sum Failed id) id (emu_fetch N et ctx reqs n)) \<noteq> Inl Panic"
    by (cases "fst (emu_fetch N et ctx reqs n)") simp_all
qed

section \<open>Emulated runs\<close>

lemma content_sized: "sized \<lparr>s_manifest = content_manifest E cc idx, s_content_id = cid, s_config = pc\<rparr>"
proof -
  obtain fs g' where "draw_factors (e_math E) (e_rand E) (nat (num_segments (duration_seconds cc * second) (segment_seconds cc * second)))
      (e_source E (word_of_int ((idx + 1) * 9973))) = (fs, g')" by fastforce
  moreover from this draw_factors_clamped [of "e_math E" "e_rand E" "nat (num_segments (duration_seconds cc * second) (segment_seconds cc * second))"
      "e_source E (word_of_int ((idx + 1) * 9973))"]
  have "length fs = nat (num_segments (duration_seconds cc * second) (segment_seconds cc * second))" by simp
  ultimately show ?thesis
    by (auto simp: sized_def content_manifest_def generate_manifest_def with_sizes_def default_representations_def)
qed

lemma play_emulated_result:
  "fst (snd (play_emulated E N cfg et ctx idx n)) \<noteq> Some Panic"
  "play_emulated E N cfg et ctx idx n = (pr, None, n') \<Longrightarrow> label pr = (content_name idx, et_protocol et, a_name (build_abr (ex_abr cfg)))"
proof -
  let ?s = "\<lparr>s_manifest = content_manifest E (ex_content cfg) idx, s_content_id = content_name idx,
        s_config = run_playback_config (ex_playback cfg)\<rparr>"
  have T: "t_fetch_concurrent (emu_ops N et) ctx = (\<lambda>reqs n. map_prod (map_sum Failed id) id (emu_fetch N et ctx reqs n))" by (simp add: emu_ops_def)
  show "fst (snd (play_emulated E N cfg et ctx idx n)) \<noteq> Some Panic"
    unfolding play_emulated_def case_prod_unfold fst_conv snd_conv by (rule emulated.session_no_panic [OF T content_sized]) simp
  assume "play_emulated E N cfg et ctx idx n = (pr, None, n')"
  then obtain w where "run_playback (build_abr (ex_abr cfg)) lru_ops (emu_ops N et) (shield_fetch lru_ops (emu_ops N et) (e_clock E)) ctx ?s
      \<lparr>w_cache = None, w_transport = n, w_shield = None\<rparr> = (pr, None, w)"
    by (auto simp: play_emulated_def split: prod.splits)
  from label_playback [OF this] show "label pr = (content_name idx, et_protocol et, a_name (build_abr (ex_abr cfg)))"
    by (simp add: emu_ops_def)
qed

text \<open>A network that answers everything.\<close>

definition network_up :: "('p, 'n) network \<Rightarrow> bool" where
  "network_up N \<longleftrightarrow> (\<forall>c ctx urls n i. \<exists>a. fst (net_get N c ctx urls n) i = Inr a) \<and> (\<forall>c ctx url n. \<exists>d. fst (net_head N c ctx url n) = Inr d)"

lemma emu_fetch_up: "network_up N \<Longrightarrow> \<exists>r. fst (emu_fetch N et ctx reqs n) = Inr r"
proof -
  assume up: "network_up N"
  let ?as = "fst (net_get N (et_tls et) ctx (map (\<lambda>r. build_segment_url (et_url et) (req_id r)) reqs) n)"
  let ?xs = "map (\<lambda>i. segment_of_answer et (reqs ! i) (?as i)) [0..<length reqs]"
  have at: "\<exists>r. x = Inr r" if "x \<in> set ?xs" for x
    using that up segment_of_answer_Inr unfolding network_up_def by (metis (no_types, lifting) imageE set_map)
  show ?thesis
  proof (cases rule: collect_all_cases [of ?xs 0])
    case (all ys)
    then show ?thesis by (simp add: emu_fetch_def case_prod_unfold)
  next
    case (failed ys e zs)
    then have "Inl e \<in> set ?xs" unfolding failed(1) by simp
    then have "\<exists>r. (Inl e :: string + segment_response) = Inr r" by (rule at)
    then show ?thesis by blast
  qed
qed

lemma play_emulated_up: "network_up N \<Longrightarrow> fst (snd (play_emulated E N cfg et ctx idx n)) = None"
proof -
  assume up: "network_up N"
  have hs: "\<exists>d. fst (emu_handshake N et ctx b t) = Inr d" for b t
  proof -
    obtain d n' where "net_head N (et_tls et) ctx (trim_right (CHR ''/'') (et_url et) @ ''/healthz'') t = (Inr d, n')"
      using up unfolding network_up_def by (metis prod.collapse)
    then show ?thesis by (simp add: emu_handshake_def Let_def)
  qed
  have fetch: "\<exists>r. map_sum Failed id (fst (emu_fetch N et ctx reqs t)) = Inr r" for reqs t
    using emu_fetch_up [OF up, of et ctx reqs t] by auto
  from hs show ?thesis unfolding play_emulated_def case_prod_unfold fst_conv snd_conv
    by (intro emulated.session_succeeds [where N = N and et = et and ctx = ctx]) (simp_all add: emu_ops_def content_sized, use fetch in blast)
qed

definition known :: "string \<Rightarrow> bool" where
  "known proto \<longleftrightarrow> proto = ''tcp-h2'' \<or> proto = ''quic-h3''"

lemma build_emulated_known:
  "build_emulated_transport N proto edge tls = Inr (et, closer) \<Longrightarrow> known proto \<and> et_protocol et = proto"
  "build_emulated_transport N proto edge tls = Inl p \<Longrightarrow> \<not> known proto \<and> p = proto"
  by (auto simp: build_emulated_transport_def Let_def known_def new_emulated_quic_def new_emulated_tcp_def split: if_splits)

definition emu_error_ok :: "string \<Rightarrow> run_error \<Rightarrow> bool" where
  "emu_error_ok proto e \<longleftrightarrow> (\<exists>m. e = Route_failed m) \<or> (\<exists>m. e = Play_failed (Failed m)) \<or> e = Unsupported_protocol proto \<and> \<not> known proto"

lemma run_emu_client_result:
  assumes "run_emu_client E N cfg tls em proto base ctx i client s = (e, s')"
  shows "(\<forall>err. e = Some err \<longrightarrow> emu_error_ok proto err)
    \<and> (e = None \<longrightarrow> known proto \<and> (\<exists>edge idx pop r. fst (build_policy E (ex_clients cfg) client (es_edges s)
          (e_source E (base + seed_offset (client_id client)))) = Inr edge \<and> next_index E (es_pop s) = (idx, pop)
        \<and> es_edges s' = add_load (edge_id edge) (es_edges s) \<and> es_pop s' = pop \<and> es_results s' = es_results s @ [r]
        \<and> label r = (content_name idx, proto, a_name (build_abr (ex_abr cfg)))))"
proof (cases "fst (build_policy E (ex_clients cfg) client (es_edges s) (e_source E (base + seed_offset (client_id client))))")
  case (Inl m)
  with assms have "e = Some (Route_failed m)" by (simp add: run_emu_client_def)
  then show ?thesis by (simp add: emu_error_ok_def)
next
  case (Inr edge)
  obtain idx pop where pop: "next_index E (es_pop s) = (idx, pop)" by fastforce
  show ?thesis
  proof (cases "build_emulated_transport N proto (em_edges em ! (i mod length (em_edges em))) tls")
    case (Inl p)
    with assms Inr pop build_emulated_known(2) [OF Inl] show ?thesis by (auto simp: run_emu_client_def emu_error_ok_def)
  next
    case x: (Inr x)
    then obtain et closer where et: "build_emulated_transport N proto (em_edges em ! (i mod length (em_edges em))) tls = Inr (et, closer)"
      by (cases x) auto
    obtain pr err n where p: "play_emulated E N cfg et ctx idx (es_net s) = (pr, err, n)" by (cases "play_emulated E N cfg et ctx idx (es_net s)") auto
    note res = play_emulated_result [of E N cfg et ctx idx "es_net s", unfolded p]
    show ?thesis
    proof (cases err)
      case None
      with res(2) have "label pr = (content_name idx, proto, a_name (build_abr (ex_abr cfg)))"
        using build_emulated_known(1) [OF et] by simp
      with assms Inr et p None pop build_emulated_known(1) [OF et] show ?thesis
        by (auto simp: run_emu_client_def collector_add_def)
    next
      case (Some x)
      then have "x \<noteq> Panic" using res(1) by simp
      then obtain m where "x = Failed m" by (cases x) simp_all
      with assms Inr et p Some pop show ?thesis by (auto simp: run_emu_client_def emu_error_ok_def)
    qed
  qed
qed

lemma run_emu_clients_result:
  "run_emu_clients E N cfg tls em proto base ctx i cs s = (e, s') \<Longrightarrow> (\<forall>err. e = Some err \<longrightarrow> emu_error_ok proto err)
    \<and> (e = None \<longrightarrow> (cs = [] \<or> known proto) \<and> (\<exists>xs es rs. plan E cfg base cs (es_edges s) (es_pop s) = Inr (xs, es)
        \<and> es_results s' = es_results s @ rs \<and> map label rs = planned cfg proto xs))"
proof (induction cs arbitrary: i s)
  case (Cons c cs)
  obtain e1 s1 where c: "run_emu_client E N cfg tls em proto base ctx i c s = (e1, s1)" by fastforce
  note res = run_emu_client_result [OF c]
  show ?case
  proof (cases e1)
    case None
    with c Cons.prems have "run_emu_clients E N cfg tls em proto base ctx (Suc i) cs s1 = (e, s')" by simp
    note ih = Cons.IH [OF this]
    from None res obtain edge idx pop r where k: "known proto"
      and edge: "fst (build_policy E (ex_clients cfg) c (es_edges s) (e_source E (base + seed_offset (client_id c)))) = Inr edge"
      and pop: "next_index E (es_pop s) = (idx, pop)"
      and s1: "es_edges s1 = add_load (edge_id edge) (es_edges s)" "es_pop s1 = pop" "es_results s1 = es_results s @ [r]"
      and r: "label r = (content_name idx, proto, a_name (build_abr (ex_abr cfg)))" by blast
    have "\<exists>xs es rs. plan E cfg base (c # cs) (es_edges s) (es_pop s) = Inr (xs, es)
        \<and> es_results s' = es_results s @ rs \<and> map label rs = planned cfg proto xs" if "e = None"
    proof -
      from ih that obtain xs es rs where "plan E cfg base cs (es_edges s1) (es_pop s1) = Inr (xs, es)"
        "es_results s' = es_results s1 @ rs" "map label rs = planned cfg proto xs" by blast
      then show ?thesis
        by (intro exI [of _ "(client_id c, edge_id edge, idx) # xs"] exI [of _ es] exI [of _ "r # rs"])
          (simp add: edge pop s1 r planned_def)
    qed
    with ih k show ?thesis by blast
  next
    case (Some err)
    with c Cons.prems res show ?thesis by auto
  qed
qed (simp add: planned_def)

lemma run_emu_clients_up:
  "network_up N \<Longrightarrow> known proto \<Longrightarrow> plan E cfg base cs (es_edges s) (es_pop s) = Inr x \<Longrightarrow>
    fst (run_emu_clients E N cfg tls em proto base ctx i cs s) = None"
proof (induction cs arbitrary: i s x)
  case (Cons c cs)
  obtain edge where edge: "fst (build_policy E (ex_clients cfg) c (es_edges s) (e_source E (base + seed_offset (client_id c)))) = Inr edge"
    using Cons.prems(3) by (auto split: sum.splits)
  obtain idx pop where pop: "next_index E (es_pop s) = (idx, pop)" by fastforce
  obtain y where y: "plan E cfg base cs (add_load (edge_id edge) (es_edges s)) pop = Inr y"
    using Cons.prems(3) by (auto simp: edge pop split: sum.splits)
  obtain et closer where et: "build_emulated_transport N proto (em_edges em ! (i mod length (em_edges em))) tls = Inr (et, closer)"
    using Cons.prems(2) by (auto simp: build_emulated_transport_def Let_def known_def)
  obtain pr n where p: "play_emulated E N cfg et ctx idx (es_net s) = (pr, None, n)"
    using play_emulated_up [OF Cons.prems(1)] by (metis prod.collapse)
  obtain s1 where s1: "run_emu_client E N cfg tls em proto base ctx i c s = (None, s1)"
    "es_edges s1 = add_load (edge_id edge) (es_edges s)" "es_pop s1 = pop"
    by (simp add: run_emu_client_def edge pop et p)
  with Cons.IH [OF Cons.prems(1,2), of s1 y "Suc i"] y show ?case by simp
qed simp

text \<open>The contents a run plays, in order, are those of a modeled run: of the same configuration for TCP, with another seed for QUIC.\<close>

definition salted :: "experiment_config \<Rightarrow> string \<Rightarrow> experiment_config" where
  "salted cfg proto = (if proto = ''quic-h3'' then cfg\<lparr>ex_seed := ex_seed cfg + 2 ^ 32\<rparr> else cfg)"

lemma plan_seed: "plan E (cfg\<lparr>ex_seed := w\<rparr>) base cs edges pop = plan E cfg base cs edges pop"
  by (induction cs arbitrary: edges pop) (auto split: sum.splits prod.splits)

lemma run_plan_salted:
  "run_plan E (salted cfg proto) i = plan E cfg (emu_base_seed cfg proto i)
      (sort_key client_id (fst (build_clients (e_rand E) (ex_clients cfg) (e_source E (emu_base_seed cfg proto i)))))
      (tc_edges (ex_topology cfg)) (new_zipf_popularity (catalog_size (ex_content cfg)) (zipf_alpha (ex_content cfg))
        (e_source E (emu_base_seed cfg proto i + 31)))"
proof -
  have base: "base_seed (salted cfg proto) i = emu_base_seed cfg proto i"
    by (simp add: base_seed_def salted_def emu_base_seed_def)
  show ?thesis unfolding run_plan_def run_population_def base by (simp add: salted_def plan_seed)
qed

lemma emu_run_plan:
  assumes "run_one_emulated E N cfg tls em ctx proto i results n = (e, c, n')"
  shows "(\<forall>err. e = Some err \<longrightarrow> emu_error_ok proto err) \<and> (e = None \<longrightarrow> (cc_count (ex_clients cfg) \<le> 0 \<or> known proto)
    \<and> (\<exists>xs es rs. run_plan E (salted cfg proto) i = Inr (xs, es) \<and> c = results @ rs \<and> map label rs = planned cfg proto xs
        \<and> length rs = nat (cc_count (ex_clients cfg))))
    \<and> (network_up N \<and> known proto \<and> (\<exists>x. run_plan E (salted cfg proto) i = Inr x) \<longrightarrow> e = None)"
proof -
  let ?base = "emu_base_seed cfg proto i"
  let ?cs = "sort_key client_id (fst (build_clients (e_rand E) (ex_clients cfg) (e_source E ?base)))"
  let ?s = "\<lparr>es_edges = tc_edges (ex_topology cfg), es_pop = new_zipf_popularity (catalog_size (ex_content cfg)) (zipf_alpha (ex_content cfg))
      (e_source E (?base + 31)), es_results = results, es_net = n, es_closers = []\<rparr>"
  obtain s' where s': "run_emu_clients E N cfg tls em proto ?base ctx 0 ?cs ?s = (e, s')" "c = es_results s'"
    using assms by (auto simp: run_one_emulated_def Let_def split: prod.splits)
  note res = run_emu_clients_result [OF s'(1)]
  have up: "e = None" if "network_up N" "known proto" "run_plan E (salted cfg proto) i = Inr x" for x
    using run_emu_clients_up [OF that(1,2), of E cfg ?base ?cs ?s x tls em ctx 0] that(3) s'(1) by (simp add: run_plan_salted)
  have len: "length ?cs = nat (cc_count (ex_clients cfg))" by (simp add: build_clients_def)
  have "(cc_count (ex_clients cfg) \<le> 0 \<or> known proto)
    \<and> (\<exists>xs es rs. run_plan E (salted cfg proto) i = Inr (xs, es) \<and> c = results @ rs \<and> map label rs = planned cfg proto xs
        \<and> length rs = nat (cc_count (ex_clients cfg)))" if "e = None"
  proof
    from res that have "?cs = [] \<or> known proto" by blast
    with len show "cc_count (ex_clients cfg) \<le> 0 \<or> known proto" by (metis list.size(3) nat_0_iff)
    from res that obtain xs es rs where x: "plan E cfg ?base ?cs (es_edges ?s) (es_pop ?s) = Inr (xs, es)" "c = results @ rs"
      "map label rs = planned cfg proto xs" by (auto simp: s'(2))
    have "length xs = length ?cs" using arg_cong [OF plan_length [OF x(1)], of length] by simp
    moreover have "length rs = length xs" using arg_cong [OF x(3), of length] by (simp add: planned_def)
    ultimately show "\<exists>xs es rs. run_plan E (salted cfg proto) i = Inr (xs, es) \<and> c = results @ rs
        \<and> map label rs = planned cfg proto xs \<and> length rs = nat (cc_count (ex_clients cfg))"
      using x len unfolding run_plan_salted by (intro exI [of _ xs] exI [of _ es] exI [of _ rs]) simp
  qed
  with res up show ?thesis by blast
qed

text \<open>C19: How an emulated run ends. Whatever the network does, a run ends in one of four ways: the policy refuses a client, a
  session ends with an error of its transport, the protocol has no emulated transport, or every client has played its session
  and the results are extended by exactly one session per client, under the protocol asked for. No session panics. And when
  the network answers everything, the protocol is one of the two and the policy has an edge for every client, the run succeeds.\<close>

theorem emulated_run_ends:
  assumes "run_one_emulated E N cfg tls em ctx proto i results n = (e, c, n')"
  shows "((\<exists>m. e = Some (Route_failed m)) \<or> (\<exists>m. e = Some (Play_failed (Failed m)))
      \<or> (e = Some (Unsupported_protocol proto) \<and> proto \<notin> {''tcp-h2'', ''quic-h3''})
      \<or> (e = None \<and> (cc_count (ex_clients cfg) \<le> 0 \<or> proto \<in> {''tcp-h2'', ''quic-h3''})
          \<and> (\<exists>rs. c = results @ rs \<and> length rs = nat (cc_count (ex_clients cfg)) \<and> (\<forall>r\<in>set rs. pr_protocol r = proto))))
    \<and> (network_up N \<and> proto \<in> {''tcp-h2'', ''quic-h3''} \<and> (\<exists>x. run_plan E (salted cfg proto) i = Inr x) \<longrightarrow> e = None)"
proof
  note res = emu_run_plan [OF assms]
  show "(\<exists>m. e = Some (Route_failed m)) \<or> (\<exists>m. e = Some (Play_failed (Failed m)))
      \<or> (e = Some (Unsupported_protocol proto) \<and> proto \<notin> {''tcp-h2'', ''quic-h3''})
      \<or> (e = None \<and> (cc_count (ex_clients cfg) \<le> 0 \<or> proto \<in> {''tcp-h2'', ''quic-h3''})
          \<and> (\<exists>rs. c = results @ rs \<and> length rs = nat (cc_count (ex_clients cfg)) \<and> (\<forall>r\<in>set rs. pr_protocol r = proto)))"
  proof (cases e)
    case None
    with res obtain xs rs where "c = results @ rs" "map label rs = planned cfg proto xs"
      "length rs = nat (cc_count (ex_clients cfg))" and k: "cc_count (ex_clients cfg) \<le> 0 \<or> known proto" by blast
    moreover from this have "\<forall>r\<in>set rs. pr_protocol r = proto"
      using labels_protocol [of rs cfg proto xs] by (metis in_set_replicate list.set_map imageI)
    ultimately show ?thesis using None by (auto simp: known_def)
  next
    case (Some err)
    with res have "emu_error_ok proto err" by blast
    with Some show ?thesis by (auto simp: emu_error_ok_def known_def)
  qed
  show "network_up N \<and> proto \<in> {''tcp-h2'', ''quic-h3''} \<and> (\<exists>x. run_plan E (salted cfg proto) i = Inr x) \<longrightarrow> e = None"
    using res by (auto simp: known_def)
qed

text \<open>C17: Emulated and modeled runs are comparable for TCP only. A successful emulated TCP run plays the same contents in the same
  order as any successful modeled run of the same configuration and index; a successful emulated QUIC run plays what a modeled
  run plays whose seed is higher by \<open>2 ^ 32\<close>, so its sessions are not paired with the TCP sessions it is compared with, nor
  with the modeled QUIC sessions it is meant to validate.\<close>

theorem emulated_matches_modeled:
  assumes "run_one_emulated E N cfg tls em ctx proto i results n = (None, results @ rs, n')" "proto \<in> {''tcp-h2'', ''quic-h3''}"
    and "run_one E (if proto = ''tcp-h2'' then cfg else cfg\<lparr>ex_seed := ex_seed cfg + 2 ^ 32\<rparr>) ctx' proto' i results' = (None, results' @ rs', es)"
  shows "map pr_content_id rs = map pr_content_id rs'"
proof -
  have salt: "(if proto = ''tcp-h2'' then cfg else cfg\<lparr>ex_seed := ex_seed cfg + 2 ^ 32\<rparr>) = salted cfg proto"
    using assms(2) by (auto simp: salted_def)
  obtain xs es1 rs1 where x: "run_plan E (salted cfg proto) i = Inr (xs, es1)" "results @ rs = results @ rs1" "map label rs1 = planned cfg proto xs"
    using emu_run_plan [OF assms(1)] by blast
  obtain ys rs2 where y: "run_plan E (salted cfg proto) i = Inr (ys, es)" "results' @ rs' = results' @ rs2"
    "map label rs2 = planned (salted cfg proto) (effective proto') ys"
    using run_one_plan [OF assms(3) [unfolded salt]] by blast
  have "ys = xs" using x(1) y(1) by simp
  then show ?thesis using planned_contents [OF x(3)] planned_contents [OF y(3)] x(2) y(2) by simp
qed

section \<open>An example\<close>

text \<open>A network that answers every request with a thousand bytes after a millisecond.\<close>

definition demo_net :: "(unit, unit) network" where
  "demo_net = \<lparr>net_get = (\<lambda>c ctx urls n. (\<lambda>i. Inr \<lparr>na_bytes = 1000, na_ttfb = 0, na_total = millisecond, na_cpu = 0\<rparr>, n)),
     net_head = (\<lambda>c ctx url n. (Inr millisecond, n)), net_close = (\<lambda>c url n. (None, n))\<rparr>"

definition demo_tls :: "unit tls_config" where
  "demo_tls = \<lparr>tls_min_version = tls13, tls_roots = None, tls_insecure = True, tls_protos = []\<rparr>"

definition demo_emulated :: emulated_config where
  "demo_emulated = \<lparr>em_edges = [\<lparr>em_id = ''e'', h2_url = ''https://e:8443'', h3_url = ''https://e:8444''\<rparr>], ca_cert_path = [],
     netem_profile = [], insecure_tls = True\<rparr>"

lemma demo_net_up: "network_up demo_net"
  by (simp add: network_up_def demo_net_def)

lemma demo_plan: "\<exists>x. run_plan demo_env demo_config i = Inr x"
  using demo_run_one [of "''tcp-h2''" i "[]"] run_one_plan by blast

lemma demo_emulated_run: "\<exists>e c n'. run_one_emulated demo_env demo_net demo_config demo_tls demo_emulated None ''tcp-h2'' 0 [] () = (e, c, n')"
  by (cases "run_one_emulated demo_env demo_net demo_config demo_tls demo_emulated None ''tcp-h2'' 0 [] ()") auto

theorem emulated_run_ends_witness:
  "fst (run_one_emulated demo_env demo_net demo_config demo_tls demo_emulated None ''tcp-h2'' 0 [] ()) = None"
proof -
  obtain e c n' where r: "run_one_emulated demo_env demo_net demo_config demo_tls demo_emulated None ''tcp-h2'' 0 [] () = (e, c, n')"
    using demo_emulated_run by blast
  have "\<exists>x. run_plan demo_env (salted demo_config ''tcp-h2'') 0 = Inr x" using demo_plan by (simp add: salted_def)
  with emulated_run_ends [OF r] demo_net_up r show ?thesis by simp
qed

theorem emulated_matches_modeled_witness:
  "\<exists>rs rs' n' es. run_one_emulated demo_env demo_net demo_config demo_tls demo_emulated None ''tcp-h2'' 0 [] () = (None, rs, n')
    \<and> run_one demo_env demo_config None ''quic-h3'' 0 [] = (None, rs', es) \<and> map pr_content_id rs = map pr_content_id rs'"
proof -
  obtain e c n' where r: "run_one_emulated demo_env demo_net demo_config demo_tls demo_emulated None ''tcp-h2'' 0 [] () = (e, c, n')"
    using demo_emulated_run by blast
  have "\<exists>x. run_plan demo_env (salted demo_config ''tcp-h2'') 0 = Inr x" using demo_plan by (simp add: salted_def)
  with emu_run_plan [OF r] demo_net_up have "e = None" by (simp add: known_def)
  with r have r1: "run_one_emulated demo_env demo_net demo_config demo_tls demo_emulated None ''tcp-h2'' 0 [] () = (None, [] @ c, n')" by simp
  obtain c2 es where "run_one demo_env demo_config None ''quic-h3'' 0 [] = (None, c2, es)" using demo_run_one by blast
  then have r2: "run_one demo_env (if ''tcp-h2'' = ''tcp-h2'' then demo_config else demo_config\<lparr>ex_seed := ex_seed demo_config + 2 ^ 32\<rparr>) None
      ''quic-h3'' 0 [] = (None, [] @ c2, es)" by simp
  from emulated_matches_modeled [OF r1 _ r2] r1 r2 show ?thesis by auto
qed

end
