(* ===== verification/Sockets.thy ===== *)
theory Sockets
  imports Emulated
begin

text \<open>
  What an emulated run does with the sockets of its transports (\<open>internal/experiment/emulated.go\<close>, \<open>runOneEmulated\<close> and its deferred
  loop): a network that keeps a log of everything it is asked for, and the order of requests and closings in it when a run has come to its end.
\<close>

section \<open>A network with a log\<close>

datatype net_event = is_head: Headed string | Fetched "string list" | is_close: Closed string

definition logged :: "('p, 'n) network \<Rightarrow> ('p, 'n \<times> net_event list) network" where
  "logged N = \<lparr>net_get = (\<lambda>c ctx urls (n, l). case net_get N c ctx urls n of (a, n1) \<Rightarrow> (a, n1, l @ [Fetched urls])),
     net_head = (\<lambda>c ctx url (n, l). case net_head N c ctx url n of (d, n1) \<Rightarrow> (d, n1, l @ [Headed url])),
     net_close = (\<lambda>c url (n, l). case net_close N c url n of (e, n1) \<Rightarrow> (e, n1, l @ [Closed url]))\<rparr>"

text \<open>The address a session of client \<open>i\<close> goes to.\<close>

definition session_url :: "emulated_config \<Rightarrow> string \<Rightarrow> nat \<Rightarrow> string" where
  "session_url em proto i = (let edge = em_edges em ! (i mod length (em_edges em)) in if proto = ''quic-h3'' then h3_url edge else h2_url edge)"

definition health_url :: "string \<Rightarrow> string" where
  "health_url url = trim_right (CHR ''/'') url @ ''/healthz''"

text \<open>Sessions only go through the transport they are given.\<close>

lemma fetch_misses_transport:
  assumes "\<And>reqs t. P t \<Longrightarrow> P (snd (t_fetch_concurrent T ctx reqs t))" "P (w_transport w)"
  shows "P (w_transport (snd (fetch_misses C T X ctx now reqs w)))"
  using assms(2) assms(1) [of "w_transport w" reqs]
  by (auto simp: fetch_misses_def Let_def split: option.splits sum.splits prod.splits)

lemma play_batch_transport:
  assumes "\<And>reqs t. P t \<Longrightarrow> P (snd (t_fetch_concurrent T ctx reqs t))" "P (w_transport w)"
  shows "P (w_transport (fst (snd (play_batch A C T X ctx s w p))))"
proof -
  have "P (w_transport (snd (fetch_misses C T X ctx now reqs (w\<lparr>w_cache := c\<rparr>))))" for now reqs c
    by (rule fetch_misses_transport [where P = P, OF assms(1)]) (simp_all add: assms(2))
  then have f: "fetch_misses C T X ctx now reqs (w\<lparr>w_cache := c\<rparr>) = (v, w2) \<Longrightarrow> P (w_transport w2)" for now reqs c v w2
    by (metis snd_conv)
  from assms(2) show ?thesis
    by (auto simp: play_batch_def Let_def dest: f split: option.splits sum.splits prod.splits)
qed

lemma play_loop_transport:
  assumes "\<And>reqs t. P t \<Longrightarrow> P (snd (t_fetch_concurrent T ctx reqs t))" "P (w_transport w)"
  shows "P (w_transport (fst (snd (play_loop A C T X ctx s w p))))"
  using assms(2)
proof (induction "nat (total_segments (s_manifest s) - p_index p)" arbitrary: w p rule: less_induct)
  case less
  obtain e w1 p1 where b: "play_batch A C T X ctx s w p = (e, w1, p1)" by (cases "play_batch A C T X ctx s w p") auto
  have P: "P (w_transport w1)" using play_batch_transport [where P = P, OF assms(1) less.prems, of A C X s p] by (simp add: b)
  show ?case
  proof (cases "p_index p < total_segments (s_manifest s) \<and> e = None")
    case True
    then have i: "p_index p < total_segments (s_manifest s)" and e: "e = None" by simp_all
    from less.hyps [OF play_batch_decreases [OF i b [unfolded e, symmetric]] P] show ?thesis
      using i e b by (subst play_loop.simps) simp
  next
    case False
    with b P less.prems show ?thesis by (subst play_loop.simps) (auto split: option.splits)
  qed
qed

lemma playback_transport:
  assumes "\<And>reqs t. P t \<Longrightarrow> P (snd (t_fetch_concurrent T ctx reqs t))" "P (snd (t_handshake T ctx False (w_transport w)))"
  shows "P (w_transport (snd (snd (run_playback A C T X ctx s w))))"
proof -
  obtain h t where h: "t_handshake T ctx False (w_transport w) = (h, t)" by fastforce
  have t: "P t" using assms(2) by (simp add: h)
  have "P (w_transport (fst (snd (play_loop A C T X ctx s' (w\<lparr>w_transport := t\<rparr>) p))))" for s' p
    by (rule play_loop_transport [where P = P, OF assms(1)]) (simp_all add: t)
  then have l: "play_loop A C T X ctx s' (w\<lparr>w_transport := t\<rparr>) p = (e, w1, p1) \<Longrightarrow> P (w_transport w1)" for s' p e w1 p1
    by (metis fst_conv snd_conv)
  from t show ?thesis by (auto simp: run_playback_def h Let_def dest: l split: sum.splits option.splits prod.splits)
qed

text \<open>A session asks for the health of its edge once, before everything else, and then only fetches.\<close>

lemma play_emulated_log:
  "\<exists>gets. snd (snd (snd (play_emulated E (logged N) cfg et ctx idx n))) = snd n @ Headed (health_url (et_url et)) # gets
    \<and> (\<forall>x\<in>set gets. \<not> is_head x \<and> \<not> is_close x)"
proof -
  define P where "P t \<longleftrightarrow> (\<exists>gets. snd t = snd n @ Headed (health_url (et_url et)) # gets \<and> (\<forall>x\<in>set gets. \<not> is_head x \<and> \<not> is_close x))"
    for t :: "'a \<times> net_event list"
  have f: "P (snd (t_fetch_concurrent (emu_ops (logged N) et) ctx reqs t))" if "P t" for reqs t
  proof -
    have "snd (snd (emu_fetch (logged N) et ctx reqs t)) = snd t @ [Fetched (map (\<lambda>r. build_segment_url (et_url et) (req_id r)) reqs)]"
      by (auto simp: emu_fetch_def logged_def split: prod.splits sum.splits)
    with that show ?thesis by (auto simp: P_def emu_ops_def)
  qed
  have "snd (snd (emu_handshake (logged N) et ctx False n)) = snd n @ [Headed (health_url (et_url et))]"
    by (auto simp: emu_handshake_def logged_def health_url_def Let_def split: prod.splits sum.splits)
  then have h: "P (snd (t_handshake (emu_ops (logged N) et) ctx False n))" by (simp add: P_def emu_ops_def)
  have "P (snd (snd (play_emulated E (logged N) cfg et ctx idx n)))"
    unfolding play_emulated_def by (simp add: case_prod_unfold) (rule playback_transport [where P = P, OF f], simp_all add: h)
  then show ?thesis by (simp add: P_def)
qed

section \<open>Which transports are closed\<close>

text \<open>The closers of the first \<open>k\<close> clients of a QUIC run from index \<open>i\<close> on.\<close>

definition quic_of :: "'p tls_config \<Rightarrow> emulated_config \<Rightarrow> nat \<Rightarrow> 'p emu_transport" where
  "quic_of tls em i = new_emulated_quic (h3_url (em_edges em ! (i mod length (em_edges em)))) tls"

definition started :: "run_error option \<Rightarrow> nat" where
  "started e = (case e of Some (Play_failed x) \<Rightarrow> 1 | _ \<Rightarrow> 0)"

lemma run_emu_client_closers:
  assumes "run_emu_client E N cfg tls em proto base ctx i c s = (e, s')"
  shows "\<exists>rs. es_results s' = es_results s @ rs \<and> length rs = (if e = None then 1 else 0)
    \<and> es_closers s' = es_closers s @ (if proto = ''quic-h3'' then replicate (length rs + started e) (emu_close N (quic_of tls em i)) else [])"
proof -
  let ?r = "fst (build_policy E (ex_clients cfg) c (es_edges s) (e_source E (base + seed_offset (client_id c))))"
  show ?thesis
  proof (cases ?r)
    case (Inl m)
    with assms show ?thesis by (auto simp: run_emu_client_def started_def)
  next
    case (Inr edge)
    obtain idx pop where pop: "next_index E (es_pop s) = (idx, pop)" by fastforce
    show ?thesis
    proof (cases "build_emulated_transport N proto (em_edges em ! (i mod length (em_edges em))) tls")
      case (Inl p)
      then have "proto \<noteq> ''quic-h3''" by (auto simp: build_emulated_transport_def Let_def)
      with Inl Inr pop assms show ?thesis by (auto simp: run_emu_client_def started_def)
    next
      case (Inr x)
      then obtain et closer where x: "x = (et, closer)" by (cases x)
      have cl: "(case closer of None \<Rightarrow> [] | Some f \<Rightarrow> [f]) = (if proto = ''quic-h3'' then [emu_close N (quic_of tls em i)] else [])"
        using Inr x by (auto simp: build_emulated_transport_def quic_of_def Let_def split: if_splits)
      obtain pr err n where p: "play_emulated E N cfg et ctx idx (es_net s) = (pr, err, n)"
        by (cases "play_emulated E N cfg et ctx idx (es_net s)") auto
      show ?thesis using assms \<open>?r = Inr edge\<close> pop Inr x p
        by (cases err) (auto simp: run_emu_client_def Let_def cl started_def collector_add_def)
    qed
  qed
qed

lemma run_emu_clients_closers:
  "run_emu_clients E N cfg tls em proto base ctx i cs s = (e, s') \<Longrightarrow>
    \<exists>rs. es_results s' = es_results s @ rs \<and> es_closers s' = es_closers s
      @ (if proto = ''quic-h3'' then map (\<lambda>k. emu_close N (quic_of tls em k)) [i..<i + length rs + started e] else [])"
proof (induction cs arbitrary: i s)
  case Nil
  then show ?case by (simp add: started_def)
next
  case (Cons c cs)
  obtain e1 s1 where c: "run_emu_client E N cfg tls em proto base ctx i c s = (e1, s1)" by fastforce
  from run_emu_client_closers [OF this] obtain rs1 where r1: "es_results s1 = es_results s @ rs1" "length rs1 = (if e1 = None then 1 else 0)"
    "es_closers s1 = es_closers s @ (if proto = ''quic-h3'' then replicate (length rs1 + started e1) (emu_close N (quic_of tls em i)) else [])"
    by blast
  show ?case
  proof (cases e1)
    case None
    with c Cons.prems have "run_emu_clients E N cfg tls em proto base ctx (Suc i) cs s1 = (e, s')" by simp
    from Cons.IH [OF this] obtain rs where rs: "es_results s' = es_results s1 @ rs" "es_closers s' = es_closers s1
      @ (if proto = ''quic-h3'' then map (\<lambda>k. emu_close N (quic_of tls em k)) [Suc i..<Suc i + length rs + started e] else [])" by blast
    have one: "length rs1 = 1" "started e1 = 0" using None r1(2) by (simp_all add: started_def)
    then have "[i..<i + length (rs1 @ rs) + started e] = i # [Suc i..<Suc i + length rs + started e]"
      using upt_conv_Cons [of i "i + length (rs1 @ rs) + started e"] by simp
    with one r1(1,3) rs show ?thesis by (intro exI [of _ "rs1 @ rs"]) (simp del: upt_Suc)
  next
    case (Some x)
    with c Cons.prems have "e = Some x" "s' = s1" by simp_all
    with r1 Some show ?thesis
      by (intro exI [of _ rs1]) (auto simp: started_def split: run_error.splits)
  qed
qed

text \<open>The requests of the clients: one handshake for each session started, and nothing closed.\<close>

lemma run_emu_client_log:
  assumes "run_emu_client E (logged N) cfg tls em proto base ctx i c s = (e, s')"
  shows "\<exists>reqs. snd (es_net s') = snd (es_net s) @ reqs \<and> (\<forall>x\<in>set reqs. \<not> is_close x)
    \<and> filter is_head reqs = replicate ((if e = None then 1 else 0) + started e) (Headed (health_url (session_url em proto i)))"
proof -
  let ?r = "fst (build_policy E (ex_clients cfg) c (es_edges s) (e_source E (base + seed_offset (client_id c))))"
  show ?thesis
  proof (cases ?r)
    case (Inl m)
    with assms show ?thesis by (auto simp: run_emu_client_def started_def)
  next
    case (Inr edge)
    obtain idx pop where pop: "next_index E (es_pop s) = (idx, pop)" by fastforce
    show ?thesis
    proof (cases "build_emulated_transport (logged N) proto (em_edges em ! (i mod length (em_edges em))) tls")
      case (Inl p)
      with Inr pop assms show ?thesis by (auto simp: run_emu_client_def started_def)
    next
      case (Inr x)
      then obtain et closer where x: "x = (et, closer)" by (cases x)
      have url: "et_url et = session_url em proto i"
        using Inr x by (auto simp: build_emulated_transport_def session_url_def new_emulated_quic_def new_emulated_tcp_def Let_def split: if_splits)
      obtain pr err n where p: "play_emulated E (logged N) cfg et ctx idx (es_net s) = (pr, err, n)"
        by (cases "play_emulated E (logged N) cfg et ctx idx (es_net s)") auto
      obtain gets where gets: "snd n = snd (es_net s) @ Headed (health_url (session_url em proto i)) # gets"
        "\<forall>x\<in>set gets. \<not> is_head x \<and> \<not> is_close x"
        using play_emulated_log [of E N cfg et ctx idx "es_net s"] p url by auto
      have s': "snd (es_net s') = snd n" "(if e = None then 1 else 0) + started e = 1"
        using assms \<open>?r = Inr edge\<close> pop Inr x p by (cases err; auto simp: run_emu_client_def Let_def started_def)+
      have "filter is_head gets = []" using gets(2) by (simp add: filter_empty_conv)
      then show ?thesis using gets unfolding s' by (intro exI [of _ "Headed (health_url (session_url em proto i)) # gets"]) simp
    qed
  qed
qed

lemma run_emu_clients_log:
  "run_emu_clients E (logged N) cfg tls em proto base ctx i cs s = (e, s') \<Longrightarrow>
    \<exists>rs reqs. es_results s' = es_results s @ rs \<and> snd (es_net s') = snd (es_net s) @ reqs \<and> (\<forall>x\<in>set reqs. \<not> is_close x)
      \<and> filter is_head reqs = map (\<lambda>k. Headed (health_url (session_url em proto k))) [i..<i + length rs + started e]"
proof (induction cs arbitrary: i s)
  case Nil
  then show ?case by (simp add: started_def)
next
  case (Cons c cs)
  obtain e1 s1 where c: "run_emu_client E (logged N) cfg tls em proto base ctx i c s = (e1, s1)" by fastforce
  from run_emu_client_closers [OF this] obtain rs1 where r1: "es_results s1 = es_results s @ rs1" "length rs1 = (if e1 = None then 1 else 0)"
    by blast
  from run_emu_client_log [OF c] obtain reqs1 where l1: "snd (es_net s1) = snd (es_net s) @ reqs1" "\<forall>x\<in>set reqs1. \<not> is_close x"
    "filter is_head reqs1 = replicate ((if e1 = None then 1 else 0) + started e1) (Headed (health_url (session_url em proto i)))" by blast
  show ?case
  proof (cases e1)
    case None
    with c Cons.prems have "run_emu_clients E (logged N) cfg tls em proto base ctx (Suc i) cs s1 = (e, s')" by simp
    from Cons.IH [OF this] obtain rs reqs where rs: "es_results s' = es_results s1 @ rs" "snd (es_net s') = snd (es_net s1) @ reqs"
      "\<forall>x\<in>set reqs. \<not> is_close x"
      "filter is_head reqs = map (\<lambda>k. Headed (health_url (session_url em proto k))) [Suc i..<Suc i + length rs + started e]" by blast
    have one: "length rs1 = 1" "started e1 = 0" using None r1(2) by (simp_all add: started_def)
    then have "[i..<i + length (rs1 @ rs) + started e] = i # [Suc i..<Suc i + length rs + started e]"
      using upt_conv_Cons [of i "i + length (rs1 @ rs) + started e"] by simp
    with one r1(1) l1 rs None show ?thesis by (intro exI [of _ "rs1 @ rs"] exI [of _ "reqs1 @ reqs"]) (auto simp del: upt_Suc)
  next
    case (Some x)
    with c Cons.prems have "e = Some x" "s' = s1" by simp_all
    with r1 l1 Some show ?thesis
      by (intro exI [of _ rs1] exI [of _ reqs1]) (auto simp: started_def split: run_error.splits)
  qed
qed

lemma run_closers_log:
  "snd (run_closers (map (\<lambda>k. emu_close (logged N) (quic_of tls em k)) ks) n) = snd n @ map (\<lambda>k. Closed (et_url (quic_of tls em k))) ks"
proof (induction ks arbitrary: n)
  case (Cons k ks)
  have "snd (snd (emu_close (logged N) (quic_of tls em k) n)) = snd n @ [Closed (et_url (quic_of tls em k))]"
    by (cases n) (auto simp: emu_close_def logged_def quic_of_def new_emulated_quic_def split: prod.splits)
  then show ?case by (simp add: Cons.IH)
qed simp

text \<open>C20: A run leaves no QUIC socket behind. However an emulated run ends, its sessions come first: everything they ask the network for,
  one handshake for each session played and one for the session that failed, if one did, each at the edge of its client. Only then are the
  QUIC transports these sessions opened closed, each exactly once, in the order of the clients, and nothing is asked for after that. Transports of
  TCP are opened as often and never closed.\<close>

theorem quic_sockets_closed:
  assumes "run_one_emulated E (logged N) cfg tls em ctx proto run_idx results (n, []) = (e, c, n', log')"
  shows "\<exists>rs reqs k. c = results @ rs \<and> k = length rs + (if \<exists>x. e = Some (Play_failed x) then 1 else 0)
    \<and> log' = reqs @ (if proto = ''quic-h3'' then map (\<lambda>i. Closed (h3_url (em_edges em ! (i mod length (em_edges em))))) [0..<k] else [])
    \<and> (\<forall>x\<in>set reqs. \<not> is_close x)
    \<and> filter is_head reqs = map (\<lambda>i. Headed (health_url (session_url em proto i))) [0..<k]"
proof -
  from assms obtain cs s s' where run: "run_emu_clients E (logged N) cfg tls em proto (emu_base_seed cfg proto run_idx) ctx 0 cs s = (e, s')"
    "es_results s = results" "es_net s = (n, [])" "es_closers s = []" "c = es_results s'"
    "(n', log') = run_closers (es_closers s') (es_net s')"
    by (auto simp: run_one_emulated_def Let_def split: prod.splits)
  have st: "started e = (if \<exists>x. e = Some (Play_failed x) then 1 else 0)"
    by (auto simp: started_def split: option.splits run_error.splits)
  have url: "et_url (quic_of tls em k) = h3_url (em_edges em ! (k mod length (em_edges em)))" for k
    by (simp add: quic_of_def new_emulated_quic_def)
  obtain rs where rs: "es_results s' = results @ rs" "es_closers s' =
      (if proto = ''quic-h3'' then map (\<lambda>k. emu_close (logged N) (quic_of tls em k)) [0..<length rs + started e] else [])"
    using run_emu_clients_closers [OF run(1)] run by auto
  obtain reqs where reqs: "snd (es_net s') = reqs" "\<forall>x\<in>set reqs. \<not> is_close x"
    "filter is_head reqs = map (\<lambda>k. Headed (health_url (session_url em proto k))) [0..<length rs + started e]"
    using run_emu_clients_log [OF run(1)] run(2,3) rs(1) by auto
  have "log' = snd (run_closers (es_closers s') (es_net s'))" using run(6) by (metis snd_conv)
  then have "log' = reqs @ (if proto = ''quic-h3'' then map (\<lambda>k. Closed (et_url (quic_of tls em k))) [0..<length rs + started e] else [])"
    using rs(2) reqs(1) by (simp add: run_closers_log)
  with rs(1) run(5) reqs show ?thesis unfolding st url by blast
qed

section \<open>An example\<close>

lemma demo_salted_runs: "\<exists>c es. run_one demo_env (demo_config\<lparr>ex_seed := w\<rparr>) None proto i results = (None, c, es)"
proof -
  let ?cfg = "demo_config\<lparr>ex_seed := w\<rparr>"
  have "0 \<le> duration_seconds (ex_content ?cfg)" "sized_ok ?cfg" "links_ok ?cfg (tc_edges (ex_topology ?cfg))"
    using demo_config_runs(1-3) by (simp_all add: sized_ok_def links_ok_def link_ok_def)
  moreover have "always_routes demo_env ?cfg i"
    by (simp add: always_routes_def latency_policy_def reachable_def demo_config_fields demo_env_def flat_trig_ok flat_rtt) (simp add: demo_edge_def)
  ultimately show ?thesis using run_one_total [OF demo_env_ok, of ?cfg i proto results]
    by (cases "run_one demo_env ?cfg None proto i results") (simp add: ends_well_def)
qed

lemma demo_logged_up: "network_up (logged demo_net)"
  by (simp add: network_up_def logged_def demo_net_def case_prod_unfold)

theorem quic_sockets_closed_witness:
  "\<exists>c n' reqs. run_one_emulated demo_env (logged demo_net) demo_config demo_tls demo_emulated None ''quic-h3'' 0 [] ((), [])
      = (None, c, n', reqs @ replicate 3 (Closed ''https://e:8444'')) \<and> filter is_head reqs = replicate 3 (Headed ''https://e:8444/healthz'')"
proof -
  obtain e c n' log' where r: "run_one_emulated demo_env (logged demo_net) demo_config demo_tls demo_emulated None ''quic-h3'' 0 [] ((), [])
      = (e, c, n', log')" by (metis prod.collapse)
  obtain c0 es0 where "run_one demo_env (salted demo_config ''quic-h3'') None ''quic-h3'' 0 [] = (None, c0, es0)"
    unfolding salted_def if_P [OF refl] using demo_salted_runs by blast
  from run_one_plan [OF this] have "\<exists>x. run_plan demo_env (salted demo_config ''quic-h3'') 0 = Inr x" by blast
  with emu_run_plan [OF r] demo_logged_up have e: "e = None" "length c = 3" by (auto simp: known_def demo_config_fields)
  have urls: "map (\<lambda>i. f (h3_url (em_edges demo_emulated ! (i mod length (em_edges demo_emulated))))) [0..<k] = replicate k (f ''https://e:8444'')"
    for k and f :: "string \<Rightarrow> net_event"
    by (simp add: demo_emulated_def map_replicate_const)
  have h: "Headed (health_url (session_url demo_emulated ''quic-h3'' i)) = Headed ''https://e:8444/healthz''" for i
    by (simp add: session_url_def health_url_def demo_emulated_def trim_right_def)
  from quic_sockets_closed [OF r] e obtain reqs where "log' = reqs @ replicate 3 (Closed ''https://e:8444'')"
    "filter is_head reqs = replicate 3 (Headed ''https://e:8444/healthz'')" unfolding h by (auto simp: urls map_replicate_const)
  with r e show ?thesis by blast
qed

end
