(* ===== verification/Sweep.thy ===== *)
theory Sweep
  imports Runs
begin

text \<open>
  \<open>internal/experiment/sweep.go\<close>: the cross product of parameter values, the label and seed of a combination, the overrides it
  applies to the base configuration, the runs in sequence and the heatmap. Parameters are what is not the code's: the copy of a
  configuration by a YAML round trip, the shortest decimal form of a float (\<open>strconv.FormatFloat\<close> with \<open>'g', -1\<close>) and
  the file system.
\<close>

section \<open>Parameters\<close>

record sweep_parameter =
  sp_name :: string
  sp_path :: string
  sp_values :: "real list"

record sweep_config =
  sc_name :: string
  sc_description :: string
  sc_base :: experiment_config
  sc_parameters :: "sweep_parameter list"
  sc_output_dir :: string

datatype sweep_error = Sweep_name_required | No_parameters | Parameter_name_required | No_values string | Base_invalid config_error
  | Output_dir_required | Make_dir_failed string string | Sweep_cancelled string | Copy_failed string | Unsupported_path string
  | Combination_invalid string config_error | Combination_failed string experiment_error | Write_failed string string | Index_panic

text \<open>The checks of \<open>LoadSweepConfig\<close> on a decoded file.\<close>

fun check_parameters :: "sweep_parameter list \<Rightarrow> sweep_error option" where
  "check_parameters [] = None"
| "check_parameters (p # ps) = (if sp_name p = [] then Some Parameter_name_required
     else if sp_values p = [] then Some (No_values (sp_name p)) else check_parameters ps)"

definition check_sweep :: "sweep_config \<Rightarrow> sweep_error + sweep_config" where
  "check_sweep cfg = (if sc_name cfg = [] then Inl Sweep_name_required
     else if sc_parameters cfg = [] then Inl No_parameters
     else case check_parameters (sc_parameters cfg) of Some e \<Rightarrow> Inl e
       | None \<Rightarrow> (case validate (sc_base cfg) of (Some e, b) \<Rightarrow> Inl (Base_invalid e) | (None, b) \<Rightarrow> Inr (cfg\<lparr>sc_base := b\<rparr>)))"

section \<open>Overrides\<close>

definition on_edges :: "(network_profile \<Rightarrow> network_profile) \<Rightarrow> experiment_config \<Rightarrow> experiment_config" where
  "on_edges f cfg = cfg\<lparr>ex_topology := (ex_topology cfg)\<lparr>tc_edges :=
     map (\<lambda>e. e\<lparr>client_profile := f (client_profile e)\<rparr>) (tc_edges (ex_topology cfg))\<rparr>\<rparr>"

definition apply_override :: "string \<Rightarrow> real \<Rightarrow> experiment_config \<Rightarrow> sweep_error + experiment_config" where
  "apply_override path v cfg = (
     if path = ''topology.edges[*].client_profile.loss_model.uniform_percent''
       then Inr (on_edges (\<lambda>p. p\<lparr>loss_cfg := (loss_cfg p)\<lparr>loss_type := ''uniform'', uniform_percent := v\<rparr>\<rparr>) cfg)
     else if path = ''topology.edges[*].client_profile.base_rtt_ms'' then Inr (on_edges (\<lambda>p. p\<lparr>base_rtt_ms := v\<rparr>) cfg)
     else if path = ''topology.edges[*].client_profile.bandwidth_mbps'' then Inr (on_edges (\<lambda>p. p\<lparr>profile_mbps := v\<rparr>) cfg)
     else if path = ''content.duration_seconds'' then Inr (cfg\<lparr>ex_content := (ex_content cfg)\<lparr>duration_seconds := f2i v\<rparr>\<rparr>)
     else if path = ''clients.count'' then Inr (cfg\<lparr>ex_clients := (ex_clients cfg)\<lparr>cc_count := f2i v\<rparr>\<rparr>)
     else Inl (Unsupported_path path))"

fun apply_overrides :: "sweep_parameter list \<Rightarrow> real list \<Rightarrow> experiment_config \<Rightarrow> sweep_error + experiment_config" where
  "apply_overrides (p # ps) (v # vs) cfg = (case apply_override (sp_path p) v cfg of
     Inl e \<Rightarrow> Inl e | Inr cfg' \<Rightarrow> apply_overrides ps vs cfg')"
| "apply_overrides _ _ cfg = Inr cfg"

section \<open>The cross product\<close>

text \<open>The inner loop: increment index \<open>k - 1\<close>, and carry to the left when it overflows; \<open>None\<close> when \<open>k\<close> has left the slice.\<close>

fun bump_at :: "nat list \<Rightarrow> nat \<Rightarrow> nat list \<Rightarrow> nat list option" where
  "bump_at lens 0 idx = None"
| "bump_at lens (Suc k) idx = (if idx ! k + 1 < lens ! k then Some (idx[k := idx ! k + 1]) else bump_at lens k (idx[k := 0]))"

text \<open>The outer loop; it may not end, and the inner option is the panic on an index out of range.\<close>

partial_function (option) cross_loop :: "real list list \<Rightarrow> nat list \<Rightarrow> real list list \<Rightarrow> real list list option option" where
  "cross_loop vals idx out = (if list_all2 (\<lambda>vs i. i < length vs) vals idx
     then let out1 = out @ [map2 (!) vals idx] in
       (case bump_at (map length vals) (length vals) idx of None \<Rightarrow> Some (Some out1) | Some idx1 \<Rightarrow> cross_loop vals idx1 out1)
     else Some None)"

definition cross_product :: "sweep_parameter list \<Rightarrow> real list list option option" where
  "cross_product ps = (if ps = [] then Some (Some []) else cross_loop (map sp_values ps) (replicate (length ps) 0) [])"

section \<open>Labels and seeds\<close>

definition replace_char :: "char \<Rightarrow> char \<Rightarrow> string \<Rightarrow> string" where
  "replace_char a b = map (\<lambda>c. if c = a then b else c)"

text \<open>The test for an integer; \<open>math.MaxInt64\<close> is \<open>2 ^ 63\<close> as a float.\<close>

definition near_int :: "real \<Rightarrow> bool" where
  "near_int v \<longleftrightarrow> \<bar>fsub v (of_int (trunc v))\<bar> < fl (1 / 10 ^ 9) \<and> \<bar>v\<bar> < 2 ^ 63"

definition format_sweep_value :: "(real \<Rightarrow> string) \<Rightarrow> real \<Rightarrow> string" where
  "format_sweep_value fmt v = (if near_int v then itoa (f2i (of_int (trunc v)))
     else replace_char (CHR ''.'') (CHR ''_'') (fmt v))"

fun join_comma :: "string list \<Rightarrow> string" where
  "join_comma [] = []"
| "join_comma [s] = s"
| "join_comma (s # ss) = s @ CHR '','' # join_comma ss"

text \<open>\<open>sort.Slice\<close> sorts the pairs by name; up to twelve of them by insertion, which is stable.\<close>

definition combination_label :: "(real \<Rightarrow> string) \<Rightarrow> string list \<Rightarrow> real list \<Rightarrow> string" where
  "combination_label fmt names vals = replace_char (CHR ''/'') (CHR ''_'')
     (join_comma (map (\<lambda>(k, v). k @ ''='' @ format_sweep_value fmt v) (sort_key fst (zip names vals))))"

text \<open>FNV-1a on 64 bits, and the seed of a combination.\<close>

definition fnv1a64 :: "string \<Rightarrow> 64 word" where
  "fnv1a64 s = foldl (\<lambda>h c. xor h (of_nat (of_char c)) * 1099511628211) 14695981039346656037 s"

definition combination_seed :: "64 word \<Rightarrow> string \<Rightarrow> 64 word" where
  "combination_seed base lbl = xor base (fnv1a64 lbl)"

section \<open>A sweep\<close>

record sweep_entry =
  se_params :: "string \<rightharpoonup> real"
  se_subdir :: string

record sweep_index =
  si_scenario :: string
  si_parameters :: "sweep_parameter list"
  si_results :: "sweep_entry list"

record heatmap_data =
  x_label :: string
  y_label :: string
  x_values :: "real list"
  y_values :: "real list"
  hm_values :: "real list list"

record sweep_result =
  sw_config :: sweep_config
  sw_index :: sweep_index
  sw_heatmap :: "heatmap_data option"

text \<open>The file system, the YAML copy and the float format: what a sweep takes from outside. A write returns its error.\<close>

record sweep_io =
  io_mkdir :: "string \<Rightarrow> string option"
  io_join :: "string \<Rightarrow> string \<Rightarrow> string"
  io_copy :: "experiment_config \<Rightarrow> string + experiment_config"
  io_format :: "real \<Rightarrow> string"
  io_write_json :: "experiment_results \<Rightarrow> string \<Rightarrow> string option"
  io_write_csv :: "experiment_results \<Rightarrow> string \<Rightarrow> string option"
  io_write_index :: "sweep_index \<Rightarrow> string \<Rightarrow> string option"
  io_write_heatmap :: "heatmap_data \<Rightarrow> string \<Rightarrow> string option"

definition patch :: "sweep_io \<Rightarrow> sweep_config \<Rightarrow> real list \<Rightarrow> sweep_error + experiment_config" where
  "patch io cfg vals = (let lbl = combination_label (io_format io) (map sp_name (sc_parameters cfg)) vals in
     case io_copy io (sc_base cfg) of Inl e \<Rightarrow> Inl (Copy_failed e)
     | Inr b \<Rightarrow> (case apply_overrides (sc_parameters cfg) vals b of Inl e \<Rightarrow> Inl e
       | Inr p \<Rightarrow> let q = p\<lparr>ex_seed := combination_seed (ex_seed (sc_base cfg)) lbl,
                        ex_output := (ex_output p)\<lparr>out_dir := io_join io (sc_output_dir cfg) lbl\<rparr>,
                        ex_name := ex_name (sc_base cfg) @ ''/'' @ lbl\<rparr>
           in case validate q of (Some e, r) \<Rightarrow> Inl (Combination_invalid lbl e) | (None, r) \<Rightarrow> Inr r))"

text \<open>One combination: the results are run and written; \<open>run\<close> is the runner's \<open>Run\<close>.\<close>

definition run_combination :: "sweep_io \<Rightarrow> (experiment_config \<Rightarrow> experiment_error + experiment_results) \<Rightarrow> sweep_config \<Rightarrow> real list \<Rightarrow>
    sweep_error + experiment_results" where
  "run_combination io run cfg vals = (let lbl = combination_label (io_format io) (map sp_name (sc_parameters cfg)) vals;
       dir = io_join io (sc_output_dir cfg) lbl
     in case patch io cfg vals of Inl e \<Rightarrow> Inl e
     | Inr q \<Rightarrow> (case run q of Inl e \<Rightarrow> Inl (Combination_failed lbl e)
       | Inr res \<Rightarrow> (case io_write_json io res dir of Some e \<Rightarrow> Inl (Write_failed lbl e)
         | None \<Rightarrow> if emit_csv (ex_output q) then (case io_write_csv io res dir of Some e \<Rightarrow> Inl (Write_failed lbl e) | None \<Rightarrow> Inr res)
             else Inr res)))"

fun p95_improvement :: "improvement_result list \<Rightarrow> real option" where
  "p95_improvement [] = None"
| "p95_improvement (r # rs) = (if ir_metric r = ''segment_latency_p95_ms'' then Some (ir_pct r) else p95_improvement rs)"

definition note_improvement :: "string \<Rightarrow> experiment_results \<Rightarrow> (string \<rightharpoonup> real) \<Rightarrow> (string \<rightharpoonup> real)" where
  "note_improvement lbl res m = (case er_comparison res of None \<Rightarrow> m
     | Some c \<Rightarrow> (case p95_improvement (cr_improvement c) of None \<Rightarrow> m | Some v \<Rightarrow> m(lbl \<mapsto> v)))"

text \<open>The loop over the combinations, with the entries and the map of improvements so far.\<close>

fun sweep_loop :: "sweep_io \<Rightarrow> (experiment_config \<Rightarrow> experiment_error + experiment_results) \<Rightarrow> string option \<Rightarrow> sweep_config \<Rightarrow> real list list \<Rightarrow>
    sweep_entry list \<Rightarrow> (string \<rightharpoonup> real) \<Rightarrow> sweep_error + sweep_entry list \<times> (string \<rightharpoonup> real)" where
  "sweep_loop io run ctx cfg [] es m = Inr (es, m)"
| "sweep_loop io run ctx cfg (vals # rest) es m = (case ctx of Some e \<Rightarrow> Inl (Sweep_cancelled e)
     | None \<Rightarrow> let names = map sp_name (sc_parameters cfg); lbl = combination_label (io_format io) names vals in
       (case run_combination io run cfg vals of Inl e \<Rightarrow> Inl e
       | Inr res \<Rightarrow> sweep_loop io run ctx cfg rest (es @ [\<lparr>se_params = map_of (rev (zip names vals)), se_subdir = lbl\<rparr>])
           (note_improvement lbl res m)))"

text \<open>A label without an entry reads as zero.\<close>

definition build_heatmap :: "(real \<Rightarrow> string) \<Rightarrow> sweep_parameter \<Rightarrow> sweep_parameter \<Rightarrow> (string \<rightharpoonup> real) \<Rightarrow> heatmap_data" where
  "build_heatmap fmt px py m = (let xs = sort (sp_values px); ys = sort (sp_values py) in
     \<lparr>x_label = sp_name px, y_label = sp_name py, x_values = xs, y_values = ys,
      hm_values = map (\<lambda>y. map (\<lambda>x. case m (combination_label fmt [sp_name px, sp_name py] [x, y]) of None \<Rightarrow> 0 | Some v \<Rightarrow> v) xs) ys\<rparr>)"

definition finish_sweep :: "sweep_io \<Rightarrow> sweep_config \<Rightarrow> sweep_entry list \<Rightarrow> (string \<rightharpoonup> real) \<Rightarrow> sweep_error + sweep_result" where
  "finish_sweep io cfg es m = (let index = \<lparr>si_scenario = sc_name cfg, si_parameters = sc_parameters cfg, si_results = es\<rparr>
     in case io_write_index io index (io_join io (sc_output_dir cfg) ''sweep_index.json'') of Some e \<Rightarrow> Inl (Write_failed [] e)
     | None \<Rightarrow> (case sc_parameters cfg of
         [px, py] \<Rightarrow> let hm = build_heatmap (io_format io) px py m in
           (case io_write_heatmap io hm (io_join io (sc_output_dir cfg) ''heatmap.json'') of Some e \<Rightarrow> Inl (Write_failed [] e)
            | None \<Rightarrow> Inr \<lparr>sw_config = cfg, sw_index = index, sw_heatmap = Some hm\<rparr>)
       | _ \<Rightarrow> Inr \<lparr>sw_config = cfg, sw_index = index, sw_heatmap = None\<rparr>))"

text \<open>\<open>RunSweep\<close>; \<open>None\<close> when the enumeration of the combinations does not end.\<close>

definition run_sweep :: "sweep_io \<Rightarrow> (experiment_config \<Rightarrow> experiment_error + experiment_results) \<Rightarrow> string option \<Rightarrow> sweep_config \<Rightarrow>
    (sweep_error + sweep_result) option" where
  "run_sweep io run ctx cfg = (if sc_output_dir cfg = [] then Some (Inl Output_dir_required)
     else case io_mkdir io (sc_output_dir cfg) of Some e \<Rightarrow> Some (Inl (Make_dir_failed (sc_output_dir cfg) e))
     | None \<Rightarrow> (case cross_product (sc_parameters cfg) of None \<Rightarrow> None
       | Some None \<Rightarrow> Some (Inl Index_panic)
       | Some (Some combos) \<Rightarrow> (case sweep_loop io run ctx cfg combos [] Map.empty of
           Inl e \<Rightarrow> Some (Inl e) | Inr (es, m) \<Rightarrow> Some (finish_sweep io cfg es m))))"

section \<open>The odometer enumerates the cross product\<close>

fun succ_idx :: "nat list \<Rightarrow> nat list \<Rightarrow> nat list option" where
  "succ_idx (n # ns) (i # is) = (case succ_idx ns is of Some js \<Rightarrow> Some (i # js)
     | None \<Rightarrow> if Suc i < n then Some (Suc i # map (\<lambda>_. 0) ns) else None)"
| "succ_idx _ _ = None"

definition all_idx :: "nat list \<Rightarrow> nat list list" where
  "all_idx ns = product_lists (map (\<lambda>n. [0..<n]) ns)"

fun idx_from :: "nat list \<Rightarrow> nat list \<Rightarrow> nat list list" where
  "idx_from (n # ns) (i # is) = map (Cons i) (idx_from ns is) @ concat (map (\<lambda>j. map (Cons j) (all_idx ns)) [Suc i..<n])"
| "idx_from _ _ = [[]]"

lemma idx_from_zeros: "\<forall>n\<in>set ns. 0 < n \<Longrightarrow> idx_from ns (map (\<lambda>_. 0) ns) = all_idx ns"
  by (induction ns) (simp_all add: all_idx_def upt_rec [of 0])

lemma idx_from_step:
  "list_all2 (<) is ns \<Longrightarrow> idx_from ns is = is # (case succ_idx ns is of None \<Rightarrow> [] | Some js \<Rightarrow> idx_from ns js)"
proof (induction "is" ns rule: list_all2_induct)
  case (Cons i "is" n ns)
  have pos: "\<forall>n\<in>set ns. 0 < n" using Cons.hyps(2) by (induction rule: list_all2_induct) auto
  show ?case
  proof (cases "succ_idx ns is")
    case None
    have "map (Cons (Suc i)) (all_idx ns) @ concat (map (\<lambda>j. map (Cons j) (all_idx ns)) [Suc (Suc i)..<n])
        = concat (map (\<lambda>j. map (Cons j) (all_idx ns)) [Suc i..<n])" if "Suc i < n"
      using that by (simp add: upt_rec [of "Suc i"])
    with None Cons.IH idx_from_zeros [OF pos] show ?thesis by simp
  next
    case (Some js)
    with Cons.IH show ?thesis by simp
  qed
qed simp

lemma succ_idx_range: "list_all2 (<) is ns \<Longrightarrow> succ_idx ns is = Some js \<Longrightarrow> list_all2 (<) js ns"
proof (induction "is" ns arbitrary: js rule: list_all2_induct)
  case (Cons i "is" n ns)
  have "list_all2 (<) (map (\<lambda>_. 0) ns) ns" using Cons.hyps(2) by (induction rule: list_all2_induct) auto
  with Cons show ?case by (auto split: option.splits if_splits)
qed simp

lemma succ_idx_snoc:
  "length is = length ns \<Longrightarrow> succ_idx (ns @ [n]) (is @ [i]) =
    (if Suc i < n then Some (is @ [Suc i]) else map_option (\<lambda>js. js @ [0]) (succ_idx ns is))"
  by (induction "is" ns rule: list_induct2) (auto split: option.split)

lemma bump_succ:
  "length idx = length lens \<Longrightarrow> k \<le> length lens \<Longrightarrow>
    bump_at lens k idx = map_option (\<lambda>js. js @ drop k idx) (succ_idx (take k lens) (take k idx))"
proof (induction k arbitrary: idx)
  case (Suc k)
  then have k: "k < length lens" "k < length idx" by simp_all
  have s: "succ_idx (take (Suc k) lens) (take (Suc k) idx) = (if Suc (idx ! k) < lens ! k then Some (take k idx @ [Suc (idx ! k)])
      else map_option (\<lambda>js. js @ [0]) (succ_idx (take k lens) (take k idx)))"
    using succ_idx_snoc [of "take k idx" "take k lens" "lens ! k" "idx ! k"] k by (simp add: take_Suc_conv_app_nth)
  have u: "idx[k := x] = take k idx @ x # drop (Suc k) idx" for x using k(2) by (rule upd_conv_take_nth_drop)
  have "drop k (idx[k := 0]) = 0 # drop (Suc k) idx" unfolding u using k(2) by simp
  with Suc.IH [of "idx[k := 0]"] Suc.prems show ?case
    by (auto simp: s u option.map_comp comp_def intro!: option.map_cong)
qed simp

lemma cross_loop_enumerates:
  "list_all2 (<) idx (map length vals) \<Longrightarrow>
    cross_loop vals idx out = Some (Some (out @ map (map2 (!) vals) (idx_from (map length vals) idx)))"
proof (induction "length (idx_from (map length vals) idx)" arbitrary: idx out rule: less_induct)
  case less
  have len: "length idx = length vals" using list_all2_lengthD [OF less.prems] by simp
  have "list_all2 (\<lambda>vs i. i < length vs) vals idx" using less.prems by (auto simp: list_all2_conv_all_nth)
  moreover have "bump_at (map length vals) (length vals) idx = succ_idx (map length vals) idx"
    using bump_succ [of idx "map length vals" "length vals"] len by (simp add: option.map_ident)
  moreover note step = idx_from_step [OF less.prems]
  ultimately show ?case
  proof (cases "succ_idx (map length vals) idx")
    case (Some js)
    from step Some have "length (idx_from (map length vals) js) < length (idx_from (map length vals) idx)" by simp
    from less.hyps [OF this succ_idx_range [OF less.prems Some]] show ?thesis
      using Some step \<open>list_all2 _ vals idx\<close> \<open>bump_at _ _ idx = _\<close> by (subst cross_loop.simps) simp
  qed (subst cross_loop.simps, simp)
qed

lemma pick_product: "map (map2 (!) vals) (all_idx (map length vals)) = product_lists vals"
proof (induction vals)
  case (Cons vs vals)
  have "map (map2 (!) (vs # vals)) (all_idx (map length (vs # vals)))
      = concat (map (\<lambda>i. map (Cons (vs ! i)) (map (map2 (!) vals) (all_idx (map length vals)))) [0..<length vs])"
    by (simp add: all_idx_def map_concat comp_def)
  also have "\<dots> = concat (map (\<lambda>x. map (Cons x) (product_lists vals)) (map ((!) vs) [0..<length vs]))"
    unfolding Cons by (simp add: comp_def)
  also have "\<dots> = product_lists (vs # vals)" by (simp add: map_nth)
  finally show ?case .
qed (simp add: all_idx_def)

lemma cross_product_all:
  assumes "ps \<noteq> []" "\<forall>p\<in>set ps. sp_values p \<noteq> []"
  shows "cross_product ps = Some (Some (product_lists (map sp_values ps)))"
proof -
  let ?lens = "map length (map sp_values ps)"
  have pos: "\<forall>n\<in>set ?lens. 0 < n" using assms(2) by auto
  have z: "replicate (length ps) 0 = map (\<lambda>_. 0) ?lens" by (simp add: map_replicate_const)
  have "list_all2 (<) (map (\<lambda>_. 0) ?lens) ?lens" using pos by (simp add: list_all2_conv_all_nth)
  from cross_loop_enumerates [OF this, of "[]"] show ?thesis
    using assms(1) by (simp only: cross_product_def z idx_from_zeros [OF pos] pick_product append_Nil if_False)
qed

lemma cross_product_panic: "\<exists>p\<in>set ps. sp_values p = [] \<Longrightarrow> cross_product ps = Some None"
proof -
  assume e: "\<exists>p\<in>set ps. sp_values p = []"
  then have ps: "ps \<noteq> []" by auto
  from e obtain i where "i < length ps" "sp_values (ps ! i) = []" by (metis in_set_conv_nth)
  then have "\<not> list_all2 (\<lambda>vs i. i < length vs) (map sp_values ps) (replicate (length ps) 0)"
    by (auto simp: list_all2_conv_all_nth)
  then show "cross_product ps = Some None" using ps by (simp add: cross_product_def) (subst cross_loop.simps, simp)
qed

text \<open>C23: The odometer is the cross product. When every parameter has a value, the loop ends, without an index out of range,
  and its combinations are exactly the lists with one value of each parameter, in lexicographic order with the rightmost
  parameter fastest; so their number is the product of the numbers of values, and none comes twice when the values of each
  parameter are distinct. When a parameter has no value, the loop panics; without parameters there are no combinations.\<close>

theorem cross_product_enumerates:
  "(ps \<noteq> [] \<and> (\<forall>p\<in>set ps. sp_values p \<noteq> []) \<longrightarrow> cross_product ps = Some (Some (product_lists (map sp_values ps))))
    \<and> length (product_lists (map sp_values ps)) = prod_list (map (\<lambda>p. length (sp_values p)) ps)
    \<and> ((\<forall>p\<in>set ps. distinct (sp_values p)) \<longrightarrow> distinct (product_lists (map sp_values ps)))
    \<and> ((\<exists>p\<in>set ps. sp_values p = []) \<longrightarrow> cross_product ps = Some None) \<and> cross_product [] = Some (Some [])"
proof (intro conjI impI)
  assume "ps \<noteq> [] \<and> (\<forall>p\<in>set ps. sp_values p \<noteq> [])"
  then show "cross_product ps = Some (Some (product_lists (map sp_values ps)))" by (simp add: cross_product_all)
next
  show "length (product_lists (map sp_values ps)) = prod_list (map (\<lambda>p. length (sp_values p)) ps)"
    by (induction ps) (simp_all add: length_concat comp_def sum_list_triv)
next
  assume "\<forall>p\<in>set ps. distinct (sp_values p)"
  then show "distinct (product_lists (map sp_values ps))"
    by (intro distinct_product_lists) auto
next
  assume "\<exists>p\<in>set ps. sp_values p = []"
  then show "cross_product ps = Some None" by (rule cross_product_panic)
qed (simp add: cross_product_def)

theorem cross_product_enumerates_witness:
  "cross_product [\<lparr>sp_name = ''a'', sp_path = [], sp_values = [1, 2]\<rparr>, \<lparr>sp_name = ''b'', sp_path = [], sp_values = [3]\<rparr>]
    = Some (Some [[1, 3], [2, 3]])"
  using cross_product_enumerates [of "[\<lparr>sp_name = ''a'', sp_path = [], sp_values = [1, 2]\<rparr>, \<lparr>sp_name = ''b'', sp_path = [], sp_values = [3]\<rparr>]"]
  by simp

section \<open>Labels\<close>

text \<open>What the labels rely on: the shortest form of a float that is no integer has no comma and no slash, and is not
  mistaken for an integer or for another float after its point has become an underscore. Only the values of the sweep matter.\<close>

definition format_ok :: "(real \<Rightarrow> string) \<Rightarrow> real set \<Rightarrow> bool" where
  "format_ok fmt V \<longleftrightarrow> (\<forall>v\<in>V. \<not> near_int v \<longrightarrow> CHR '','' \<notin> set (fmt v) \<and> CHR ''/'' \<notin> set (fmt v) \<and> CHR ''_'' \<notin> set (fmt v)
      \<and> (CHR ''.'' \<in> set (fmt v) \<or> CHR ''e'' \<in> set (fmt v))
      \<and> (\<forall>w\<in>V. \<not> near_int w \<longrightarrow> fmt v = fmt w \<longrightarrow> v = w))"

text \<open>Two values of a parameter are a millionth apart.\<close>

definition spaced :: "real list \<Rightarrow> bool" where
  "spaced vs \<longleftrightarrow> (\<forall>v\<in>set vs. \<forall>w\<in>set vs. v \<noteq> w \<longrightarrow> 1 / 10 ^ 6 \<le> \<bar>v - w\<bar>)"

lemma trunc_close: "\<bar>v - of_int (trunc v)\<bar> < 1"
  unfolding trunc_def by (auto simp: abs_if) linarith+

lemma near_int_close: "near_int v \<Longrightarrow> \<bar>v - of_int (trunc v)\<bar> < 2 / 10 ^ 9"
proof (rule ccontr)
  assume n: "near_int v" and "\<not> \<bar>v - of_int (trunc v)\<bar> < 2 / 10 ^ 9"
  then have "2 / 10 ^ 9 \<le> \<bar>v - of_int (trunc v)\<bar>" by simp
  then have "fl (2 / 10 ^ 9) \<le> fl \<bar>v - of_int (trunc v)\<bar>" by (rule fl_mono)
  moreover have "fl (1 / 10 ^ 9) \<le> fl (2 / 10 ^ 9)" by (rule fl_mono) simp
  moreover have "fl \<bar>x\<bar> = \<bar>fl x\<bar>" for x
    using fl_nonneg [of x] fl_nonneg [of "- x"] by (cases "0 \<le> x") (simp_all add: fl_minus)
  then have "fl \<bar>v - of_int (trunc v)\<bar> = \<bar>fsub v (of_int (trunc v))\<bar>" by (simp add: fsub_def)
  ultimately show False using n by (simp add: near_int_def)
qed

lemma itoa_chars: "c \<in> set (itoa n) \<Longrightarrow> is_digit c \<or> c = CHR ''-''"
  using digits_are_digits by (auto simp: itoa_def split: if_splits)

lemma not_in_itoa: "CHR '','' \<notin> set (itoa n)" "CHR ''/'' \<notin> set (itoa n)" "CHR ''_'' \<notin> set (itoa n)" "CHR ''e'' \<notin> set (itoa n)"
  using itoa_chars [of "CHR '',''" n] itoa_chars [of "CHR ''/''" n] itoa_chars [of "CHR ''_''" n] itoa_chars [of "CHR ''e''" n]
  by (auto simp: is_digit_def digit_value_def)

lemma replace_char_in: "c \<noteq> b \<Longrightarrow> c \<in> set (replace_char a b s) \<longleftrightarrow> c \<in> set s \<and> c \<noteq> a"
  by (auto simp: replace_char_def)

lemma replace_char_inj: "b \<notin> set s \<Longrightarrow> b \<notin> set t \<Longrightarrow> replace_char a b s = replace_char a b t \<Longrightarrow> s = t"
proof -
  assume s: "b \<notin> set s" "b \<notin> set t" and eq: "replace_char a b s = replace_char a b t"
  have "inj_on (\<lambda>c. if c = a then b else c) (set s \<union> set t)" using s by (intro inj_onI) (auto split: if_splits)
  with eq show ?thesis unfolding replace_char_def by (metis map_inj_on)
qed

lemma near_int_itoa:
  assumes "near_int v"
  shows "format_sweep_value fmt v = itoa (trunc v)"
proof -
  have "\<bar>v\<bar> < 2 ^ 63" using assms by (simp add: near_int_def)
  then have "in_int64 (trunc v)" unfolding trunc_def by (simp add: int64_defs abs_if split: if_splits; linarith)
  then show ?thesis using assms by (simp add: format_sweep_value_def f2i_of_int)
qed

lemma format_chars: "format_ok fmt V \<Longrightarrow> v \<in> V \<Longrightarrow>
    CHR '','' \<notin> set (format_sweep_value fmt v) \<and> CHR ''/'' \<notin> set (format_sweep_value fmt v)"
proof (cases "near_int v")
  case True
  then show ?thesis by (simp add: near_int_itoa not_in_itoa)
next
  case False
  assume "format_ok fmt V" "v \<in> V"
  moreover have "format_sweep_value fmt v = replace_char (CHR ''.'') (CHR ''_'') (fmt v)"
    using False by (simp add: format_sweep_value_def)
  ultimately show ?thesis using False by (simp add: replace_char_in format_ok_def)
qed

lemma format_inj:
  assumes ok: "format_ok fmt V" and V: "v \<in> V" "w \<in> V" and far: "v \<noteq> w \<longrightarrow> 1 / 10 ^ 6 \<le> \<bar>v - w\<bar>"
    and eq: "format_sweep_value fmt v = format_sweep_value fmt w"
  shows "v = w"
proof -
  have g: "format_sweep_value fmt x = replace_char (CHR ''.'') (CHR ''_'') (fmt x)" if "\<not> near_int x" for x
    using that by (simp add: format_sweep_value_def)
  have mixed: "itoa n \<noteq> replace_char (CHR ''.'') (CHR ''_'') (fmt x)" if "\<not> near_int x" "x \<in> V" for n x
  proof
    assume e: "itoa n = replace_char (CHR ''.'') (CHR ''_'') (fmt x)"
    from ok that have "CHR ''.'' \<in> set (fmt x) \<or> CHR ''e'' \<in> set (fmt x)" by (auto simp: format_ok_def)
    then have "CHR ''_'' \<in> set (replace_char (CHR ''.'') (CHR ''_'') (fmt x)) \<or> CHR ''e'' \<in> set (replace_char (CHR ''.'') (CHR ''_'') (fmt x))"
      by (auto simp: replace_char_def image_iff)
    with not_in_itoa [of n] show False by (simp add: e)
  qed
  consider "near_int v" "near_int w" | "near_int v" "\<not> near_int w" | "\<not> near_int v" "near_int w" | "\<not> near_int v" "\<not> near_int w" by blast
  then show ?thesis
  proof cases
    case 1
    then have "trunc v = trunc w" using eq by (simp add: near_int_itoa itoa_inj)
    with near_int_close [OF 1(1)] near_int_close [OF 1(2)] far show ?thesis by (auto simp: abs_if split: if_splits)
  next
    case 2
    with eq mixed [OF 2(2) V(2)] show ?thesis by (simp add: near_int_itoa g)
  next
    case 3
    with eq mixed [OF 3(1) V(1)] show ?thesis by (metis near_int_itoa g)
  next
    case 4
    with eq have "replace_char (CHR ''.'') (CHR ''_'') (fmt v) = replace_char (CHR ''.'') (CHR ''_'') (fmt w)" by (simp add: g)
    moreover have "CHR ''_'' \<notin> set (fmt v)" "CHR ''_'' \<notin> set (fmt w)" using ok V 4 by (auto simp: format_ok_def)
    ultimately have "fmt v = fmt w" using replace_char_inj by blast
    with ok V 4 show ?thesis by (auto simp: format_ok_def)
  qed
qed

definition part :: "string \<times> string \<Rightarrow> string" where
  "part x = fst x @ CHR ''='' # snd x"

lemma join_parts_inj:
  "map fst xs = map fst ys \<Longrightarrow> \<forall>x\<in>set xs \<union> set ys. CHR '','' \<notin> set (snd x) \<Longrightarrow>
    join_comma (map part xs) = join_comma (map part ys) \<Longrightarrow> xs = ys"
proof (induction xs arbitrary: ys)
  case (Cons x xs)
  then obtain y ys' where ys: "ys = y # ys'" "fst x = fst y" "map fst xs = map fst ys'" by (cases ys) auto
  have c: "CHR '','' \<notin> set (snd x)" "CHR '','' \<notin> set (snd y)" using Cons.prems(2) by (simp_all add: ys(1))
  show ?case
  proof (cases xs)
    case Nil
    then have "ys' = []" using ys(3) by simp
    with Cons.prems(3) Nil ys show ?thesis by (simp add: part_def prod_eq_iff)
  next
    case (Cons x2 xs2)
    then obtain y2 ys2 where ys': "ys' = y2 # ys2" using ys(3) by (cases ys') auto
    from Cons.prems(3) have "snd x @ CHR '','' # join_comma (map part xs) = snd y @ CHR '','' # join_comma (map part ys')"
      by (simp add: ys ys' Cons part_def [of x] part_def [of y])
    from sep_inj [OF this c] have "snd x = snd y" "join_comma (map part xs) = join_comma (map part ys')" by simp_all
    moreover have "xs = ys'" using Cons.IH [OF ys(3) _ calculation(2)] Cons.prems(2) by (simp add: ys(1))
    ultimately show ?thesis by (simp add: ys prod_eq_iff)
  qed
qed simp

lemma replace_join: "replace_char a b (join_comma ss) = (if a = CHR '','' then replace_char a b (join_comma ss) else join_comma (map (replace_char a b) ss))"
proof -
  have "a \<noteq> CHR '','' \<Longrightarrow> replace_char a b (join_comma ss) = join_comma (map (replace_char a b) ss)"
    by (induction ss rule: join_comma.induct) (simp_all add: replace_char_def)
  then show ?thesis by simp
qed

lemma replace_part:
  "a \<noteq> CHR ''='' \<Longrightarrow> a \<notin> set (snd x) \<Longrightarrow> replace_char a b (part x) = part (replace_char a b (fst x), snd x)"
proof -
  assume a: "a \<noteq> CHR ''=''" "a \<notin> set (snd x)"
  have "map (\<lambda>c. if c = a then b else c) (snd x) = snd x" using a(2) by (intro map_idI) auto
  with a(1) show ?thesis by (simp add: part_def replace_char_def)
qed

text \<open>The pairs of a combination, sorted by name, with the values formatted.\<close>

definition cells :: "(real \<Rightarrow> string) \<Rightarrow> string list \<Rightarrow> real list \<Rightarrow> (string \<times> string) list" where
  "cells fmt names vals = map (\<lambda>(k, v). (replace_char (CHR ''/'') (CHR ''_'') k, format_sweep_value fmt v)) (sort_key fst (zip names vals))"

lemma label_cells:
  assumes "\<forall>v\<in>set vals. CHR ''/'' \<notin> set (format_sweep_value fmt v)"
  shows "combination_label fmt names vals = join_comma (map part (cells fmt names vals))"
proof -
  have "map (replace_char (CHR ''/'') (CHR ''_'')) (map (\<lambda>(k, v). k @ ''='' @ format_sweep_value fmt v) (sort_key fst (zip names vals)))
      = map part (cells fmt names vals)"
    unfolding cells_def map_map
  proof (rule map_cong [OF refl])
    fix x assume "x \<in> set (sort_key fst (zip names vals))"
    then have "(fst x, snd x) \<in> set (zip names vals)" by simp
    then have "snd x \<in> set vals" by (rule set_zip_rightD)
    with assms have "CHR ''/'' \<notin> set (format_sweep_value fmt (snd x))" by blast
    then show "(replace_char (CHR ''/'') (CHR ''_'') \<circ> (\<lambda>(k, v). k @ ''='' @ format_sweep_value fmt v)) x
        = (part \<circ> (\<lambda>(k, v). (replace_char (CHR ''/'') (CHR ''_'') k, format_sweep_value fmt v))) x"
      using replace_part [of "CHR ''/''" "(fst x, format_sweep_value fmt (snd x))" "CHR ''_''"]
      by (simp add: case_prod_unfold part_def)
  qed
  then show ?thesis unfolding combination_label_def by (simp add: replace_join)
qed

lemma sort_names: "length vals = length names \<Longrightarrow> map fst (sort_key fst (zip names vals)) = sort names"
proof -
  assume "length vals = length names"
  then have "mset (map fst (sort_key fst (zip names vals))) = mset names" by (metis map_fst_zip mset_map mset_sort)
  then show ?thesis by (intro sym [OF properties_for_sort]) simp_all
qed

lemma labels_inj:
  assumes "distinct names" "length vals = length names" "length vals' = length names"
    and "combination_label fmt names vals = combination_label fmt names vals'"
    and "\<forall>v\<in>set vals \<union> set vals'. CHR '','' \<notin> set (format_sweep_value fmt v) \<and> CHR ''/'' \<notin> set (format_sweep_value fmt v)"
  shows "map (format_sweep_value fmt) vals = map (format_sweep_value fmt) vals'"
proof -
  let ?f = "format_sweep_value fmt" and ?r = "replace_char (CHR ''/'') (CHR ''_'')"
  have fst_cells: "map fst (cells fmt names vs) = map ?r (sort names)" if "length vs = length names" for vs
    by (simp add: cells_def comp_def case_prod_unfold sort_names [OF that, symmetric])
  have "cells fmt names vals = cells fmt names vals'"
  proof (rule join_parts_inj)
    show "map fst (cells fmt names vals) = map fst (cells fmt names vals')" using assms(2,3) by (simp add: fst_cells)
    show "\<forall>x\<in>set (cells fmt names vals) \<union> set (cells fmt names vals'). CHR '','' \<notin> set (snd x)"
      using assms(5) by (auto simp: cells_def dest!: set_zip_rightD)
    show "join_comma (map part (cells fmt names vals)) = join_comma (map part (cells fmt names vals'))"
      using assms(4,5) by (simp add: label_cells)
  qed
  then have "map snd (cells fmt names vals) = map snd (cells fmt names vals')" by simp
  then have s: "map (?f \<circ> snd) (sort_key fst (zip names vals)) = map (?f \<circ> snd) (sort_key fst (zip names vals'))"
    by (simp add: cells_def comp_def case_prod_unfold)
  have k: "map fst (sort_key fst (zip names vals)) = map fst (sort_key fst (zip names vals'))"
    using assms(2,3) by (simp add: sort_names)
  have z: "map (\<lambda>x. (fst x, ?f (snd x))) xs = zip (map fst xs) (map (?f \<circ> snd) xs)" for xs by (induction xs) simp_all
  have "map (\<lambda>x. (fst x, ?f (snd x))) (sort_key fst (zip names vals)) = map (\<lambda>x. (fst x, ?f (snd x))) (sort_key fst (zip names vals'))"
    unfolding z k s ..
  then have "set (map (\<lambda>x. (fst x, ?f (snd x))) (sort_key fst (zip names vals)))
      = set (map (\<lambda>x. (fst x, ?f (snd x))) (sort_key fst (zip names vals')))" by (rule arg_cong)
  moreover have "set (map (\<lambda>x. (fst x, ?f (snd x))) (sort_key fst (zip names vs))) = set (zip names (map ?f vs))" for vs
    unfolding zip_map2 set_map set_sort by (simp add: case_prod_unfold)
  ultimately have "set (zip names (map ?f vals)) = set (zip names (map ?f vals'))" by simp
  moreover have "distinct (map fst (zip names (map ?f vs)))" if "length vs = length names" for vs
    using assms(1) that by simp
  ultimately have "map_of (zip names (map ?f vals)) = map_of (zip names (map ?f vals'))"
    using assms(2,3) map_of_inject_set [of "zip names (map ?f vals)" "zip names (map ?f vals')"] by blast
  from map_of_zip_inject [OF _ _ assms(1) this] assms(2,3) show ?thesis by simp
qed

text \<open>Parameters whose labels can be told apart.\<close>

definition sweep_ok :: "(real \<Rightarrow> string) \<Rightarrow> sweep_parameter list \<Rightarrow> bool" where
  "sweep_ok fmt ps \<longleftrightarrow> distinct (map sp_name ps) \<and> (\<forall>p\<in>set ps. spaced (sp_values p) \<and> format_ok fmt (set (sp_values p)))"

lemma labels_distinct:
  assumes ok: "sweep_ok fmt ps" and v: "vals \<in> set (product_lists (map sp_values ps))" and w: "vals' \<in> set (product_lists (map sp_values ps))"
    and eq: "combination_label fmt (map sp_name ps) vals = combination_label fmt (map sp_name ps) vals'"
  shows "vals = vals'"
proof -
  have v': "list_all2 (\<lambda>x p. x \<in> set (sp_values p)) vals ps" using v by (simp add: product_lists_set list_all2_map2)
  have w': "list_all2 (\<lambda>x p. x \<in> set (sp_values p)) vals' ps" using w by (simp add: product_lists_set list_all2_map2)
  note len = list_all2_lengthD [OF v'] list_all2_lengthD [OF w']
  have c: "\<forall>x\<in>set vs. CHR '','' \<notin> set (format_sweep_value fmt x) \<and> CHR ''/'' \<notin> set (format_sweep_value fmt x)"
    if "list_all2 (\<lambda>x p. x \<in> set (sp_values p)) vs ps" for vs
  proof
    fix x assume "x \<in> set vs"
    then obtain i where i: "i < length vs" "x = vs ! i" by (metis in_set_conv_nth)
    then have "x \<in> set (sp_values (ps ! i))" "ps ! i \<in> set ps"
      using list_all2_nthD [OF that i(1)] list_all2_lengthD [OF that] by simp_all
    with ok show "CHR '','' \<notin> set (format_sweep_value fmt x) \<and> CHR ''/'' \<notin> set (format_sweep_value fmt x)"
      using format_chars unfolding sweep_ok_def by blast
  qed
  have m: "map (format_sweep_value fmt) vals = map (format_sweep_value fmt) vals'"
    using ok eq c [OF v'] c [OF w'] len by (intro labels_inj [of "map sp_name ps"]) (auto simp: sweep_ok_def)
  show ?thesis
  proof (rule nth_equalityI)
    show "length vals = length vals'" using len by simp
    fix i assume i: "i < length vals"
    let ?V = "sp_values (ps ! i)"
    have "ps ! i \<in> set ps" using i len by simp
    with ok have "spaced ?V" "format_ok fmt (set ?V)" by (auto simp: sweep_ok_def)
    moreover have "vals ! i \<in> set ?V" "vals' ! i \<in> set ?V"
      using list_all2_nthD [OF v' i] list_all2_nthD [OF w', of i] i len by simp_all
    moreover have "format_sweep_value fmt (vals ! i) = format_sweep_value fmt (vals' ! i)"
      using arg_cong [OF m, of "\<lambda>xs. xs ! i"] i len by simp
    ultimately show "vals ! i = vals' ! i" by (intro format_inj) (auto simp: spaced_def)
  qed
qed

text \<open>Every combination of a sweep has a directory of its own. When the names of the parameters are distinct, the values of
  each a millionth apart, and the float format is faithful on them, two combinations with the same label are the same; so no run
  overwrites the results of another, and no heatmap cell mixes two of them. The condition is needed: two values closer than
  \<open>1e-9\<close> to the same integer have the same label, in every format.\<close>

lemma sweep_labels_distinct:
  assumes "sweep_ok fmt ps" "\<forall>p\<in>set ps. distinct (sp_values p)"
  shows "inj_on (combination_label fmt (map sp_name ps)) (set (product_lists (map sp_values ps)))
    \<and> distinct (map (combination_label fmt (map sp_name ps)) (product_lists (map sp_values ps)))
    \<and> (near_int v \<and> near_int w \<and> trunc v = trunc w \<longrightarrow> combination_label fmt' [k] [v] = combination_label fmt' [k] [w])"
proof (intro conjI impI)
  show i: "inj_on (combination_label fmt (map sp_name ps)) (set (product_lists (map sp_values ps)))"
    using labels_distinct [OF assms(1)] by (intro inj_onI) blast
  have "distinct (product_lists (map sp_values ps))" using assms(2) by (intro distinct_product_lists) auto
  with i show "distinct (map (combination_label fmt (map sp_name ps)) (product_lists (map sp_values ps)))" by (simp add: distinct_map)
  assume "near_int v \<and> near_int w \<and> trunc v = trunc w"
  then show "combination_label fmt' [k] [v] = combination_label fmt' [k] [w]" by (simp add: combination_label_def near_int_itoa)
qed

section \<open>The results of a sweep\<close>

text \<open>The improvement a combination contributes to the heatmap.\<close>

definition cell :: "experiment_results \<Rightarrow> real" where
  "cell res = (case er_comparison res of None \<Rightarrow> 0 | Some c \<Rightarrow> (case p95_improvement (cr_improvement c) of None \<Rightarrow> 0 | Some v \<Rightarrow> v))"

lemma sweep_loop_result:
  assumes "sweep_loop io run ctx cfg combos es m = Inr (es', m')" "distinct (map (combination_label (io_format io) (map sp_name (sc_parameters cfg))) combos)"
    and "\<forall>vals\<in>set combos. m (combination_label (io_format io) (map sp_name (sc_parameters cfg)) vals) = None"
  shows "map se_subdir es' = map se_subdir es @ map (combination_label (io_format io) (map sp_name (sc_parameters cfg))) combos
    \<and> (\<forall>vals\<in>set combos. \<exists>res. run_combination io run cfg vals = Inr res
        \<and> (case m' (combination_label (io_format io) (map sp_name (sc_parameters cfg)) vals) of None \<Rightarrow> 0 | Some v \<Rightarrow> v) = cell res)
    \<and> (\<forall>k. k \<notin> combination_label (io_format io) (map sp_name (sc_parameters cfg)) ` set combos \<longrightarrow> m' k = m k)"
  using assms
proof (induction combos arbitrary: es m)
  case (Cons vals combos)
  let ?l = "combination_label (io_format io) (map sp_name (sc_parameters cfg))"
  obtain res where r: "run_combination io run cfg vals = Inr res" "sweep_loop io run ctx cfg combos
      (es @ [\<lparr>se_params = map_of (rev (zip (map sp_name (sc_parameters cfg)) vals)), se_subdir = ?l vals\<rparr>]) (note_improvement (?l vals) res m)
      = Inr (es', m')"
    using Cons.prems(1) by (auto simp: Let_def split: option.splits sum.splits)
  have other: "k \<noteq> ?l vals \<Longrightarrow> note_improvement (?l vals) res m k = m k" for k
    by (simp add: note_improvement_def split: option.split)
  have d: "distinct (map ?l combos)" "?l vals \<notin> ?l ` set combos" using Cons.prems(2) by simp_all
  have fresh: "\<forall>v\<in>set combos. note_improvement (?l vals) res m (?l v) = None"
  proof
    fix v assume v: "v \<in> set combos"
    then have "?l v \<noteq> ?l vals" using d(2) by (metis imageI)
    with v Cons.prems(3) show "note_improvement (?l vals) res m (?l v) = None" by (simp add: other)
  qed
  note ih = Cons.IH [OF r(2) d(1) fresh]
  from ih d(2) have "m' (?l vals) = note_improvement (?l vals) res m (?l vals)" by blast
  moreover have "m (?l vals) = None" using Cons.prems(3) by simp
  ultimately have "(case m' (?l vals) of None \<Rightarrow> 0 | Some v \<Rightarrow> v) = cell res"
    by (simp add: note_improvement_def cell_def split: option.split)
  with ih r(1) other show ?case by auto
qed simp

text \<open>C24: What a sweep reports. A sweep that succeeds, with labels that can be told apart, has run every combination, and its index
  lists them in the order of the cross product, each with the directory of its label. With two parameters it has a heatmap on
  the sorted values, whose cell in row \<open>j\<close> and column \<open>i\<close> is the latency improvement of the run of exactly the \<open>i\<close>-th value
  of the first and the \<open>j\<close>-th value of the second parameter, whatever their order in the file; with another number it has none.\<close>

theorem sweep_results:
  assumes "run_sweep io run ctx cfg = Some (Inr res)" "sc_parameters cfg \<noteq> []"
    and "sweep_ok (io_format io) (sc_parameters cfg)" "\<forall>p\<in>set (sc_parameters cfg). distinct (sp_values p)"
  shows "map se_subdir (si_results (sw_index res))
      = map (combination_label (io_format io) (map sp_name (sc_parameters cfg))) (product_lists (map sp_values (sc_parameters cfg)))
    \<and> (\<forall>vals\<in>set (product_lists (map sp_values (sc_parameters cfg))). \<exists>r. run_combination io run cfg vals = Inr r)
    \<and> (\<forall>px py. sc_parameters cfg = [px, py] \<longrightarrow> (\<exists>hm. sw_heatmap res = Some hm
        \<and> x_values hm = sort (sp_values px) \<and> y_values hm = sort (sp_values py)
        \<and> (\<forall>i<length (x_values hm). \<forall>j<length (y_values hm). \<exists>r. run_combination io run cfg [x_values hm ! i, y_values hm ! j] = Inr r
            \<and> hm_values hm ! j ! i = cell r)))
    \<and> (length (sc_parameters cfg) \<noteq> 2 \<longrightarrow> sw_heatmap res = None)"
proof -
  let ?ps = "sc_parameters cfg"
  let ?l = "combination_label (io_format io) (map sp_name ?ps)" and ?combos = "product_lists (map sp_values ?ps)"
  have pos: "\<forall>p\<in>set ?ps. sp_values p \<noteq> []"
  proof (rule ccontr)
    assume "\<not> (\<forall>p\<in>set ?ps. sp_values p \<noteq> [])"
    then have "cross_product ?ps = Some None" by (intro cross_product_panic) blast
    with assms(1) show False by (simp add: run_sweep_def split: if_splits option.splits)
  qed
  from assms(1) obtain es m where loop: "sweep_loop io run ctx cfg ?combos [] Map.empty = Inr (es, m)"
    and fin: "finish_sweep io cfg es m = Inr res"
    by (auto simp: run_sweep_def cross_product_all [OF assms(2) pos] split: if_splits option.splits sum.splits)
  have "inj_on ?l (set ?combos)" using labels_distinct [OF assms(3)] by (intro inj_onI) blast
  moreover have "distinct ?combos" using assms(4) by (intro distinct_product_lists) auto
  ultimately have d: "distinct (map ?l ?combos)" by (simp add: distinct_map)
  from sweep_loop_result [OF loop d] have es: "map se_subdir es = map ?l ?combos"
    and cells: "\<forall>vals\<in>set ?combos. \<exists>r. run_combination io run cfg vals = Inr r \<and> (case m (?l vals) of None \<Rightarrow> 0 | Some v \<Rightarrow> v) = cell r"
    by simp_all
  have idx: "si_results (sw_index res) = es" using fin by (auto simp: finish_sweep_def Let_def split: option.splits list.splits)
  have hm: "\<exists>hm. sw_heatmap res = Some hm \<and> x_values hm = sort (sp_values px) \<and> y_values hm = sort (sp_values py)
      \<and> (\<forall>i<length (x_values hm). \<forall>j<length (y_values hm). \<exists>r. run_combination io run cfg [x_values hm ! i, y_values hm ! j] = Inr r
          \<and> hm_values hm ! j ! i = cell r)" if ps: "?ps = [px, py]" for px py
  proof -
    have "sw_heatmap res = Some (build_heatmap (io_format io) px py m)"
      using fin by (auto simp: finish_sweep_def ps Let_def split: option.splits)
    moreover have "\<exists>r. run_combination io run cfg [sort (sp_values px) ! i, sort (sp_values py) ! j] = Inr r
        \<and> (case m (?l [sort (sp_values px) ! i, sort (sp_values py) ! j]) of None \<Rightarrow> 0 | Some v \<Rightarrow> v) = cell r"
      if "i < length (sp_values px)" "j < length (sp_values py)" for i j
    proof -
      have "sort (sp_values px) ! i \<in> set (sort (sp_values px))" "sort (sp_values py) ! j \<in> set (sort (sp_values py))"
        using that by (intro nth_mem; simp)+
      then have "[sort (sp_values px) ! i, sort (sp_values py) ! j] \<in> set ?combos"
        by (simp add: ps product_lists_set del: product_lists.simps)
      with cells show ?thesis by blast
    qed
    ultimately show ?thesis by (auto simp: build_heatmap_def ps Let_def)
  qed
  have none: "sw_heatmap res = None" if "length ?ps \<noteq> 2"
    using fin that by (auto simp: finish_sweep_def Let_def split: option.splits list.splits)
  from es cells idx hm none show ?thesis by blast
qed

section \<open>An example\<close>

definition demo_parameters :: "sweep_parameter list" where
  "demo_parameters = [\<lparr>sp_name = ''clients'', sp_path = ''clients.count'', sp_values = [2, 1]\<rparr>,
     \<lparr>sp_name = ''secs'', sp_path = ''content.duration_seconds'', sp_values = [8, 4]\<rparr>]"

definition demo_sweep :: sweep_config where
  "demo_sweep = \<lparr>sc_name = ''s'', sc_description = [], sc_base = demo_config, sc_parameters = demo_parameters, sc_output_dir = ''out''\<rparr>"

definition demo_io :: sweep_io where
  "demo_io = \<lparr>io_mkdir = (\<lambda>d. None), io_join = (\<lambda>d f. d @ CHR ''/'' # f), io_copy = Inr, io_format = (\<lambda>v. ''0.5''),
     io_write_json = (\<lambda>r d. None), io_write_csv = (\<lambda>r d. None), io_write_index = (\<lambda>i p. None), io_write_heatmap = (\<lambda>h p. None)\<rparr>"

text \<open>A runner that only reports the configuration.\<close>

definition demo_runner :: "experiment_config \<Rightarrow> experiment_error + experiment_results" where
  "demo_runner c = Inr \<lparr>er_config = c, er_by_protocol = Map.empty, er_comparison = None, er_enhanced = None, er_raw = []\<rparr>"

lemma near_int_whole: "\<bar>n\<bar> < 2 ^ 63 \<Longrightarrow> near_int (of_int n)"
proof -
  assume n: "\<bar>n\<bar> < 2 ^ 63"
  have "0 < fl (1 / 10 ^ 9)" by (rule fl_pos) simp
  moreover have "\<bar>real_of_int n\<bar> < 2 ^ 63" using n by (metis of_int_abs of_int_less_iff of_int_numeral of_int_power)
  ultimately show ?thesis by (simp add: near_int_def fsub_def)
qed

lemma demo_sweep_ok: "sweep_ok fmt demo_parameters"
proof -
  have "near_int (1 :: real)" "near_int (2 :: real)" "near_int (4 :: real)" "near_int (8 :: real)"
    using near_int_whole [of 1] near_int_whole [of 2] near_int_whole [of 4] near_int_whole [of 8] by simp_all
  then show ?thesis by (simp add: sweep_ok_def demo_parameters_def spaced_def format_ok_def)
qed

lemma demo_config_ok: "config_ok demo_config"
  using default_alpha by (simp add: config_ok_def demo_config_def blank_config_def fill_defaults_def default_content_def default_cache_def Let_def)

lemma demo_combination:
  assumes "x \<in> {1, 2}" "y \<in> {4, 8}"
  shows "\<exists>r. run_combination demo_io demo_runner demo_sweep [x, y] = Inr r"
proof -
  have f: "f2i 1 = 1" "f2i 2 = 2" "f2i 4 = 4" "f2i 8 = 8"
    using f2i_of_int [of 1] f2i_of_int [of 2] f2i_of_int [of 4] f2i_of_int [of 8] by (simp_all add: int64_defs)
  let ?l = "combination_label (io_format demo_io) (map sp_name demo_parameters) [x, y]"
  let ?q = "demo_config\<lparr>ex_clients := (ex_clients demo_config)\<lparr>cc_count := f2i x\<rparr>, ex_content := (ex_content demo_config)\<lparr>duration_seconds := f2i y\<rparr>,
      ex_seed := combination_seed (ex_seed demo_config) ?l, ex_output := (ex_output demo_config)\<lparr>out_dir := io_join demo_io ''out'' ?l\<rparr>,
      ex_name := ex_name demo_config @ ''/'' @ ?l\<rparr>"
  have "config_ok ?q" using demo_config_ok assms by (auto simp: config_ok_def f)
  from validate_id [OF this] have "patch demo_io demo_sweep [x, y] = Inr ?q"
    by (simp add: patch_def demo_io_def demo_sweep_def demo_parameters_def apply_override_def Let_def)
  then show ?thesis by (simp add: run_combination_def demo_runner_def Let_def) (simp add: demo_io_def)
qed

lemma demo_sweep_fields:
  "sc_parameters demo_sweep = demo_parameters" "sc_output_dir demo_sweep = ''out''"
  "product_lists (map sp_values demo_parameters) = [[2, 8], [2, 4], [1, 8], [1, 4]]"
  "demo_parameters \<noteq> []" "\<forall>p\<in>set demo_parameters. distinct (sp_values p)"
  by (simp_all add: demo_sweep_def demo_parameters_def)

lemma demo_sweep_runs: "\<exists>res. run_sweep demo_io demo_runner None demo_sweep = Some (Inr res)"
proof -
  have cp: "cross_product demo_parameters = Some (Some [[2, 8], [2, 4], [1, 8], [1, 4]])"
    using cross_product_all [of demo_parameters] by (simp only: demo_sweep_fields(3)) (simp add: demo_parameters_def)
  have "\<exists>es m. sweep_loop demo_io demo_runner None demo_sweep [[2, 8], [2, 4], [1, 8], [1, 4]] [] Map.empty = Inr (es, m)"
    using demo_combination [of 2 8] demo_combination [of 2 4] demo_combination [of 1 8] demo_combination [of 1 4]
    by (auto simp: Let_def)
  then obtain es m where loop: "sweep_loop demo_io demo_runner None demo_sweep [[2, 8], [2, 4], [1, 8], [1, 4]] [] Map.empty = Inr (es, m)" by blast
  have "\<exists>res. finish_sweep demo_io demo_sweep es m = Inr res"
    by (simp add: finish_sweep_def demo_io_def demo_sweep_def demo_parameters_def Let_def)
  moreover have "io_mkdir demo_io d = None" for d by (simp add: demo_io_def)
  ultimately show ?thesis
    unfolding run_sweep_def demo_sweep_fields(1) cp by (simp add: loop demo_sweep_fields(2) del: sweep_loop.simps)
qed

theorem sweep_results_witness:
  "\<exists>res hm. run_sweep demo_io demo_runner None demo_sweep = Some (Inr res) \<and> sw_heatmap res = Some hm \<and> x_values hm = [1, 2]
    \<and> length (si_results (sw_index res)) = 4"
proof -
  obtain res where r: "run_sweep demo_io demo_runner None demo_sweep = Some (Inr res)" using demo_sweep_runs by blast
  let ?ps = "sc_parameters demo_sweep"
  have "?ps \<noteq> []" "\<forall>p\<in>set ?ps. distinct (sp_values p)" "sweep_ok (io_format demo_io) ?ps"
    using demo_sweep_ok demo_sweep_fields by simp_all
  from sweep_results [OF r this(1,3,2)] have "length (si_results (sw_index res)) = 4" "\<exists>hm. sw_heatmap res = Some hm \<and> x_values hm = [1, 2]"
    unfolding demo_sweep_fields by (auto simp: demo_parameters_def dest: arg_cong [of _ _ length])
  with r show ?thesis by blast
qed

end
