(* ===== verification/Reference.thy ===== *)
theory Reference
  imports Comparison
begin

text \<open>
  The two checks of results against something outside the model: \<open>internal/experiment/reference.go\<close>, which compares the
  improvements of a report with published envelopes, and \<open>internal/experiment/validate.go\<close>, which compares modeled with
  emulated metrics.
\<close>

section \<open>Published envelopes\<close>

record reference_range =
  rf_metric :: string
  rf_condition :: string
  rf_min :: real
  rf_max :: real
  rf_source :: string

record validation_warning =
  vw_metric :: string
  vw_condition :: string
  vw_observed :: real
  vw_min :: real
  vw_max :: real
  vw_severity :: string
  vw_source :: string
  vw_message :: string

definition mk_range :: "string \<Rightarrow> string \<Rightarrow> real \<Rightarrow> real \<Rightarrow> string \<Rightarrow> reference_range" where
  "mk_range m c lo hi src = \<lparr>rf_metric = m, rf_condition = c, rf_min = lo, rf_max = hi, rf_source = src\<rparr>"

text \<open>The section sign, in UTF-8.\<close>

definition section_sign :: string where "section_sign = [CHR 0xC2, CHR 0xA7]"

definition reference_ranges :: "reference_range list" where
  "reference_ranges = [
     mk_range ''p95_segment_latency'' ''baseline'' (- 4) 12 ''Cloudflare 2020 blog HTTP/3 vs HTTP/2'',
     mk_range ''p95_segment_latency'' ''moderate_loss'' 8 22 ''Langley+2017 SIGCOMM Table 1; Meta 2020 engineering blog QUIC to billions'',
     mk_range ''p95_segment_latency'' ''high_loss'' 0 45
       (''Langley+2017 '' @ section_sign @ ''6.6; Meta 2020; Kosek+2021 arXiv Measuring HTTP/3''),
     mk_range ''rebuffer_duration'' ''moderate_loss'' 15 25 ''Langley+2017 SIGCOMM Table 2; Meta 2020 engineering blog QUIC to billions'',
     mk_range ''rebuffer_duration'' ''high_loss'' 30 100 ''Langley+2017 SIGCOMM Table 2'',
     mk_range ''startup_latency'' ''baseline'' 3 13 ''Cloudflare 2020 blog HTTP/3 vs HTTP/2; Langley+2017 SIGCOMM Table 1'',
     mk_range ''startup_latency'' ''moderate_loss'' 8 22 ''Langley+2017 SIGCOMM Table 1; Meta 2020 engineering blog QUIC to billions'']"

definition metric_aliases :: "string \<rightharpoonup> string" where
  "metric_aliases = [''p95_segment_latency'' \<mapsto> ''segment_latency_p95_ms'', ''startup_latency'' \<mapsto> ''startup_latency_p95_ms'',
     ''rebuffer_duration'' \<mapsto> ''rebuffer_duration_ms'']"

definition by_metric :: "comparison_report \<Rightarrow> string \<rightharpoonup> improvement_result" where
  "by_metric c = foldl (\<lambda>m r. m(ir_metric r \<mapsto> r)) Map.empty (cr_improvement c)"

text \<open>The body of the loop over the ranges: a warning, or the next range.\<close>

definition check_range :: "(string \<rightharpoonup> improvement_result) \<Rightarrow> string \<Rightarrow> reference_range \<Rightarrow> validation_warning option" where
  "check_range m cond ref = (if rf_condition ref \<noteq> cond then None
     else case metric_aliases (rf_metric ref) of None \<Rightarrow> None
     | Some alias \<Rightarrow> (case m alias of None \<Rightarrow> None
       | Some imp \<Rightarrow> let obs = ir_pct imp in
         if rf_min ref \<le> obs \<and> obs \<le> rf_max ref then None
         else let envelope = ''['' @ fmt_fixed 1 (rf_min ref) @ ''%, '' @ fmt_fixed 1 (rf_max ref) @ ''%] for '' @ cond;
              start = ''QUIC improvement on '' @ rf_metric ref @ '' ('' @ fmt_fixed 1 obs
           in Some \<lparr>vw_metric = rf_metric ref, vw_condition = cond, vw_observed = obs, vw_min = rf_min ref, vw_max = rf_max ref,
             vw_severity = (if obs < rf_min ref then ''warn'' else ''info''), vw_source = rf_source ref,
             vw_message = (if obs < rf_min ref
               then start @ ''%) underperformed published envelope '' @ envelope @ ''; investigate model parameters''
               else start @ ''%) exceeds published envelope '' @ envelope @ ''; model may be overly optimistic'')\<rparr>))"

definition validate_against_reference :: "comparison_report option \<Rightarrow> string \<Rightarrow> validation_warning list" where
  "validate_against_reference c cond = (case c of None \<Rightarrow> []
     | Some c \<Rightarrow> List.map_filter (check_range (by_metric c) cond) reference_ranges)"

section \<open>Cross validation\<close>

record validation_result =
  vr_metric :: string
  vr_modeled :: real
  vr_emulated :: real
  vr_deviation :: real
  vr_tolerance :: real
  vr_within :: bool

record cross_validation_report =
  cv_scenario :: string
  cv_results :: "validation_result list"
  cv_pass_rate :: real
  cv_ok :: bool

definition tol_p50 :: real where "tol_p50 = 20"
definition tol_tail :: real where "tol_tail = 30"
definition tol_session :: real where "tol_session = 25"

definition deviation_pct :: "real \<Rightarrow> real \<Rightarrow> real" where
  "deviation_pct m e = (if e = 0 then (if m = 0 then 0 else 100) else fmul (fdiv \<bar>fsub m e\<bar> \<bar>e\<bar>) 100)"

text \<open>The metrics compared, in order: name, value of a set of metrics, tolerance.\<close>

definition validation_items :: "(string \<times> (aggregated_metrics \<Rightarrow> real) \<times> real) list" where
  "validation_items = [
     (''segment_latency_p50_ms'', \<lambda>a. ps_p50 (segment_latency a), tol_p50),
     (''segment_latency_p95_ms'', \<lambda>a. ps_p95 (segment_latency a), tol_tail),
     (''segment_latency_p99_ms'', \<lambda>a. ps_p99 (segment_latency a), tol_tail),
     (''startup_latency_p50_ms'', \<lambda>a. ps_p50 (am_startup a), tol_p50),
     (''startup_latency_p95_ms'', \<lambda>a. ps_p95 (am_startup a), tol_tail),
     (''startup_latency_p99_ms'', \<lambda>a. ps_p99 (am_startup a), tol_tail),
     (''rebuffer_count_mean'', \<lambda>a. ss_mean (am_rebuffer_count a), tol_session),
     (''rebuffer_duration_mean_ms'', \<lambda>a. ss_mean (am_rebuffer_duration a), tol_session),
     (''avg_bitrate_mean_kbps'', \<lambda>a. ss_mean (am_avg_bitrate a), tol_session),
     (''cache_hit_rate_mean_pct'', \<lambda>a. ss_mean (am_hit_rate a), tol_session),
     (''goodput_mbps_p50'', \<lambda>a. ps_p50 (am_goodput a), tol_session)]"

definition cross_validate :: "aggregated_metrics option \<Rightarrow> aggregated_metrics option \<Rightarrow> validation_result list" where
  "cross_validate modeled emulated = (case (modeled, emulated) of
     (Some m, Some e) \<Rightarrow> map (\<lambda>(name, f, tol). let dev = deviation_pct (f m) (f e) in
       \<lparr>vr_metric = name, vr_modeled = f m, vr_emulated = f e, vr_deviation = dev, vr_tolerance = tol, vr_within = (dev \<le> tol)\<rparr>) validation_items
   | _ \<Rightarrow> [])"

definition build_cross_validation_report :: "string \<Rightarrow> aggregated_metrics option \<Rightarrow> aggregated_metrics option \<Rightarrow> cross_validation_report" where
  "build_cross_validation_report scenario modeled emulated = (let
       results = cross_validate modeled emulated;
       passed = int (length (filter vr_within results));
       rate = (if results \<noteq> [] then fmul (fdiv (i2f passed) (i2f (int (length results)))) 100 else 0)
     in \<lparr>cv_scenario = scenario, cv_results = results, cv_pass_rate = rate, cv_ok = (rate \<ge> 80)\<rparr>)"

section \<open>The envelopes are all checked\<close>

lemma map_filter_cond:
  "\<forall>r\<in>set rs. f r = (if P r then Some (w r) else None) \<Longrightarrow> List.map_filter f rs = map w (filter P rs)"
  by (induction rs) auto

lemma compare_metrics: "map ir_metric (cr_improvement (fst (compare R c scenario t q g)))
    = [''segment_latency_p95_ms'', ''startup_latency_p95_ms'', ''rebuffer_duration_ms'', ''rebuffer_count'', ''avg_bitrate_kbps'']"
  by (simp add: compare_def compare_rows_def improvement_fields(1) Let_def case_prod_unfold)

text \<open>The improvement a report gives for the metric of a range.\<close>

definition observed :: "comparison_report \<Rightarrow> reference_range \<Rightarrow> real" where
  "observed rep ref = ir_pct (hd (filter (\<lambda>i. metric_aliases (rf_metric ref) = Some (ir_metric i)) (cr_improvement rep)))"

definition outside :: "comparison_report \<Rightarrow> reference_range \<Rightarrow> bool" where
  "outside rep ref \<longleftrightarrow> observed rep ref < rf_min ref \<or> rf_max ref < observed rep ref"

lemma five_rows: "map f xs = [a, b, c, d, e] \<Longrightarrow> \<exists>r1 r2 r3 r4 r5. xs = [r1, r2, r3, r4, r5] \<and> f r1 = a \<and> f r2 = b \<and> f r3 = c \<and> f r4 = d \<and> f r5 = e"
  by (auto simp: map_eq_Cons_conv)

lemma check_range_compare:
  assumes "rep = fst (compare R c scenario t q g)" "ref \<in> set reference_ranges"
  shows "\<exists>w. check_range (by_metric rep) cond ref = (if rf_condition ref = cond \<and> outside rep ref then Some w else None)
    \<and> vw_metric w = rf_metric ref \<and> vw_condition w = cond \<and> vw_observed w = observed rep ref \<and> vw_min w = rf_min ref \<and> vw_max w = rf_max ref
    \<and> vw_severity w = (if observed rep ref < rf_min ref then ''warn'' else ''info'')"
proof -
  have "\<exists>r1 r2 r3 r4 r5. cr_improvement rep = [r1, r2, r3, r4, r5] \<and> ir_metric r1 = ''segment_latency_p95_ms'' \<and> ir_metric r2 = ''startup_latency_p95_ms''
      \<and> ir_metric r3 = ''rebuffer_duration_ms'' \<and> ir_metric r4 = ''rebuffer_count'' \<and> ir_metric r5 = ''avg_bitrate_kbps''"
    unfolding assms(1) by (rule five_rows [OF compare_metrics])
  then obtain r1 r2 r3 r4 r5 where rows: "cr_improvement rep = [r1, r2, r3, r4, r5]" and names: "ir_metric r1 = ''segment_latency_p95_ms''"
    "ir_metric r2 = ''startup_latency_p95_ms''" "ir_metric r3 = ''rebuffer_duration_ms''" "ir_metric r4 = ''rebuffer_count''"
    "ir_metric r5 = ''avg_bitrate_kbps''" by blast
  have m: "by_metric rep ''segment_latency_p95_ms'' = Some r1" "by_metric rep ''startup_latency_p95_ms'' = Some r2"
    "by_metric rep ''rebuffer_duration_ms'' = Some r3" by (simp_all add: by_metric_def rows names)
  have "rf_metric ref \<in> {''p95_segment_latency'', ''startup_latency'', ''rebuffer_duration''}" "rf_min ref \<le> rf_max ref"
    using assms(2) by (auto simp: reference_ranges_def mk_range_def)
  then obtain al r where a: "metric_aliases (rf_metric ref) = Some al" "by_metric rep al = Some r" "observed rep ref = ir_pct r"
    using m by (auto simp: metric_aliases_def observed_def rows names)
  have range: "rf_min ref \<le> rf_max ref" using assms(2) by (auto simp: reference_ranges_def mk_range_def)
  show ?thesis
  proof (cases "check_range (by_metric rep) cond ref")
    case None
    then have no: "\<not> (rf_condition ref = cond \<and> outside rep ref)"
      by (auto simp: check_range_def a outside_def Let_def split: if_splits)
    show ?thesis unfolding None using no
      by (intro exI [of _ "\<lparr>vw_metric = rf_metric ref, vw_condition = cond, vw_observed = observed rep ref, vw_min = rf_min ref, vw_max = rf_max ref,
        vw_severity = (if observed rep ref < rf_min ref then ''warn'' else ''info''), vw_source = [], vw_message = []\<rparr>"]) simp
  next
    case (Some w)
    then have "rf_condition ref = cond \<and> outside rep ref" using range
      by (auto simp: check_range_def a outside_def Let_def not_le split: if_splits)
    moreover have "vw_metric w = rf_metric ref \<and> vw_condition w = cond \<and> vw_observed w = observed rep ref \<and> vw_min w = rf_min ref \<and> vw_max w = rf_max ref
        \<and> vw_severity w = (if observed rep ref < rf_min ref then ''warn'' else ''info'')"
      using Some by (auto simp: check_range_def a Let_def split: if_splits)
    ultimately show ?thesis using Some by (intro exI [of _ w]) simp
  qed
qed

text \<open>The reference check misses nothing. On every report the collector makes, the warnings for a condition are, in the order
  of the envelopes, exactly one for each envelope of that condition the observed improvement is outside of: a \<open>warn\<close> below its
  minimum, an \<open>info\<close> above its maximum. No envelope is skipped for want of its metric, and a condition without envelopes, or no
  report, gives no warning.\<close>

lemma reference_check:
  "let rep = fst (compare R c scenario t q g); ws = validate_against_reference (Some rep) cond;
       out = filter (\<lambda>ref. rf_condition ref = cond \<and> outside rep ref) reference_ranges
   in map (\<lambda>w. (vw_metric w, vw_condition w, vw_min w, vw_max w, vw_observed w, vw_severity w)) ws
        = map (\<lambda>ref. (rf_metric ref, cond, rf_min ref, rf_max ref, observed rep ref,
            if observed rep ref < rf_min ref then ''warn'' else ''info'')) out
      \<and> (ws = [] \<or> cond \<in> {''baseline'', ''moderate_loss'', ''high_loss''}) \<and> validate_against_reference None cond = []"
proof -
  define rep where "rep = fst (compare R c scenario t q g)"
  let ?P = "\<lambda>ref. rf_condition ref = cond \<and> outside rep ref"
  have "\<exists>w. \<forall>ref\<in>set reference_ranges. check_range (by_metric rep) cond ref = (if ?P ref then Some (w ref) else None)
      \<and> vw_metric (w ref) = rf_metric ref \<and> vw_condition (w ref) = cond \<and> vw_observed (w ref) = observed rep ref
      \<and> vw_min (w ref) = rf_min ref \<and> vw_max (w ref) = rf_max ref
      \<and> vw_severity (w ref) = (if observed rep ref < rf_min ref then ''warn'' else ''info'')"
    using check_range_compare [OF rep_def, of _ cond] by (intro bchoice) blast
  then obtain w where w: "\<forall>ref\<in>set reference_ranges. check_range (by_metric rep) cond ref = (if ?P ref then Some (w ref) else None)
      \<and> vw_metric (w ref) = rf_metric ref \<and> vw_condition (w ref) = cond \<and> vw_observed (w ref) = observed rep ref
      \<and> vw_min (w ref) = rf_min ref \<and> vw_max (w ref) = rf_max ref
      \<and> vw_severity (w ref) = (if observed rep ref < rf_min ref then ''warn'' else ''info'')" by blast
  have "List.map_filter (check_range (by_metric rep) cond) reference_ranges = map w (filter ?P reference_ranges)"
    by (rule map_filter_cond) (use w in blast)
  then have v: "validate_against_reference (Some rep) cond = map w (filter ?P reference_ranges)" by (simp add: validate_against_reference_def)
  have "filter ?P reference_ranges = []" if "cond \<notin> {''baseline'', ''moderate_loss'', ''high_loss''}"
    using that by (auto simp: reference_ranges_def mk_range_def)
  with w show ?thesis unfolding Let_def rep_def [symmetric] v by (auto simp: validate_against_reference_def)
qed

section \<open>The cross-validation verdict\<close>

text \<open>The pass rate of \<open>k\<close> out of eleven metrics reaches 80 from nine on: each case is computed.\<close>

lemma pass_rate:
  assumes "k \<le> 11"
  shows "80 \<le> fmul (fdiv (i2f (int k)) (i2f 11)) 100 \<longleftrightarrow> 9 \<le> k"
    and "k = 11 \<Longrightarrow> fmul (fdiv (i2f (int k)) (i2f 11)) 100 = 100"
proof -
  let ?f = "\<lambda>k. fmul (fdiv (i2f (int k)) (i2f 11)) 100"
  have mono: "i \<le> j \<Longrightarrow> ?f i \<le> ?f j" for i j
    unfolding float_ops by (intro fl_mono mult_right_mono divide_right_mono fl_nonneg) simp_all
  have "?f 8 < 80" "80 \<le> ?f 9" by code_simp+
  then show "80 \<le> ?f k \<longleftrightarrow> 9 \<le> k" using mono [of 9 k] mono [of k 8] by (cases "9 \<le> k") auto
  have "fmul (fdiv (i2f (int 11)) (i2f 11)) 100 = 100" by code_simp
  then show "k = 11 \<Longrightarrow> fmul (fdiv (i2f (int k)) (i2f 11)) 100 = 100" by simp
qed

lemma pass_rate_exact:
  assumes "k \<le> 11"
  shows "\<bar>fmul (fdiv (i2f (int k)) (i2f 11)) 100 - 100 * real k / 11\<bar> \<le> 1 / 10 ^ 9"
proof -
  have k: "i2f (int k) = real k" "i2f 11 = 11" using assms fl_int [of "int k"] fl_int [of 11] by (simp_all add: float_ops)
  let ?q = "fl (real k / 11)"
  have q: "\<bar>?q - real k / 11\<bar> \<le> 1 / 2 ^ 53" using fl_error [of "real k / 11"] assms by (simp add: field_simps)
  have "?q \<le> 1" using assms fl_le_int [of "real k / 11" 1] by simp
  moreover have "0 \<le> ?q" by (simp add: fl_nonneg)
  ultimately have "\<bar>fl (?q * 100) - ?q * 100\<bar> \<le> 200 / 2 ^ 53" using fl_error [of "?q * 100"] by simp
  moreover have "\<bar>?q * 100 - 100 * real k / 11\<bar> \<le> 100 / 2 ^ 53"
  proof -
    have "?q * 100 - 100 * real k / 11 = 100 * (?q - real k / 11)" by simp
    then show ?thesis using q by (simp only: abs_mult)
  qed
  ultimately have "\<bar>fl (?q * 100) - 100 * real k / 11\<bar> \<le> 300 / 2 ^ 53" by linarith
  then show ?thesis unfolding k by (simp add: float_ops)
qed

lemma validation_items_tol: "(name, f, tol) \<in> set validation_items \<Longrightarrow> 0 \<le> tol \<and> tol < 100"
  by (auto simp: validation_items_def tol_p50_def tol_tail_def tol_session_def)

text \<open>What is compared, with the tolerance in percent: 20 for medians of latency, 30 for their tails, 25 for means of sessions and for goodput. And
  when two values agree within one: their difference in percent of the emulated value, or 100 when only that is zero.\<close>

definition compared :: "(string \<times> (aggregated_metrics \<Rightarrow> real) \<times> real) list" where
  "compared = [(''segment_latency_p50_ms'', \<lambda>a. ps_p50 (segment_latency a), 20), (''segment_latency_p95_ms'', \<lambda>a. ps_p95 (segment_latency a), 30),
     (''segment_latency_p99_ms'', \<lambda>a. ps_p99 (segment_latency a), 30), (''startup_latency_p50_ms'', \<lambda>a. ps_p50 (am_startup a), 20),
     (''startup_latency_p95_ms'', \<lambda>a. ps_p95 (am_startup a), 30), (''startup_latency_p99_ms'', \<lambda>a. ps_p99 (am_startup a), 30),
     (''rebuffer_count_mean'', \<lambda>a. ss_mean (am_rebuffer_count a), 25), (''rebuffer_duration_mean_ms'', \<lambda>a. ss_mean (am_rebuffer_duration a), 25),
     (''avg_bitrate_mean_kbps'', \<lambda>a. ss_mean (am_avg_bitrate a), 25), (''cache_hit_rate_mean_pct'', \<lambda>a. ss_mean (am_hit_rate a), 25),
     (''goodput_mbps_p50'', \<lambda>a. ps_p50 (am_goodput a), 25)]"

definition agrees :: "aggregated_metrics \<Rightarrow> aggregated_metrics \<Rightarrow> string \<times> (aggregated_metrics \<Rightarrow> real) \<times> real \<Rightarrow> bool" where
  "agrees m e x = (case x of (name, f, tol) \<Rightarrow>
     if f e = 0 then f m = 0 else fmul (fdiv \<bar>fsub (f m) (f e)\<bar> \<bar>f e\<bar>) 100 \<le> tol)"

lemma compared_items: "validation_items = compared"
  unfolding validation_items_def compared_def tol_p50_def tol_tail_def tol_session_def ..

lemma agrees_within: "x \<in> set compared \<Longrightarrow> agrees m e x \<longleftrightarrow> deviation_pct (fst (snd x) m) (fst (snd x) e) \<le> snd (snd x)"
  using validation_items_tol [of "fst x" "fst (snd x)" "snd (snd x)"] unfolding compared_items
  by (auto simp: agrees_def deviation_pct_def case_prod_unfold)

text \<open>C30: The cross-validation verdict. A report on two sets of metrics has one result for each of the eleven values compared, in order, with both values
  and whether they agree within the tolerance of that value; its pass rate is the share of those that do, in percent (to nine digits), and it is
  positive exactly when at least nine do, which floating point decides as the exact quotient would. Equal
  sets pass with a rate of exactly 100; a value that is zero when emulated and not when modeled never agrees;
  and without both sets there is no positive report, and the rate is 0.\<close>

theorem cross_validation_verdict:
  "(let rep = build_cross_validation_report scenario (Some m) (Some e); k = length (filter (agrees m e) compared) in
      map (\<lambda>r. (vr_metric r, vr_modeled r, vr_emulated r, vr_tolerance r, vr_within r)) (cv_results rep)
        = map (\<lambda>(name, f, tol). (name, f m, f e, tol, agrees m e (name, f, tol))) compared
      \<and> \<bar>cv_pass_rate rep - 100 * real k / 11\<bar> \<le> 1 / 10 ^ 9
      \<and> (cv_ok rep \<longleftrightarrow> 9 \<le> k)
      \<and> (map (\<lambda>(name, f, tol). f m) compared = map (\<lambda>(name, f, tol). f e) compared \<longrightarrow> cv_ok rep \<and> cv_pass_rate rep = 100)
      \<and> (\<forall>r\<in>set (cv_results rep). vr_emulated r = 0 \<and> vr_modeled r \<noteq> 0 \<longrightarrow> \<not> vr_within r))
    \<and> (\<forall>rep\<in>{build_cross_validation_report scenario None x, build_cross_validation_report scenario y None}. \<not> cv_ok rep \<and> cv_pass_rate rep = 0)"
proof (intro conjI)
  let ?rep = "build_cross_validation_report scenario (Some m) (Some e)"
  let ?res = "cross_validate (Some m) (Some e)"
  let ?k = "length (filter (agrees m e) compared)"
  have res: "cv_results ?rep = ?res" by (simp add: build_cross_validation_report_def Let_def)
  have r: "?res = map (\<lambda>x. \<lparr>vr_metric = fst x, vr_modeled = fst (snd x) m, vr_emulated = fst (snd x) e,
      vr_deviation = deviation_pct (fst (snd x) m) (fst (snd x) e), vr_tolerance = snd (snd x), vr_within = agrees m e x\<rparr>) compared"
    unfolding cross_validate_def compared_items by (simp add: case_prod_unfold Let_def agrees_within)
  have len: "length ?res = 11" by (simp add: r compared_def)
  have count: "length (filter vr_within ?res) = ?k" unfolding r by (simp add: filter_map comp_def)
  have k: "?k \<le> 11" using length_filter_le [of "agrees m e" compared] by (simp add: compared_def)
  have ne: "?res \<noteq> []" using len by auto
  have rate: "cv_pass_rate ?rep = fmul (fdiv (i2f (int ?k)) (i2f 11)) 100" "cv_ok ?rep = (80 \<le> fmul (fdiv (i2f (int ?k)) (i2f 11)) 100)"
    using ne by (simp_all add: build_cross_validation_report_def Let_def len count)
  have rows: "map (\<lambda>r. (vr_metric r, vr_modeled r, vr_emulated r, vr_tolerance r, vr_within r)) ?res
      = map (\<lambda>(name, f, tol). (name, f m, f e, tol, agrees m e (name, f, tol))) compared"
    unfolding r by (simp add: case_prod_unfold)
  have all: "?k = 11" if eq: "map (\<lambda>(name, f, tol). f m) compared = map (\<lambda>(name, f, tol). f e) compared"
  proof -
    have "agrees m e x" if "x \<in> set compared" for x
    proof -
      have "\<forall>x\<in>set compared. (\<lambda>(name, f, tol). f m) x = (\<lambda>(name, f, tol). f e) x" using eq by (simp only: map_eq_conv)
      with that have "fst (snd x) m = fst (snd x) e" by (force simp: case_prod_unfold)
      moreover have "0 \<le> snd (snd x)" using validation_items_tol [of "fst x" "fst (snd x)" "snd (snd x)"] that by (simp add: compared_items)
      ultimately show ?thesis by (simp add: agrees_def case_prod_unfold fsub_def fdiv_def fmul_def)
    qed
    then have "filter (agrees m e) compared = compared" by (simp add: filter_id_conv)
    then show ?thesis by (simp add: compared_def)
  qed
  have zero: "\<forall>r\<in>set ?res. vr_emulated r = 0 \<and> vr_modeled r \<noteq> 0 \<longrightarrow> \<not> vr_within r"
    unfolding r by (auto simp: agrees_def case_prod_unfold)
  have ok: "cv_ok ?rep \<longleftrightarrow> 9 \<le> ?k" using pass_rate(1) [OF k] rate(2) by simp
  have full: "cv_ok ?rep \<and> cv_pass_rate ?rep = 100"
    if "map (\<lambda>(name, f, tol). f m) compared = map (\<lambda>(name, f, tol). f e) compared"
    using pass_rate [OF k] all [OF that] rate by simp
  show "let rep = ?rep; k = ?k in
      map (\<lambda>r. (vr_metric r, vr_modeled r, vr_emulated r, vr_tolerance r, vr_within r)) (cv_results rep)
        = map (\<lambda>(name, f, tol). (name, f m, f e, tol, agrees m e (name, f, tol))) compared
      \<and> \<bar>cv_pass_rate rep - 100 * real k / 11\<bar> \<le> 1 / 10 ^ 9
      \<and> (cv_ok rep \<longleftrightarrow> 9 \<le> k)
      \<and> (map (\<lambda>(name, f, tol). f m) compared = map (\<lambda>(name, f, tol). f e) compared \<longrightarrow> cv_ok rep \<and> cv_pass_rate rep = 100)
      \<and> (\<forall>r\<in>set (cv_results rep). vr_emulated r = 0 \<and> vr_modeled r \<noteq> 0 \<longrightarrow> \<not> vr_within r)"
    unfolding Let_def res using rows ok zero full pass_rate_exact [OF k, folded rate(1)] by blast
  show "\<forall>rep\<in>{build_cross_validation_report scenario None x, build_cross_validation_report scenario y None}. \<not> cv_ok rep \<and> cv_pass_rate rep = 0"
    by (simp add: build_cross_validation_report_def cross_validate_def Let_def split: option.split)
qed

theorem cross_validation_verdict_witness:
  "cv_ok (build_cross_validation_report ''s'' (Some (empty_metrics ''tcp-h2'')) (Some (empty_metrics ''quic-h3'')))"
proof -
  let ?m = "empty_metrics ''tcp-h2''" and ?e = "empty_metrics ''quic-h3''"
  have "map (\<lambda>(name, f, tol). f ?m) compared = map (\<lambda>(name, f, tol). f ?e) compared"
    by (simp add: compared_def empty_metrics_def)
  then show ?thesis using cross_validation_verdict [of "''s''" ?m ?e None None] unfolding Let_def by blast
qed

end
