(* ===== verification/Servers.thy ===== *)
theory Servers
  imports EdgeConc Emulated
begin

text \<open>
  Client, edge and origin together: what the origin of \<open>cmd/origin-server/main.go\<close> sends for a path, as the upstream of the edge.
  The edge asks for \<open>originBase+key\<close>, so the path goes through the URL parser of \<open>net/url\<close> and the request multiplexer of
  \<open>net/http\<close> once more; both are modelled as far as paths are concerned, and a redirect of the multiplexer is followed, as the
  client of the edge does. \<open>%q\<close> is modelled on ASCII; how it writes other runes is a parameter.
\<close>

section \<open>Paths between the servers\<close>

definition control :: "char \<Rightarrow> bool" where
  "control c \<longleftrightarrow> (of_char c :: nat) < 32 \<or> (of_char c :: nat) = 127"

definition hex_value :: "char \<Rightarrow> nat option" where
  "hex_value c = (let n = of_char c :: nat in if 48 \<le> n \<and> n \<le> 57 then Some (n - 48)
     else if 65 \<le> n \<and> n \<le> 70 then Some (n - 55) else if 97 \<le> n \<and> n \<le> 102 then Some (n - 87) else None)"

fun unescape :: "string \<Rightarrow> string option" where
  "unescape [] = Some []"
| "unescape (c # cs) = (if c = CHR ''%'' then (case cs of
       a # b # rest \<Rightarrow> (case (hex_value a, hex_value b) of
           (Some m, Some n) \<Rightarrow> map_option (Cons (char_of (16 * m + n))) (unescape rest)
         | _ \<Rightarrow> None)
     | _ \<Rightarrow> None)
   else map_option (Cons c) (unescape cs))"

text \<open>The path of the URL a base and a path are put together to: everything from a \<open>#\<close> on is the fragment, from a \<open>?\<close> on the
  query, and the rest is unescaped; control characters and malformed escapes are errors.\<close>

definition url_path :: "string \<Rightarrow> string option" where
  "url_path key = (let u = takeWhile (\<lambda>c. c \<noteq> CHR ''#'') key; frag = dropWhile (\<lambda>c. c \<noteq> CHR ''#'') key in
     if (\<exists>c\<in>set u. control c) \<or> unescape (tl frag) = None then None
     else unescape (takeWhile (\<lambda>c. c \<noteq> CHR ''?'') u))"

fun join_slash :: "string list \<Rightarrow> string" where
  "join_slash [] = []" | "join_slash [p] = p" | "join_slash (p # ps) = p @ CHR ''/'' # join_slash ps"

text \<open>\<open>cleanPath\<close> of the multiplexer on a path that begins with a slash.\<close>

definition clean_path :: "string \<Rightarrow> string" where
  "clean_path p = (let
       comps = foldl (\<lambda>acc c. if c = [] \<or> c = ''.'' then acc else if c = ''..'' then butlast acc else acc @ [c]) [] (split_on (CHR ''/'') p);
       np = CHR ''/'' # join_slash comps
     in if p \<noteq> [] \<and> last p = CHR ''/'' \<and> np \<noteq> ''/'' then np @ ''/'' else np)"

text \<open>Where a request ends up: at its clean path, and below a prefix registered with a trailing slash.\<close>

definition mux_path :: "string \<Rightarrow> string" where
  "mux_path p = (let q = clean_path p in if q @ ''/'' = path_segment_prefix \<or> q @ ''/'' = path_manifest_prefix then q @ ''/'' else q)"

section \<open>The origin as an upstream\<close>

text \<open>Strings in double quotes, as \<open>%q\<close> writes them; \<open>wide s\<close> is the quoted form of the rune at the front of \<open>s\<close>, which begins with a
  byte above 127, and its length.\<close>

definition hex_digit :: "nat \<Rightarrow> char" where
  "hex_digit n = (if n < 10 then char_of (48 + n) else char_of (87 + n))"

definition quote_ascii :: "char \<Rightarrow> string" where
  "quote_ascii c = (let n = of_char c :: nat in
     if n = 34 \<or> n = 92 then [CHR 0x5C, c]
     else if n = 7 then [CHR 0x5C, CHR ''a''] else if n = 8 then [CHR 0x5C, CHR ''b''] else if n = 12 then [CHR 0x5C, CHR ''f'']
     else if n = 10 then [CHR 0x5C, CHR ''n''] else if n = 13 then [CHR 0x5C, CHR ''r''] else if n = 9 then [CHR 0x5C, CHR ''t'']
     else if n = 11 then [CHR 0x5C, CHR ''v'']
     else if control c then [CHR 0x5C, CHR ''x'', hex_digit (n div 16), hex_digit (n mod 16)]
     else [c])"

function quote_body :: "(string \<Rightarrow> string \<times> nat) \<Rightarrow> string \<Rightarrow> string" where
  "quote_body wide [] = []"
| "quote_body wide (c # cs) = (if (of_char c :: nat) < 128 then quote_ascii c @ quote_body wide cs
     else (case wide (c # cs) of (q, n) \<Rightarrow> q @ quote_body wide (drop (n - 1) cs)))"
  by pat_completeness auto
termination by (relation "measure (length \<circ> snd)") auto

definition go_quote :: "(string \<Rightarrow> string \<times> nat) \<Rightarrow> string \<Rightarrow> string" where
  "go_quote wide s = CHR 0x22 # quote_body wide s @ [CHR 0x22]"

text \<open>The texts of the errors of \<open>ParseSegmentPath\<close> and \<open>ParseManifestPath\<close>.\<close>

definition atoi_text :: "(string \<Rightarrow> string \<times> nat) \<Rightarrow> string \<Rightarrow> string" where
  "atoi_text wide s = (let digits = (if s \<noteq> [] \<and> (hd s = CHR ''-'' \<or> hd s = CHR ''+'') then tl s else s) in
     ''strconv.Atoi: parsing '' @ go_quote wide s @ '': '' @
     (if digits \<noteq> [] \<and> read_digits 0 digits \<noteq> None then ''value out of range'' else ''invalid syntax''))"

fun path_error_text :: "(string \<Rightarrow> string \<times> nat) \<Rightarrow> path_error \<Rightarrow> string" where
  "path_error_text wide (Not_segment_path p) = ''not a segment path: '' @ p"
| "path_error_text wide (Malformed_path p) = ''malformed segment path: '' @ p"
| "path_error_text wide (Bad_index s) = ''bad segment index: '' @ atoi_text wide s"
| "path_error_text wide (Bad_bitrate s) = ''bad bitrate: '' @ atoi_text wide s"
| "path_error_text wide (Not_manifest_path p) = ''not a manifest path: '' @ p"

definition to_bytes :: "string \<Rightarrow> bytes" where
  "to_bytes s = map of_char s"

definition http_error :: "int \<Rightarrow> string \<Rightarrow> up_response" where
  "http_error status msg = \<lparr>up_status = status, up_content_id = [], up_type = ''text/plain; charset=utf-8'', up_body = to_bytes (msg @ [CHR 0x0A])\<rparr>"

definition quoted :: "string \<Rightarrow> string" where
  "quoted s = CHR 0x22 # s @ [CHR 0x22]"

definition manifest_json :: "(string \<Rightarrow> string \<times> nat) \<Rightarrow> string \<Rightarrow> string" where
  "manifest_json wide cid = ''{'' @ quoted ''content_id'' @ '':'' @ go_quote wide cid @ '','' @ quoted ''segments'' @ '':30,'' @
     quoted ''segment_seconds'' @ '':4,'' @ quoted ''bitrates'' @ '':[400,800,1500,3000,6000,12000]}''"

definition origin_manifest :: "(string \<Rightarrow> string \<times> nat) \<Rightarrow> string \<Rightarrow> up_response" where
  "origin_manifest wide path = (case parse_manifest_path path of
     Inl e \<Rightarrow> http_error 400 (path_error_text wide e)
   | Inr cid \<Rightarrow> \<lparr>up_status = 200, up_content_id = [], up_type = ''application/json'', up_body = to_bytes (manifest_json wide cid)\<rparr>)"

text \<open>The routes of the origin; a panic closes the connection, which the client sees as an error.\<close>

definition origin_serve :: "'g rand_ops \<Rightarrow> ('g \<Rightarrow> 64 word \<times> 'g) \<Rightarrow> (64 word \<Rightarrow> 'g) \<Rightarrow> (string \<Rightarrow> 64 word) \<Rightarrow> (string \<Rightarrow> string \<times> nat) \<Rightarrow> int
    \<Rightarrow> string \<Rightarrow> string + up_response" where
  "origin_serve R U src sha wide secs path = (
     if has_prefix path path_segment_prefix then (case origin_segment R U src sha secs path of
         Bad_request e \<Rightarrow> Inr (http_error 400 (path_error_text wide e))
       | Crash \<Rightarrow> Inl ''EOF''
       | Segment cid ctype len cc b \<Rightarrow> Inr \<lparr>up_status = 200, up_content_id = cid, up_type = ctype, up_body = b\<rparr>)
     else if has_prefix path path_manifest_prefix then Inr (origin_manifest wide path)
     else if path = ''/healthz'' then Inr \<lparr>up_status = 200, up_content_id = [], up_type = ''text/plain; charset=utf-8'', up_body = to_bytes ''ok''\<rparr>
     else Inr (http_error 404 ''404 page not found''))"

definition origin_upstream :: "'g rand_ops \<Rightarrow> ('g \<Rightarrow> 64 word \<times> 'g) \<Rightarrow> (64 word \<Rightarrow> 'g) \<Rightarrow> (string \<Rightarrow> 64 word) \<Rightarrow> (string \<Rightarrow> string \<times> nat) \<Rightarrow> int
    \<Rightarrow> unit upstream" where
  "origin_upstream R U src sha wide secs key u = (case url_path key of
     None \<Rightarrow> (Inl ''invalid URL'', u)
   | Some p \<Rightarrow> (origin_serve R U src sha wide secs (mux_path p), u))"

section \<open>From the client to the origin\<close>

text \<open>Content ids that a URL carries as they are and that are one component of a path.\<close>

definition plain_char :: "char \<Rightarrow> bool" where
  "plain_char c \<longleftrightarrow> \<not> control c \<and> c \<notin> {CHR ''%'', CHR ''?'', CHR ''#''}"

definition plain_id :: "string \<Rightarrow> bool" where
  "plain_id s \<longleftrightarrow> (\<forall>c\<in>set s. plain_char c \<and> c \<noteq> CHR ''/'') \<and> s \<noteq> [] \<and> s \<noteq> ''.'' \<and> s \<noteq> ''..''"

lemma unescape_plain: "CHR ''%'' \<notin> set s \<Longrightarrow> unescape s = Some s"
  by (induction s) auto

lemma url_path_plain: "\<forall>c\<in>set s. plain_char c \<Longrightarrow> url_path s = Some s"
proof -
  assume a: "\<forall>c\<in>set s. plain_char c"
  have t: "takeWhile (\<lambda>c. c \<noteq> CHR ''#'') s = s" "dropWhile (\<lambda>c. c \<noteq> CHR ''#'') s = []" "takeWhile (\<lambda>c. c \<noteq> CHR ''?'') s = s"
    unfolding takeWhile_eq_all_conv dropWhile_eq_Nil_conv using a by (auto simp: plain_char_def)
  have "CHR ''%'' \<notin> set s" "\<not> (\<exists>c\<in>set s. control c)" using a by (force simp: plain_char_def)+
  then show ?thesis by (simp add: url_path_def Let_def unescape_plain t del: takeWhile_eq_all_conv dropWhile_eq_Nil_conv)
qed

lemma itoa_component: "itoa n \<noteq> []" "itoa n \<noteq> ''.''" "itoa n \<noteq> ''..''" "\<forall>c\<in>set (itoa n). plain_char c"
proof -
  have dig: "plain_char c \<and> c \<noteq> CHR ''.''" if "is_digit c" for c
  proof -
    have "48 \<le> (of_char c :: nat)" "(of_char c :: nat) \<le> 57"
      using that by (simp_all add: is_digit_def digit_value_def Let_def split: if_splits)
    then show ?thesis by (auto simp: plain_char_def control_def)
  qed
  have minus: "plain_char (CHR ''-'')" by (simp add: plain_char_def control_def)
  have c: "\<forall>c\<in>set (itoa n). plain_char c \<and> c \<noteq> CHR ''.''"
    using dig digits_are_digits minus by (auto simp: itoa_def)
  show "itoa n \<noteq> []" by (simp add: itoa_def nat_digits_not_Nil)
  show "\<forall>c\<in>set (itoa n). plain_char c" using c by blast
  have "CHR ''.'' \<notin> set (itoa n)" using c by blast
  then show "itoa n \<noteq> ''.''" "itoa n \<noteq> ''..''" by force+
qed

lemma segment_path_clean:
  assumes "plain_id cid"
  shows "url_path (segment_path cid idx b) = Some (segment_path cid idx b) \<and> mux_path (segment_path cid idx b) = segment_path cid idx b"
proof
  have cid: "CHR ''/'' \<notin> set cid" "cid \<noteq> []" "cid \<noteq> ''.''" "cid \<noteq> ''..''" "\<forall>c\<in>set cid. plain_char c"
    using assms by (auto simp: plain_id_def)
  have "\<forall>c\<in>set path_segment_prefix. plain_char c" "plain_char (CHR ''/'')"
    by (simp_all add: path_segment_prefix_def plain_char_def control_def)
  then have "\<forall>c\<in>set (segment_path cid idx b). plain_char c"
    using cid(5) itoa_component(4) by (simp add: segment_path_def ball_Un)
  then show "url_path (segment_path cid idx b) = Some (segment_path cid idx b)" by (rule url_path_plain)
  have split: "split_on (CHR ''/'') (segment_path cid idx b) = [[], ''segment'', cid, itoa idx, itoa b]"
    using segment_path_split [OF cid(1), of idx b] by (simp add: segment_path_def path_segment_prefix_def)
  have "last (segment_path cid idx b) = last (itoa b)" by (simp add: segment_path_def itoa_component(1))
  then have "last (segment_path cid idx b) \<noteq> CHR ''/''" using itoa_no_slash itoa_component(1) last_in_set by metis
  moreover have "CHR ''/'' # join_slash [''segment'', cid, itoa idx, itoa b] = segment_path cid idx b"
    by (simp add: segment_path_def path_segment_prefix_def)
  ultimately have c: "clean_path (segment_path cid idx b) = segment_path cid idx b"
    unfolding clean_path_def split Let_def foldl_Cons foldl_Nil by (simp add: cid(2-4) itoa_component(1-3))
  have "segment_path cid idx b @ ''/'' \<noteq> path_segment_prefix" "segment_path cid idx b @ ''/'' \<noteq> path_manifest_prefix"
    by (simp_all add: segment_path_def path_segment_prefix_def path_manifest_prefix_def)
  with c show "mux_path (segment_path cid idx b) = segment_path cid idx b" by (simp add: mux_path_def Let_def)
qed

lemma payload_size_le:
  assumes "rand_ok R" "0 \<le> b" "b \<le> 10 ^ 9" "secs \<le> 10 ^ 4"
  shows "payload_size R src sha cid idx b secs \<le> 375 * b * (if secs \<le> 0 then 4 else secs)"
proof -
  define n where "n = (if secs \<le> 0 then 4 else secs)"
  define factor where "factor = fadd (1 / 2) (fmul (fst (r_float64 R (src (content_seed sha cid idx)))) (fl (13 / 10)))"
  define mean where "mean = fmul (fdiv (i2f (b * 1000)) 8) (i2f n)"
  have n: "1 \<le> n" "n \<le> 10 ^ 4" using assms(4) by (simp_all add: n_def)
  have "b * n \<le> 10 ^ 9 * 10 ^ 4" using assms(2,3) n by (intro mult_mono) simp_all
  then have bn: "\<bar>125 * b * n\<bar> \<le> 2 ^ 53" "\<bar>375 * b * n\<bar> \<le> 2 ^ 53" using assms(2) n by (simp_all add: abs_mult)
  have i: "i2f (b * 1000) = of_int (b * 1000)" "i2f n = of_int n" using assms(2,3) n by (intro i2f_exact; simp)+
  have "fdiv (i2f (b * 1000)) 8 \<le> of_int (125 * b)" unfolding fdiv_def using assms(2,3) by (intro fl_le_int) (simp_all add: i)
  then have "fdiv (i2f (b * 1000)) 8 * i2f n \<le> of_int (125 * b) * of_int n" using i(2) n by (intro mult_mono) (simp_all add: assms(2))
  then have m: "mean \<le> of_int (125 * b * n)" unfolding mean_def fmul_def using bn by (intro fl_le_int) simp_all
  have m0: "0 \<le> mean" using i assms(2) n by (simp add: mean_def fmul_nonneg fdiv_nonneg)
  have f: "0 \<le> factor" "factor \<le> 3" using payload_factor [OF assms(1), of "src (content_seed sha cid idx)"] by (simp_all add: factor_def)
  have "mean * factor \<le> of_int (125 * b * n) * 3" using m m0 f by (intro mult_mono) simp_all
  then have "fmul mean factor \<le> of_int (375 * b * n)" unfolding fmul_def using bn by (intro fl_le_int) (simp_all add: mult_ac)
  from trunc_mono [OF this] have t: "trunc (fmul mean factor) \<le> 375 * b * n" by (simp only: trunc_of_int)
  have "0 \<le> 375 * b * n" using assms(2) n by simp
  with t have "f2i (fmul mean factor) \<le> 375 * b * n" by (simp add: f2i_def int64_min_def)
  then show ?thesis by (simp add: payload_size_def Let_def n_def mean_def factor_def)
qed

definition body_secs :: "int \<Rightarrow> int" where
  "body_secs secs = (if secs \<le> 0 then 4 else secs)"

lemma origin_sends:
  assumes "rand_ok R" "plain_id cid" "in_int64 idx" "in_int64 b" "0 \<le> b" "b \<le> 10 ^ 9" "secs \<le> 10 ^ 4"
  shows "origin_upstream R U src sha wide secs (segment_path cid idx b) u = (Inr \<lparr>up_status = 200, up_content_id = cid,
    up_type = ''application/octet-stream'', up_body = fill_payload R U src sha (nat (payload_size R src sha cid idx b secs)) cid idx b\<rparr>, u)"
proof -
  have cid: "CHR ''/'' \<notin> set cid" using assms(2) by (auto simp: plain_id_def)
  have "\<not> payload_size R src sha cid idx b secs < 0" using payload_size_nonneg [OF assms(1,5-7)] by (simp add: not_less)
  moreover have "has_prefix (segment_path cid idx b) path_segment_prefix" by (simp add: segment_path_def)
  ultimately show ?thesis
    by (simp add: origin_upstream_def origin_serve_def segment_path_clean [OF assms(2)] origin_segment_def
        parse_segment_path_path [OF cid assms(3,4)] Let_def)
qed

lemma origin_honest:
  "honest (\<lambda>key. case fst (origin_upstream R U src sha wide secs key ()) of Inr r \<Rightarrow> r) (origin_upstream R U src sha wide secs)"
  by (auto simp: honest_def split: sum.split)

text \<open>C13: From the player to the origin and back. The path an emulated client asks an edge for, for any segment of a content of plain
  id, is answered, under any load and interleaving of requests at the edge, by exactly the payload the origin computes from
  content, index and bitrate: with its size as the length, its content id, and never by an error, as long as bitrate times
  segment length stays below 89 Mbit, so that no payload is cut at 32 MiB.\<close>

theorem delivery_chain:
  assumes "edge_reach edge (origin_upstream R U src sha wide secs) mb u0 S" "0 \<le> mb" "rand_ok R"
    and "plain_id cid" "in_int64 idx" "0 \<le> b" "b * body_secs secs \<le> 89000" "secs \<le> 10 ^ 4"
    and "build_segment_url url (segment_id_of cid idx b) = trim_right (CHR ''/'') url @ path"
    and "H_done path r \<in> set (sys_handlers S)"
  shows "\<exists>mark \<in> {''HIT'', ''MISS''}. r = Reply mark edge cid ''application/octet-stream'' (payload_size R src sha cid idx b secs)
    (fill_payload R U src sha (nat (payload_size R src sha cid idx b secs)) cid idx b)"
proof -
  let ?up = "origin_upstream R U src sha wide secs" and ?n = "payload_size R src sha cid idx b secs"
  define f where "f key = (case fst (?up key ()) of Inr r \<Rightarrow> r)" for key
  have secs: "1 \<le> body_secs secs" by (simp add: body_secs_def)
  then have "b * 1 \<le> b * body_secs secs" using assms(6) by (intro mult_left_mono) simp_all
  then have b: "b \<le> 89000" using assms(7) by simp
  then have bits: "in_int64 b" using assms(6) by (simp add: int64_defs)
  have "CHR ''/'' \<notin> set cid" using assms(4) by (auto simp: plain_id_def)
  then have path: "path = segment_path cid idx b" using assms(9) segment_url by simp
  note sends = origin_sends [OF assms(3,4,5) bits assms(6) _ assms(8), of U src sha wide]
  have n: "0 \<le> ?n" "?n \<le> 375 * b * body_secs secs"
    using payload_size_nonneg [OF assms(3,6) _ assms(8)] payload_size_le [OF assms(3,6) _ assms(8)] b by (simp_all add: body_secs_def)
  then have "?n \<le> int max_body_bytes" using assms(7) by (simp add: max_body_bytes_def)
  then have cut: "take max_body_bytes (fill_payload R U src sha (nat ?n) cid idx b) = fill_payload R U src sha (nat ?n) cid idx b"
    using n(1) by (simp add: fill_payload_def)
  have "honest f ?up" using origin_honest by (simp add: f_def [abs_def])
  from reach_right_reply [OF assms(1) this assms(2,10)] have "right_reply ?up f edge path r" .
  moreover have "payload_of (f path) = \<lparr>pl_bytes = fill_payload R U src sha (nat ?n) cid idx b, pl_type = ''application/octet-stream'', pl_content_id = cid\<rparr>"
    using b by (simp add: payload_of_def f_def path sends cut)
  moreover have "\<not> (\<exists>u e. fst (?up path u) = Inl e)" using b by (simp add: path sends)
  ultimately show ?thesis using n(1) by (auto simp: right_reply_def reply_with_def fill_payload_def)
qed

theorem delivery_chain_witness:
  "\<exists>S mark. edge_reach ''e'' (origin_upstream lcg (\<lambda>g. (0, g)) uint (\<lambda>s. 7) (\<lambda>s. ([], 1)) 4) 1 () S
    \<and> H_done (segment_path ''a'' 0 400) (Reply mark ''e'' ''a'' ''application/octet-stream'' (payload_size lcg uint (\<lambda>s. 7) ''a'' 0 400 4)
        (fill_payload lcg (\<lambda>g. (0, g)) uint (\<lambda>s. 7) (nat (payload_size lcg uint (\<lambda>s. 7) ''a'' 0 400 4)) ''a'' 0 400)) \<in> set (sys_handlers S)"
proof -
  let ?up = "origin_upstream lcg (\<lambda>g. (0, g)) uint (\<lambda>s. 7) (\<lambda>s. ([], 1)) 4" and ?p = "segment_path ''a'' 0 400"
  let ?S = "\<lparr>sys_edge = new_edge 1, sys_upstream = (), sys_handlers = [H_get ?p 5]\<rparr>"
  have "edge_reach ''e'' ?up 1 () ?S" using edge_reach.step [OF edge_reach.start arrive [where key = ?p and now = 5]] by simp
  moreover obtain T where T: "(edge_step ''e'' ?up)\<^sup>*\<^sup>* ?S T" "map handler_key (sys_handlers T) = [?p]" "\<forall>h\<in>set (sys_handlers T). finished h"
    using run_to_end [of "''e''" ?up ?S] by auto
  ultimately have r: "edge_reach ''e'' ?up 1 () T" by (blast intro: edge_reach_steps)
  obtain h where h: "sys_handlers T = [h]" "handler_key h = ?p" "finished h" using T(2,3) by auto
  then obtain x where x: "h = H_done ?p x" by (cases h) auto
  have plain: "plain_id ''a''" by (simp add: plain_id_def plain_char_def control_def)
  then have url: "build_segment_url [] (segment_id_of ''a'' 0 400) = trim_right (CHR ''/'') [] @ ?p"
    by (intro segment_url) (auto simp: plain_id_def)
  from delivery_chain [OF r _ lcg_ok plain _ _ _ _ url, of x] show ?thesis using r h(1) x by (auto simp: body_secs_def int64_defs)
qed

text \<open>An encoded question mark does not survive the edge, which puts the decoded path into a URL again: a content id that contains one
  makes the origin see a shorter path, whose error page the edge serves and keeps like a segment.\<close>

lemma edge_forgets_encoding:
  assumes "\<forall>c\<in>set cid. plain_char c" "CHR ''/'' \<notin> set cid" "cid \<noteq> []" "cid \<noteq> ''.''" "cid \<noteq> ''..''"
    and "\<forall>c\<in>set rest. plain_char c \<or> c = CHR ''?''"
  shows "url_path (path_segment_prefix @ cid @ CHR ''?'' # rest) = Some (path_segment_prefix @ cid)
    \<and> parse_segment_path (path_segment_prefix @ cid) = Inl (Malformed_path (path_segment_prefix @ cid))"
proof
  let ?k = "path_segment_prefix @ cid @ CHR ''?'' # rest"
  have pre: "\<forall>c\<in>set (path_segment_prefix @ cid). plain_char c"
    using assms(1) by (auto simp: path_segment_prefix_def plain_char_def control_def)
  have q: "\<not> control (CHR ''?'')" by (simp add: control_def)
  have c: "\<forall>c\<in>set ?k. \<not> control c \<and> c \<noteq> CHR ''#''"
    using pre assms(6) q by (auto simp: plain_char_def)
  then have t: "takeWhile (\<lambda>c. c \<noteq> CHR ''#'') ?k = ?k" "dropWhile (\<lambda>c. c \<noteq> CHR ''#'') ?k = []"
    unfolding takeWhile_eq_all_conv dropWhile_eq_Nil_conv by blast+
  have "\<forall>c\<in>set (path_segment_prefix @ cid). c \<noteq> CHR ''?''" using pre by (auto simp: plain_char_def)
  then have "takeWhile (\<lambda>c. c \<noteq> CHR ''?'') ((path_segment_prefix @ cid) @ CHR ''?'' # rest) = path_segment_prefix @ cid"
    by (subst takeWhile_append2) auto
  moreover have "unescape (path_segment_prefix @ cid) = Some (path_segment_prefix @ cid)"
    using pre by (intro unescape_plain) (auto simp: plain_char_def)
  ultimately show "url_path ?k = Some (path_segment_prefix @ cid)"
    unfolding url_path_def Let_def t using c by simp
  show "parse_segment_path (path_segment_prefix @ cid) = Inl (Malformed_path (path_segment_prefix @ cid))"
    using split_on_none [OF assms(2)] by (simp add: parse_segment_path_def Let_def)
qed

section \<open>The manifest as JSON\<close>

text \<open>A reader of JSON strings: the characters up to the closing quote, and what follows.\<close>

fun json_escape :: "char \<Rightarrow> char option" where
  "json_escape c = (if c = CHR 0x22 \<or> c = CHR 0x5C \<or> c = CHR ''/'' then Some c else if c = CHR ''b'' then Some (CHR 0x08)
     else if c = CHR ''f'' then Some (CHR 0x0C) else if c = CHR ''n'' then Some (CHR 0x0A)
     else if c = CHR ''r'' then Some (CHR 0x0D) else if c = CHR ''t'' then Some (CHR 0x09) else None)"

fun json_chars :: "string \<Rightarrow> (string \<times> string) option" where
  "json_chars [] = None"
| "json_chars (c # cs) = (if c = CHR 0x22 then Some ([], cs)
     else if c = CHR 0x5C then (case cs of [] \<Rightarrow> None
       | e # rest \<Rightarrow> (case json_escape e of None \<Rightarrow> None | Some d \<Rightarrow> map_option (apfst (Cons d)) (json_chars rest)))
     else if (of_char c :: nat) < 32 then None
     else map_option (apfst (Cons c)) (json_chars cs))"

definition json_safe :: "char \<Rightarrow> bool" where
  "json_safe c \<longleftrightarrow> (of_char c :: nat) < 127 \<and> (32 \<le> (of_char c :: nat) \<or> (of_char c :: nat) \<in> {8, 9, 10, 12, 13})"

lemma char_code:
  assumes "(of_char d :: nat) = n"
  shows "(of_char c :: nat) = n \<longleftrightarrow> c = d"
  unfolding assms [symmetric] by (rule of_char_eq_iff)

lemma char_codes:
  "(of_char c :: nat) = 34 \<longleftrightarrow> c = CHR 0x22"
  "(of_char c :: nat) = 92 \<longleftrightarrow> c = CHR 0x5C"
  "(of_char c :: nat) = 8 \<longleftrightarrow> c = CHR 0x08"
  "(of_char c :: nat) = 9 \<longleftrightarrow> c = CHR 0x09"
  "(of_char c :: nat) = 10 \<longleftrightarrow> c = CHR 0x0A"
  "(of_char c :: nat) = 12 \<longleftrightarrow> c = CHR 0x0C"
  "(of_char c :: nat) = 13 \<longleftrightarrow> c = CHR 0x0D"
  by (rule char_code; simp)+

lemma json_plain: "32 \<le> (of_char c :: nat) \<Longrightarrow> (of_char c :: nat) \<notin> {34, 92} \<Longrightarrow>
    json_chars (c # t) = map_option (apfst (Cons c)) (json_chars t)"
  by auto

lemma json_escaped:
  assumes "(of_char c :: nat) < 128"
  shows "json_chars (quote_ascii c @ t) = (if json_safe c then map_option (apfst (Cons c)) (json_chars t) else None)"
proof -
  let ?n = "of_char c :: nat"
  consider "?n \<in> {34, 92}" | "?n \<in> {7, 11}" | "?n \<in> {8, 9, 10, 12, 13}" | "control c" "?n \<notin> {7, 8, 9, 10, 11, 12, 13}"
    | "\<not> control c" "?n \<notin> {34, 92}" by (auto simp: control_def)
  then show ?thesis
  proof cases
    case 1
    then have "c = CHR 0x22 \<or> c = CHR 0x5C" by (simp add: char_codes)
    then show ?thesis by (elim disjE) (simp_all add: quote_ascii_def json_safe_def Let_def)
  next
    case 2
    then have "?n = 7 \<or> ?n = 11" by simp
    then show ?thesis by (elim disjE) (simp_all add: quote_ascii_def json_safe_def Let_def)
  next
    case 3
    then have "c = CHR 0x08 \<or> c = CHR 0x09 \<or> c = CHR 0x0A \<or> c = CHR 0x0C \<or> c = CHR 0x0D"
      by (simp add: char_codes)
    then show ?thesis by (elim disjE) (simp_all add: quote_ascii_def json_safe_def Let_def)
  next
    case 4
    then have "quote_ascii c = [CHR 0x5C, CHR ''x'', hex_digit (?n div 16), hex_digit (?n mod 16)]"
      by (auto simp: quote_ascii_def control_def Let_def)
    moreover have "\<not> json_safe c" using 4 by (auto simp: json_safe_def control_def)
    ultimately show ?thesis by simp
  next
    case 5
    then have "quote_ascii c = [c]" by (auto simp: quote_ascii_def control_def Let_def)
    moreover have "json_safe c" using 5 assms by (auto simp: json_safe_def control_def)
    ultimately show ?thesis using json_plain [of c t] 5 by (simp add: control_def)
  qed
qed

lemma json_quoted:
  "\<forall>c\<in>set s. (of_char c :: nat) < 128 \<Longrightarrow>
    json_chars (quote_body wide s @ CHR 0x22 # t) = (if \<forall>c\<in>set s. json_safe c then Some (s, t) else None)"
proof (induction s)
  case (Cons c s)
  have q: "quote_body wide (c # s) @ CHR 0x22 # t = quote_ascii c @ (quote_body wide s @ CHR 0x22 # t)" using Cons.prems by simp
  have "(of_char c :: nat) < 128" using Cons.prems by simp
  from json_escaped [OF this, of "quote_body wide s @ CHR 0x22 # t"] Cons show ?case unfolding q by simp
qed simp

lemma quote_body_length: "\<forall>c\<in>set s. (of_char c :: nat) < 128 \<Longrightarrow> length (quote_body wide s) \<le> 4 * length s"
proof (induction s)
  case (Cons c s)
  have "length (quote_ascii c) \<le> 4" by (simp add: quote_ascii_def Let_def)
  with Cons show ?case by simp
qed simp

definition manifest_rest :: string where
  "manifest_rest = '','' @ quoted ''segments'' @ '':30,'' @ quoted ''segment_seconds'' @ '':4,'' @ quoted ''bitrates'' @
     '':[400,800,1500,3000,6000,12000]}''"

lemma manifest_split:
  "manifest_json wide cid = ''{'' @ quoted ''content_id'' @ '':'' @ CHR 0x22 # quote_body wide cid @ CHR 0x22 # manifest_rest"
  by (simp add: manifest_json_def manifest_rest_def go_quote_def)

lemma manifest_path_clean:
  assumes "plain_id cid"
  shows "url_path (manifest_path cid) = Some (manifest_path cid) \<and> mux_path (manifest_path cid) = manifest_path cid"
proof
  have cid: "CHR ''/'' \<notin> set cid" "cid \<noteq> []" "cid \<noteq> ''.''" "cid \<noteq> ''..''" "\<forall>c\<in>set cid. plain_char c"
    using assms by (auto simp: plain_id_def)
  have "\<forall>c\<in>set path_manifest_prefix. plain_char c" by (simp add: path_manifest_prefix_def plain_char_def control_def)
  then show "url_path (manifest_path cid) = Some (manifest_path cid)"
    using cid(5) by (intro url_path_plain) (simp add: manifest_path_def ball_Un)
  have split: "split_on (CHR ''/'') (manifest_path cid) = [[], ''manifest'', cid]"
    using split_on_none [OF cid(1)] by (simp add: manifest_path_def path_manifest_prefix_def)
  have "last (manifest_path cid) = last cid" by (simp add: manifest_path_def cid(2))
  then have "last (manifest_path cid) \<noteq> CHR ''/''" using cid(1,2) last_in_set by metis
  moreover have "CHR ''/'' # join_slash [''manifest'', cid] = manifest_path cid"
    by (simp add: manifest_path_def path_manifest_prefix_def)
  ultimately have c: "clean_path (manifest_path cid) = manifest_path cid"
    unfolding clean_path_def split Let_def foldl_Cons foldl_Nil by (simp add: cid(2-4))
  have "manifest_path cid @ ''/'' \<noteq> path_segment_prefix" "manifest_path cid @ ''/'' \<noteq> path_manifest_prefix"
    using cid(2) by (simp_all add: manifest_path_def path_segment_prefix_def path_manifest_prefix_def)
  with c show "mux_path (manifest_path cid) = manifest_path cid" by (simp add: mux_path_def Let_def)
qed

text \<open>The manifest of the origin as JSON. For an ASCII content id the origin answers its manifest path with a document whose first
  member is a string that a JSON reader takes for exactly that id, and that is followed by the rest of the document, when every
  character of the id is printable or one of the five control characters that both notations escape alike; with any other
  control character the document is not JSON. The edge hands the document of a plain id on unchanged.\<close>

lemma origin_manifest_json:
  assumes "\<forall>c\<in>set cid. (of_char c :: nat) < 128"
  shows "(\<exists>rest. origin_manifest wide (manifest_path cid) = \<lparr>up_status = 200, up_content_id = [], up_type = ''application/json'',
          up_body = to_bytes (''{'' @ quoted ''content_id'' @ '':'' @ CHR 0x22 # rest)\<rparr>
        \<and> json_chars rest = (if \<forall>c\<in>set cid. json_safe c then Some (cid, manifest_rest) else None))
    \<and> (plain_id cid \<and> length cid \<le> 2 ^ 17 \<longrightarrow> manifest_handler edge (origin_upstream R U src sha wide secs) (manifest_path cid) u
          = (Manifest_reply edge (to_bytes (manifest_json wide cid)), u) \<and> (\<forall>c\<in>set cid. json_safe c))"
proof (intro conjI impI)
  have om: "origin_manifest wide (manifest_path cid) = \<lparr>up_status = 200, up_content_id = [], up_type = ''application/json'',
      up_body = to_bytes (manifest_json wide cid)\<rparr>"
    by (simp add: origin_manifest_def parse_manifest_path_def manifest_path_def)
  with json_quoted [OF assms, of wide manifest_rest] show "\<exists>rest. origin_manifest wide (manifest_path cid) = \<lparr>up_status = 200, up_content_id = [],
      up_type = ''application/json'', up_body = to_bytes (''{'' @ quoted ''content_id'' @ '':'' @ CHR 0x22 # rest)\<rparr>
      \<and> json_chars rest = (if \<forall>c\<in>set cid. json_safe c then Some (cid, manifest_rest) else None)"
    by (intro exI [of _ "quote_body wide cid @ CHR 0x22 # manifest_rest"] conjI) (simp_all add: manifest_split)
  assume a: "plain_id cid \<and> length cid \<le> 2 ^ 17"
  then show "\<forall>c\<in>set cid. json_safe c" using assms by (force simp: plain_id_def plain_char_def json_safe_def control_def)
  have "length (manifest_json wide cid) \<le> 4 * 2 ^ 17 + 110"
    using quote_body_length [OF assms, of wide] a by (simp add: manifest_split manifest_rest_def quoted_def)
  then have len: "length (to_bytes (manifest_json wide cid)) \<le> max_manifest_bytes" by (simp add: to_bytes_def max_manifest_bytes_def)
  have "\<not> has_prefix (manifest_path cid) path_segment_prefix"
    by (simp add: has_prefix_def manifest_path_def path_segment_prefix_def path_manifest_prefix_def)
  moreover have "has_prefix (manifest_path cid) path_manifest_prefix" by (simp add: manifest_path_def)
  ultimately have "origin_upstream R U src sha wide secs (manifest_path cid) u = (Inr (origin_manifest wide (manifest_path cid)), u)"
    using manifest_path_clean [of cid] a by (simp add: origin_upstream_def origin_serve_def)
  then show "manifest_handler edge (origin_upstream R U src sha wide secs) (manifest_path cid) u
      = (Manifest_reply edge (to_bytes (manifest_json wide cid)), u)"
    using len by (simp add: manifest_handler_def om)
qed

end
