(* ===== verification/Report.thy ===== *)
theory Report
  imports Runner "HOL-Library.Sublist"
begin

text \<open>
  What an experiment leaves behind: the CSV and JSON files and the summaries of \<open>internal/experiment/reporter.go\<close> and
  \<open>summary_pretty.go\<close>. The writer of \<open>encoding/csv\<close> and the verbs of \<open>fmt\<close> are modelled; the JSON encoder, the file system and the text
  of the wall-clock duration are parameters.
\<close>

section \<open>CSV\<close>

text \<open>A white-space rune at the front of a string in UTF-8.\<close>

definition space_runes :: "string list" where
  "space_runes = [[CHR 0x09], [CHR 0x0A], [CHR 0x0B], [CHR 0x0C], [CHR 0x0D], [CHR 0x20], [CHR 0xC2, CHR 0x85], [CHR 0xC2, CHR 0xA0],
     [CHR 0xE1, CHR 0x9A, CHR 0x80]] @ map (\<lambda>n. [CHR 0xE2, CHR 0x80, char_of (128 + n)]) [0..<11] @
     [[CHR 0xE2, CHR 0x80, CHR 0xA8], [CHR 0xE2, CHR 0x80, CHR 0xA9], [CHR 0xE2, CHR 0x80, CHR 0xAF], [CHR 0xE2, CHR 0x81, CHR 0x9F],
     [CHR 0xE3, CHR 0x80, CHR 0x80]]"

definition quote_char :: char where "quote_char = CHR 0x22"
definition newline :: char where "newline = CHR 0x0A"

definition field_needs_quotes :: "string \<Rightarrow> bool" where
  "field_needs_quotes f \<longleftrightarrow> f \<noteq> [] \<and> (f = [CHR 0x5C, CHR ''.''] \<or> (\<exists>c\<in>set f. c \<in> {newline, CHR 0x0D, quote_char, CHR '',''})
     \<or> (\<exists>r\<in>set space_runes. has_prefix f r))"

definition csv_field :: "string \<Rightarrow> string" where
  "csv_field f = (if field_needs_quotes f
     then quote_char # concat (map (\<lambda>c. if c = quote_char then [quote_char, quote_char] else [c]) f) @ [quote_char] else f)"

fun csv_line :: "string list \<Rightarrow> string" where
  "csv_line [] = [newline]" | "csv_line [f] = csv_field f @ [newline]" | "csv_line (f # fs) = csv_field f @ CHR '','' # csv_line fs"

definition bool_text :: "bool \<Rightarrow> string" where
  "bool_text b = (if b then ''true'' else ''false'')"

definition csv_header :: "string list" where
  "csv_header = [''protocol'', ''abr'', ''content_id'', ''segment_index'', ''bitrate_kbps'', ''size_bytes'', ''ttfb_ms'', ''latency_ms'',
     ''goodput_mbps'', ''cache_hit'', ''shield_hit'', ''hol_blocked'', ''buffer_before_ms'', ''buffer_after_ms'', ''rebuffered'']"

definition csv_row :: "playback_result \<Rightarrow> segment_result \<Rightarrow> string list" where
  "csv_row r s = [pr_protocol r, pr_abr_name r, pr_content_id r, itoa (sr_index s), itoa (sr_bitrate s), itoa (sr_size s),
     itoa (dur_milliseconds (sr_ttfb s)), itoa (dur_milliseconds (sr_latency s)), fmt_fixed 3 (sr_goodput s),
     bool_text (sr_cache_hit s), bool_text (sr_shield_hit s), bool_text (sr_hol_blocked s),
     itoa (dur_milliseconds (sr_buffer_before s)), itoa (dur_milliseconds (sr_buffer_after s)), bool_text (sr_rebuffered s)]"

definition csv_rows :: "collector \<Rightarrow> string list list" where
  "csv_rows rs = csv_header # concat (map (\<lambda>r. map (csv_row r) (pr_segments r)) rs)"

section \<open>Files\<close>

text \<open>The file system: what making a directory, creating or writing a file answers, the error a buffered write of the \<open>n\<close>-th CSV row
  reports, and how much of a file's text the flush at the end of \<open>WriteCSV\<close> gets onto the disk. The JSON encoder may refuse a document. The \<open>n\<close>-th
  text printed by \<open>WriteSummary\<close> may fail on the file (\<open>rio_print\<close>) or on the writer behind it (\<open>rio_show\<close>) after some of its bytes.\<close>

datatype json_doc = Summary_doc experiment_config "string \<rightharpoonup> aggregated_metrics" | Comparison_doc comparison_report | Enhanced_doc enhanced_comparison

record report_io =
  rio_join :: "string \<Rightarrow> string \<Rightarrow> string"
  rio_mkdir :: "string \<Rightarrow> string option"
  rio_create :: "string \<Rightarrow> string option"
  rio_write :: "string \<Rightarrow> string option"
  rio_encode :: "json_doc \<Rightarrow> string + string"
  rio_row :: "nat \<Rightarrow> string option"
  rio_flush :: "string \<Rightarrow> nat"
  rio_print :: "nat \<Rightarrow> nat option"
  rio_show :: "nat \<Rightarrow> nat option"

type_synonym files = "string \<rightharpoonup> string"

definition write_json_file :: "report_io \<Rightarrow> string \<Rightarrow> json_doc \<Rightarrow> files \<Rightarrow> string option \<times> files" where
  "write_json_file io path doc fs = (case rio_encode io doc of
     Inl e \<Rightarrow> (Some (''marshal '' @ path @ '': '' @ e), fs)
   | Inr text \<Rightarrow> (case rio_write io path of Some e \<Rightarrow> (Some (''write '' @ path @ '': '' @ e), fs) | None \<Rightarrow> (None, fs(path \<mapsto> text))))"

fun write_json_files :: "report_io \<Rightarrow> (string \<times> json_doc) list \<Rightarrow> files \<Rightarrow> string option \<times> files" where
  "write_json_files io [] fs = (None, fs)"
| "write_json_files io ((path, doc) # ds) fs = (case write_json_file io path doc fs of
     (Some e, fs1) \<Rightarrow> (Some e, fs1) | (None, fs1) \<Rightarrow> write_json_files io ds fs1)"

definition write_json :: "report_io \<Rightarrow> experiment_results \<Rightarrow> string \<Rightarrow> files \<Rightarrow> string option \<times> files" where
  "write_json io res dir fs = (case rio_mkdir io dir of Some e \<Rightarrow> (Some (''mkdir '' @ dir @ '': '' @ e), fs)
     | None \<Rightarrow> write_json_files io
         ([(rio_join io dir ''summary.json'', Summary_doc (er_config res) (er_by_protocol res))]
          @ (case er_comparison res of None \<Rightarrow> [] | Some c \<Rightarrow> [(rio_join io dir ''comparison.json'', Comparison_doc c)])
          @ (case er_enhanced res of None \<Rightarrow> [] | Some c \<Rightarrow> [(rio_join io dir ''enhanced_comparison.json'', Enhanced_doc c)])) fs)"

text \<open>The rows that go to the buffered writer, until one is refused.\<close>

fun write_rows :: "report_io \<Rightarrow> nat \<Rightarrow> string list list \<Rightarrow> string option \<times> string" where
  "write_rows io n [] = (None, [])"
| "write_rows io n (r # rs) = (case rio_row io n of Some e \<Rightarrow> (Some e, [])
     | None \<Rightarrow> map_prod id (\<lambda>t. csv_line r @ t) (write_rows io (Suc n) rs))"

definition write_csv :: "report_io \<Rightarrow> experiment_results \<Rightarrow> string \<Rightarrow> files \<Rightarrow> string option \<times> files" where
  "write_csv io res dir fs = (case rio_mkdir io dir of Some e \<Rightarrow> (Some e, fs)
     | None \<Rightarrow> let path = rio_join io dir ''raw.csv'' in (case rio_create io path of Some e \<Rightarrow> (Some (''create '' @ path @ '': '' @ e), fs)
       | None \<Rightarrow> (case write_rows io 0 (csv_rows (er_raw res)) of (err, text) \<Rightarrow> (err, fs(path \<mapsto> take (rio_flush io text) text)))))"

section \<open>Summaries\<close>

definition pad_right :: "nat \<Rightarrow> string \<Rightarrow> string" where
  "pad_right n s = s @ replicate (n - length s) (CHR '' '')"

definition pad_spaces :: "nat \<Rightarrow> string \<Rightarrow> string" where
  "pad_spaces n s = replicate (n - length s) (CHR '' '') @ s"

text \<open>\<open>%.0f\<close>.\<close>

definition fmt_whole :: "real \<Rightarrow> string" where
  "fmt_whole x = (if x < 0 then ''-'' else []) @ nat_digits (nat (rne \<bar>x\<bar>))"

definition lines_text :: "string list \<Rightarrow> string" where
  "lines_text ls = concat (map (\<lambda>l. l @ [newline]) ls)"

definition double_bar :: string where "double_bar = concat (replicate 68 [CHR 0xE2, CHR 0x95, CHR 0x90])"
definition single_bar :: string where "single_bar = concat (replicate 68 [CHR 0xE2, CHR 0x94, CHR 0x80])"
definition bullet :: string where "bullet = [CHR 0xE2, CHR 0x80, CHR 0xA2]"
definition check_mark :: string where "check_mark = [CHR 0xE2, CHR 0x9C, CHR 0x93]"

datatype unit_kind = Unit_ms | Unit_count | Unit_kbps

definition format_pretty_value :: "real \<Rightarrow> unit_kind \<Rightarrow> string" where
  "format_pretty_value v u = (case u of Unit_ms \<Rightarrow> fmt_fixed 1 v @ ''ms'' | Unit_kbps \<Rightarrow> fmt_whole v @ '' kbps'' | Unit_count \<Rightarrow> fmt_fixed 2 v)"

definition format_p_stars :: "real \<Rightarrow> string" where
  "format_p_stars p = (if p < fl (1 / 1000) then ''p < 0.001 ***'' else if p < fl (1 / 100) then ''p < 0.01 **''
     else if p < fl (5 / 100) then ''p < 0.05 *'' else ''p = '' @ fmt_fixed 3 p)"

text \<open>\<open>strings.ToLower\<close> on ASCII.\<close>

definition lower_ascii :: "string \<Rightarrow> string" where
  "lower_ascii = map (\<lambda>c. let n = of_char c :: nat in if 65 \<le> n \<and> n \<le> 90 then char_of (n + 32) else c)"

definition verdict_line :: "string \<Rightarrow> string" where
  "verdict_line tag = (let t = lower_ascii tag in
     if t = ''dominant'' then ''QUIC is DOMINANT under these network conditions''
     else if t = ''large'' then ''QUIC shows LARGE advantage under these network conditions''
     else if t = ''moderate'' then ''QUIC shows MODERATE advantage under these network conditions''
     else ''QUIC shows NEGLIGIBLE advantage under these network conditions'')"

definition improvement_lines :: "improvement_detail \<Rightarrow> string list" where
  "improvement_lines d =
     [''  Improvement: '' @ fmt_fixed 1 (id_pct d) @ ''% [95% CI: '' @ fmt_fixed 1 (id_ci_lower d) @ ''% '' @ dash @ '' '' @ fmt_fixed 1 (id_ci_upper d) @ ''%]'',
      ''  Effect size: '' @ fmt_fixed 2 \<bar>id_effect d\<bar> @ '' ('' @ id_interp d @ ''), '' @ format_p_stars (id_p d)]"

definition latency_block :: "enhanced_comparison \<Rightarrow> string \<Rightarrow> string \<Rightarrow> unit_kind \<Rightarrow> string list" where
  "latency_block ec title key u = (case ec_improvements ec key of None \<Rightarrow> [] | Some d \<Rightarrow>
     [title @ '':'', ''  TCP (H2):  '' @ format_pretty_value (id_tcp d) u, ''  QUIC (H3): '' @ format_pretty_value (id_quic d) u]
     @ improvement_lines d @ [[]])"

definition cache_block :: "enhanced_comparison \<Rightarrow> string list" where
  "cache_block ec = (case ec_improvements ec ''cache_hit_rate_pct'' of None \<Rightarrow> [] | Some d \<Rightarrow>
     [''Cache Hit Rate:'', ''  TCP (H2):  '' @ fmt_fixed 1 (id_tcp d) @ ''%'', ''  QUIC (H3): '' @ fmt_fixed 1 (id_quic d) @ ''%'']
     @ (if \<not> id_significant d \<and> \<bar>id_pct d\<bar> \<le> 5
        then [''  No significant difference (p = '' @ fmt_fixed 2 (id_p d) @ '') '' @ dash @ '' cache is transport-independent '' @ check_mark]
        else improvement_lines d) @ [[]])"

definition hol_block :: "enhanced_comparison \<Rightarrow> string list" where
  "hol_block ec = (case ec_improvements ec ''hol_block_events'' of None \<Rightarrow> [] | Some d \<Rightarrow>
     [''HOL Block Events:'', ''  TCP (H2):  '' @ fmt_fixed 1 (id_tcp d) @ '' events/session'',
      if id_quic d = 0 then ''  QUIC (H3): 0 events/session (by design)'' else ''  QUIC (H3): '' @ fmt_fixed 1 (id_quic d) @ '' events/session'', []])"

text \<open>What \<open>WriteEnhancedSummary\<close> prints, call by call.\<close>

definition summary_parts :: "enhanced_comparison \<Rightarrow> string list list" where
  "summary_parts ec = [
     [double_bar, ''CDN-SIM RESULTS: '' @ ec_scenario ec, double_bar, []],
     latency_block ec ''Segment Latency (p50)'' ''segment_latency_p50_ms'' Unit_ms,
     latency_block ec ''Segment Latency (p95)'' ''segment_latency_p95_ms'' Unit_ms,
     latency_block ec ''Segment Latency (p99)'' ''segment_latency_p99_ms'' Unit_ms,
     latency_block ec ''Startup Latency'' ''startup_latency_ms'' Unit_ms,
     latency_block ec ''Rebuffer Count'' ''rebuffer_count'' Unit_count,
     latency_block ec ''Rebuffer Duration'' ''rebuffer_duration_ms'' Unit_ms,
     latency_block ec ''Avg Bitrate'' ''avg_bitrate_kbps'' Unit_kbps,
     cache_block ec,
     hol_block ec,
     [single_bar],
     [''VERDICT: '' @ verdict_line (quic_advantage ec)],
     [[], ''KEY FINDINGS:''],
     (if key_findings ec = [] then [bullet @ '' (no notable findings)''] else []),
     map (\<lambda>f. bullet @ '' '' @ f) (key_findings ec),
     [double_bar]]"

definition enhanced_summary :: "enhanced_comparison \<Rightarrow> string list" where
  "enhanced_summary ec = concat (summary_parts ec)"

definition summary_head :: "string \<Rightarrow> experiment_results \<Rightarrow> string list" where
  "summary_head dur res = [''Experiment: '' @ ex_name (er_config res), ''Description: '' @ ex_description (er_config res),
     ''Seed: '' @ itoa (sint (ex_seed (er_config res))) @ ''  Runs: '' @ itoa (ex_runs (er_config res)) @ ''  Duration: '' @ dur, []]"

definition protocol_lines :: "string \<Rightarrow> aggregated_metrics \<Rightarrow> string list" where
  "protocol_lines p m =
     [''== '' @ p @ '' =='', ''  sessions='' @ itoa (num_sessions m) @ '' abr='' @ am_abr m,
      ''  segment_latency_ms p50='' @ fmt_fixed 1 (ps_p50 (segment_latency m)) @ '' p95='' @ fmt_fixed 1 (ps_p95 (segment_latency m)) @ '' p99='' @ fmt_fixed 1 (ps_p99 (segment_latency m)),
      ''  startup_latency_ms p50='' @ fmt_fixed 1 (ps_p50 (am_startup m)) @ '' p95='' @ fmt_fixed 1 (ps_p95 (am_startup m)) @ '' p99='' @ fmt_fixed 1 (ps_p99 (am_startup m)),
      ''  avg_bitrate_kbps mean='' @ fmt_fixed 1 (ss_mean (am_avg_bitrate m)) @ '' std='' @ fmt_fixed 1 (ss_std_dev (am_avg_bitrate m)),
      ''  rebuffer_count mean='' @ fmt_fixed 2 (ss_mean (am_rebuffer_count m)) @ '' rebuffer_duration_ms mean='' @ fmt_fixed 1 (ss_mean (am_rebuffer_duration m)),
      ''  cache_hit_rate_pct mean='' @ fmt_fixed 1 (ss_mean (am_hit_rate m)) @ '' hol_events/session mean='' @ fmt_fixed 2 (ss_mean (hol_block_rate m)), []]"

definition improvement_line :: "improvement_result \<Rightarrow> string" where
  "improvement_line i = ''  '' @ pad_right 30 (ir_metric i) @ ''  tcp='' @ pad_right 10 (fmt_fixed 2 (ir_tcp i)) @ '' quic='' @ pad_right 10 (fmt_fixed 2 (ir_quic i))
     @ ''  improvement='' @ pad_spaces 6 (fmt_signed 2 (ir_pct i)) @ ''%  [95% CI: '' @ fmt_signed 2 (ir_ci_lower i) @ ''% .. '' @ fmt_signed 2 (ir_ci_upper i)
     @ ''%]  d='' @ fmt_fixed 2 (ir_cohens_d i) @ '' ('' @ ir_effect i @ '')''"

text \<open>The lines of \<open>WriteSummary\<close> after its head; the keys of the map come in the order \<open>sort.Strings\<close> gives them.\<close>

definition summary_body :: "experiment_results \<Rightarrow> string list" where
  "summary_body res = (case er_enhanced res of Some e \<Rightarrow> enhanced_summary e
   | None \<Rightarrow> concat (map (\<lambda>p. protocol_lines p (the (er_by_protocol res p))) (sorted_list_of_set (dom (er_by_protocol res))))
       @ (case er_comparison res of None \<Rightarrow> [] | Some c \<Rightarrow> ''== Comparison (QUIC vs TCP) =='' # map improvement_line (cr_improvement c)))"

definition summary_text :: "string \<Rightarrow> experiment_results \<Rightarrow> string" where
  "summary_text dur res = lines_text (summary_head dur res @ summary_body res)"

text \<open>The texts it prints, one for each call of package \<open>fmt\<close>: a line, except for the last one of the head, which is two.\<close>

definition summary_calls :: "string \<Rightarrow> experiment_results \<Rightarrow> string list" where
  "summary_calls dur res = map (\<lambda>l. l @ [newline]) (take 2 (summary_head dur res)) @ [lines_text (drop 2 (summary_head dur res))]
     @ map (\<lambda>l. l @ [newline]) (summary_body res)"

text \<open>\<open>io.MultiWriter\<close> gives a text to the file and, if that went well, to the other writer. Errors of printing are not looked at, and the next
  text is printed as if nothing had happened.\<close>

fun print_calls :: "report_io \<Rightarrow> nat \<Rightarrow> string list \<Rightarrow> string \<times> string" where
  "print_calls io n [] = ([], [])"
| "print_calls io n (t # ts) = (let (f, shown) = print_calls io (Suc n) ts in
     case rio_print io n of Some k \<Rightarrow> (take k t @ f, shown)
     | None \<Rightarrow> (t @ f, (case rio_show io n of Some k \<Rightarrow> take k t | None \<Rightarrow> t) @ shown))"

definition write_summary :: "report_io \<Rightarrow> string \<Rightarrow> experiment_results \<Rightarrow> string \<Rightarrow> files \<Rightarrow> string option \<times> files \<times> string" where
  "write_summary io dur res dir fs = (case rio_mkdir io dir of Some e \<Rightarrow> (Some e, fs, [])
     | None \<Rightarrow> let path = rio_join io dir ''summary.txt'' in (case rio_create io path of Some e \<Rightarrow> (Some e, fs, [])
       | None \<Rightarrow> (case print_calls io 0 (summary_calls dur res) of (f, shown) \<Rightarrow> (None, fs(path \<mapsto> f), shown))))"

lemma lines_text_append [simp]: "lines_text (xs @ ys) = lines_text xs @ lines_text ys"
  by (simp add: lines_text_def)

lemma concat_calls: "concat (summary_calls dur res) = summary_text dur res"
proof -
  have "lines_text (take 2 xs) @ lines_text (drop 2 xs) = lines_text xs" for xs
    using lines_text_append [of "take 2 xs" "drop 2 xs"] by simp
  then show ?thesis by (simp add: summary_calls_def summary_text_def) (simp add: lines_text_def)
qed

lemma print_calls_file: "\<forall>k. rio_print io k = None \<Longrightarrow> fst (print_calls io n ts) = concat ts"
  by (induction ts arbitrary: n) (simp_all add: case_prod_unfold Let_def)

lemma print_calls_shown: "\<forall>k. rio_print io k = None \<Longrightarrow> \<forall>k. rio_show io k = None \<Longrightarrow> snd (print_calls io n ts) = concat ts"
  by (induction ts arbitrary: n) (simp_all add: case_prod_unfold Let_def)

text \<open>A failed write to the file takes the text away from the other writer, and nobody is told.\<close>

lemma print_error_unseen:
  assumes "rio_mkdir io dir = None" "rio_create io (rio_join io dir ''summary.txt'') = None" "\<forall>n. rio_print io n = Some 0"
  shows "write_summary io dur res dir fs = (None, fs(rio_join io dir ''summary.txt'' \<mapsto> []), [])"
proof -
  have "print_calls io n ts = ([], [])" for n ts by (induction ts arbitrary: n) (simp_all add: assms(3))
  then show ?thesis using assms(1,2) by (simp add: write_summary_def Let_def)
qed

section \<open>The CSV file reads back\<close>

text \<open>A strict reader of quoted and bare fields: what it takes for a field, and what follows.\<close>

fun read_quoted :: "string \<Rightarrow> (string \<times> string) option" where
  "read_quoted [] = None"
| "read_quoted [c] = (if c = quote_char then Some ([], []) else None)"
| "read_quoted (c # d # rest) = (if c \<noteq> quote_char then map_option (apfst (Cons c)) (read_quoted (d # rest))
     else if d = quote_char then map_option (apfst (Cons quote_char)) (read_quoted rest) else Some ([], d # rest))"

definition read_field :: "string \<Rightarrow> (string \<times> string) option" where
  "read_field s = (if s \<noteq> [] \<and> hd s = quote_char then read_quoted (tl s)
     else Some (takeWhile (\<lambda>c. c \<noteq> CHR '','' \<and> c \<noteq> newline) s, dropWhile (\<lambda>c. c \<noteq> CHR '','' \<and> c \<noteq> newline) s))"

lemma read_quoted_shorter: "read_quoted s = Some (f, rest) \<Longrightarrow> length rest \<le> length s"
  by (induction s arbitrary: f rest rule: read_quoted.induct) (fastforce split: if_splits)+

lemma read_field_shorter: "read_field s = Some (f, rest) \<Longrightarrow> length rest \<le> length s"
proof (cases "s \<noteq> [] \<and> hd s = quote_char")
  case True
  assume "read_field s = Some (f, rest)"
  with True have "read_quoted (tl s) = Some (f, rest)" by (simp add: read_field_def)
  from read_quoted_shorter [OF this] show ?thesis by simp
qed (auto simp: read_field_def length_dropWhile_le)

function read_row :: "string \<Rightarrow> (string list \<times> string) option" where
  "read_row s = (case read_field s of
     Some (f, c # rest) \<Rightarrow> if c = CHR '','' then map_option (apfst (Cons f)) (read_row rest)
       else if c = newline then Some ([f], rest) else None
   | _ \<Rightarrow> None)"
  by pat_completeness auto
termination by (relation "measure length") (auto dest: read_field_shorter)

declare read_row.simps [simp del]

lemma read_row_shorter: "read_row s = Some (r, rest) \<Longrightarrow> length rest < length s"
proof (induction s arbitrary: r rest rule: read_row.induct)
  case (1 s)
  from "1.prems" obtain f c t where f: "read_field s = Some (f, c # t)"
    by (subst (asm) read_row.simps) (auto split: option.splits list.splits)
  note len = read_field_shorter [OF f]
  show ?case
  proof (cases "c = CHR '',''")
    case True
    with "1.prems" f obtain r' where "read_row t = Some (r', rest)"
      by (subst (asm) read_row.simps) auto
    from "1.IH" [OF f refl refl True this] len show ?thesis by simp
  next
    case False
    with "1.prems" f len show ?thesis by (subst (asm) read_row.simps) (auto split: if_splits)
  qed
qed

function read_rows :: "string \<Rightarrow> string list list option" where
  "read_rows s = (if s = [] then Some [] else case read_row s of None \<Rightarrow> None | Some (r, rest) \<Rightarrow> map_option (Cons r) (read_rows rest))"
  by pat_completeness auto
termination by (relation "measure length") (auto dest: read_row_shorter)

declare read_rows.simps [simp del]

lemma quote_chars: "quote_char \<noteq> CHR '',''" "quote_char \<noteq> newline" "CHR '','' \<noteq> newline"
  by (simp_all add: quote_char_def newline_def)

lemma read_escaped:
  assumes "c \<noteq> quote_char"
  shows "read_quoted (concat (map (\<lambda>c. if c = quote_char then [quote_char, quote_char] else [c]) f) @ quote_char # c # t) = Some (f, c # t)"
proof (induction f)
  case Nil
  then show ?case using assms by simp
next
  case (Cons d f)
  obtain x xs where x: "concat (map (\<lambda>c. if c = quote_char then [quote_char, quote_char] else [c]) f) @ quote_char # c # t = x # xs"
    by (cases "concat (map (\<lambda>c. if c = quote_char then [quote_char, quote_char] else [c]) f)") auto
  with Cons show ?case by auto
qed

lemma read_csv_field:
  assumes "c = CHR '','' \<or> c = newline"
  shows "read_field (csv_field f @ c # t) = Some (f, c # t)"
proof (cases "field_needs_quotes f")
  case True
  have "c \<noteq> quote_char" using assms quote_chars by metis
  from True read_escaped [OF this, of f t] show ?thesis by (simp add: csv_field_def read_field_def)
next
  case False
  then have plain: "\<forall>x\<in>set f. x \<noteq> CHR '','' \<and> x \<noteq> newline \<and> x \<noteq> quote_char" by (auto simp: field_needs_quotes_def)
  then have "takeWhile (\<lambda>x. x \<noteq> CHR '','' \<and> x \<noteq> newline) (f @ c # t) = f" "dropWhile (\<lambda>x. x \<noteq> CHR '','' \<and> x \<noteq> newline) (f @ c # t) = c # t"
    using assms by (auto simp: takeWhile_append dropWhile_append3)
  moreover have "hd (f @ c # t) \<noteq> quote_char" using plain assms quote_chars by (cases f) auto
  ultimately show ?thesis using False by (simp add: csv_field_def read_field_def)
qed

lemma read_csv_line: "r \<noteq> [] \<Longrightarrow> read_row (csv_line r @ t) = Some (r, t)"
proof (induction r rule: csv_line.induct)
  case (2 f)
  then show ?case using quote_chars by (subst read_row.simps) (simp add: read_csv_field)
next
  case (3 f g fs)
  then show ?case by (subst read_row.simps) (simp add: read_csv_field)
qed simp

lemma read_csv_lines: "\<forall>r\<in>set rows. r \<noteq> [] \<Longrightarrow> read_rows (concat (map csv_line rows)) = Some rows"
proof (induction rows)
  case Nil
  then show ?case by (subst read_rows.simps) simp
next
  case (Cons r rows)
  have "csv_line r \<noteq> []" by (cases r rule: csv_line.cases) simp_all
  with Cons show ?case by (subst read_rows.simps) (simp add: read_csv_line)
qed

section \<open>What the files hold\<close>

lemma csv_row_length [simp]: "length (csv_row r s) = 15" "csv_row r s \<noteq> []"
  by (simp_all add: csv_row_def)

lemma write_rows_None: "write_rows io n rows = (None, out) \<Longrightarrow> out = concat (map csv_line rows)"
proof (induction io n rows arbitrary: out rule: write_rows.induct)
  case (2 io n r rs)
  then show ?case by (cases "write_rows io (Suc n) rs") (auto split: option.splits)
qed simp

lemma write_rows_flush: "write_rows (io\<lparr>rio_flush := kept\<rparr>) n rows = write_rows io n rows"
  by (induction io n rows rule: write_rows.induct) (simp_all split: option.split)

text \<open>What a row says of a segment of a session, column by column, and what it means that a file shows all segments of some sessions.\<close>

definition column :: "string \<Rightarrow> string list \<Rightarrow> string option" where
  "column name row = map_of (zip [''protocol'', ''abr'', ''content_id'', ''segment_index'', ''bitrate_kbps'', ''size_bytes'', ''ttfb_ms'', ''latency_ms'',
     ''goodput_mbps'', ''cache_hit'', ''shield_hit'', ''hol_blocked'', ''buffer_before_ms'', ''buffer_after_ms'', ''rebuffered''] row) name"

definition row_shows :: "playback_result \<Rightarrow> segment_result \<Rightarrow> string list \<Rightarrow> bool" where
  "row_shows r x row \<longleftrightarrow> length row = 15
     \<and> column ''protocol'' row = Some (pr_protocol r) \<and> column ''abr'' row = Some (pr_abr_name r) \<and> column ''content_id'' row = Some (pr_content_id r)
     \<and> column ''segment_index'' row = Some (itoa (sr_index x)) \<and> column ''bitrate_kbps'' row = Some (itoa (sr_bitrate x))
     \<and> column ''size_bytes'' row = Some (itoa (sr_size x))
     \<and> column ''ttfb_ms'' row = Some (itoa (go_quot (sr_ttfb x) 1000000)) \<and> column ''latency_ms'' row = Some (itoa (go_quot (sr_latency x) 1000000))
     \<and> column ''goodput_mbps'' row = Some (fmt_fixed 3 (sr_goodput x))
     \<and> column ''cache_hit'' row = Some (if sr_cache_hit x then ''true'' else ''false'')
     \<and> column ''shield_hit'' row = Some (if sr_shield_hit x then ''true'' else ''false'')
     \<and> column ''hol_blocked'' row = Some (if sr_hol_blocked x then ''true'' else ''false'')
     \<and> column ''buffer_before_ms'' row = Some (itoa (go_quot (sr_buffer_before x) 1000000))
     \<and> column ''buffer_after_ms'' row = Some (itoa (go_quot (sr_buffer_after x) 1000000))
     \<and> column ''rebuffered'' row = Some (if sr_rebuffered x then ''true'' else ''false'')"

definition csv_shows :: "collector \<Rightarrow> string \<Rightarrow> bool" where
  "csv_shows rs t \<longleftrightarrow> (\<exists>rows. read_rows t = Some ([''protocol'', ''abr'', ''content_id'', ''segment_index'', ''bitrate_kbps'', ''size_bytes'', ''ttfb_ms'',
       ''latency_ms'', ''goodput_mbps'', ''cache_hit'', ''shield_hit'', ''hol_blocked'', ''buffer_before_ms'', ''buffer_after_ms'', ''rebuffered''] # rows)
     \<and> length rows = sum_list (map (\<lambda>r. length (pr_segments r)) rs)
     \<and> (\<forall>k<length rs. \<forall>j<length (pr_segments (rs ! k)). row_shows (rs ! k) (pr_segments (rs ! k) ! j)
          (rows ! (sum_list (map (\<lambda>r. length (pr_segments r)) (take k rs)) + j))))"

lemma csv_row_shows: "row_shows r x (csv_row r x)"
  unfolding row_shows_def column_def csv_row_def bool_text_def dur_milliseconds_def millisecond_def zip_Cons_Cons map_of.simps
  by (simp add: fun_upd_def)

lemma segment_rows_nth:
  "k < length rs \<Longrightarrow> j < length (pr_segments (rs ! k)) \<Longrightarrow>
    concat (map (\<lambda>r. map (csv_row r) (pr_segments r)) rs) ! (sum_list (map (\<lambda>r. length (pr_segments r)) (take k rs)) + j)
      = csv_row (rs ! k) (pr_segments (rs ! k) ! j)"
proof (induction rs arbitrary: k)
  case (Cons r rs)
  show ?case
  proof (cases k)
    case 0
    with Cons.prems show ?thesis by (simp add: nth_append)
  next
    case (Suc m)
    with Cons.prems Cons.IH [of m] show ?thesis by (simp add: nth_append add.assoc)
  qed
qed simp

lemma csv_rows_shown: "csv_shows rs (concat (map csv_line (csv_rows rs)))"
proof -
  have "read_rows (concat (map csv_line (csv_rows rs))) = Some (csv_rows rs)"
    by (rule read_csv_lines) (auto simp: csv_rows_def csv_header_def)
  moreover have "length (concat (map (\<lambda>r. map (csv_row r) (pr_segments r)) rs)) = sum_list (map (\<lambda>r. length (pr_segments r)) rs)"
    by (simp add: length_concat comp_def)
  moreover have "row_shows (rs ! k) (pr_segments (rs ! k) ! j) (concat (map (\<lambda>r. map (csv_row r) (pr_segments r)) rs)
      ! (sum_list (map (\<lambda>r. length (pr_segments r)) (take k rs)) + j))" if "k < length rs" "j < length (pr_segments (rs ! k))" for k j
    using csv_row_shows segment_rows_nth [OF that] by simp
  ultimately show ?thesis unfolding csv_shows_def csv_rows_def csv_header_def by blast
qed

lemma write_csv_shown:
  assumes "write_csv rio res dir fs = (None, fs')"
  shows "\<exists>out. csv_shows (er_raw res) out \<and> fs' = fs(rio_join rio dir ''raw.csv'' \<mapsto> take (rio_flush rio out) out)"
proof -
  obtain out where t: "write_rows rio 0 (csv_rows (er_raw res)) = (None, out)"
    "fs' = fs(rio_join rio dir ''raw.csv'' \<mapsto> take (rio_flush rio out) out)"
    using assms by (auto simp: write_csv_def Let_def split: option.splits prod.splits)
  from write_rows_None [OF t(1)] t(2) csv_rows_shown show ?thesis by blast
qed

text \<open>C22: The raw data survive the CSV file. Whatever the names of protocols, algorithms and contents, with commas, quotes, line breaks or
  blanks in them, the text of the rows reads back as the header of fifteen columns and one row for each segment, first by session and then by
  segment, in which each column holds what its name says of that segment; and every 64-bit number reads back from its text. When \<open>WriteCSV\<close> reports
  no error and the flush at its end is complete the file holds exactly this text; but it reports no error either when the flush is not.\<close>

theorem csv_roundtrip:
  "csv_shows rs (concat (map csv_line (csv_rows rs)))
    \<and> (in_int64 n \<longrightarrow> atoi (itoa n) = Some n)
    \<and> (\<forall>fs fs'. write_csv io res dir fs = (None, fs') \<longrightarrow> (\<exists>out. csv_shows (er_raw res) out
        \<and> fs' = fs(rio_join io dir ''raw.csv'' \<mapsto> take (rio_flush io out) out)))
    \<and> (\<forall>fs kept. fst (write_csv (io\<lparr>rio_flush := kept\<rparr>) res dir fs) = fst (write_csv io res dir fs))"
proof (intro conjI impI allI)
  show "csv_shows rs (concat (map csv_line (csv_rows rs)))" by (rule csv_rows_shown)
  show "in_int64 n \<Longrightarrow> atoi (itoa n) = Some n" by (rule atoi_itoa)
  fix fs fs'
  assume "write_csv io res dir fs = (None, fs')"
  then show "\<exists>out. csv_shows (er_raw res) out \<and> fs' = fs(rio_join io dir ''raw.csv'' \<mapsto> take (rio_flush io out) out)"
    by (rule write_csv_shown)
next
  fix fs kept
  show "fst (write_csv (io\<lparr>rio_flush := kept\<rparr>) res dir fs) = fst (write_csv io res dir fs)"
    by (simp add: write_csv_def write_rows_flush Let_def split: option.split prod.split)
qed

definition demo_segment :: segment_result where
  "demo_segment = \<lparr>sr_index = 0, sr_bitrate = 400, sr_size = 200000, sr_ttfb = 0, sr_latency = 0, sr_goodput = 0, sr_cache_hit = True,
     sr_shield_hit = False, sr_hol_blocked = False, sr_buffer_before = 0, sr_buffer_after = 0, sr_rebuffered = False\<rparr>"

definition demo_result :: playback_result where
  "demo_result = \<lparr>pr_content_id = ''a,b'', pr_protocol = ''tcp-h2'', pr_abr_name = [], startup_latency = 0, total_play_time = 0,
     rebuffer_count = 0, rebuffer_duration = 0, avg_bitrate = 0, bitrate_changes = 0, pr_segments = [demo_segment], cache_hit_rate = 1\<rparr>"

theorem csv_roundtrip_witness:
  "csv_shows [demo_result] (concat (map csv_line (csv_rows [demo_result]))) \<and> atoi (itoa 200000) = Some 200000"
  using csv_roundtrip [of "[demo_result]" 200000] by (simp add: int64_defs)

text \<open>What the summary prints of a report: for each title of a block, the metric it is about and how the value of a protocol is written under
  it, and the verdict in words.\<close>

definition mean_blocks :: "(string \<times> string \<times> (real \<Rightarrow> string)) list" where
  "mean_blocks = [(''Segment Latency (p50):'', ''segment_latency_p50_ms'', \<lambda>v. fmt_fixed 1 v @ ''ms''),
     (''Segment Latency (p95):'', ''segment_latency_p95_ms'', \<lambda>v. fmt_fixed 1 v @ ''ms''),
     (''Segment Latency (p99):'', ''segment_latency_p99_ms'', \<lambda>v. fmt_fixed 1 v @ ''ms''),
     (''Startup Latency:'', ''startup_latency_ms'', \<lambda>v. fmt_fixed 1 v @ ''ms''),
     (''Rebuffer Count:'', ''rebuffer_count'', fmt_fixed 2),
     (''Rebuffer Duration:'', ''rebuffer_duration_ms'', \<lambda>v. fmt_fixed 1 v @ ''ms''),
     (''Avg Bitrate:'', ''avg_bitrate_kbps'', \<lambda>v. fmt_whole v @ '' kbps'')]"

definition effect_lines :: "improvement_detail \<Rightarrow> string list" where
  "effect_lines d =
     [''  Improvement: '' @ fmt_fixed 1 (id_pct d) @ ''% [95% CI: '' @ fmt_fixed 1 (id_ci_lower d) @ ''% '' @ dash @ '' '' @ fmt_fixed 1 (id_ci_upper d) @ ''%]'',
      ''  Effect size: '' @ fmt_fixed 2 \<bar>id_effect d\<bar> @ '' ('' @ id_interp d @ ''), '' @ format_p_stars (id_p d)]"

definition verdict_tags :: "string list" where
  "verdict_tags = [''negligible'', ''moderate'', ''large'', ''dominant'']"

lemma verdict_tag: "quic_advantage (fst (compare_enhanced M R c scenario p q g)) \<in> set verdict_tags"
  by (simp add: compare_enhanced_def derive_verdict_def verdict_tags_def Let_def case_prod_unfold split: option.split)

lemma verdict_lines_differ: "inj_on verdict_line (set verdict_tags)"
  by (simp add: inj_on_def verdict_tags_def verdict_line_def lower_ascii_def Let_def char_of_def)

lemma all_keys:
  assumes "k \<in> {''segment_latency_p50_ms'', ''segment_latency_p95_ms'', ''segment_latency_p99_ms'', ''startup_latency_ms'', ''rebuffer_count'',
    ''rebuffer_duration_ms'', ''avg_bitrate_kbps'', ''cache_hit_rate_pct'', ''hol_block_events''}"
  shows "\<exists>d. ec_improvements (fst (compare_enhanced M R c scenario p q g)) k = Some d"
proof -
  have "k \<in> ms_key ` set enhanced_metric_specs" using assms by (auto simp: enhanced_metric_specs_def mk_spec_def)
  then obtain spec where "spec \<in> set enhanced_metric_specs" "k = ms_key spec" by blast
  with enhanced_entry [of spec M R c scenario p q g] show ?thesis by blast
qed

lemma summary_part: "part \<in> set (summary_parts ec) \<Longrightarrow> sublist part (enhanced_summary ec)"
proof -
  assume "part \<in> set (summary_parts ec)"
  then obtain pre post where "summary_parts ec = pre @ part # post" by (metis split_list)
  then have "enhanced_summary ec = concat pre @ part @ concat post" by (simp add: enhanced_summary_def)
  then show ?thesis by (simp add: sublist_def) blast
qed

lemma sublist_Nil_end: "sublist (xs @ [y]) zs \<Longrightarrow> sublist xs zs"
  by (metis append_assoc sublist_def)

lemma latency_shown:
  assumes "ec_improvements ec key = Some d" "latency_block ec title key u \<in> set (summary_parts ec)"
  shows "sublist ([title @ '':'', ''  TCP (H2):  '' @ format_pretty_value (id_tcp d) u, ''  QUIC (H3): '' @ format_pretty_value (id_quic d) u]
    @ effect_lines d) (enhanced_summary ec)"
proof -
  have "latency_block ec title key u = ([title @ '':'', ''  TCP (H2):  '' @ format_pretty_value (id_tcp d) u,
      ''  QUIC (H3): '' @ format_pretty_value (id_quic d) u] @ effect_lines d) @ [[]]"
    unfolding latency_block_def improvement_lines_def effect_lines_def assms(1) option.case by simp
  with summary_part [OF assms(2)] show ?thesis using sublist_Nil_end by metis
qed

lemma mean_blocks_shown:
  assumes "ec = fst (compare_enhanced M R c scenario p q g)" "(title, key, f) \<in> set mean_blocks"
  shows "\<exists>d. ec_improvements ec key = Some d
    \<and> sublist ([title, ''  TCP (H2):  '' @ f (id_tcp d), ''  QUIC (H3): '' @ f (id_quic d)] @ effect_lines d) (enhanced_summary ec)"
proof -
  have one: "\<exists>d. ec_improvements ec key = Some d
      \<and> sublist ([t @ '':'', ''  TCP (H2):  '' @ f (id_tcp d), ''  QUIC (H3): '' @ f (id_quic d)] @ effect_lines d) (enhanced_summary ec)"
    if "\<exists>d. ec_improvements ec key = Some d" "\<And>v. format_pretty_value v u = f v" "latency_block ec t key u \<in> set (summary_parts ec)" for t key f u
    using that(1) latency_shown [OF _ that(3)] unfolding that(2) by blast
  note key = all_keys [of _ M R c scenario p q g, folded assms(1)]
  have parts: "latency_block ec ''Segment Latency (p50)'' ''segment_latency_p50_ms'' Unit_ms \<in> set (summary_parts ec)"
    "latency_block ec ''Segment Latency (p95)'' ''segment_latency_p95_ms'' Unit_ms \<in> set (summary_parts ec)"
    "latency_block ec ''Segment Latency (p99)'' ''segment_latency_p99_ms'' Unit_ms \<in> set (summary_parts ec)"
    "latency_block ec ''Startup Latency'' ''startup_latency_ms'' Unit_ms \<in> set (summary_parts ec)"
    "latency_block ec ''Rebuffer Count'' ''rebuffer_count'' Unit_count \<in> set (summary_parts ec)"
    "latency_block ec ''Rebuffer Duration'' ''rebuffer_duration_ms'' Unit_ms \<in> set (summary_parts ec)"
    "latency_block ec ''Avg Bitrate'' ''avg_bitrate_kbps'' Unit_kbps \<in> set (summary_parts ec)"
    unfolding summary_parts_def list.set by ((rule insertI1 | rule insertI2)+)+
  have u: "format_pretty_value v Unit_ms = fmt_fixed 1 v @ ''ms''" "format_pretty_value v Unit_count = fmt_fixed 2 v"
    "format_pretty_value v Unit_kbps = fmt_whole v @ '' kbps''" for v by (simp_all add: format_pretty_value_def)
  note b = one [OF key u(1) parts(1)] one [OF key u(1) parts(2)] one [OF key u(1) parts(3)] one [OF key u(1) parts(4)]
    one [OF key u(2) parts(5)] one [OF key u(1) parts(6)] one [OF key u(3) parts(7)]
  from assms(2) consider "(title, key, f) = (''Segment Latency (p50)'' @ '':'', ''segment_latency_p50_ms'', \<lambda>v. fmt_fixed 1 v @ ''ms'')"
    | "(title, key, f) = (''Segment Latency (p95)'' @ '':'', ''segment_latency_p95_ms'', \<lambda>v. fmt_fixed 1 v @ ''ms'')"
    | "(title, key, f) = (''Segment Latency (p99)'' @ '':'', ''segment_latency_p99_ms'', \<lambda>v. fmt_fixed 1 v @ ''ms'')"
    | "(title, key, f) = (''Startup Latency'' @ '':'', ''startup_latency_ms'', \<lambda>v. fmt_fixed 1 v @ ''ms'')"
    | "(title, key, f) = (''Rebuffer Count'' @ '':'', ''rebuffer_count'', fmt_fixed 2)"
    | "(title, key, f) = (''Rebuffer Duration'' @ '':'', ''rebuffer_duration_ms'', \<lambda>v. fmt_fixed 1 v @ ''ms'')"
    | "(title, key, f) = (''Avg Bitrate'' @ '':'', ''avg_bitrate_kbps'', \<lambda>v. fmt_whole v @ '' kbps'')"
    unfolding mean_blocks_def list.set append.simps insert_iff empty_iff by argo
  then show ?thesis by cases (simp only: prod.inject, rule b, (rule insertI1 | rule insertI2)+)+
qed

text \<open>C27: The summary shows the whole comparison. For every report the comparison of two protocols makes, it prints under the title of each of the
  seven metrics that are compared as means, line by line, the TCP value and the QUIC value of that very metric in its unit, the improvement with
  its interval, and the effect; under \<open>Cache Hit Rate:\<close> and \<open>HOL Block Events:\<close> the two values of theirs, and that QUIC had no blocked stream by
  design exactly when its mean is zero; it has every finding, and a verdict in words from which the verdict can be told. The summary of
  an experiment over both protocols is this one.\<close>

theorem summary_complete:
  "(let ec = fst (compare_enhanced M R c scenario p q g); ls = enhanced_summary ec in
      (\<forall>(title, key, f)\<in>set mean_blocks. \<exists>d. ec_improvements ec key = Some d
        \<and> sublist ([title, ''  TCP (H2):  '' @ f (id_tcp d), ''  QUIC (H3): '' @ f (id_quic d)] @ effect_lines d) ls)
      \<and> (\<exists>d. ec_improvements ec ''cache_hit_rate_pct'' = Some d
        \<and> sublist ([''Cache Hit Rate:'', ''  TCP (H2):  '' @ fmt_fixed 1 (id_tcp d) @ ''%'', ''  QUIC (H3): '' @ fmt_fixed 1 (id_quic d) @ ''%'']
          @ (if id_significant d \<or> 5 < \<bar>id_pct d\<bar> then effect_lines d
             else [''  No significant difference (p = '' @ fmt_fixed 2 (id_p d) @ '') '' @ dash @ '' cache is transport-independent '' @ check_mark])) ls)
      \<and> (\<exists>d. ec_improvements ec ''hol_block_events'' = Some d
        \<and> sublist [''HOL Block Events:'', ''  TCP (H2):  '' @ fmt_fixed 1 (id_tcp d) @ '' events/session'',
            (if id_quic d = 0 then ''  QUIC (H3): 0 events/session (by design)'' else ''  QUIC (H3): '' @ fmt_fixed 1 (id_quic d) @ '' events/session'')] ls)
      \<and> (\<forall>f\<in>set (key_findings ec). bullet @ '' '' @ f \<in> set ls)
      \<and> ''VERDICT: '' @ verdict_line (quic_advantage ec) \<in> set ls \<and> quic_advantage ec \<in> set verdict_tags)
    \<and> inj_on verdict_line (set verdict_tags)
    \<and> (has_both (ex_protocols cfg) \<longrightarrow> (\<exists>ec. er_enhanced (collect_results E cfg c) = Some ec
        \<and> summary_text dur (collect_results E cfg c) = lines_text (summary_head dur (collect_results E cfg c) @ enhanced_summary ec)))"
proof (intro conjI impI)
  define ec where "ec = fst (compare_enhanced M R c scenario p q g)"
  have means: "\<forall>(title, key, f)\<in>set mean_blocks. \<exists>d. ec_improvements ec key = Some d
      \<and> sublist ([title, ''  TCP (H2):  '' @ f (id_tcp d), ''  QUIC (H3): '' @ f (id_quic d)] @ effect_lines d) (enhanced_summary ec)"
    using mean_blocks_shown [OF ec_def] by blast
  note key = all_keys [of _ M R c scenario p q g, folded ec_def]
  have in_parts: "cache_block ec \<in> set (summary_parts ec)" "hol_block ec \<in> set (summary_parts ec)"
    "[''VERDICT: '' @ verdict_line (quic_advantage ec)] \<in> set (summary_parts ec)"
    "map (\<lambda>f. bullet @ '' '' @ f) (key_findings ec) \<in> set (summary_parts ec)"
    unfolding summary_parts_def list.set by ((rule insertI1 | rule insertI2)+)+
  have "\<exists>d. ec_improvements ec ''cache_hit_rate_pct'' = Some d" by (rule key, (rule insertI1 | rule insertI2)+)
  then obtain d1 where d1: "ec_improvements ec ''cache_hit_rate_pct'' = Some d1" ..
  have "cache_block ec = ([''Cache Hit Rate:'', ''  TCP (H2):  '' @ fmt_fixed 1 (id_tcp d1) @ ''%'', ''  QUIC (H3): '' @ fmt_fixed 1 (id_quic d1) @ ''%'']
      @ (if id_significant d1 \<or> 5 < \<bar>id_pct d1\<bar> then effect_lines d1
         else [''  No significant difference (p = '' @ fmt_fixed 2 (id_p d1) @ '') '' @ dash @ '' cache is transport-independent '' @ check_mark])) @ [[]]"
    unfolding cache_block_def d1 option.case improvement_lines_def effect_lines_def by (simp add: not_le)
  note cache = sublist_Nil_end [OF summary_part [OF in_parts(1), unfolded this]]
  have "\<exists>d. ec_improvements ec ''hol_block_events'' = Some d" by (rule key, (rule insertI1 | rule insertI2)+)
  then obtain d2 where d2: "ec_improvements ec ''hol_block_events'' = Some d2" ..
  have "hol_block ec = [''HOL Block Events:'', ''  TCP (H2):  '' @ fmt_fixed 1 (id_tcp d2) @ '' events/session'',
      (if id_quic d2 = 0 then ''  QUIC (H3): 0 events/session (by design)'' else ''  QUIC (H3): '' @ fmt_fixed 1 (id_quic d2) @ '' events/session'')] @ [[]]"
    unfolding hol_block_def d2 option.case by simp
  note hol = sublist_Nil_end [OF summary_part [OF in_parts(2), unfolded this]]
  have findings: "\<forall>f\<in>set (key_findings ec). bullet @ '' '' @ f \<in> set (enhanced_summary ec)"
    using set_mono_sublist [OF summary_part [OF in_parts(4)]] unfolding set_map by blast
  have verdict: "''VERDICT: '' @ verdict_line (quic_advantage ec) \<in> set (enhanced_summary ec)"
    using set_mono_sublist [OF summary_part [OF in_parts(3)]] unfolding list.set by blast
  have tag: "quic_advantage ec \<in> set verdict_tags" unfolding ec_def by (rule verdict_tag)
  show "let ec = fst (compare_enhanced M R c scenario p q g); ls = enhanced_summary ec in
      (\<forall>(title, key, f)\<in>set mean_blocks. \<exists>d. ec_improvements ec key = Some d
        \<and> sublist ([title, ''  TCP (H2):  '' @ f (id_tcp d), ''  QUIC (H3): '' @ f (id_quic d)] @ effect_lines d) ls)
      \<and> (\<exists>d. ec_improvements ec ''cache_hit_rate_pct'' = Some d
        \<and> sublist ([''Cache Hit Rate:'', ''  TCP (H2):  '' @ fmt_fixed 1 (id_tcp d) @ ''%'', ''  QUIC (H3): '' @ fmt_fixed 1 (id_quic d) @ ''%'']
          @ (if id_significant d \<or> 5 < \<bar>id_pct d\<bar> then effect_lines d
             else [''  No significant difference (p = '' @ fmt_fixed 2 (id_p d) @ '') '' @ dash @ '' cache is transport-independent '' @ check_mark])) ls)
      \<and> (\<exists>d. ec_improvements ec ''hol_block_events'' = Some d
        \<and> sublist [''HOL Block Events:'', ''  TCP (H2):  '' @ fmt_fixed 1 (id_tcp d) @ '' events/session'',
            (if id_quic d = 0 then ''  QUIC (H3): 0 events/session (by design)'' else ''  QUIC (H3): '' @ fmt_fixed 1 (id_quic d) @ '' events/session'')] ls)
      \<and> (\<forall>f\<in>set (key_findings ec). bullet @ '' '' @ f \<in> set ls)
      \<and> ''VERDICT: '' @ verdict_line (quic_advantage ec) \<in> set ls \<and> quic_advantage ec \<in> set verdict_tags"
    unfolding Let_def ec_def [symmetric]
    by (intro conjI means findings verdict tag exI [of _ d1] exI [of _ d2] d1 d2 cache hol)
  show "inj_on verdict_line (set verdict_tags)" by (rule verdict_lines_differ)
  assume "has_both (ex_protocols cfg)"
  then show "\<exists>ec. er_enhanced (collect_results E cfg c) = Some ec
      \<and> summary_text dur (collect_results E cfg c) = lines_text (summary_head dur (collect_results E cfg c) @ enhanced_summary ec)"
    by (simp add: collect_results_def summary_text_def summary_body_def Let_def)
qed

theorem summary_complete_witness:
  "\<exists>ec (d :: improvement_detail). quic_advantage ec \<in> set verdict_tags \<and> ''VERDICT: '' @ verdict_line (quic_advantage ec) \<in> set (enhanced_summary ec)
    \<and> sublist [''Segment Latency (p95):'', ''  TCP (H2):  '' @ fmt_fixed 1 (id_tcp d) @ ''ms''] (enhanced_summary ec)"
proof -
  define ec where "ec = fst (compare_enhanced flat_libm lcg [demo_result] ''s'' ''tcp-h2'' ''quic-h3'' 1)"
  have m: "(''Segment Latency (p95):'', ''segment_latency_p95_ms'', \<lambda>v. fmt_fixed 1 v @ ''ms'') \<in> set mean_blocks"
    unfolding mean_blocks_def list.set by ((rule insertI1 | rule insertI2)+)
  note c = summary_complete [of flat_libm lcg "[demo_result]" "''s''" "''tcp-h2''" "''quic-h3''" 1, THEN conjunct1, unfolded Let_def, folded ec_def]
  note v = c [THEN conjunct2, THEN conjunct2, THEN conjunct2, THEN conjunct2]
  from bspec [OF conjunct1 [OF c] m, unfolded prod.case] obtain d pre post where
    "enhanced_summary ec = pre @ ([''Segment Latency (p95):'', ''  TCP (H2):  '' @ fmt_fixed 1 (id_tcp d) @ ''ms'',
      ''  QUIC (H3): '' @ fmt_fixed 1 (id_quic d) @ ''ms''] @ effect_lines d) @ post" unfolding sublist_def by blast
  then have "sublist [''Segment Latency (p95):'', ''  TCP (H2):  '' @ fmt_fixed 1 (id_tcp d) @ ''ms''] (enhanced_summary ec)"
    unfolding sublist_def append.simps by blast
  with conjunct2 [OF v] conjunct1 [OF v] show ?thesis by blast
qed

section \<open>A disk without errors\<close>

lemma write_csv_file:
  assumes "write_csv rio res dir fs = (None, fs')"
  shows "\<exists>out. read_rows out = Some (csv_rows (er_raw res)) \<and> fs' = fs(rio_join rio dir ''raw.csv'' \<mapsto> take (rio_flush rio out) out)"
proof -
  obtain out where t: "write_rows rio 0 (csv_rows (er_raw res)) = (None, out)"
    "fs' = fs(rio_join rio dir ''raw.csv'' \<mapsto> take (rio_flush rio out) out)"
    using assms by (auto simp: write_csv_def Let_def split: option.splits prod.splits)
  from write_rows_None [OF t(1)] t(2) show ?thesis
    using read_csv_lines [of "csv_rows (er_raw res)"] by (auto simp: csv_rows_def csv_header_def)
qed

definition demo_report_io :: report_io where
  "demo_report_io = \<lparr>rio_join = (\<lambda>d f. d @ CHR ''/'' # f), rio_mkdir = (\<lambda>d. None), rio_create = (\<lambda>f. None), rio_write = (\<lambda>f. None),
     rio_encode = (\<lambda>d. Inr ''doc''), rio_row = (\<lambda>n. None), rio_flush = length,
     rio_print = (\<lambda>n. None), rio_show = (\<lambda>n. None)\<rparr>"

lemma demo_report_fields: "rio_mkdir demo_report_io d = None" "rio_create demo_report_io d = None" "rio_write demo_report_io d = None"
  "rio_encode demo_report_io x = Inr ''doc''" "rio_row demo_report_io n = None" "rio_print demo_report_io n = None" "rio_show demo_report_io n = None"
  by (simp_all add: demo_report_io_def)

lemma demo_writes:
  "\<exists>fs'. write_json demo_report_io res dir fs = (None, fs')" "\<exists>fs'. write_csv demo_report_io res dir fs = (None, fs')"
  "\<exists>fs' out. write_summary demo_report_io dur res dir fs = (None, fs', out)"
proof -
  have "\<exists>fs'. write_json_files demo_report_io ds fs = (None, fs')" for ds fs
    by (induction ds arbitrary: fs) (auto simp: write_json_file_def demo_report_fields)
  then show "\<exists>fs'. write_json demo_report_io res dir fs = (None, fs')"
    by (simp add: write_json_def demo_report_fields del: write_json_files.simps)
  have "fst (write_rows demo_report_io n rows) = None" for n rows
    by (induction rows arbitrary: n) (simp_all add: demo_report_fields)
  then show "\<exists>fs'. write_csv demo_report_io res dir fs = (None, fs')"
    by (simp add: write_csv_def case_prod_unfold Let_def demo_report_fields)
qed (simp add: write_summary_def demo_report_fields Let_def split: prod.split)

end
