(* ===== verification/Sweep_Files.thy ===== *)
theory Sweep_Files
  imports Report Sweep
begin

text \<open>
  A sweep with the disk it writes to: \<open>RunSweep\<close> of \<open>internal/experiment/sweep.go\<close> over the writers of \<open>internal/experiment/reporter.go\<close>.
  The model of \<open>Sweep\<close> takes what a write answers from outside; here, as the command line runs it, every write changes the files, its answers are those of
  \<open>Report\<close>, and what a sweep returns is shown to be the same. The theorem is about what is on the disk when it has returned.
\<close>

section \<open>Writing the results of a sweep\<close>

datatype sweep_doc = Index_doc sweep_index | Heatmap_doc heatmap_data

record 'y sweep_disk =
  sd_report :: report_io
  sd_encode :: "sweep_doc \<Rightarrow> string + string"
  sd_marshal :: "experiment_config \<Rightarrow> string + 'y"
  sd_unmarshal :: "'y \<Rightarrow> string + experiment_config"
  sd_format :: "real \<Rightarrow> string"

text \<open>A configuration is copied through its YAML text.\<close>

definition deep_copy_config :: "'y sweep_disk \<Rightarrow> experiment_config \<Rightarrow> string + experiment_config" where
  "deep_copy_config D c = (case sd_marshal D c of Inl e \<Rightarrow> Inl e
     | Inr text \<Rightarrow> (case sd_unmarshal D text of Inl e \<Rightarrow> Inl e | Inr out \<Rightarrow> Inr out))"

definition write_json_sweep :: "'y sweep_disk \<Rightarrow> string \<Rightarrow> sweep_doc \<Rightarrow> files \<Rightarrow> string option \<times> files" where
  "write_json_sweep D path doc fs = (case sd_encode D doc of
     Inl e \<Rightarrow> (Some (''marshal '' @ path @ '': '' @ e), fs)
   | Inr text \<Rightarrow> (case rio_write (sd_report D) path of Some e \<Rightarrow> (Some (''write '' @ path @ '': '' @ e), fs)
     | None \<Rightarrow> (None, fs(path \<mapsto> text))))"

text \<open>What the writers answer does not depend on the files, so they are an interface of the kind a sweep takes.\<close>

definition sweep_io_of :: "'y sweep_disk \<Rightarrow> sweep_io" where
  "sweep_io_of D = \<lparr>io_mkdir = rio_mkdir (sd_report D), io_join = rio_join (sd_report D), io_copy = deep_copy_config D, io_format = sd_format D,
     io_write_json = (\<lambda>res dir. fst (write_json (sd_report D) res dir Map.empty)),
     io_write_csv = (\<lambda>res dir. fst (write_csv (sd_report D) res dir Map.empty)),
     io_write_index = (\<lambda>i path. fst (write_json_sweep D path (Index_doc i) Map.empty)),
     io_write_heatmap = (\<lambda>h path. fst (write_json_sweep D path (Heatmap_doc h) Map.empty))\<rparr>"

definition store_results :: "report_io \<Rightarrow> experiment_results \<Rightarrow> bool \<Rightarrow> string \<Rightarrow> files \<Rightarrow> string option \<times> files" where
  "store_results rio res csv dir fs = (case write_json rio res dir fs of (Some e, fs1) \<Rightarrow> (Some e, fs1)
     | (None, fs1) \<Rightarrow> if csv then write_csv rio res dir fs1 else (None, fs1))"

definition combination_on_disk :: "'y sweep_disk \<Rightarrow> (experiment_config \<Rightarrow> experiment_error + experiment_results) \<Rightarrow> sweep_config \<Rightarrow> real list \<Rightarrow>
    files \<Rightarrow> (sweep_error + experiment_results) \<times> files" where
  "combination_on_disk D run cfg vals fs = (let lbl = combination_label (sd_format D) (map sp_name (sc_parameters cfg)) vals
     in case patch (sweep_io_of D) cfg vals of Inl e \<Rightarrow> (Inl e, fs)
     | Inr q \<Rightarrow> (case run q of Inl e \<Rightarrow> (Inl (Combination_failed lbl e), fs)
       | Inr res \<Rightarrow> (case store_results (sd_report D) res (emit_csv (ex_output q)) (rio_join (sd_report D) (sc_output_dir cfg) lbl) fs of
           (Some e, fs1) \<Rightarrow> (Inl (Write_failed lbl e), fs1) | (None, fs1) \<Rightarrow> (Inr res, fs1))))"

fun loop_on_disk :: "'y sweep_disk \<Rightarrow> (experiment_config \<Rightarrow> experiment_error + experiment_results) \<Rightarrow> string option \<Rightarrow> sweep_config \<Rightarrow>
    real list list \<Rightarrow> sweep_entry list \<Rightarrow> (string \<rightharpoonup> real) \<Rightarrow> files \<Rightarrow> (sweep_error + sweep_entry list \<times> (string \<rightharpoonup> real)) \<times> files" where
  "loop_on_disk D run ctx cfg [] es m fs = (Inr (es, m), fs)"
| "loop_on_disk D run ctx cfg (vals # rest) es m fs = (case ctx of Some e \<Rightarrow> (Inl (Sweep_cancelled e), fs)
     | None \<Rightarrow> let names = map sp_name (sc_parameters cfg); lbl = combination_label (sd_format D) names vals in
       (case combination_on_disk D run cfg vals fs of (Inl e, fs1) \<Rightarrow> (Inl e, fs1)
       | (Inr res, fs1) \<Rightarrow> loop_on_disk D run ctx cfg rest (es @ [\<lparr>se_params = map_of (rev (zip names vals)), se_subdir = lbl\<rparr>])
           (note_improvement lbl res m) fs1))"

definition finish_on_disk :: "'y sweep_disk \<Rightarrow> sweep_config \<Rightarrow> sweep_entry list \<Rightarrow> (string \<rightharpoonup> real) \<Rightarrow> files \<Rightarrow>
    (sweep_error + sweep_result) \<times> files" where
  "finish_on_disk D cfg es m fs = (let index = \<lparr>si_scenario = sc_name cfg, si_parameters = sc_parameters cfg, si_results = es\<rparr>;
       path = rio_join (sd_report D) (sc_output_dir cfg)
     in case write_json_sweep D (path ''sweep_index.json'') (Index_doc index) fs of (Some e, fs1) \<Rightarrow> (Inl (Write_failed [] e), fs1)
     | (None, fs1) \<Rightarrow> (case sc_parameters cfg of
         [px, py] \<Rightarrow> let hm = build_heatmap (sd_format D) px py m in
           (case write_json_sweep D (path ''heatmap.json'') (Heatmap_doc hm) fs1 of (Some e, fs2) \<Rightarrow> (Inl (Write_failed [] e), fs2)
            | (None, fs2) \<Rightarrow> (Inr \<lparr>sw_config = cfg, sw_index = index, sw_heatmap = Some hm\<rparr>, fs2))
       | _ \<Rightarrow> (Inr \<lparr>sw_config = cfg, sw_index = index, sw_heatmap = None\<rparr>, fs1)))"

definition sweep_on_disk :: "'y sweep_disk \<Rightarrow> (experiment_config \<Rightarrow> experiment_error + experiment_results) \<Rightarrow> string option \<Rightarrow> sweep_config \<Rightarrow>
    files \<Rightarrow> ((sweep_error + sweep_result) \<times> files) option" where
  "sweep_on_disk D run ctx cfg fs = (if sc_output_dir cfg = [] then Some (Inl Output_dir_required, fs)
     else case rio_mkdir (sd_report D) (sc_output_dir cfg) of Some e \<Rightarrow> Some (Inl (Make_dir_failed (sc_output_dir cfg) e), fs)
     | None \<Rightarrow> (case cross_product (sc_parameters cfg) of None \<Rightarrow> None
       | Some None \<Rightarrow> Some (Inl Index_panic, fs)
       | Some (Some combos) \<Rightarrow> (case loop_on_disk D run ctx cfg combos [] Map.empty fs of
           (Inl e, fs1) \<Rightarrow> Some (Inl e, fs1) | (Inr (es, m), fs1) \<Rightarrow> Some (finish_on_disk D cfg es m fs1))))"

section \<open>The same results\<close>

text \<open>The JSON files of an experiment, with what each holds.\<close>

definition result_docs :: "experiment_results \<Rightarrow> (string \<times> json_doc) list" where
  "result_docs res = [(''summary.json'', Summary_doc (er_config res) (er_by_protocol res))]
     @ (case er_comparison res of None \<Rightarrow> [] | Some c \<Rightarrow> [(''comparison.json'', Comparison_doc c)])
     @ (case er_enhanced res of None \<Rightarrow> [] | Some c \<Rightarrow> [(''enhanced_comparison.json'', Enhanced_doc c)])"

lemma write_json_docs:
  "write_json io res dir fs = (case rio_mkdir io dir of Some e \<Rightarrow> (Some (''mkdir '' @ dir @ '': '' @ e), fs)
     | None \<Rightarrow> write_json_files io (map (\<lambda>(f, doc). (rio_join io dir f, doc)) (result_docs res)) fs)"
  by (simp add: write_json_def result_docs_def split: option.split del: write_json_files.simps)

lemma write_json_answer: "fst (write_json io res dir fs) = fst (write_json io res dir Map.empty)"
proof -
  have one: "fst (write_json_file io p d fs) = fst (write_json_file io p d fs')" for p d fs fs'
    by (simp add: write_json_file_def split: sum.split option.split)
  have "fst (write_json_files io ds fs) = fst (write_json_files io ds fs')" for ds fs fs'
  proof (induction ds arbitrary: fs fs')
    case (Cons d ds)
    obtain p doc where d: "d = (p, doc)" by fastforce
    obtain e fs1 fs2 where w: "write_json_file io p doc fs = (e, fs1)" "write_json_file io p doc fs' = (e, fs2)"
      using one [of p doc fs fs'] by (metis prod.collapse)
    from Cons.IH [of fs1 fs2] show ?case by (cases e) (simp_all add: d w)
  qed simp
  then show ?thesis by (simp add: write_json_docs split: option.split del: write_json_files.simps)
qed

lemma write_csv_answer: "fst (write_csv io res dir fs) = fst (write_csv io res dir Map.empty)"
  by (simp add: write_csv_def Let_def split: option.split prod.split)

lemma write_json_sweep_answer: "fst (write_json_sweep D path doc fs) = fst (write_json_sweep D path doc Map.empty)"
  by (simp add: write_json_sweep_def split: sum.split option.split)

lemma sweep_io_of_fields [simp]:
  "io_mkdir (sweep_io_of D) = rio_mkdir (sd_report D)" "io_join (sweep_io_of D) = rio_join (sd_report D)"
  "io_copy (sweep_io_of D) = deep_copy_config D" "io_format (sweep_io_of D) = sd_format D"
  by (simp_all add: sweep_io_of_def)

lemma io_answers:
  "io_write_json (sweep_io_of D) res dir = fst (write_json (sd_report D) res dir fs)"
  "io_write_csv (sweep_io_of D) res dir = fst (write_csv (sd_report D) res dir fs)"
  "io_write_index (sweep_io_of D) i path = fst (write_json_sweep D path (Index_doc i) fs)"
  "io_write_heatmap (sweep_io_of D) h path = fst (write_json_sweep D path (Heatmap_doc h) fs)"
  by (simp_all add: sweep_io_of_def write_json_answer [of _ _ _ fs] write_csv_answer [of _ _ _ fs] write_json_sweep_answer [of _ _ _ fs])

lemma combination_same: "fst (combination_on_disk D run cfg vals fs) = run_combination (sweep_io_of D) run cfg vals"
proof (cases "patch (sweep_io_of D) cfg vals")
  case (Inr q)
  let ?dir = "rio_join (sd_report D) (sc_output_dir cfg) (combination_label (sd_format D) (map sp_name (sc_parameters cfg)) vals)"
  show ?thesis
  proof (cases "run q")
    case r: (Inr res)
    obtain e fs1 where w: "write_json (sd_report D) res ?dir fs = (e, fs1)" by fastforce
    obtain e2 fs2 where c: "write_csv (sd_report D) res ?dir fs1 = (e2, fs2)" by fastforce
    have "io_write_json (sweep_io_of D) res ?dir = e" "io_write_csv (sweep_io_of D) res ?dir = e2"
      using io_answers(1) [of D res ?dir fs] io_answers(2) [of D res ?dir fs1] by (simp_all add: w c)
    then show ?thesis using Inr r w c
      by (cases e; cases e2) (simp_all add: combination_on_disk_def run_combination_def store_results_def Let_def)
  qed (use Inr in \<open>simp add: combination_on_disk_def run_combination_def Let_def\<close>)
qed (simp add: combination_on_disk_def run_combination_def Let_def)

lemma loop_same: "fst (loop_on_disk D run ctx cfg combos es m fs) = sweep_loop (sweep_io_of D) run ctx cfg combos es m"
proof (induction combos arbitrary: es m fs)
  case (Cons vals combos)
  obtain r fs1 where c: "combination_on_disk D run cfg vals fs = (r, fs1)" by fastforce
  have "run_combination (sweep_io_of D) run cfg vals = r" using combination_same [of D run cfg vals fs] by (simp add: c)
  then show ?case using Cons.IH by (cases ctx; cases r) (simp_all add: c Let_def)
qed simp

lemma finish_same: "fst (finish_on_disk D cfg es m fs) = finish_sweep (sweep_io_of D) cfg es m"
proof -
  let ?i = "\<lparr>si_scenario = sc_name cfg, si_parameters = sc_parameters cfg, si_results = es\<rparr>"
  let ?p = "rio_join (sd_report D) (sc_output_dir cfg)"
  obtain e fs1 where w: "write_json_sweep D (?p ''sweep_index.json'') (Index_doc ?i) fs = (e, fs1)" by fastforce
  have i: "io_write_index (sweep_io_of D) ?i (?p ''sweep_index.json'') = e" using io_answers(3) [of D ?i _ fs] by (simp add: w)
  have h: "io_write_heatmap (sweep_io_of D) hm (?p ''heatmap.json'') = fst (write_json_sweep D (?p ''heatmap.json'') (Heatmap_doc hm) fs1)" for hm
    by (rule io_answers(4))
  show ?thesis
    by (cases e) (auto simp: finish_on_disk_def finish_sweep_def Let_def w i h split: list.split option.split prod.split)
qed

lemma disk_same: "map_option fst (sweep_on_disk D run ctx cfg fs) = run_sweep (sweep_io_of D) run ctx cfg"
proof -
  have "map_option fst (case loop_on_disk D run ctx cfg combos [] Map.empty fs of (Inl e, fs1) \<Rightarrow> Some (Inl e, fs1)
        | (Inr (es, m), fs1) \<Rightarrow> Some (finish_on_disk D cfg es m fs1))
      = (case sweep_loop (sweep_io_of D) run ctx cfg combos [] Map.empty of Inl e \<Rightarrow> Some (Inl e)
        | Inr (es, m) \<Rightarrow> Some (finish_sweep (sweep_io_of D) cfg es m))" for combos
  proof -
    obtain r fs1 where l: "loop_on_disk D run ctx cfg combos [] Map.empty fs = (r, fs1)" by fastforce
    have "sweep_loop (sweep_io_of D) run ctx cfg combos [] Map.empty = r" using loop_same [of D run ctx cfg combos "[]" Map.empty fs] by (simp add: l)
    then show ?thesis by (cases r) (auto simp: l finish_same)
  qed
  then show ?thesis by (simp add: sweep_on_disk_def run_sweep_def split: option.split)
qed

section \<open>What is on the disk\<close>

definition report_files :: "string list" where
  "report_files = [''summary.json'', ''comparison.json'', ''enhanced_comparison.json'', ''raw.csv'']"

definition top_files :: "string list" where
  "top_files = [''sweep_index.json'', ''heatmap.json'']"

text \<open>What the sweep relies on of \<open>filepath.Join\<close>: the files in the directories of different labels are different, and none of them
  is one of the two files above. A label has no slash in it, and is not one of the two names with dots since it has an equals sign.\<close>

definition label_like :: "string \<Rightarrow> bool" where
  "label_like l \<longleftrightarrow> CHR ''/'' \<notin> set l \<and> CHR ''='' \<in> set l"

definition paths_apart :: "(string \<Rightarrow> string \<Rightarrow> string) \<Rightarrow> string \<Rightarrow> bool" where
  "paths_apart j out \<longleftrightarrow>
     (\<forall>l l' f f'. label_like l \<and> label_like l' \<and> f \<in> set report_files \<and> f' \<in> set report_files \<and> j (j out l) f = j (j out l') f' \<longrightarrow> l = l' \<and> f = f')
     \<and> (\<forall>l f g. label_like l \<and> f \<in> set report_files \<and> g \<in> set top_files \<longrightarrow> j (j out l) f \<noteq> j out g)
     \<and> j out ''sweep_index.json'' \<noteq> j out ''heatmap.json''"

lemma apart:
  assumes "paths_apart j out" "label_like l" "f \<in> set report_files"
  shows "label_like l' \<Longrightarrow> f' \<in> set report_files \<Longrightarrow> j (j out l) f = j (j out l') f' \<longleftrightarrow> l = l' \<and> f = f'"
    "g \<in> set top_files \<Longrightarrow> j (j out l) f \<noteq> j out g"
  using assms unfolding paths_apart_def by blast+

lemma combination_label_like:
  assumes "names \<noteq> []" "length vals = length names"
  shows "label_like (combination_label fmt names vals)"
proof -
  obtain p ps where z: "sort_key fst (zip names vals) = p # ps"
    using assms by (cases "sort_key fst (zip names vals)") (auto dest: arg_cong [of _ _ length])
  have "CHR ''='' \<in> set (join_comma (map (\<lambda>(k, v). k @ ''='' @ format_sweep_value fmt v) (sort_key fst (zip names vals))))"
    unfolding z by (cases ps) (auto simp: case_prod_unfold)
  then show ?thesis by (simp add: label_like_def combination_label_def replace_char_in)
qed

text \<open>The files of a combination, and its directory holding its results.\<close>

definition files_of :: "'y sweep_disk \<Rightarrow> sweep_config \<Rightarrow> string \<Rightarrow> string set" where
  "files_of D cfg lbl = rio_join (sd_report D) (rio_join (sd_report D) (sc_output_dir cfg) lbl) ` set report_files"

definition results_in :: "report_io \<Rightarrow> string \<Rightarrow> experiment_results \<Rightarrow> bool \<Rightarrow> files \<Rightarrow> bool" where
  "results_in rio dir res csv fs \<longleftrightarrow>
     (\<forall>(f, doc)\<in>set (result_docs res). \<exists>t. rio_encode rio doc = Inr t \<and> fs (rio_join rio dir f) = Some t)
     \<and> (csv \<longrightarrow> (\<exists>out. read_rows out = Some (csv_rows (er_raw res)) \<and> fs (rio_join rio dir ''raw.csv'') = Some (take (rio_flush rio out) out)))"

lemma docs_in: "fst ` set (result_docs res) \<subseteq> set report_files" "distinct (map fst (result_docs res))" "''raw.csv'' \<notin> fst ` set (result_docs res)"
  by (auto simp: result_docs_def report_files_def split: option.splits)

lemma raw_file: "''raw.csv'' \<in> set report_files"
  by (simp add: report_files_def)

lemma results_in_cong:
  assumes "\<And>f. f \<in> set report_files \<Longrightarrow> fs (rio_join rio dir f) = fs' (rio_join rio dir f)"
  shows "results_in rio dir res csv fs = results_in rio dir res csv fs'"
proof -
  have "fs (rio_join rio dir (fst d)) = fs' (rio_join rio dir (fst d))" if "d \<in> set (result_docs res)" for d
    using docs_in(1) that by (intro assms) blast
  then show ?thesis using assms [of "''raw.csv''"] by (simp add: results_in_def case_prod_unfold report_files_def cong: ball_cong)
qed

lemma write_json_files_keep: "write_json_files rio ds fs = (r, fs') \<Longrightarrow> p \<notin> fst ` set ds \<Longrightarrow> fs' p = fs p"
  by (induction ds arbitrary: fs) (auto simp: write_json_file_def split: sum.splits option.splits prod.splits)

lemma write_json_files_stored:
  "write_json_files rio ds fs = (None, fs') \<Longrightarrow> distinct (map fst ds) \<Longrightarrow> (p, doc) \<in> set ds \<Longrightarrow>
    \<exists>t. rio_encode rio doc = Inr t \<and> fs' p = Some t"
proof (induction ds arbitrary: fs)
  case (Cons d ds)
  obtain q e where d: "d = (q, e)" by fastforce
  from Cons.prems(1) obtain t where w: "rio_encode rio e = Inr t" "write_json_files rio ds (fs(q \<mapsto> t)) = (None, fs')"
    by (auto simp: d write_json_file_def split: sum.splits option.splits)
  show ?case
  proof (cases "(p, doc) = d")
    case True
    with Cons.prems(2) have "p \<notin> fst ` set ds" by (auto simp: d)
    with write_json_files_keep [OF w(2)] w(1) True show ?thesis by (auto simp: d)
  qed (use Cons.IH [OF w(2)] Cons.prems in auto)
qed simp

lemma write_csv_keep: "write_csv rio res dir fs = (r, fs') \<Longrightarrow> p \<noteq> rio_join rio dir ''raw.csv'' \<Longrightarrow> fs' p = fs p"
  by (auto simp: write_csv_def Let_def split: option.splits prod.splits)

lemma store_results_files:
  assumes "store_results rio res csv dir fs = (r, fs')" "inj_on (rio_join rio dir) (set report_files)"
  shows "p \<notin> rio_join rio dir ` set report_files \<Longrightarrow> fs' p = fs p" "r = None \<Longrightarrow> results_in rio dir res csv fs'"
proof -
  let ?ds = "map (\<lambda>(f, doc). (rio_join rio dir f, doc)) (result_docs res)"
  have ds: "fst ` set ?ds = rio_join rio dir ` fst ` set (result_docs res)" by (force simp: image_iff)
  have dist: "distinct (map fst ?ds)"
  proof -
    have "map fst ?ds = map (rio_join rio dir) (map fst (result_docs res))" by (simp add: case_prod_unfold comp_def)
    moreover have "inj_on (rio_join rio dir) (set (map fst (result_docs res)))" using inj_on_subset [OF assms(2) docs_in(1)] by simp
    ultimately show ?thesis using docs_in(2) by (metis distinct_map)
  qed
  obtain e fs1 where w: "write_json rio res dir fs = (e, fs1)" by fastforce
  have k1: "fs1 p = fs p" if "p \<notin> rio_join rio dir ` fst ` set (result_docs res)" for p
    using w write_json_files_keep [of rio ?ds fs e fs1 p] that unfolding write_json_docs ds by (auto split: option.splits)
  have k2: "fs' p = fs1 p" if "p \<noteq> rio_join rio dir ''raw.csv''" for p
    using assms(1) write_csv_keep [of rio res dir fs1 r fs' p] that by (auto simp: store_results_def w split: option.splits if_splits)
  show "fs' p = fs p" if "p \<notin> rio_join rio dir ` set report_files" for p
  proof -
    have "p \<notin> rio_join rio dir ` fst ` set (result_docs res)" "p \<noteq> rio_join rio dir ''raw.csv''"
      using that docs_in(1) [of res] by (auto simp: report_files_def)
    with k1 k2 show ?thesis by simp
  qed
  assume r: "r = None"
  with assms(1) have e: "e = None" by (auto simp: store_results_def w split: option.splits)
  then have js: "write_json_files rio ?ds fs = (None, fs1)" using w unfolding write_json_docs by (auto split: option.splits)
  have "\<exists>t. rio_encode rio doc = Inr t \<and> fs' (rio_join rio dir f) = Some t" if "(f, doc) \<in> set (result_docs res)" for f doc
  proof -
    have "(rio_join rio dir f, doc) \<in> set ?ds" using that by force
    from write_json_files_stored [OF js dist this] obtain t where t: "rio_encode rio doc = Inr t" "fs1 (rio_join rio dir f) = Some t" by blast
    have f: "f \<in> fst ` set (result_docs res)" using that by force
    then have "f \<noteq> ''raw.csv''" using docs_in(3) by metis
    moreover have "f \<in> set report_files" using f docs_in(1) by (rule subsetD [rotated])
    ultimately have "rio_join rio dir f \<noteq> rio_join rio dir ''raw.csv''" using inj_on_eq_iff [OF assms(2) _ raw_file] by blast
    with k2 t show ?thesis by metis
  qed
  moreover have "\<exists>out. read_rows out = Some (csv_rows (er_raw res)) \<and> fs' (rio_join rio dir ''raw.csv'') = Some (take (rio_flush rio out) out)" if csv
    using write_csv_file [of rio res dir fs1 fs'] assms(1) that r by (auto simp: store_results_def w e)
  ultimately show "results_in rio dir res csv fs'" by (auto simp: results_in_def)
qed

section \<open>The files of a sweep\<close>

definition stored :: "'y sweep_disk \<Rightarrow> (experiment_config \<Rightarrow> experiment_error + experiment_results) \<Rightarrow> sweep_config \<Rightarrow> real list \<Rightarrow> files \<Rightarrow> bool" where
  "stored D run cfg vals fs \<longleftrightarrow> (\<exists>q res. patch (sweep_io_of D) cfg vals = Inr q \<and> run q = Inr res
     \<and> results_in (sd_report D) (rio_join (sd_report D) (sc_output_dir cfg) (combination_label (sd_format D) (map sp_name (sc_parameters cfg)) vals))
         res (emit_csv (ex_output q)) fs)"

lemma stored_cong:
  assumes "\<And>p. p \<in> files_of D cfg (combination_label (sd_format D) (map sp_name (sc_parameters cfg)) vals) \<Longrightarrow> fs p = fs' p"
  shows "stored D run cfg vals fs \<longleftrightarrow> stored D run cfg vals fs'"
  unfolding stored_def
  by (intro ex_cong1 conj_cong refl results_in_cong assms) (simp_all add: files_of_def)

lemma files_of_apart:
  assumes "paths_apart (rio_join (sd_report D)) (sc_output_dir cfg)" "label_like l" "label_like l'" "l \<noteq> l'"
  shows "files_of D cfg l \<inter> files_of D cfg l' = {}"
proof -
  have "rio_join (sd_report D) (rio_join (sd_report D) (sc_output_dir cfg) l) f \<noteq> rio_join (sd_report D) (rio_join (sd_report D) (sc_output_dir cfg) l') f'"
    if "f \<in> set report_files" "f' \<in> set report_files" for f f'
    using apart(1) [OF assms(1,2) that(1) assms(3) that(2)] assms(4) by simp
  then show ?thesis unfolding files_of_def by blast
qed

lemma combination_files:
  assumes "combination_on_disk D run cfg vals fs = (r, fs')" "paths_apart (rio_join (sd_report D)) (sc_output_dir cfg)"
    and l: "label_like (combination_label (sd_format D) (map sp_name (sc_parameters cfg)) vals)"
  shows "p \<notin> files_of D cfg (combination_label (sd_format D) (map sp_name (sc_parameters cfg)) vals) \<Longrightarrow> fs' p = fs p"
    and "r = Inr res \<Longrightarrow> stored D run cfg vals fs'"
proof -
  let ?l = "combination_label (sd_format D) (map sp_name (sc_parameters cfg)) vals"
  let ?dir = "rio_join (sd_report D) (sc_output_dir cfg) ?l"
  have inj: "inj_on (rio_join (sd_report D) ?dir) (set report_files)"
    using apart(1) [OF assms(2) l _ l] by (intro inj_onI) blast
  consider (none) "fs' = fs" "\<forall>res. r \<noteq> Inr res"
    | (some) q res' e where "patch (sweep_io_of D) cfg vals = Inr q" "run q = Inr res'"
      "store_results (sd_report D) res' (emit_csv (ex_output q)) ?dir fs = (e, fs')" "r = Inr res \<Longrightarrow> e = None"
    using assms(1) by (auto simp: combination_on_disk_def Let_def split: sum.splits prod.splits option.splits)
  then have "(p \<notin> files_of D cfg ?l \<longrightarrow> fs' p = fs p) \<and> (r = Inr res \<longrightarrow> stored D run cfg vals fs')"
  proof cases
    case some
    note st = store_results_files [OF some(3) inj]
    have "p \<notin> files_of D cfg ?l \<longrightarrow> fs' p = fs p" using st(1) by (simp add: files_of_def)
    moreover have "r = Inr res \<longrightarrow> stored D run cfg vals fs'" using st(2) some(1,2,4) unfolding stored_def by blast
    ultimately show ?thesis ..
  qed simp
  then show "p \<notin> files_of D cfg ?l \<Longrightarrow> fs' p = fs p" "r = Inr res \<Longrightarrow> stored D run cfg vals fs'" by simp_all
qed

lemma loop_files:
  assumes "loop_on_disk D run ctx cfg combos es m fs = (r, fs')" "paths_apart (rio_join (sd_report D)) (sc_output_dir cfg)"
    and "distinct (map (combination_label (sd_format D) (map sp_name (sc_parameters cfg))) combos)"
    and "\<forall>vals\<in>set combos. label_like (combination_label (sd_format D) (map sp_name (sc_parameters cfg)) vals)"
  shows "(\<forall>p. (\<forall>vals\<in>set combos. p \<notin> files_of D cfg (combination_label (sd_format D) (map sp_name (sc_parameters cfg)) vals)) \<longrightarrow> fs' p = fs p)
    \<and> ((\<exists>x. r = Inr x) \<longrightarrow> (\<forall>vals\<in>set combos. stored D run cfg vals fs'))"
  using assms
proof (induction combos arbitrary: es m fs)
  case (Cons vals combos)
  let ?l = "combination_label (sd_format D) (map sp_name (sc_parameters cfg))"
  obtain r1 fs1 where c: "combination_on_disk D run cfg vals fs = (r1, fs1)" by fastforce
  have l: "label_like (?l vals)" using Cons.prems(4) by simp
  note one = combination_files [OF c Cons.prems(2) l]
  show ?case
  proof (cases "ctx = None \<and> (\<exists>res. r1 = Inr res)")
    case True
    then obtain res es1 m1 where r1: "r1 = Inr res" and rest: "loop_on_disk D run ctx cfg combos es1 m1 fs1 = (r, fs')"
      using Cons.prems(1) c by (auto simp: Let_def)
    have "distinct (map ?l combos)" "\<forall>vals\<in>set combos. label_like (?l vals)" using Cons.prems(3,4) by simp_all
    note ih = Cons.IH [OF rest Cons.prems(2) this]
    have "p \<notin> files_of D cfg (?l v)" if "p \<in> files_of D cfg (?l vals)" "v \<in> set combos" for p v
    proof -
      have "?l vals \<noteq> ?l v" using Cons.prems(3) that(2) by (auto simp: image_iff)
      moreover have "label_like (?l v)" using Cons.prems(4) that(2) by simp
      ultimately show ?thesis using files_of_apart [OF Cons.prems(2) l] that(1) by blast
    qed
    with ih have "fs' p = fs1 p" if "p \<in> files_of D cfg (?l vals)" for p using that by blast
    then have "stored D run cfg vals fs'" using one(2) [OF r1] stored_cong [of D cfg vals fs' fs1] by blast
    with ih one(1) show ?thesis by auto
  next
    case False
    with Cons.prems(1) c have "fs' = fs \<or> fs' = fs1" "\<not> (\<exists>x. r = Inr x)" by (auto simp: Let_def split: option.splits sum.splits)
    with one(1) show ?thesis by auto
  qed
qed simp

lemma write_json_sweep_files:
  assumes "write_json_sweep D path doc fs = (e, fs')"
  shows "p \<noteq> path \<Longrightarrow> fs' p = fs p" "e = None \<Longrightarrow> \<exists>t. sd_encode D doc = Inr t \<and> fs' path = Some t"
  using assms by (auto simp: write_json_sweep_def split: sum.splits option.splits)

lemma finish_files:
  assumes "finish_on_disk D cfg es m fs = (r, fs')" "paths_apart (rio_join (sd_report D)) (sc_output_dir cfg)"
  shows "p \<notin> rio_join (sd_report D) (sc_output_dir cfg) ` set top_files \<Longrightarrow> fs' p = fs p"
    and "r = Inl x \<Longrightarrow> \<exists>msg. x = Write_failed [] msg"
    and "r = Inr sr \<Longrightarrow> \<exists>t. sd_encode D (Index_doc (sw_index sr)) = Inr t \<and> fs' (rio_join (sd_report D) (sc_output_dir cfg) ''sweep_index.json'') = Some t"
    and "r = Inr sr \<Longrightarrow> sw_heatmap sr = Some hm \<Longrightarrow>
      \<exists>t. sd_encode D (Heatmap_doc hm) = Inr t \<and> fs' (rio_join (sd_report D) (sc_output_dir cfg) ''heatmap.json'') = Some t"
proof -
  let ?p = "rio_join (sd_report D) (sc_output_dir cfg)"
  let ?i = "\<lparr>si_scenario = sc_name cfg, si_parameters = sc_parameters cfg, si_results = es\<rparr>"
  have ne: "?p ''sweep_index.json'' \<noteq> ?p ''heatmap.json''" using assms(2) by (simp add: paths_apart_def)
  obtain e fs1 where w: "write_json_sweep D (?p ''sweep_index.json'') (Index_doc ?i) fs = (e, fs1)" by fastforce
  note w1 = write_json_sweep_files [OF w]
  consider (failed) m1 where "r = Inl (Write_failed [] m1)" "fs' = fs1"
    | (index) "r = Inr \<lparr>sw_config = cfg, sw_index = ?i, sw_heatmap = None\<rparr>" "fs' = fs1" "e = None"
    | (heatmap) h e2 where "write_json_sweep D (?p ''heatmap.json'') (Heatmap_doc h) fs1 = (e2, fs')" "e = None"
      "r = (case e2 of Some m2 \<Rightarrow> Inl (Write_failed [] m2) | None \<Rightarrow> Inr \<lparr>sw_config = cfg, sw_index = ?i, sw_heatmap = Some h\<rparr>)"
    using assms(1) by (auto simp: finish_on_disk_def Let_def w split: option.splits list.splits prod.splits)
  then have "(p \<notin> ?p ` set top_files \<longrightarrow> fs' p = fs p) \<and> (r = Inl x \<longrightarrow> (\<exists>msg. x = Write_failed [] msg))
    \<and> (r = Inr sr \<longrightarrow> (\<exists>t. sd_encode D (Index_doc (sw_index sr)) = Inr t \<and> fs' (?p ''sweep_index.json'') = Some t))
    \<and> (r = Inr sr \<and> sw_heatmap sr = Some hm \<longrightarrow> (\<exists>t. sd_encode D (Heatmap_doc hm) = Inr t \<and> fs' (?p ''heatmap.json'') = Some t))"
  proof cases
    case heatmap
    note w2 = write_json_sweep_files [OF heatmap(1)]
    have "p \<notin> ?p ` set top_files \<longrightarrow> fs' p = fs p" using w1(1) [of p] w2(1) [of p] by (simp add: top_files_def)
    moreover have "fs' (?p ''sweep_index.json'') = fs1 (?p ''sweep_index.json'')" using w2(1) [OF ne] .
    ultimately show ?thesis using heatmap(2,3) w1(2) w2(2) by (cases e2) auto
  qed (use w1 in \<open>auto simp: top_files_def\<close>)
  then show "p \<notin> ?p ` set top_files \<Longrightarrow> fs' p = fs p" "r = Inl x \<Longrightarrow> \<exists>msg. x = Write_failed [] msg"
    "r = Inr sr \<Longrightarrow> \<exists>t. sd_encode D (Index_doc (sw_index sr)) = Inr t \<and> fs' (?p ''sweep_index.json'') = Some t"
    "r = Inr sr \<Longrightarrow> sw_heatmap sr = Some hm \<Longrightarrow> \<exists>t. sd_encode D (Heatmap_doc hm) = Inr t \<and> fs' (?p ''heatmap.json'') = Some t"
    by blast+
qed

text \<open>C25: What a sweep leaves on the disk. When the labels can be told apart and joining keeps different names apart, then after a sweep that
  succeeds every combination has its own results in its own directory: the summary, the comparisons it has, and the raw data when
  asked for, none of them overwritten by another; the index and the heatmap it returns are in the two files above. Nothing else has
  changed. A sweep that fails leaves the old index alone, unless it was writing the index or the heatmap itself. The results returned
  are those of the sweep whose writes are abstract.\<close>

theorem sweep_files:
  assumes "sweep_on_disk D run ctx cfg fs = Some (r, fs')" "sc_parameters cfg \<noteq> []"
    and "sweep_ok (sd_format D) (sc_parameters cfg)" "\<forall>p\<in>set (sc_parameters cfg). distinct (sp_values p)"
    and ap: "paths_apart (rio_join (sd_report D)) (sc_output_dir cfg)"
  defines "labels \<equiv> combination_label (sd_format D) (map sp_name (sc_parameters cfg))"
    and "path \<equiv> rio_join (sd_report D) (sc_output_dir cfg)" and "combos \<equiv> product_lists (map sp_values (sc_parameters cfg))"
  shows "(\<forall>sr. r = Inr sr \<longrightarrow> (\<forall>vals\<in>set combos. \<exists>q res. patch (sweep_io_of D) cfg vals = Inr q \<and> run q = Inr res
            \<and> results_in (sd_report D) (path (labels vals)) res (emit_csv (ex_output q)) fs')
        \<and> (\<exists>t. sd_encode D (Index_doc (sw_index sr)) = Inr t \<and> fs' (path ''sweep_index.json'') = Some t)
        \<and> (\<forall>hm. sw_heatmap sr = Some hm \<longrightarrow> (\<exists>t. sd_encode D (Heatmap_doc hm) = Inr t \<and> fs' (path ''heatmap.json'') = Some t)))
    \<and> (\<forall>p. p \<notin> \<Union> (files_of D cfg ` labels ` set combos) \<union> path ` set top_files \<longrightarrow> fs' p = fs p)
    \<and> (\<forall>e. r = Inl e \<and> (\<nexists>msg. e = Write_failed [] msg) \<longrightarrow> fs' (path ''sweep_index.json'') = fs (path ''sweep_index.json''))
    \<and> run_sweep (sweep_io_of D) run ctx cfg = Some r"
proof -
  have lab: "\<forall>vals\<in>set combos. label_like (labels vals)"
    using assms(2) unfolding combos_def labels_def
    by (auto simp: product_lists_set dest!: list_all2_lengthD intro!: combination_label_like)
  have dist: "distinct (map labels combos)"
  proof -
    have "inj_on labels (set combos)" unfolding labels_def combos_def using labels_distinct [OF assms(3)] by (intro inj_onI) blast
    moreover have "distinct combos" unfolding combos_def using assms(4) by (intro distinct_product_lists) auto
    ultimately show ?thesis by (simp add: distinct_map)
  qed
  have same: "run_sweep (sweep_io_of D) run ctx cfg = Some r" using disk_same [of D run ctx cfg fs] assms(1) by simp
  have top: "path g \<notin> files_of D cfg (labels vals)" if "g \<in> set top_files" "vals \<in> set combos" for g vals
  proof -
    have "label_like (labels vals)" using lab that(2) by blast
    from apart(2) [OF ap this _ that(1)] show ?thesis unfolding files_of_def path_def by (metis imageE)
  qed
  consider (early) e where "r = Inl e" "fs' = fs"
    | (loop) e where "r = Inl e" "loop_on_disk D run ctx cfg combos [] Map.empty fs = (Inl e, fs')"
    | (finish) es m fs1 where "loop_on_disk D run ctx cfg combos [] Map.empty fs = (Inr (es, m), fs1)" "finish_on_disk D cfg es m fs1 = (r, fs')"
  proof (cases "\<forall>p\<in>set (sc_parameters cfg). sp_values p \<noteq> []")
    case True
    from assms(1) show thesis
      unfolding sweep_on_disk_def cross_product_all [OF assms(2) True, folded combos_def]
      by (auto split: if_splits option.splits sum.splits prod.splits intro: early loop finish)
  next
    case False
    then have "cross_product (sc_parameters cfg) = Some None" by (intro cross_product_panic) blast
    with assms(1) show thesis by (auto simp: sweep_on_disk_def split: if_splits option.splits intro: early)
  qed
  then show ?thesis
  proof cases
    case early
    with same show ?thesis by simp
  next
    case loop
    note lf = loop_files [OF loop(2) ap dist [unfolded labels_def] lab [unfolded labels_def], folded labels_def]
    have "fs' (path ''sweep_index.json'') = fs (path ''sweep_index.json'')" using lf top by (simp add: top_files_def)
    with lf same loop(1) show ?thesis by auto
  next
    case finish
    note lf = loop_files [OF finish(1) ap dist [unfolded labels_def] lab [unfolded labels_def], folded labels_def]
    note ff = finish_files [OF finish(2) ap, folded path_def]
    have "stored D run cfg vals fs'" if v: "vals \<in> set combos" for vals
    proof -
      have "fs' p = fs1 p" if "p \<in> files_of D cfg (labels vals)" for p
        by (rule ff(1)) (use top [OF _ v] that in \<open>metis imageE\<close>)
      then have "stored D run cfg vals fs' = stored D run cfg vals fs1" unfolding labels_def by (rule stored_cong)
      moreover have "stored D run cfg vals fs1" using lf v by blast
      ultimately show ?thesis by simp
    qed
    then have st: "\<forall>vals\<in>set combos. \<exists>q res. patch (sweep_io_of D) cfg vals = Inr q \<and> run q = Inr res
        \<and> results_in (sd_report D) (path (labels vals)) res (emit_csv (ex_output q)) fs'"
      unfolding stored_def labels_def path_def by (rule ballI)
    have "fs' p = fs p" if "p \<notin> \<Union> (files_of D cfg ` labels ` set combos) \<union> path ` set top_files" for p
    proof -
      from that have "\<forall>vals\<in>set combos. p \<notin> files_of D cfg (labels vals)" "p \<notin> path ` set top_files" by blast+
      with lf ff(1) show ?thesis by metis
    qed
    moreover have "\<not> (r = Inl e \<and> (\<nexists>msg. e = Write_failed [] msg))" for e using ff(2) by blast
    ultimately show ?thesis using st ff(3,4) same by blast
  qed
qed

section \<open>An example\<close>

definition demo_disk :: "experiment_config sweep_disk" where
  "demo_disk = \<lparr>sd_report = demo_report_io, sd_encode = (\<lambda>d. Inr ''doc''), sd_marshal = Inr, sd_unmarshal = Inr, sd_format = (\<lambda>v. ''0.5'')\<rparr>"

lemma demo_disk_io: "sweep_io_of demo_disk = demo_io"
proof -
  have "fst (write_json demo_report_io res dir fs) = None" "fst (write_csv demo_report_io res dir fs) = None" for res dir fs
    using demo_writes(1) [of res dir fs] demo_writes(2) [of res dir fs] by auto
  moreover have "deep_copy_config demo_disk = Inr" by (simp add: fun_eq_iff deep_copy_config_def demo_disk_def)
  ultimately show ?thesis
    by (simp add: sweep_io_of_def demo_io_def) (simp add: demo_disk_def write_json_sweep_def demo_report_fields, simp add: demo_report_io_def)
qed

lemma split_at: "x \<notin> set a \<Longrightarrow> x \<notin> set b \<Longrightarrow> a @ x # f = b @ x # g \<Longrightarrow> a = b \<and> f = g"
proof (induction a arbitrary: b)
  case Nil
  then show ?case by (cases b) auto
next
  case (Cons c a)
  then show ?case by (cases b) auto
qed

lemma slash_apart: "paths_apart (\<lambda>d f. d @ CHR ''/'' # f) out"
  unfolding paths_apart_def
proof (intro conjI allI impI)
  fix l l' f f' assume a: "label_like l \<and> label_like l' \<and> f \<in> set report_files \<and> f' \<in> set report_files
      \<and> (out @ CHR ''/'' # l) @ CHR ''/'' # f = (out @ CHR ''/'' # l') @ CHR ''/'' # f'"
  then have "CHR ''/'' \<notin> set l" "CHR ''/'' \<notin> set l'" "l @ CHR ''/'' # f = l' @ CHR ''/'' # f'" by (simp_all add: label_like_def)
  from split_at [OF this] show "l = l'" "f = f'" by blast+
next
  fix l f g :: string assume "label_like l \<and> f \<in> set report_files \<and> g \<in> set top_files"
  then have g: "CHR ''/'' \<notin> set g" by (auto simp: top_files_def)
  show "(out @ CHR ''/'' # l) @ CHR ''/'' # f \<noteq> out @ CHR ''/'' # g"
  proof
    assume "(out @ CHR ''/'' # l) @ CHR ''/'' # f = out @ CHR ''/'' # g"
    then have "l @ CHR ''/'' # f = g" by simp
    with g show False by auto
  qed
qed simp

theorem sweep_files_witness:
  "\<exists>sr fs t. sweep_on_disk demo_disk demo_runner None demo_sweep Map.empty = Some (Inr sr, fs)
    \<and> fs ''out/sweep_index.json'' = Some t \<and> (\<exists>q res. patch demo_io demo_sweep [1, 4] = Inr q \<and> demo_runner q = Inr res
      \<and> results_in demo_report_io (''out/'' @ combination_label (\<lambda>v. ''0.5'') [''clients'', ''secs''] [1, 4]) res (emit_csv (ex_output q)) fs)"
proof -
  obtain sr where sr: "run_sweep demo_io demo_runner None demo_sweep = Some (Inr sr)" using demo_sweep_runs by blast
  then obtain fs where fs: "sweep_on_disk demo_disk demo_runner None demo_sweep Map.empty = Some (Inr sr, fs)"
    using disk_same [of demo_disk demo_runner None demo_sweep Map.empty] unfolding demo_disk_io by auto
  have f: "sd_format demo_disk = (\<lambda>v. ''0.5'')" "sd_report demo_disk = demo_report_io" "rio_join demo_report_io = (\<lambda>d f. d @ CHR ''/'' # f)"
    by (simp_all add: demo_disk_def demo_report_io_def)
  have n: "map sp_name demo_parameters = [''clients'', ''secs'']" by (simp add: demo_parameters_def)
  have ap: "paths_apart (rio_join (sd_report demo_disk)) (sc_output_dir demo_sweep)" unfolding f by (rule slash_apart)
  have nn: "sc_parameters demo_sweep \<noteq> []" "sweep_ok (sd_format demo_disk) (sc_parameters demo_sweep)"
    "\<forall>p\<in>set (sc_parameters demo_sweep). distinct (sp_values p)" using demo_sweep_ok demo_sweep_fields by simp_all
  note all = sweep_files [OF fs nn ap, unfolded f demo_sweep_fields n demo_disk_io]
  have "\<exists>t. fs (''out'' @ ''/sweep_index.json'') = Some t" using all by auto
  moreover have "\<exists>q res. patch demo_io demo_sweep [1, 4] = Inr q \<and> demo_runner q = Inr res
      \<and> results_in demo_report_io (''out'' @ CHR ''/'' # combination_label (\<lambda>v. ''0.5'') [''clients'', ''secs''] [1, 4]) res (emit_csv (ex_output q)) fs"
    using all by auto
  ultimately show ?thesis using fs by auto
qed

end
