(* ===== verification/Cli.thy ===== *)
theory Cli
  imports Sweep_Files
begin

text \<open>
  The command line of \<open>cmd/cdnsim/main.go\<close>: the flags of package \<open>flag\<close>, loading of scenario files (\<open>LoadConfig\<close> and
  \<open>LoadSweepConfig\<close>), the four subcommands, what they print and write, and their exit codes. Parameters are the content of files,
  the YAML decoder, the runner, the file system, creating profile files and running the analysis script. Logging is left out.
\<close>

section \<open>Flags\<close>

datatype flag_kind = String_flag | Bool_flag

definition parse_bool :: "string \<Rightarrow> bool option" where
  "parse_bool s = (if s \<in> set [''1'', ''t'', ''T'', ''TRUE'', ''true'', ''True''] then Some True
     else if s \<in> set [''0'', ''f'', ''F'', ''FALSE'', ''false'', ''False''] then Some False else None)"

text \<open>The values of the flags in the arguments up to the first that is no flag, or the exit code of a flag set that exits on errors.\<close>

fun parse_flags :: "(string \<rightharpoonup> flag_kind) \<Rightarrow> string list \<Rightarrow> (string \<rightharpoonup> string) \<Rightarrow> int + (string \<rightharpoonup> string)" where
  "parse_flags ks [] m = Inr m"
| "parse_flags ks (s # args) m = (if length s < 2 \<or> hd s \<noteq> CHR ''-'' then Inr m
     else if s = ''--'' then Inr m
     else let name = (if s ! 1 = CHR ''-'' then drop 2 s else drop 1 s);
         n = takeWhile (\<lambda>c. c \<noteq> CHR ''='') name; v = dropWhile (\<lambda>c. c \<noteq> CHR ''='') name in
       if n = [] \<or> hd n = CHR ''-'' then Inl 2
       else (case ks n of None \<Rightarrow> Inl (if n = ''help'' \<or> n = ''h'' then 0 else 2)
         | Some Bool_flag \<Rightarrow> (if v = [] then parse_flags ks args (m(n \<mapsto> ''true''))
             else (case parse_bool (tl v) of None \<Rightarrow> Inl 2 | Some b \<Rightarrow> parse_flags ks args (m(n \<mapsto> bool_text b))))
         | Some String_flag \<Rightarrow> (if v \<noteq> [] then parse_flags ks args (m(n \<mapsto> tl v))
             else (case args of [] \<Rightarrow> Inl 2 | a # rest \<Rightarrow> parse_flags ks rest (m(n \<mapsto> a))))))"

definition flag_value :: "(string \<rightharpoonup> string) \<Rightarrow> string \<Rightarrow> string" where
  "flag_value m n = (case m n of None \<Rightarrow> [] | Some v \<Rightarrow> v)"

definition flag_set :: "(string \<rightharpoonup> string) \<Rightarrow> string \<Rightarrow> bool" where
  "flag_set m n \<longleftrightarrow> m n = Some ''true''"

definition run_flags :: "string \<rightharpoonup> flag_kind" where
  "run_flags = [''config'' \<mapsto> String_flag, ''output-dir'' \<mapsto> String_flag, ''verbose'' \<mapsto> Bool_flag, ''profile'' \<mapsto> Bool_flag]"

definition sweep_flags :: "string \<rightharpoonup> flag_kind" where
  "sweep_flags = [''config'' \<mapsto> String_flag, ''output-dir'' \<mapsto> String_flag, ''verbose'' \<mapsto> Bool_flag]"

definition analyze_flags :: "string \<rightharpoonup> flag_kind" where
  "analyze_flags = [''results-dir'' \<mapsto> String_flag]"

section \<open>Loading scenarios\<close>

datatype load_error = Read_failed string string | Parse_failed string string | Invalid_config config_error | Invalid_sweep sweep_error

definition load_config :: "(string \<Rightarrow> string + string) \<Rightarrow> (string \<Rightarrow> string + experiment_config) \<Rightarrow> string \<Rightarrow> load_error + experiment_config" where
  "load_config read decode path = (case read path of Inl e \<Rightarrow> Inl (Read_failed path e)
     | Inr data \<Rightarrow> (case decode data of Inl e \<Rightarrow> Inl (Parse_failed path e)
       | Inr cfg \<Rightarrow> (case validate cfg of (Some e, c) \<Rightarrow> Inl (Invalid_config e) | (None, c) \<Rightarrow> Inr c)))"

definition load_sweep_config :: "(string \<Rightarrow> string + string) \<Rightarrow> (string \<Rightarrow> string + sweep_config) \<Rightarrow> string \<Rightarrow> load_error + sweep_config" where
  "load_sweep_config read decode path = (case read path of Inl e \<Rightarrow> Inl (Read_failed path e)
     | Inr data \<Rightarrow> (case decode data of Inl e \<Rightarrow> Inl (Parse_failed path e)
       | Inr cfg \<Rightarrow> (case check_sweep cfg of Inl e \<Rightarrow> Inl (Invalid_sweep e) | Inr c \<Rightarrow> Inr c)))"

section \<open>Commands\<close>

record 'y cli_io =
  ci_read :: "string \<Rightarrow> string + string"
  ci_decode :: "string \<Rightarrow> string + experiment_config"
  ci_decode_sweep :: "string \<Rightarrow> string + sweep_config"
  ci_run :: "experiment_config \<Rightarrow> experiment_error + experiment_results"
  ci_report :: report_io
  ci_sweep :: "'y sweep_disk"
  ci_duration :: string
  ci_lower :: "string \<Rightarrow> string"
  ci_cpu_profile :: "string \<Rightarrow> string option"
  ci_heap_profile :: "string \<Rightarrow> string option"
  ci_python :: bool
  ci_compare :: "string \<Rightarrow> string option"

text \<open>How the process ends: its exit code, what it has printed on standard output, the report files, and whether the profiles are
  complete.\<close>

record outcome =
  oc_code :: int
  oc_out :: string
  oc_files :: files
  oc_profiles :: bool

definition exit_with :: "int \<Rightarrow> files \<Rightarrow> outcome" where
  "exit_with code fs = \<lparr>oc_code = code, oc_out = [], oc_files = fs, oc_profiles = False\<rparr>"

definition sanitise :: "(string \<Rightarrow> string) \<Rightarrow> string \<Rightarrow> string" where
  "sanitise lower s = replace_char (CHR '' '') (CHR ''_'') (lower s)"

definition output_dir :: "'y cli_io \<Rightarrow> string \<Rightarrow> string \<Rightarrow> string \<Rightarrow> string" where
  "output_dir io flag dir name = (let d = (if flag \<noteq> [] then flag else dir) in
     if d = [] then rio_join (ci_report io) ''results'' (sanitise (ci_lower io) name) else d)"

text \<open>The \<open>run\<close> command on a loaded configuration. \<open>os.Exit\<close> does not run deferred calls, so the profiles are completed only when
  \<open>main\<close> returns.\<close>

definition run_command :: "'y cli_io \<Rightarrow> bool \<Rightarrow> experiment_config \<Rightarrow> files \<Rightarrow> outcome" where
  "run_command io profile cfg fs = (let
       dir = out_dir (ex_output cfg); rio = ci_report io;
       json = (emit_json (ex_output cfg) \<or> (\<not> emit_json (ex_output cfg) \<and> \<not> emit_csv (ex_output cfg)))
     in if profile \<and> ci_cpu_profile io (rio_join rio dir ''cpu.prof'') \<noteq> None then exit_with 1 fs
     else case ci_run io cfg of Inl e \<Rightarrow> exit_with 1 fs
     | Inr res \<Rightarrow> (case (if json then write_json rio res dir fs else (None, fs)) of (Some e, fs1) \<Rightarrow> exit_with 1 fs1
       | (None, fs1) \<Rightarrow> (case (if emit_csv (ex_output cfg) then write_csv rio res dir fs1 else (None, fs1)) of (Some e, fs2) \<Rightarrow> exit_with 1 fs2
         | (None, fs2) \<Rightarrow> (case write_summary rio (ci_duration io) res dir fs2 of (Some e, fs3, out) \<Rightarrow> exit_with 1 fs3
           | (None, fs3, out) \<Rightarrow> \<lparr>oc_code = 0, oc_out = out, oc_files = fs3,
               oc_profiles = (profile \<and> ci_heap_profile io (rio_join rio dir ''mem.prof'') = None)\<rparr>))))"

definition run_or_validate :: "'y cli_io \<Rightarrow> string \<Rightarrow> string list \<Rightarrow> files \<Rightarrow> outcome" where
  "run_or_validate io sub args fs = (case parse_flags run_flags args Map.empty of Inl code \<Rightarrow> exit_with code fs
     | Inr m \<Rightarrow> if flag_value m ''config'' = [] then exit_with 2 fs
       else (case load_config (ci_read io) (ci_decode io) (flag_value m ''config'') of Inl e \<Rightarrow> exit_with 1 fs
         | Inr cfg \<Rightarrow> if sub = ''validate''
             then (exit_with 0 fs)\<lparr>oc_out := ''config '' @ flag_value m ''config'' @ '' is valid'' @ [newline]\<rparr>
             else run_command io (flag_set m ''profile'')
               (cfg\<lparr>ex_output := (ex_output cfg)\<lparr>out_dir := output_dir io (flag_value m ''output-dir'') (out_dir (ex_output cfg)) (ex_name cfg)\<rparr>\<rparr>) fs))"

text \<open>\<open>quote\<close> is the verb \<open>%q\<close> on the name of the sweep. \<open>None\<close> when the sweep does not end.\<close>

definition sweep_command :: "'y cli_io \<Rightarrow> (string \<Rightarrow> string) \<Rightarrow> string list \<Rightarrow> files \<Rightarrow> outcome option" where
  "sweep_command io quote args fs = (case parse_flags sweep_flags args Map.empty of Inl code \<Rightarrow> Some (exit_with code fs)
     | Inr m \<Rightarrow> if flag_value m ''config'' = [] then Some (exit_with 2 fs)
       else (case load_sweep_config (ci_read io) (ci_decode_sweep io) (flag_value m ''config'') of Inl e \<Rightarrow> Some (exit_with 1 fs)
         | Inr cfg0 \<Rightarrow> let cfg = cfg0\<lparr>sc_output_dir := output_dir io (flag_value m ''output-dir'') (sc_output_dir cfg0) (sc_name cfg0)\<rparr> in
           (case sweep_on_disk ((ci_sweep io)\<lparr>sd_report := ci_report io\<rparr>) (ci_run io) None cfg fs of None \<Rightarrow> None
            | Some (Inl e, fs1) \<Rightarrow> Some (exit_with 1 fs1)
            | Some (Inr res, fs1) \<Rightarrow> Some ((exit_with 0 fs1)\<lparr>oc_out :=
                ''sweep '' @ quote (sc_name cfg) @ '': '' @ itoa (int (length (si_results (sw_index res)))) @ '' combinations written to '' @ sc_output_dir cfg @ [newline]
                @ (case sw_heatmap res of None \<Rightarrow> [] | Some h \<Rightarrow>
                    ''heatmap ('' @ x_label h @ '' x '' @ y_label h @ '') written to '' @ sc_output_dir cfg @ ''/heatmap.json'' @ [newline])\<rparr>))))"

definition analyze_command :: "'y cli_io \<Rightarrow> string list \<Rightarrow> files \<Rightarrow> outcome" where
  "analyze_command io args fs = (case parse_flags analyze_flags args Map.empty of Inl code \<Rightarrow> exit_with code fs
     | Inr m \<Rightarrow> if flag_value m ''results-dir'' = [] then exit_with 2 fs
       else if \<not> ci_python io then exit_with 1 fs
       else if ci_compare io (flag_value m ''results-dir'') \<noteq> None then exit_with 1 fs else exit_with 0 fs)"

definition cdnsim :: "'y cli_io \<Rightarrow> (string \<Rightarrow> string) \<Rightarrow> string list \<Rightarrow> files \<Rightarrow> outcome option" where
  "cdnsim io quote args fs = (case args of [] \<Rightarrow> Some (exit_with 2 fs)
     | sub # rest \<Rightarrow> if sub = ''run'' \<or> sub = ''validate'' then Some (run_or_validate io sub rest fs)
       else if sub = ''sweep'' then sweep_command io quote rest fs
       else if sub = ''analyze'' then Some (analyze_command io rest fs)
       else Some (exit_with 2 fs))"

section \<open>How the process ends\<close>

text \<open>The files a run writes into its directory; their paths are told apart, as plain names joined to one directory are.\<close>

definition run_files :: "string list" where
  "run_files = [''summary.json'', ''comparison.json'', ''enhanced_comparison.json'', ''raw.csv'', ''summary.txt'']"

lemma run_files_apart:
  "inj_on f (set run_files) \<Longrightarrow> f ''summary.json'' \<notin> {f ''comparison.json'', f ''enhanced_comparison.json'', f ''raw.csv'', f ''summary.txt''}
    \<and> f ''raw.csv'' \<notin> {f ''summary.json'', f ''comparison.json'', f ''enhanced_comparison.json'', f ''summary.txt''}"
  by (simp add: run_files_def) (simp only: eq_commute [of "f ''raw.csv''"] simp_thms)

lemma write_json_summary:
  assumes "write_json rio res dir fs = (None, fs')" "inj_on (rio_join rio dir) (set run_files)"
  shows "\<exists>t. rio_encode rio (Summary_doc (er_config res) (er_by_protocol res)) = Inr t \<and> fs' (rio_join rio dir ''summary.json'') = Some t
    \<and> fs' (rio_join rio dir ''raw.csv'') = fs (rio_join rio dir ''raw.csv'')"
proof -
  note apart = run_files_apart [OF assms(2)]
  have keep: "write_json_files rio ds fs1 = (None, fs2) \<Longrightarrow> p \<notin> fst ` set ds \<Longrightarrow> fs2 p = fs1 p" for ds fs1 fs2 p
    by (induction ds arbitrary: fs1) (auto simp: write_json_file_def split: sum.splits option.splits prod.splits)
  let ?p = "rio_join rio dir ''summary.json''" and ?doc = "Summary_doc (er_config res) (er_by_protocol res)"
  let ?rest = "(case er_comparison res of None \<Rightarrow> [] | Some c \<Rightarrow> [(rio_join rio dir ''comparison.json'', Comparison_doc c)])
      @ (case er_enhanced res of None \<Rightarrow> [] | Some c \<Rightarrow> [(rio_join rio dir ''enhanced_comparison.json'', Enhanced_doc c)])"
  have rest: "fst ` set ?rest \<subseteq> {rio_join rio dir ''comparison.json'', rio_join rio dir ''enhanced_comparison.json''}"
    by (auto split: option.splits)
  obtain fs1 where f: "write_json_file rio ?p ?doc fs = (None, fs1)" "write_json_files rio ?rest fs1 = (None, fs')"
    using assms(1) by (auto simp: write_json_def split: option.splits prod.splits)
  then obtain t where t: "rio_encode rio ?doc = Inr t" "fs1 = fs(?p \<mapsto> t)"
    by (auto simp: write_json_file_def split: sum.splits option.splits)
  have "?p \<notin> fst ` set ?rest" "rio_join rio dir ''raw.csv'' \<notin> fst ` set ?rest" using rest apart by blast+
  with keep [OF f(2)] t(2) have "fs' ?p = Some t" "fs' (rio_join rio dir ''raw.csv'') = (fs(?p \<mapsto> t)) (rio_join rio dir ''raw.csv'')" by auto
  moreover have "(fs(?p \<mapsto> t)) (rio_join rio dir ''raw.csv'') = fs (rio_join rio dir ''raw.csv'')" using apart by simp
  ultimately show ?thesis using t(1) by metis
qed

lemma write_summary_file:
  "write_summary rio dur res dir fs = (None, fs', out) \<Longrightarrow>
    fs' = fs(rio_join rio dir ''summary.txt'' \<mapsto> fst (print_calls rio 0 (summary_calls dur res))) \<and> out = snd (print_calls rio 0 (summary_calls dur res))"
  by (auto simp: write_summary_def Let_def split: option.splits prod.splits)

lemma json_part:
  assumes "(if P then write_json rio res dir fs else (None, fs)) = (None, fs1)" "inj_on (rio_join rio dir) (set run_files)"
  shows "(if P then (\<exists>t. rio_encode rio (Summary_doc (er_config res) (er_by_protocol res)) = Inr t \<and> fs1 (rio_join rio dir ''summary.json'') = Some t)
      else fs1 (rio_join rio dir ''summary.json'') = fs (rio_join rio dir ''summary.json''))
    \<and> fs1 (rio_join rio dir ''raw.csv'') = fs (rio_join rio dir ''raw.csv'')"
proof (cases P)
  case True
  with assms(1) have "write_json rio res dir fs = (None, fs1)" by simp
  from write_json_summary [OF this assms(2)] True show ?thesis unfolding if_P [OF True] by blast
qed (use assms(1) in simp)

text \<open>The ways a run command ends, in one place.\<close>

lemma run_command_cases:
  obtains (failed) fs1 where "run_command io profile cfg fs = exit_with 1 fs1"
  | (ended) res fs1 fs2 fs3 where "ci_run io cfg = Inr res"
      "(if emit_json (ex_output cfg) \<or> \<not> emit_csv (ex_output cfg) then write_json (ci_report io) res (out_dir (ex_output cfg)) fs else (None, fs)) = (None, fs1)"
      "(if emit_csv (ex_output cfg) then write_csv (ci_report io) res (out_dir (ex_output cfg)) fs1 else (None, fs1)) = (None, fs2)"
      "fs3 = fs2(rio_join (ci_report io) (out_dir (ex_output cfg)) ''summary.txt'' \<mapsto> fst (print_calls (ci_report io) 0 (summary_calls (ci_duration io) res)))"
      "run_command io profile cfg fs = \<lparr>oc_code = 0, oc_out = snd (print_calls (ci_report io) 0 (summary_calls (ci_duration io) res)), oc_files = fs3,
         oc_profiles = (profile \<and> ci_heap_profile io (rio_join (ci_report io) (out_dir (ex_output cfg)) ''mem.prof'') = None)\<rparr>"
proof -
  show thesis
  proof (cases "run_command io profile cfg fs = exit_with 1 (oc_files (run_command io profile cfg fs))")
    case True
    then show ?thesis by (rule failed)
  next
    case False
    let ?dir = "out_dir (ex_output cfg)" and ?rio = "ci_report io"
    have json: "(emit_json (ex_output cfg) \<or> (\<not> emit_json (ex_output cfg) \<and> \<not> emit_csv (ex_output cfg))) \<longleftrightarrow> emit_json (ex_output cfg) \<or> \<not> emit_csv (ex_output cfg)"
      by blast
    from False obtain res where res: "ci_run io cfg = Inr res" "\<not> (profile \<and> ci_cpu_profile io (rio_join ?rio ?dir ''cpu.prof'') \<noteq> None)"
      by (auto simp: run_command_def exit_with_def Let_def split: sum.splits if_splits)
    define j where "j = (if emit_json (ex_output cfg) \<or> \<not> emit_csv (ex_output cfg) then write_json ?rio res ?dir fs else (None, fs))"
    obtain fs1 where fs1: "j = (None, fs1)"
      using False res by (cases j) (auto simp: run_command_def exit_with_def Let_def json j_def [symmetric] split: option.splits)
    define c where "c = (if emit_csv (ex_output cfg) then write_csv ?rio res ?dir fs1 else (None, fs1))"
    obtain fs2 where fs2: "c = (None, fs2)"
      using False res fs1 by (cases c) (auto simp: run_command_def exit_with_def Let_def json j_def [symmetric] c_def [symmetric] split: option.splits)
    obtain fs3 out where fs3: "write_summary ?rio (ci_duration io) res ?dir fs2 = (None, fs3, out)"
      using False res fs1 fs2
      by (cases "write_summary ?rio (ci_duration io) res ?dir fs2")
        (auto simp: run_command_def exit_with_def Let_def json j_def [symmetric] c_def [symmetric] split: option.splits)
    have "run_command io profile cfg fs = \<lparr>oc_code = 0, oc_out = out, oc_files = fs3,
         oc_profiles = (profile \<and> ci_heap_profile io (rio_join ?rio ?dir ''mem.prof'') = None)\<rparr>"
      using res fs1 fs2 fs3 by (auto simp: run_command_def Let_def json j_def [symmetric] c_def [symmetric])
    with res(1) fs1 fs2 write_summary_file [OF fs3] show ?thesis unfolding j_def c_def by (intro ended) auto
  qed
qed


lemma check_parameters_values: "check_parameters ps = None \<Longrightarrow> \<forall>p\<in>set ps. sp_values p \<noteq> []"
  by (induction ps) (auto split: if_splits)

lemma sweep_command_ends: "\<exists>oc. sweep_command io quote args fs = Some oc"
proof (cases "parse_flags sweep_flags args Map.empty")
  case (Inr m)
  show ?thesis
  proof (cases "load_sweep_config (ci_read io) (ci_decode_sweep io) (flag_value m ''config'')")
    case ok: (Inr cfg0)
    let ?cfg = "cfg0\<lparr>sc_output_dir := output_dir io (flag_value m ''output-dir'') (sc_output_dir cfg0) (sc_name cfg0)\<rparr>"
    obtain raw where "check_sweep raw = Inr cfg0"
      using ok by (auto simp: load_sweep_config_def split: sum.splits)
    then have "sc_parameters cfg0 \<noteq> []" "check_parameters (sc_parameters cfg0) = None"
      by (auto simp: check_sweep_def split: if_splits option.splits prod.splits)
    then have "cross_product (sc_parameters ?cfg) = Some (Some (product_lists (map sp_values (sc_parameters ?cfg))))"
      using cross_product_all check_parameters_values by simp
    then have "\<exists>r. sweep_on_disk ((ci_sweep io)\<lparr>sd_report := ci_report io\<rparr>) (ci_run io) None ?cfg fs = Some r"
      by (auto simp: sweep_on_disk_def split: option.split sum.split prod.split)
    with Inr ok show ?thesis by (auto simp: sweep_command_def Let_def split: sum.split prod.split)
  qed (use Inr in \<open>simp add: sweep_command_def\<close>)
qed (simp add: sweep_command_def)

lemma config_forms:
  assumes "p \<noteq> []"
  shows "parse_flags run_flags [''--config'', p] Map.empty = Inr [''config'' \<mapsto> p]"
    "parse_flags run_flags [''-config'', p] Map.empty = Inr [''config'' \<mapsto> p]"
    "parse_flags run_flags [''--config='' @ p] Map.empty = Inr [''config'' \<mapsto> p]"
  by (simp_all add: run_flags_def Let_def)

text \<open>The command line. Every command ends, sweeps included, because a loaded sweep has no empty axis; without a known subcommand, or
  without a scenario where one is needed, the exit code is 2 and nothing is touched; the three spellings of the scenario flag are the
  same; and \<open>validate\<close> touches no file and exits with 0 exactly on a file that reads, decodes and validates, with 1 on any other.\<close>

lemma cli_dispatch:
  "(\<exists>oc. cdnsim io quote args fs = Some oc) \<and> cdnsim io quote [] fs = Some (exit_with 2 fs)
    \<and> (sub \<notin> set [''run'', ''validate'', ''sweep'', ''analyze''] \<longrightarrow> cdnsim io quote (sub # args) fs = Some (exit_with 2 fs))
    \<and> (sub \<in> set [''run'', ''validate'', ''sweep'', ''analyze''] \<longrightarrow> cdnsim io quote [sub] fs = Some (exit_with 2 fs))
    \<and> (p \<noteq> [] \<longrightarrow> run_or_validate io sub [''--config'', p] fs = run_or_validate io sub [''--config='' @ p] fs
        \<and> run_or_validate io sub [''--config'', p] fs = run_or_validate io sub [''-config'', p] fs
        \<and> (\<exists>oc. cdnsim io quote [''validate'', ''--config'', p] fs = Some oc \<and> oc_files oc = fs
          \<and> oc_code oc = (if \<exists>cfg. load_config (ci_read io) (ci_decode io) p = Inr cfg then 0 else 1)))"
proof (intro conjI impI)
  show "\<exists>oc. cdnsim io quote args fs = Some oc"
    by (simp add: cdnsim_def sweep_command_ends split: list.split)
  show "cdnsim io quote [] fs = Some (exit_with 2 fs)" by (simp add: cdnsim_def)
  show "sub \<notin> set [''run'', ''validate'', ''sweep'', ''analyze''] \<Longrightarrow> cdnsim io quote (sub # args) fs = Some (exit_with 2 fs)"
    by (simp add: cdnsim_def)
  have none: "parse_flags ks [] Map.empty = Inr Map.empty" for ks by simp
  show "sub \<in> set [''run'', ''validate'', ''sweep'', ''analyze''] \<Longrightarrow> cdnsim io quote [sub] fs = Some (exit_with 2 fs)"
    by (auto simp: cdnsim_def run_or_validate_def sweep_command_def analyze_command_def none flag_value_def)
  assume p: "p \<noteq> []"
  note forms = config_forms [OF p]
  show "run_or_validate io sub [''--config'', p] fs = run_or_validate io sub [''--config='' @ p] fs"
    "run_or_validate io sub [''--config'', p] fs = run_or_validate io sub [''-config'', p] fs"
    unfolding run_or_validate_def forms by simp_all
  show "\<exists>oc. cdnsim io quote [''validate'', ''--config'', p] fs = Some oc \<and> oc_files oc = fs
      \<and> oc_code oc = (if \<exists>cfg. load_config (ci_read io) (ci_decode io) p = Inr cfg then 0 else 1)"
    unfolding cdnsim_def run_or_validate_def list.case forms using p
    by (cases "load_config (ci_read io) (ci_decode io) p") (simp_all add: flag_value_def exit_with_def)
qed

section \<open>Commands on a small scenario\<close>

definition demo_cli :: "experiment_config cli_io" where
  "demo_cli = \<lparr>ci_read = (\<lambda>f. Inl ''no such file''), ci_decode = (\<lambda>d. Inl ''bad''), ci_decode_sweep = (\<lambda>d. Inl ''bad''),
     ci_run = demo_runner, ci_report = demo_report_io, ci_sweep = demo_disk, ci_duration = ''1s'', ci_lower = id,
     ci_cpu_profile = (\<lambda>f. None), ci_heap_profile = (\<lambda>f. None), ci_python = False, ci_compare = (\<lambda>d. None)\<rparr>"


end
