(* ===== verification/Hosts.thy ===== *)
theory Hosts
  imports Tls EdgeConc GoStrings
begin

text \<open>
  What the servers and the emulated transports take from the machine they run on: the certificates of \<open>internal/servertls/cert.go\<close>,
  the upstream client and the statistics page of \<open>cmd/edge-server/main.go\<close>, and the processor time and TCP statistics of
  \<open>cpu.go\<close>, \<open>stats.go\<close>, \<open>stats_linux.go\<close> and \<open>stats_other.go\<close> of \<open>internal/transport/emulated\<close>. Key generation, certificate creation and parsing, PEM, and the
  system calls are parameters.
\<close>

section \<open>Certificates\<close>

record cert_template =
  tp_serial :: nat
  tp_common_name :: string
  tp_organization :: "string list"
  tp_not_before :: instant
  tp_not_after :: instant
  tp_key_usage :: "string list"
  tp_ext_key_usage :: "string list"
  tp_basic_constraints_valid :: bool
  tp_is_ca :: bool
  tp_dns_names :: "string list"
  tp_ips :: "string list"

text \<open>A private key is an interface value; only one of its types can be persisted.\<close>

datatype 'k private_key = Ecdsa (ec_key: 'k) | Other_key (key_type: string)

record ('k, 'd, 'l) certificate =
  ct_chain :: "'d list"
  ct_key :: "'k private_key"
  ct_leaf :: "'l option"

text \<open>The crypto libraries over their source of randomness \<open>'r\<close>: \<open>'d\<close> is DER, \<open>'l\<close> a parsed certificate.\<close>

record ('k, 'd, 'l, 'r) crypto =
  cy_gen_key :: "'r \<Rightarrow> (string + 'k) \<times> 'r"
  cy_serial :: "'r \<Rightarrow> (string + nat) \<times> 'r"
  cy_create :: "cert_template \<Rightarrow> 'k \<Rightarrow> 'r \<Rightarrow> (string + 'd) \<times> 'r"
  cy_parse :: "'d \<Rightarrow> string + 'l"
  cy_marshal :: "'k \<Rightarrow> string + 'd"
  cy_pem :: "string \<Rightarrow> 'd \<Rightarrow> string"
  cy_load :: "string \<Rightarrow> string \<Rightarrow> string + ('k, 'd, 'l) certificate"

text \<open>Files with their permission bits; writing to a file that exists keeps its bits. The process mask takes none of the bits asked for.\<close>

type_synonym mode_files = "string \<rightharpoonup> string \<times> int"

definition write_file :: "(string \<Rightarrow> string option) \<Rightarrow> string \<Rightarrow> string \<Rightarrow> int \<Rightarrow> mode_files \<Rightarrow> string option \<times> mode_files" where
  "write_file fails path data mode fs = (case fails path of Some e \<Rightarrow> (Some e, fs)
     | None \<Rightarrow> (None, fs(path \<mapsto> (data, case fs path of None \<Rightarrow> mode | Some (_, m) \<Rightarrow> m))))"

definition mode_0644 :: int where "mode_0644 = 420"
definition mode_0600 :: int where "mode_0600 = 384"

definition self_template :: "instant \<Rightarrow> nat \<Rightarrow> string list \<Rightarrow> string list \<Rightarrow> cert_template" where
  "self_template now serial dns ips = \<lparr>tp_serial = serial, tp_common_name = ''cdn-sim'', tp_organization = [''cdn-sim test''],
     tp_not_before = now - hour, tp_not_after = now + 365 * 24 * hour,
     tp_key_usage = [''DigitalSignature'', ''CertSign''], tp_ext_key_usage = [''ServerAuth'', ''ClientAuth''], tp_basic_constraints_valid = True, tp_is_ca = True,
     tp_dns_names = [''localhost'', ''cdn-sim''] @ dns, tp_ips = [''127.0.0.1'', ''::1''] @ ips\<rparr>"

definition generate_self_signed :: "('k, 'd, 'l, 'r) crypto \<Rightarrow> instant \<Rightarrow> string list \<Rightarrow> string list \<Rightarrow> 'r \<Rightarrow> (string + ('k, 'd, 'l) certificate) \<times> 'r" where
  "generate_self_signed cy now dns ips r = (case cy_gen_key cy r of (Inl e, r1) \<Rightarrow> (Inl (''ec key: '' @ e), r1)
   | (Inr priv, r1) \<Rightarrow> (case cy_serial cy r1 of (Inl e, r2) \<Rightarrow> (Inl (''serial: '' @ e), r2)
     | (Inr serial, r2) \<Rightarrow> (case cy_create cy (self_template now serial dns ips) priv r2 of (Inl e, r3) \<Rightarrow> (Inl (''create cert: '' @ e), r3)
       | (Inr der, r3) \<Rightarrow> (case cy_parse cy der of Inl e \<Rightarrow> (Inl (''parse generated cert: '' @ e), r3)
         | Inr leaf \<Rightarrow> (Inr \<lparr>ct_chain = [der], ct_key = Ecdsa priv, ct_leaf = Some leaf\<rparr>, r3)))))"

definition persist :: "('k, 'd, 'l, 'r) crypto \<Rightarrow> (string \<Rightarrow> string option) \<Rightarrow> ('k, 'd, 'l) certificate \<Rightarrow> string \<Rightarrow> string \<Rightarrow> mode_files \<Rightarrow>
    string option \<times> mode_files" where
  "persist cy fails c cert key fs = (case write_file fails cert (cy_pem cy ''CERTIFICATE'' (hd (ct_chain c))) mode_0644 fs of
     (Some e, fs1) \<Rightarrow> (Some (''write cert: '' @ e), fs1)
   | (None, fs1) \<Rightarrow> (case ct_key c of Other_key t \<Rightarrow> (Some (''unexpected key type '' @ t), fs1)
     | Ecdsa priv \<Rightarrow> (case cy_marshal cy priv of Inl e \<Rightarrow> (Some (''marshal key: '' @ e), fs1)
       | Inr der \<Rightarrow> (case write_file fails key (cy_pem cy ''EC PRIVATE KEY'' der) mode_0600 fs1 of
           (Some e, fs2) \<Rightarrow> (Some (''write key: '' @ e), fs2) | (None, fs2) \<Rightarrow> (None, fs2)))))"

definition load_or_generate :: "('k, 'd, 'l, 'r) crypto \<Rightarrow> (string \<Rightarrow> string option) \<Rightarrow> instant \<Rightarrow> string \<Rightarrow> string \<Rightarrow> string list \<Rightarrow> string list \<Rightarrow>
    mode_files \<times> 'r \<Rightarrow> (string + ('k, 'd, 'l) certificate) \<times> mode_files \<times> 'r" where
  "load_or_generate cy fails now cert key dns ips s = (case s of (fs, r) \<Rightarrow>
     if cert \<noteq> [] \<and> key \<noteq> [] \<and> fs cert \<noteq> None \<and> fs key \<noteq> None then (cy_load cy (fst (the (fs cert))) (fst (the (fs key))), fs, r)
     else (case generate_self_signed cy now dns ips r of (Inl e, r1) \<Rightarrow> (Inl e, fs, r1)
       | (Inr c, r1) \<Rightarrow> if cert \<noteq> [] \<and> key \<noteq> []
           then (case persist cy fails c cert key fs of (Some e, fs1) \<Rightarrow> (Inl e, fs1, r1) | (None, fs1) \<Rightarrow> (Inr c, fs1, r1))
           else (Inr c, fs, r1)))"

text \<open>The pool a client trusts: the leaf, parsed on the fly when it is missing.\<close>

definition pool_from_cert :: "('k, 'd, 'l, 'r) crypto \<Rightarrow> ('k, 'd, 'l) certificate \<Rightarrow> string + 'l list" where
  "pool_from_cert cy c = (case ct_leaf c of Some l \<Rightarrow> Inr [l]
     | None \<Rightarrow> (case ct_chain c of [] \<Rightarrow> Inl ''cert has no DER bytes''
       | d # _ \<Rightarrow> (case cy_parse cy d of Inl e \<Rightarrow> Inl (''parse cert for pool: '' @ e) | Inr l \<Rightarrow> Inr [l])))"

section \<open>The upstream client of the edge\<close>

definition load_cert_pool :: "(string \<Rightarrow> string + string) \<Rightarrow> (string \<Rightarrow> 'p option) \<Rightarrow> string \<Rightarrow> string + 'p" where
  "load_cert_pool read_file pool_of path = (case read_file path of Inl e \<Rightarrow> Inl e
     | Inr pem \<Rightarrow> (case pool_of pem of None \<Rightarrow> Inl (''no certs found in '' @ path) | Some p \<Rightarrow> Inr p))"

text \<open>The client: HTTP/3 or HTTP/2, its TLS settings and its timeout.\<close>

record 'p upstream_client =
  uc_http3 :: bool
  uc_force_http2 :: bool
  uc_tls :: "'p tls_config"
  uc_timeout :: duration

definition build_upstream_client :: "string \<Rightarrow> 'p option \<Rightarrow> 'p upstream_client" where
  "build_upstream_client transport pool =
     (let cfg = \<lparr>tls_min_version = tls13, tls_roots = pool, tls_insecure = (pool = None), tls_protos = []\<rparr>
      in if transport = ''quic'' then \<lparr>uc_http3 = True, uc_force_http2 = False, uc_tls = cfg, uc_timeout = 30 * second\<rparr>
         else \<lparr>uc_http3 = False, uc_force_http2 = True, uc_tls = cfg, uc_timeout = 30 * second\<rparr>)"

text \<open>What \<open>main\<close> makes of its flags: the client and the base URL. A pool that does not load is only logged.\<close>

definition edge_upstream :: "(string \<Rightarrow> string + string) \<Rightarrow> (string \<Rightarrow> 'p option) \<Rightarrow> string \<Rightarrow> string \<Rightarrow> string \<Rightarrow> string \<Rightarrow> 'p upstream_client \<times> string" where
  "edge_upstream read_file pool_of ca transport url_h2 url_h3 =
     (build_upstream_client transport (case load_cert_pool read_file pool_of ca of Inl e \<Rightarrow> None | Inr p \<Rightarrow> Some p),
      if transport = ''quic'' then url_h3 else url_h2)"

definition stats_page :: "edge \<Rightarrow> string" where
  "stats_page s = ''{'' @ [CHR 0x22] @ ''hits'' @ [CHR 0x22] @ '':'' @ itoa (edge_hits s) @ '','' @ [CHR 0x22] @ ''misses'' @ [CHR 0x22] @ '':'' @ itoa (edge_misses s) @ ''}''"

section \<open>Processor time and TCP statistics\<close>

record rusage =
  ru_utime_sec :: int
  ru_utime_usec :: int
  ru_stime_sec :: int
  ru_stime_usec :: int

definition read_cpu :: "rusage option \<Rightarrow> duration" where
  "read_cpu ru = (case ru of None \<Rightarrow> 0 | Some ru \<Rightarrow> (ru_utime_sec ru * second + ru_utime_usec ru * microsecond) + (ru_stime_sec ru * second + ru_stime_usec ru * microsecond))"

text \<open>A measurement from its start to its end; none at all without a tracker.\<close>

definition cpu_stop :: "duration option \<Rightarrow> rusage option \<Rightarrow> duration" where
  "cpu_stop start ru = (case start of None \<Rightarrow> 0 | Some s \<Rightarrow> let d = read_cpu ru - s in if d < 0 then 0 else d)"

record tcp_stats =
  ts_rtt_ms :: real
  ts_rttvar_ms :: real
  ts_retransmits :: int
  ts_bytes_sent :: int
  ts_bytes_received :: int
  ts_loss_packets :: int
  ts_reorder_packets :: int
  ts_available :: bool

record tcp_info =
  ti_rtt :: int
  ti_rttvar :: int
  ti_total_retrans :: int
  ti_lost :: int
  ti_reordering :: int

definition no_tcp_stats :: tcp_stats where
  "no_tcp_stats = \<lparr>ts_rtt_ms = 0, ts_rttvar_ms = 0, ts_retransmits = 0, ts_bytes_sent = 0, ts_bytes_received = 0, ts_loss_packets = 0,
     ts_reorder_packets = 0, ts_available = False\<rparr>"

text \<open>On Linux; \<open>conn\<close> is \<open>None\<close> for a connection that is not TCP, else what the system calls answer in turn: the raw connection, the
  control call and the socket option within it.\<close>

definition get_tcp_info :: "(string + string option \<times> (string + tcp_info)) option \<Rightarrow> string + tcp_stats" where
  "get_tcp_info conn = (case conn of None \<Rightarrow> Inr no_tcp_stats
     | Some (Inl e) \<Rightarrow> Inl (''tcp syscall conn: '' @ e)
     | Some (Inr (Some e, _)) \<Rightarrow> Inl (''tcp control: '' @ e)
     | Some (Inr (None, Inl e)) \<Rightarrow> Inl (''getsockopt TCP_INFO: '' @ e)
     | Some (Inr (None, Inr i)) \<Rightarrow> Inr (no_tcp_stats\<lparr>ts_rtt_ms := fdiv (i2f (ti_rtt i)) 1000, ts_rttvar_ms := fdiv (i2f (ti_rttvar i)) 1000,
         ts_retransmits := ti_total_retrans i, ts_loss_packets := ti_lost i, ts_reorder_packets := ti_reordering i, ts_available := True\<rparr>))"

definition get_tcp_info_other :: "'c \<Rightarrow> string + tcp_stats" where
  "get_tcp_info_other conn = Inr no_tcp_stats"

lemma cpu_time_nonneg: "0 \<le> cpu_stop start ru"
  by (simp add: cpu_stop_def Let_def split: option.split)

lemma edge_upstream_checks:
  "tls_insecure (uc_tls (fst (edge_upstream rd pool_of ca t a b))) \<longleftrightarrow> (\<exists>e. load_cert_pool rd pool_of ca = Inl e)"
  by (simp add: edge_upstream_def build_upstream_client_def Let_def split: sum.split)

section \<open>A server keeps its certificate\<close>

text \<open>What \<open>tls.LoadX509KeyPair\<close> promises of a certificate that was made and signed with a key, when the certificate parses and the key has an
  encoding: the two as PEM load as the same chain and key. It promises nothing of a certificate and a key that do not belong together,
  which it refuses.\<close>

definition loads_back :: "('k, 'd, 'l, 'r) crypto \<Rightarrow> bool" where
  "loads_back cy \<longleftrightarrow> (\<forall>t k r d r' l kd. cy_create cy t k r = (Inr d, r') \<longrightarrow> cy_parse cy d = Inr l \<longrightarrow> cy_marshal cy k = Inr kd \<longrightarrow>
     (\<exists>c. cy_load cy (cy_pem cy ''CERTIFICATE'' d) (cy_pem cy ''EC PRIVATE KEY'' kd) = Inr c \<and> ct_chain c = [d] \<and> ct_key c = Ecdsa k))"

lemma generated:
  "generate_self_signed cy now dns ips r = (Inr c, r1) \<Longrightarrow> \<exists>d k l t r0 r2. c = \<lparr>ct_chain = [d], ct_key = Ecdsa k, ct_leaf = Some l\<rparr>
    \<and> cy_create cy t k r0 = (Inr d, r2) \<and> cy_parse cy d = Inr l"
  by (auto simp: generate_self_signed_def split: prod.splits sum.splits) blast

lemma persisted:
  assumes "persist cy fails c cert key fs = (None, fs')" "ct_chain c = [d]" "ct_key c = Ecdsa k" "cert \<noteq> key"
  shows "\<exists>kd. cy_marshal cy k = Inr kd \<and> fs' = fs(cert \<mapsto> (cy_pem cy ''CERTIFICATE'' d, case fs cert of None \<Rightarrow> mode_0644 | Some (_, m) \<Rightarrow> m),
    key \<mapsto> (cy_pem cy ''EC PRIVATE KEY'' kd, case fs key of None \<Rightarrow> mode_0600 | Some (_, m) \<Rightarrow> m))"
  using assms by (auto simp: persist_def write_file_def split: option.splits sum.splits prod.splits)

text \<open>A certificate made because a file was missing: what is on disk afterwards, and what any later call loads.\<close>

lemma fresh_certificate:
  assumes "load_or_generate cy fails now cert key dns ips (fs, r) = (Inr c, fs', r')" "loads_back cy" "cert \<noteq> []" "key \<noteq> []" "cert \<noteq> key"
    and "fs cert = None \<or> fs key = None"
  obtains d k l c' where "c = \<lparr>ct_chain = [d], ct_key = Ecdsa k, ct_leaf = Some l\<rparr>" "cy_parse cy d = Inr l"
    "fst (the (fs' cert)) = cy_pem cy ''CERTIFICATE'' d" "fs' cert \<noteq> None" "fs' key \<noteq> None"
    "snd (the (fs' key)) = (case fs key of None \<Rightarrow> mode_0600 | Some (_, m) \<Rightarrow> m)"
    "\<And>fails' now' dns' ips' r2. load_or_generate cy fails' now' cert key dns' ips' (fs', r2) = (Inr c', fs', r2)" "ct_chain c' = [d]" "ct_key c' = Ecdsa k"
proof -
  from assms(1,3,4,6) obtain c0 where g: "generate_self_signed cy now dns ips r = (Inr c0, r')" and p: "persist cy fails c0 cert key fs = (None, fs')" "c0 = c"
    by (auto simp: load_or_generate_def split: prod.splits sum.splits option.splits if_splits)
  from generated [OF g] obtain d k l t r0 r2 where c: "c = \<lparr>ct_chain = [d], ct_key = Ecdsa k, ct_leaf = Some l\<rparr>" "cy_parse cy d = Inr l"
    and made: "cy_create cy t k r0 = (Inr d, r2)"
    using p(2) by blast
  from persisted [OF p(1), of d k] c p(2) assms(5) obtain kd where kd: "cy_marshal cy k = Inr kd"
    and fs': "fs' = fs(cert \<mapsto> (cy_pem cy ''CERTIFICATE'' d, case fs cert of None \<Rightarrow> mode_0644 | Some (_, m) \<Rightarrow> m),
      key \<mapsto> (cy_pem cy ''EC PRIVATE KEY'' kd, case fs key of None \<Rightarrow> mode_0600 | Some (_, m) \<Rightarrow> m))" by auto
  obtain c' where c': "cy_load cy (cy_pem cy ''CERTIFICATE'' d) (cy_pem cy ''EC PRIVATE KEY'' kd) = Inr c'" "ct_chain c' = [d]" "ct_key c' = Ecdsa k"
    using assms(2) made c(2) kd unfolding loads_back_def by blast
  have "load_or_generate cy fails' now' cert key dns' ips' (fs', r2) = (Inr c', fs', r2)" for fails' now' dns' ips' r2
    using assms(3-5) c'(1) by (simp add: load_or_generate_def fs')
  then show thesis using c c'(2,3) assms(5) by (intro that [of d k l c']) (simp_all add: fs')
qed

text \<open>C26: A server keeps its certificate. When \<open>LoadOrGenerate\<close> with two file names succeeds, both files are there afterwards, and every
  later call, with whatever names and addresses, gives a certificate with the same chain and key, reads no randomness and changes no
  file; a client's pool made from a generated certificate holds exactly the parsed chain. A new key file has mode 0600, but a key file that
  was there keeps the mode it had, although its content is replaced when the certificate file is missing.\<close>

theorem server_keeps_certificate:
  assumes "load_or_generate cy fails now cert key dns ips (fs, r) = (Inr c, fs', r')" "loads_back cy" "cert \<noteq> []" "key \<noteq> []" "cert \<noteq> key"
  shows "fs' cert \<noteq> None \<and> fs' key \<noteq> None
    \<and> (\<exists>c'. load_or_generate cy fails' now' cert key dns' ips' (fs', r2) = (Inr c', fs', r2) \<and> ct_chain c' = ct_chain c \<and> ct_key c' = ct_key c)
    \<and> (fs cert = None \<or> fs key = None \<longrightarrow> (\<exists>d l. ct_chain c = [d] \<and> cy_parse cy d = Inr l \<and> pool_from_cert cy c = Inr [l])
        \<and> snd (the (fs' key)) = (case fs key of None \<Rightarrow> mode_0600 | Some (_, m) \<Rightarrow> m))
    \<and> (fs cert \<noteq> None \<and> fs key \<noteq> None \<longrightarrow> fs' = fs \<and> r' = r)"
proof (cases "fs cert = None \<or> fs key = None")
  case True
  from fresh_certificate [OF assms True] obtain d k l c' where f: "c = \<lparr>ct_chain = [d], ct_key = Ecdsa k, ct_leaf = Some l\<rparr>" "cy_parse cy d = Inr l"
    "fs' cert \<noteq> None" "fs' key \<noteq> None" "snd (the (fs' key)) = (case fs key of None \<Rightarrow> mode_0600 | Some (_, m) \<Rightarrow> m)"
    "load_or_generate cy fails' now' cert key dns' ips' (fs', r2) = (Inr c', fs', r2)" "ct_chain c' = [d]" "ct_key c' = Ecdsa k"
    by metis
  then show ?thesis using True by (cases "fs cert = None"; simp add: pool_from_cert_def)
next
  case False
  with assms(1,3,4) have "cy_load cy (fst (the (fs cert))) (fst (the (fs key))) = Inr c" "fs' = fs" "r' = r"
    by (auto simp: load_or_generate_def)
  with False assms(3,4) show ?thesis by (auto simp: load_or_generate_def)
qed

text \<open>Crypto libraries that work: DER is the name followed by the key it was signed with, PEM puts the type in front, and only a certificate that ends
  in the key loads with it.\<close>

definition plain_crypto :: "(string, string, string, nat) crypto" where
  "plain_crypto = \<lparr>cy_gen_key = (\<lambda>r. (Inr ''k'', r + 1)), cy_serial = (\<lambda>r. (Inr r, r + 1)),
     cy_create = (\<lambda>t k r. (Inr (tp_common_name t @ k), r + 1)), cy_parse = Inr, cy_marshal = Inr, cy_pem = (\<lambda>t d. t @ d),
     cy_load = (\<lambda>c k. let d = drop 11 c; kd = drop 14 k in
       if take 11 c = ''CERTIFICATE'' \<and> take 14 k = ''EC PRIVATE KEY'' \<and> drop (length d - length kd) d = kd
       then Inr \<lparr>ct_chain = [d], ct_key = Ecdsa kd, ct_leaf = None\<rparr>
       else Inl ''tls: private key does not match public key'')\<rparr>"

lemma plain_loads_back: "loads_back plain_crypto"
  by (simp add: loads_back_def plain_crypto_def Let_def eval_nat_numeral)

lemma plain_generates:
  "load_or_generate plain_crypto (\<lambda>_. None) now ''c'' ''k'' [] [] ([''k'' \<mapsto> (''old'', 511)], 0)
     = (Inr \<lparr>ct_chain = [''cdn-simk''], ct_key = Ecdsa ''k'', ct_leaf = Some ''cdn-simk''\<rparr>,
        [''k'' \<mapsto> (''EC PRIVATE KEYk'', 511), ''c'' \<mapsto> (''CERTIFICATEcdn-simk'', mode_0644)], 3)"
  by (simp add: load_or_generate_def generate_self_signed_def persist_def write_file_def plain_crypto_def self_template_def fun_upd_twist)

theorem server_keeps_certificate_witness:
  "\<exists>c fs'. load_or_generate plain_crypto (\<lambda>_. None) 0 ''c'' ''k'' [] [] ([''k'' \<mapsto> (''old'', 511)], 0) = (Inr c, fs', 3)
     \<and> snd (the (fs' ''k'')) = 511 \<and> pool_from_cert plain_crypto c = Inr [''cdn-simk'']"
  using server_keeps_certificate [OF plain_generates [where now = 0] plain_loads_back] plain_generates [where now = 0]
  by (auto simp: pool_from_cert_def)

end
