(* ===== verification/Lifecycle.thy ===== *)
theory Lifecycle
  imports Hosts Process
begin

text \<open>
  The two servers as processes, \<open>main\<close> of \<open>cmd/edge-server\<close> and of \<open>cmd/origin-server\<close>: what they set up from their options, and
  their life from the start of the two listeners over a signal to the exit. Both mains have the same shape after the setup: a goroutine
  for each listener, and the main goroutine, which waits for a signal, shuts HTTP/2 down within five seconds, closes HTTP/3 and
  waits for the listeners. \<open>Shutdown\<close> of \<open>net/http\<close> stops accepting and waits for the requests in work; \<open>Close\<close> of quic-go is documented to
  abort them. \<open>life_advance\<close> is a step of the program, \<open>life_env\<close> one of its environment: a signal, a request that arrives
  or is answered, time that passes. Parsing the options' text is left to package \<open>flag\<close>.
\<close>

section \<open>Setting up\<close>

record edge_options =
  eo_addr_h2 :: string
  eo_addr_h3 :: string
  eo_cert :: string
  eo_key :: string
  eo_origin_h2 :: string
  eo_origin_h3 :: string
  eo_transport :: string
  eo_cache_mb :: int
  eo_edge_id :: string
  eo_ca_cert :: string

definition edge_defaults :: edge_options where
  "edge_defaults = \<lparr>eo_addr_h2 = '':8443'', eo_addr_h3 = '':8444'', eo_cert = ''/app/certs/server.crt'', eo_key = ''/app/certs/server.key'',
     eo_origin_h2 = ''https://origin:8443'', eo_origin_h3 = ''https://origin:8444'', eo_transport = ''tcp'', eo_cache_mb = 1024,
     eo_edge_id = ''edge-default'', eo_ca_cert = ''/app/certs/server.crt''\<rparr>"

record origin_options =
  oo_addr_h2 :: string
  oo_addr_h3 :: string
  oo_cert :: string
  oo_key :: string
  oo_delay :: duration
  oo_segment_seconds :: int

definition origin_defaults :: origin_options where
  "origin_defaults = \<lparr>oo_addr_h2 = '':8443'', oo_addr_h3 = '':8444'', oo_cert = ''/app/certs/server.crt'', oo_key = ''/app/certs/server.key'',
     oo_delay = 0, oo_segment_seconds = 4\<rparr>"

text \<open>The TLS settings of both listeners.\<close>

record 'c server_tls =
  st_certificates :: "'c list"
  st_protos :: "string list"
  st_min_version :: int

definition listener_tls :: "'c \<Rightarrow> 'c server_tls" where
  "listener_tls c = \<lparr>st_certificates = [c], st_protos = [''h2'', ''http/1.1'', ''h3''], st_min_version = tls13\<rparr>"

record ('c, 'p) edge_booted =
  eb_state :: edge
  eb_client :: "'p upstream_client"
  eb_base :: string
  eb_tls :: "'c server_tls"
  eb_addrs :: "string list"

definition read_from :: "(string \<Rightarrow> string option) \<Rightarrow> mode_files \<Rightarrow> string \<Rightarrow> string + string" where
  "read_from unreadable fs path = (case fs path of None \<Rightarrow> Inl (''open '' @ path @ '': no such file or directory'')
     | Some (t, m) \<Rightarrow> (case unreadable path of Some e \<Rightarrow> Inl e | None \<Rightarrow> Inr t))"

text \<open>\<open>Inl\<close>: the certificate failed, and the process exits with 1.\<close>

definition boot_edge :: "('k, 'd, 'l, 'r) crypto \<Rightarrow> (string \<Rightarrow> string option) \<Rightarrow> (string \<Rightarrow> string option) \<Rightarrow> (string \<Rightarrow> 'p option) \<Rightarrow> instant \<Rightarrow> edge_options
    \<Rightarrow> mode_files \<times> 'r \<Rightarrow> (string + (('k, 'd, 'l) certificate, 'p) edge_booted) \<times> mode_files \<times> 'r" where
  "boot_edge cy fails unreadable pool_of now opts s =
     (case load_or_generate cy fails now (eo_cert opts) (eo_key opts) [''edge-sg'', ''edge-mumbai'', ''shield'']
         [''172.21.0.20'', ''172.22.0.30'', ''172.22.0.40''] s of
       (Inl e, fs, r) \<Rightarrow> (Inl e, fs, r)
     | (Inr c, fs, r) \<Rightarrow> (let (client, base) = edge_upstream (read_from unreadable fs) pool_of (eo_ca_cert opts) (eo_transport opts)
             (eo_origin_h2 opts) (eo_origin_h3 opts) in
         (Inr \<lparr>eb_state = new_edge (eo_cache_mb opts), eb_client = client, eb_base = base, eb_tls = listener_tls c,
            eb_addrs = [eo_addr_h2 opts, eo_addr_h3 opts]\<rparr>, fs, r)))"

record 'c origin_booted =
  ob_delay :: duration
  ob_segment_seconds :: int
  ob_tls :: "'c server_tls"
  ob_addrs :: "string list"

definition boot_origin :: "('k, 'd, 'l, 'r) crypto \<Rightarrow> (string \<Rightarrow> string option) \<Rightarrow> instant \<Rightarrow> origin_options
    \<Rightarrow> mode_files \<times> 'r \<Rightarrow> (string + ('k, 'd, 'l) certificate origin_booted) \<times> mode_files \<times> 'r" where
  "boot_origin cy fails now opts s =
     (case load_or_generate cy fails now (oo_cert opts) (oo_key opts) [''origin'', ''shield'', ''edge-sg'', ''edge-mumbai''] [''172.20.0.10''] s of
       (Inl e, fs, r) \<Rightarrow> (Inl e, fs, r)
     | (Inr c, fs, r) \<Rightarrow> (Inr \<lparr>ob_delay = oo_delay opts, ob_segment_seconds = oo_segment_seconds opts, ob_tls = listener_tls c,
         ob_addrs = [oo_addr_h2 opts, oo_addr_h3 opts]\<rparr>, fs, r))"

section \<open>The life of a server\<close>

datatype serving = Starting | Serving | Ended

datatype main_phase = Waiting | Draining | Closing | Joining | Exited

text \<open>For each listener where its goroutine is, whether it has ever served, whether it was told to stop, how many requests are in work and how
  many were cut off; for the main goroutine its place, the signal, the time it has waited in \<open>Shutdown\<close>, and what it logs.\<close>

record server_life =
  lf_main :: main_phase
  lf_signal :: bool
  lf_waited :: duration
  lf_log :: "string list"
  lf_h2 :: serving
  lf_up2 :: bool
  lf_stop2 :: bool
  lf_open2 :: nat
  lf_cut2 :: nat
  lf_h3 :: serving
  lf_up3 :: bool
  lf_stop3 :: bool
  lf_open3 :: nat
  lf_cut3 :: nat

definition born :: server_life where
  "born = \<lparr>lf_main = Waiting, lf_signal = False, lf_waited = 0, lf_log = [], lf_h2 = Starting, lf_up2 = False, lf_stop2 = False, lf_open2 = 0, lf_cut2 = 0,
     lf_h3 = Starting, lf_up3 = False, lf_stop3 = False, lf_open3 = 0, lf_cut3 = 0\<rparr>"

definition shutdown_limit :: duration where
  "shutdown_limit = 5 * second"

inductive life_advance :: "server_life \<Rightarrow> server_life \<Rightarrow> bool" where
  bind2: "lf_h2 S = Starting \<Longrightarrow> \<not> lf_stop2 S \<Longrightarrow> life_advance S (S\<lparr>lf_h2 := Serving, lf_up2 := True\<rparr>)"
| bind3: "lf_h3 S = Starting \<Longrightarrow> \<not> lf_stop3 S \<Longrightarrow> life_advance S (S\<lparr>lf_h3 := Serving, lf_up3 := True\<rparr>)"
| fail2: "lf_h2 S \<noteq> Ended \<Longrightarrow> \<not> lf_stop2 S \<Longrightarrow> life_advance S (S\<lparr>lf_h2 := Ended, lf_log := lf_log S @ [''h2'']\<rparr>)"
| fail3: "lf_h3 S \<noteq> Ended \<Longrightarrow> \<not> lf_stop3 S \<Longrightarrow> life_advance S (S\<lparr>lf_h3 := Ended, lf_log := lf_log S @ [''h3'']\<rparr>)"
| stopped2: "lf_h2 S \<noteq> Ended \<Longrightarrow> lf_stop2 S \<Longrightarrow> life_advance S (S\<lparr>lf_h2 := Ended\<rparr>)"
| stopped3: "lf_h3 S \<noteq> Ended \<Longrightarrow> lf_stop3 S \<Longrightarrow> life_advance S (S\<lparr>lf_h3 := Ended\<rparr>)"
| wake: "lf_main S = Waiting \<Longrightarrow> lf_signal S \<Longrightarrow>
    life_advance S (S\<lparr>lf_main := Draining, lf_stop2 := True, lf_log := lf_log S @ [''shutting down'']\<rparr>)"
| drained: "lf_main S = Draining \<Longrightarrow> lf_open2 S = 0 \<Longrightarrow> life_advance S (S\<lparr>lf_main := Closing\<rparr>)"
| gave_up: "lf_main S = Draining \<Longrightarrow> shutdown_limit \<le> lf_waited S \<Longrightarrow>
    life_advance S (S\<lparr>lf_main := Closing, lf_log := lf_log S @ [''h2 shutdown'']\<rparr>)"
| close3: "lf_main S = Closing \<Longrightarrow> msg = [] \<or> msg = [''h3 close''] \<Longrightarrow>
    life_advance S (S\<lparr>lf_main := Joining, lf_stop3 := True, lf_cut3 := lf_open3 S, lf_open3 := 0, lf_log := lf_log S @ msg\<rparr>)"
| join: "lf_main S = Joining \<Longrightarrow> lf_h2 S = Ended \<Longrightarrow> lf_h3 S = Ended \<Longrightarrow> life_advance S (S\<lparr>lf_main := Exited, lf_cut2 := lf_open2 S\<rparr>)"

text \<open>A connection of HTTP/2 that is still busy may bring further requests while it drains.\<close>

inductive life_env :: "server_life \<Rightarrow> server_life \<Rightarrow> bool" where
  signal: "life_env S (S\<lparr>lf_signal := True\<rparr>)"
| request2: "lf_up2 S \<Longrightarrow> \<not> lf_stop2 S \<or> 0 < lf_open2 S \<Longrightarrow> life_env S (S\<lparr>lf_open2 := lf_open2 S + 1\<rparr>)"
| request3: "lf_up3 S \<Longrightarrow> \<not> lf_stop3 S \<Longrightarrow> life_env S (S\<lparr>lf_open3 := lf_open3 S + 1\<rparr>)"
| answer2: "0 < lf_open2 S \<Longrightarrow> life_env S (S\<lparr>lf_open2 := lf_open2 S - 1\<rparr>)"
| answer3: "0 < lf_open3 S \<Longrightarrow> life_env S (S\<lparr>lf_open3 := lf_open3 S - 1\<rparr>)"
| tick: "0 \<le> dt \<Longrightarrow> life_env S (S\<lparr>lf_waited := lf_waited S + (if lf_main S = Draining then dt else 0)\<rparr>)"

text \<open>Nothing happens in a process that has exited.\<close>

inductive life_step :: "server_life \<Rightarrow> server_life \<Rightarrow> bool" where
  advances: "lf_main S \<noteq> Exited \<Longrightarrow> life_advance S T \<Longrightarrow> life_step S T"
| environment: "lf_main S \<noteq> Exited \<Longrightarrow> life_env S T \<Longrightarrow> life_step S T"

inductive life_reach :: "server_life \<Rightarrow> bool" where
  start: "life_reach born"
| step: "life_reach S \<Longrightarrow> life_step S T \<Longrightarrow> life_reach T"

text \<open>How many steps the program itself has left at most.\<close>

fun serving_left :: "serving \<Rightarrow> nat" where
  "serving_left Starting = 2" | "serving_left Serving = 1" | "serving_left Ended = 0"

fun main_left :: "main_phase \<Rightarrow> nat" where
  "main_left Waiting = 4" | "main_left Draining = 3" | "main_left Closing = 2" | "main_left Joining = 1" | "main_left Exited = 0"

text \<open>The places of the main goroutine in the order in which it passes them.\<close>

instantiation main_phase :: linorder
begin

definition less_eq_main_phase :: "main_phase \<Rightarrow> main_phase \<Rightarrow> bool" where
  "less_eq_main_phase p q \<longleftrightarrow> main_left q \<le> main_left p"

definition less_main_phase :: "main_phase \<Rightarrow> main_phase \<Rightarrow> bool" where
  "less_main_phase p q \<longleftrightarrow> main_left q < main_left p"

lemma main_left_inj: "main_left p = main_left q \<Longrightarrow> p = q"
  by (cases p; cases q) simp_all

instance by standard (auto simp: less_eq_main_phase_def less_main_phase_def intro: main_left_inj)

end

lemmas phase_order = less_eq_main_phase_def less_main_phase_def

definition life_left :: "server_life \<Rightarrow> nat" where
  "life_left S = main_left (lf_main S) + serving_left (lf_h2 S) + serving_left (lf_h3 S)"

lemma advance_left: "life_advance S T \<Longrightarrow> life_left T < life_left S"
proof (induction rule: life_advance.induct)
  case (fail2 S) then show ?case by (cases "lf_h2 S") (simp_all add: life_left_def)
next
  case (fail3 S) then show ?case by (cases "lf_h3 S") (simp_all add: life_left_def)
next
  case (stopped2 S) then show ?case by (cases "lf_h2 S") (simp_all add: life_left_def)
next
  case (stopped3 S) then show ?case by (cases "lf_h3 S") (simp_all add: life_left_def)
qed (simp_all add: life_left_def)

lemma advance_phase: "life_advance S T \<Longrightarrow> lf_main S \<le> lf_main T"
  by (induction rule: life_advance.induct) (simp_all add: phase_order)

lemma env_left: "life_env S T \<Longrightarrow> life_left T = life_left S \<and> lf_main T = lf_main S \<and> (lf_signal S \<longrightarrow> lf_signal T)"
  by (induction rule: life_env.induct) (simp_all add: life_left_def)

lemma advance_signal: "life_advance S T \<Longrightarrow> lf_signal T = lf_signal S"
  by (induction rule: life_advance.induct) simp_all

text \<open>The state at each place of the main goroutine.\<close>

definition life_inv :: "server_life \<Rightarrow> bool" where
  "life_inv S \<longleftrightarrow> (lf_main S = Waiting \<or> lf_signal S) \<and> (lf_stop2 S \<longleftrightarrow> Waiting < lf_main S)
     \<and> (lf_stop3 S \<longleftrightarrow> Joining \<le> lf_main S) \<and> (lf_stop3 S \<longrightarrow> lf_open3 S = 0)
     \<and> (Closing \<le> lf_main S \<longrightarrow> lf_open2 S = 0 \<or> shutdown_limit \<le> lf_waited S)
     \<and> (lf_main S = Exited \<longrightarrow> lf_h2 S = Ended \<and> lf_h3 S = Ended \<and> lf_cut2 S = lf_open2 S)
     \<and> (lf_h2 S = Ended \<and> \<not> lf_stop2 S \<longrightarrow> ''h2'' \<in> set (lf_log S)) \<and> (lf_h3 S = Ended \<and> \<not> lf_stop3 S \<longrightarrow> ''h3'' \<in> set (lf_log S))"

lemma advance_inv: "life_advance S T \<Longrightarrow> life_inv S \<Longrightarrow> life_inv T"
  by (induction rule: life_advance.induct) (auto simp: life_inv_def phase_order)

lemma env_inv: "life_env S T \<Longrightarrow> lf_main S \<noteq> Exited \<Longrightarrow> life_inv S \<Longrightarrow> life_inv T"
  by (induction rule: life_env.induct) (auto simp: life_inv_def phase_order)

lemma reach_inv: "life_reach S \<Longrightarrow> life_inv S"
proof (induction rule: life_reach.induct)
  case start
  then show ?case by (simp add: life_inv_def born_def phase_order)
next
  case (step S T)
  from step.hyps(2) step.IH show ?case by (cases rule: life_step.cases) (auto intro: advance_inv env_inv)
qed

lemma life_advances:
  assumes "life_inv S" "lf_signal S" "lf_main S \<noteq> Exited"
  shows "(\<exists>T. life_advance S T) \<or> lf_main S = Draining \<and> 0 < lf_open2 S \<and> lf_waited S < shutdown_limit"
proof (cases "lf_main S")
  case Waiting
  then show ?thesis using assms(2) life_advance.wake by blast
next
  case Draining
  then show ?thesis using life_advance.drained life_advance.gave_up by (metis gr0I not_le)
next
  case Closing
  then show ?thesis using life_advance.close3 by blast
next
  case Joining
  then have "lf_stop2 S" "lf_stop3 S" using assms(1) by (simp_all add: life_inv_def phase_order)
  then show ?thesis using Joining life_advance.stopped2 life_advance.stopped3 life_advance.join by blast
qed (use assms(3) in simp)

text \<open>Time alone gets a server that was told to stop to its exit.\<close>

definition life_alone :: "server_life \<Rightarrow> server_life \<Rightarrow> bool" where
  "life_alone S T \<longleftrightarrow> lf_main S \<noteq> Exited \<and> (life_advance S T \<or> (\<exists>dt\<ge>0. T = S\<lparr>lf_waited := lf_waited S + (if lf_main S = Draining then dt else 0)\<rparr>))"

lemma alone_step: "life_alone S T \<Longrightarrow> life_step S T"
  unfolding life_alone_def by (metis advances environment tick)

text \<open>A step of the program, after waiting for the end of the five seconds if need be.\<close>

definition wait_out :: "server_life \<Rightarrow> server_life" where
  "wait_out S = S\<lparr>lf_waited := lf_waited S + (if lf_main S = Draining then max 0 (shutdown_limit - lf_waited S) else 0)\<rparr>"

definition life_round :: "server_life \<Rightarrow> server_life \<Rightarrow> bool" where
  "life_round S T \<longleftrightarrow> lf_main S \<noteq> Exited \<and> life_advance (wait_out S) T"

lemma wait_out: "life_left (wait_out S) = life_left S" "lf_signal (wait_out S) = lf_signal S" "lf_main (wait_out S) = lf_main S"
  "life_inv S \<Longrightarrow> life_inv (wait_out S)" "lf_main S = Draining \<Longrightarrow> shutdown_limit \<le> lf_waited (wait_out S)"
  by (auto simp: wait_out_def life_left_def life_inv_def phase_order)

lemma life_round_alone: "life_round\<^sup>*\<^sup>* S T \<Longrightarrow> life_alone\<^sup>*\<^sup>* S T"
proof (induction rule: rtranclp_induct)
  case (step U T)
  then have "life_alone U (wait_out U)" "life_alone (wait_out U) T"
    by (auto simp: life_round_def life_alone_def wait_out(3) intro!: disjI2 exI [of _ "max 0 (shutdown_limit - lf_waited U)"] simp: wait_out_def)
  with step.IH show ?case by (meson rtranclp.rtrancl_into_rtrancl)
qed simp

interpretation stopping: ending_process life_round "\<lambda>S. life_inv S \<and> lf_signal S" "\<lambda>S. lf_main S = Exited" life_left
proof
  fix S T
  assume S: "life_inv S \<and> lf_signal S"
  show "life_inv T \<and> lf_signal T" "life_left T < life_left S" if "life_round S T"
    using that S advance_inv [of "wait_out S" T] advance_signal [of "wait_out S" T] advance_left [of "wait_out S" T] wait_out
    by (auto simp: life_round_def)
  show "\<exists>T. life_round S T" if "lf_main S \<noteq> Exited"
    using life_advances [of "wait_out S"] S that wait_out(2,3) wait_out(4,5) [of S] by (auto simp: life_round_def)
qed

lemma alone_exits:
  "life_inv S \<Longrightarrow> lf_signal S \<Longrightarrow> \<exists>T. life_alone\<^sup>*\<^sup>* S T \<and> lf_main T = Exited"
  using stopping.runs_end [of S] life_round_alone by blast

text \<open>C28: The life of a server. It exits only after a signal, with both listeners ended, and cuts off requests of HTTP/2 only after waiting for them
  for five seconds; without a signal it waits, even when neither listener could be started, which it only logs. After a signal it can
  only be held up by HTTP/2 requests within these five seconds, has at most eight steps of its own left, which nothing in its
  environment adds to, never goes back to an earlier phase, and time alone gets it to its exit.\<close>

theorem server_shuts_down:
  assumes "life_reach S"
  shows "(lf_main S = Exited \<longrightarrow> lf_signal S \<and> lf_h2 S = Ended \<and> lf_h3 S = Ended \<and> (lf_cut2 S = 0 \<or> shutdown_limit \<le> lf_waited S))
    \<and> (\<not> lf_signal S \<longrightarrow> lf_main S = Waiting \<and> (lf_h2 S = Ended \<longrightarrow> ''h2'' \<in> set (lf_log S)) \<and> (lf_h3 S = Ended \<longrightarrow> ''h3'' \<in> set (lf_log S)))
    \<and> (lf_signal S \<and> lf_main S \<noteq> Exited \<longrightarrow> (\<exists>T. life_advance S T) \<or> lf_main S = Draining \<and> 0 < lf_open2 S \<and> lf_waited S < shutdown_limit)
    \<and> (lf_signal S \<longrightarrow> (\<exists>T. life_alone\<^sup>*\<^sup>* S T \<and> lf_main T = Exited))
    \<and> life_left S \<le> 8 \<and> (\<forall>T. life_advance S T \<longrightarrow> life_left T < life_left S) \<and> (\<forall>T. life_env S T \<longrightarrow> life_left T = life_left S)
    \<and> (\<forall>T. life_step S T \<longrightarrow> lf_main S \<le> lf_main T)"
proof (intro conjI impI allI)
  note inv = reach_inv [OF assms]
  show "lf_signal S" "lf_h2 S = Ended" "lf_h3 S = Ended" "lf_cut2 S = 0 \<or> shutdown_limit \<le> lf_waited S" if "lf_main S = Exited"
    using inv that by (auto simp: life_inv_def phase_order)
  show "lf_main S = Waiting" if "\<not> lf_signal S" using inv that by (auto simp: life_inv_def phase_order)
  show "''h2'' \<in> set (lf_log S)" if "\<not> lf_signal S" "lf_h2 S = Ended" using inv that by (auto simp: life_inv_def phase_order)
  show "''h3'' \<in> set (lf_log S)" if "\<not> lf_signal S" "lf_h3 S = Ended" using inv that by (auto simp: life_inv_def phase_order)
  show "(\<exists>T. life_advance S T) \<or> lf_main S = Draining \<and> 0 < lf_open2 S \<and> lf_waited S < shutdown_limit" if "lf_signal S \<and> lf_main S \<noteq> Exited"
    using life_advances [OF inv] that by blast
  show "\<exists>T. life_alone\<^sup>*\<^sup>* S T \<and> lf_main T = Exited" if "lf_signal S" using alone_exits [OF inv that] .
  show "life_left S \<le> 8" by (cases "lf_main S"; cases "lf_h2 S"; cases "lf_h3 S") (simp_all add: life_left_def)
  show "lf_main S \<le> lf_main T" if "life_step S T" for T
    using that by cases (simp_all add: advance_phase env_left)
qed (use advance_left env_left in blast)+

text \<open>Requests of HTTP/3 have no such grace: a server can exit with one of them cut off at once.\<close>

lemma http3_cut_off:
  "\<exists>S. life_reach S \<and> lf_main S = Exited \<and> lf_cut3 S = 1 \<and> lf_waited S = 0"
proof -
  define S1 where "S1 = born\<lparr>lf_h3 := Serving, lf_up3 := True\<rparr>"
  define S2 where "S2 = S1\<lparr>lf_open3 := 1\<rparr>"
  define S3 where "S3 = S2\<lparr>lf_signal := True\<rparr>"
  define S4 where "S4 = S3\<lparr>lf_main := Draining, lf_stop2 := True, lf_log := lf_log S3 @ [''shutting down'']\<rparr>"
  define S5 where "S5 = S4\<lparr>lf_main := Closing\<rparr>"
  define S6 where "S6 = S5\<lparr>lf_main := Joining, lf_stop3 := True, lf_cut3 := lf_open3 S5, lf_open3 := 0, lf_log := lf_log S5 @ []\<rparr>"
  define S7 where "S7 = S6\<lparr>lf_h2 := Ended\<rparr>"
  define S8 where "S8 = S7\<lparr>lf_h3 := Ended\<rparr>"
  define S9 where "S9 = S8\<lparr>lf_main := Exited, lf_cut2 := lf_open2 S8\<rparr>"
  note defs = S9_def S8_def S7_def S6_def S5_def S4_def S3_def S2_def S1_def born_def
  have adv: "life_reach U" if "life_reach T" "lf_main T \<noteq> Exited" "life_advance T U" for T U
    using that by (blast intro: life_reach.step advances)
  have env: "life_reach U" if "life_reach T" "lf_main T \<noteq> Exited" "life_env T U" for T U
    using that by (blast intro: life_reach.step environment)
  have "life_reach S1" unfolding S1_def by (rule adv [OF life_reach.start _ life_advance.bind3]) (simp_all add: born_def)
  then have "life_reach S2" by (rule env) (use life_env.request3 [of S1] in \<open>simp_all add: defs\<close>)
  then have "life_reach S3" by (rule env) (use life_env.signal [of S2] in \<open>simp_all add: defs\<close>)
  then have "life_reach S4" unfolding S4_def by (rule adv [OF _ _ life_advance.wake]) (simp_all add: defs)
  then have "life_reach S5" unfolding S5_def by (rule adv [OF _ _ life_advance.drained]) (simp_all add: defs)
  then have "life_reach S6" unfolding S6_def by (rule adv [OF _ _ life_advance.close3]) (simp_all add: defs)
  then have "life_reach S7" unfolding S7_def by (rule adv [OF _ _ life_advance.stopped2]) (simp_all add: defs)
  then have "life_reach S8" unfolding S8_def by (rule adv [OF _ _ life_advance.stopped3]) (simp_all add: defs)
  then have "life_reach S9" unfolding S9_def by (rule adv [OF _ _ life_advance.join]) (simp_all add: defs)
  then show ?thesis by (intro exI [of _ S9]) (simp add: defs)
qed

theorem server_shuts_down_witness:
  "\<exists>S. life_reach S \<and> lf_main S = Exited \<and> lf_cut3 S = 1 \<and> lf_signal S \<and> lf_cut2 S = 0"
proof -
  obtain S where S: "life_reach S" "lf_main S = Exited" "lf_cut3 S = 1" "lf_waited S = 0" using http3_cut_off by blast
  have "\<not> shutdown_limit \<le> lf_waited S" by (simp add: S(4) shutdown_limit_def second_def)
  with server_shuts_down [OF S(1)] S(2) have "lf_signal S" "lf_cut2 S = 0" by simp_all
  with S show ?thesis by blast
qed

section \<open>Edge and origin trust the same certificate\<close>

text \<open>What \<open>AppendCertsFromPEM\<close> promises of a certificate in PEM: it is in the pool.\<close>

definition pools_pem :: "('k, 'd, 'l, 'r) crypto \<Rightarrow> (string \<Rightarrow> 'l list option) \<Rightarrow> bool" where
  "pools_pem cy pool_of \<longleftrightarrow> (\<forall>d l. cy_parse cy d = Inr l \<longrightarrow> pool_of (cy_pem cy ''CERTIFICATE'' d) = Some [l])"

text \<open>C29: Edge and origin agree on a certificate. An edge whose CA file is its certificate file, as by default, and that finds no certificate of its own
  on disk (the file of the certificate or that of the key is missing) starts with certificate checks on: it trusts exactly the certificate it has just made, and an origin started later over the same files,
  whatever its own names, presents exactly that one, without touching the files; both sides insist on TLS 1.3. In general an edge
  that starts checks certificates exactly when the CA file reads and holds certificates; otherwise it accepts any.\<close>

theorem edge_trusts_origin:
  assumes "boot_edge cy fails unreadable pool_of now opts (fs, r) = (Inr b, fs1, r1)"
  shows "(eo_ca_cert opts = eo_cert opts \<and> eo_cert opts \<noteq> [] \<and> eo_key opts \<noteq> [] \<and> eo_cert opts \<noteq> eo_key opts \<and> (fs (eo_cert opts) = None \<or> fs (eo_key opts) = None)
        \<and> unreadable (eo_cert opts) = None \<and> loads_back cy \<and> pools_pem cy pool_of \<and> oo_cert oopts = eo_cert opts \<and> oo_key oopts = eo_key opts \<longrightarrow>
      (\<exists>d l c o'. cy_parse cy d = Inr l \<and> tls_roots (uc_tls (eb_client b)) = Some [l] \<and> \<not> tls_insecure (uc_tls (eb_client b))
        \<and> boot_origin cy fails' now' oopts (fs1, r2) = (Inr o', fs1, r2) \<and> st_certificates (ob_tls o') = [c] \<and> ct_chain c = [d]
        \<and> st_min_version (ob_tls o') = tls13 \<and> tls_min_version (uc_tls (eb_client b)) = tls13))
    \<and> (tls_insecure (uc_tls (eb_client b)) \<longleftrightarrow> (\<forall>pem. read_from unreadable fs1 (eo_ca_cert opts) = Inr pem \<longrightarrow> pool_of pem = None))"
proof (intro conjI impI)
  from assms obtain c where c: "load_or_generate cy fails now (eo_cert opts) (eo_key opts) [''edge-sg'', ''edge-mumbai'', ''shield'']
       [''172.21.0.20'', ''172.22.0.30'', ''172.22.0.40''] (fs, r) = (Inr c, fs1, r1)"
    and b: "(eb_client b, eb_base b) = edge_upstream (read_from unreadable fs1) pool_of (eo_ca_cert opts) (eo_transport opts) (eo_origin_h2 opts) (eo_origin_h3 opts)"
    by (auto simp: boot_edge_def split: prod.splits sum.splits)
  have client: "eb_client b = build_upstream_client (eo_transport opts) (case load_cert_pool (read_from unreadable fs1) pool_of (eo_ca_cert opts) of Inl e \<Rightarrow> None | Inr p \<Rightarrow> Some p)"
    using b by (simp add: edge_upstream_def)
  show "tls_insecure (uc_tls (eb_client b)) \<longleftrightarrow> (\<forall>pem. read_from unreadable fs1 (eo_ca_cert opts) = Inr pem \<longrightarrow> pool_of pem = None)"
    by (auto simp: client build_upstream_client_def load_cert_pool_def Let_def split: sum.splits option.splits)
  assume a: "eo_ca_cert opts = eo_cert opts \<and> eo_cert opts \<noteq> [] \<and> eo_key opts \<noteq> [] \<and> eo_cert opts \<noteq> eo_key opts \<and> (fs (eo_cert opts) = None \<or> fs (eo_key opts) = None)
        \<and> unreadable (eo_cert opts) = None \<and> loads_back cy \<and> pools_pem cy pool_of \<and> oo_cert oopts = eo_cert opts \<and> oo_key oopts = eo_key opts"
  obtain d k l c' where f: "c = \<lparr>ct_chain = [d], ct_key = Ecdsa k, ct_leaf = Some l\<rparr>" "cy_parse cy d = Inr l"
    "fst (the (fs1 (eo_cert opts))) = cy_pem cy ''CERTIFICATE'' d" "fs1 (eo_cert opts) \<noteq> None"
    "\<And>fails' now' dns' ips' r2. load_or_generate cy fails' now' (eo_cert opts) (eo_key opts) dns' ips' (fs1, r2) = (Inr c', fs1, r2)" "ct_chain c' = [d]"
    using fresh_certificate [OF c] a by metis
  from f(3,4) a have "read_from unreadable fs1 (eo_ca_cert opts) = Inr (cy_pem cy ''CERTIFICATE'' d)" by (auto simp: read_from_def)
  then have "load_cert_pool (read_from unreadable fs1) pool_of (eo_ca_cert opts) = Inr [l]"
    using a f(2) by (simp add: load_cert_pool_def pools_pem_def)
  then have "tls_roots (uc_tls (eb_client b)) = Some [l]" "\<not> tls_insecure (uc_tls (eb_client b))" "tls_min_version (uc_tls (eb_client b)) = tls13"
    by (simp_all add: client build_upstream_client_def Let_def)
  moreover define o' where "o' = \<lparr>ob_delay = oo_delay oopts, ob_segment_seconds = oo_segment_seconds oopts,
      ob_tls = listener_tls c', ob_addrs = [oo_addr_h2 oopts, oo_addr_h3 oopts]\<rparr>"
  moreover have "boot_origin cy fails' now' oopts (fs1, r2) = (Inr o', fs1, r2)"
    using a f(5) by (simp add: boot_origin_def o'_def)
  moreover have "st_certificates (ob_tls o') = [c']" "st_min_version (ob_tls o') = tls13" by (simp_all add: o'_def listener_tls_def)
  ultimately show "\<exists>d l c o'. cy_parse cy d = Inr l \<and> tls_roots (uc_tls (eb_client b)) = Some [l] \<and> \<not> tls_insecure (uc_tls (eb_client b))
        \<and> boot_origin cy fails' now' oopts (fs1, r2) = (Inr o', fs1, r2) \<and> st_certificates (ob_tls o') = [c] \<and> ct_chain c = [d]
        \<and> st_min_version (ob_tls o') = tls13 \<and> tls_min_version (uc_tls (eb_client b)) = tls13"
    using f(2,6) by blast
qed

lemma plain_pools: "pools_pem plain_crypto (\<lambda>s. Some [drop 11 s])"
  by (simp add: pools_pem_def plain_crypto_def)

theorem edge_trusts_origin_witness:
  "\<exists>b fs1 r1. boot_edge plain_crypto (\<lambda>_. None) (\<lambda>_. None) (\<lambda>s. Some [drop 11 s]) 0 edge_defaults (Map.empty, 0) = (Inr b, fs1, r1)
     \<and> \<not> tls_insecure (uc_tls (eb_client b)) \<and> tls_roots (uc_tls (eb_client b)) \<noteq> None"
proof -
  obtain b fs1 r1 where b: "boot_edge plain_crypto (\<lambda>_. None) (\<lambda>_. None) (\<lambda>s. Some [drop 11 s]) 0 edge_defaults (Map.empty, 0) = (Inr b, fs1, r1)"
    by (simp add: boot_edge_def load_or_generate_def generate_self_signed_def persist_def write_file_def plain_crypto_def edge_upstream_def edge_defaults_def)
  have names: "eo_cert edge_defaults = ''/app/certs/server.crt''" "eo_key edge_defaults = ''/app/certs/server.key''" "eo_ca_cert edge_defaults = eo_cert edge_defaults"
    "oo_cert origin_defaults = ''/app/certs/server.crt''" "oo_key origin_defaults = ''/app/certs/server.key''"
    by (simp_all add: edge_defaults_def origin_defaults_def)
  from edge_trusts_origin [OF b, where oopts = origin_defaults and fails' = "\<lambda>_. None" and now' = 0 and ?r2.0 = 0, THEN conjunct1] plain_loads_back plain_pools names
  have "tls_roots (uc_tls (eb_client b)) \<noteq> None" "\<not> tls_insecure (uc_tls (eb_client b))" by auto
  with b show ?thesis by blast
qed

end
