(* ===== verification/Batch.thy ===== *)
theory Batch
  imports Emulated Process
begin

text \<open>
  \<open>FetchConcurrent\<close> of \<open>internal/transport/emulated/quic.go\<close> (and, word for word, of \<open>tcp.go\<close>) as its goroutines run: each fetches its
  segment and stores the answer in its slot of \<open>out\<close> or \<open>errs\<close>; one that fails cancels the context of the others, whose requests
  may then fail too; and the caller waits for all and takes the first error by index. \<open>Emulated\<close> has this as one call of the
  network that answers each request by its index; here is what these answers can be.
\<close>

record batch =
  bt_slots :: "(string + segment_response) option list"
  bt_cancelled :: bool

definition batch_start :: "nat \<Rightarrow> batch" where
  "batch_start n = \<lparr>bt_slots = replicate n None, bt_cancelled = False\<rparr>"

definition store :: "nat \<Rightarrow> string + segment_response \<Rightarrow> batch \<Rightarrow> batch" where
  "store i a B = B\<lparr>bt_slots := (bt_slots B)[i := Some a]\<rparr>"

text \<open>\<open>net i\<close> is what the network gives request \<open>i\<close> when it is left alone, \<open>why\<close> the error of a request whose context is cancelled.\<close>

inductive batch_step :: "'p emu_transport \<Rightarrow> segment_request list \<Rightarrow> (nat \<Rightarrow> string + net_answer) \<Rightarrow> string \<Rightarrow> batch \<Rightarrow> batch \<Rightarrow> bool"
  for et reqs net why where
  answered: "i < length (bt_slots B) \<Longrightarrow> bt_slots B ! i = None \<Longrightarrow>
    batch_step et reqs net why B (store i (segment_of_answer et (reqs ! i) (net i)) B)"
| propagate: "\<not> bt_cancelled B \<Longrightarrow> Some (Inl e) \<in> set (bt_slots B) \<Longrightarrow> batch_step et reqs net why B (B\<lparr>bt_cancelled := True\<rparr>)"
| aborted: "bt_cancelled B \<Longrightarrow> i < length (bt_slots B) \<Longrightarrow> bt_slots B ! i = None \<Longrightarrow>
    batch_step et reqs net why B (store i (segment_of_answer et (reqs ! i) (Inl why)) B)"

definition all_stored :: "batch \<Rightarrow> bool" where
  "all_stored B \<longleftrightarrow> None \<notin> set (bt_slots B)"

text \<open>The loop over \<open>errs\<close> after \<open>wg.Wait\<close>.\<close>

definition batch_result :: "'p emu_transport \<Rightarrow> batch \<Rightarrow> string + segment_response list" where
  "batch_result et B = (case collect_all 0 (map the (bt_slots B)) of
     Inl (i, e) \<Rightarrow> Inl (''emulated '' @ et_kind et @ '' concurrent (req '' @ itoa (int i) @ '' of '' @ itoa (int (length (bt_slots B))) @ ''): '' @ e)
   | Inr resps \<Rightarrow> Inr resps)"

definition steps_open :: "batch \<Rightarrow> nat" where
  "steps_open B = length (filter (\<lambda>s. s = None) (bt_slots B)) + (if bt_cancelled B then 0 else 1)"

section \<open>What a slot can hold\<close>

definition slot_ok :: "'p emu_transport \<Rightarrow> segment_request list \<Rightarrow> (nat \<Rightarrow> string + net_answer) \<Rightarrow> string \<Rightarrow> batch \<Rightarrow> nat \<Rightarrow> bool" where
  "slot_ok et reqs net why B i \<longleftrightarrow> bt_slots B ! i = None \<or> bt_slots B ! i = Some (segment_of_answer et (reqs ! i) (net i))
     \<or> bt_cancelled B \<and> bt_slots B ! i = Some (segment_of_answer et (reqs ! i) (Inl why))"

definition batch_inv :: "'p emu_transport \<Rightarrow> segment_request list \<Rightarrow> (nat \<Rightarrow> string + net_answer) \<Rightarrow> string \<Rightarrow> batch \<Rightarrow> bool" where
  "batch_inv et reqs net why B \<longleftrightarrow> length (bt_slots B) = length reqs \<and> (\<forall>i<length reqs. slot_ok et reqs net why B i)
     \<and> (bt_cancelled B \<longrightarrow> (\<exists>j<length reqs. \<exists>e. net j = Inl e \<and> bt_slots B ! j = Some (segment_of_answer et (reqs ! j) (Inl e))))"

lemma store_inv:
  assumes "batch_inv et reqs net why B" "i < length (bt_slots B)" "bt_slots B ! i = None"
    and "a = segment_of_answer et (reqs ! i) (net i) \<or> bt_cancelled B \<and> a = segment_of_answer et (reqs ! i) (Inl why)"
  shows "batch_inv et reqs net why (store i a B)"
proof -
  have "\<exists>j<length reqs. \<exists>e. net j = Inl e \<and> bt_slots (store i a B) ! j = Some (segment_of_answer et (reqs ! j) (Inl e))" if "bt_cancelled B"
  proof -
    from that assms(1) obtain j e where j: "j < length reqs" "net j = Inl e" "bt_slots B ! j = Some (segment_of_answer et (reqs ! j) (Inl e))"
      by (auto simp: batch_inv_def)
    then have "j \<noteq> i" using assms(3) by auto
    with j show ?thesis by (auto simp: store_def)
  qed
  with assms show ?thesis by (auto simp: batch_inv_def slot_ok_def store_def nth_list_update)
qed

lemma batch_step_inv:
  "batch_step et reqs net why B C \<Longrightarrow> batch_inv et reqs net why B \<Longrightarrow> batch_inv et reqs net why C"
proof (induction rule: batch_step.induct)
  case (answered i B)
  then show ?case by (intro store_inv) simp_all
next
  case (propagate B e)
  then obtain j where j: "j < length reqs" "bt_slots B ! j = Some (Inl e)" by (auto simp: in_set_conv_nth batch_inv_def)
  with propagate have "slot_ok et reqs net why B j" by (simp add: batch_inv_def)
  with j propagate(1) have "segment_of_answer et (reqs ! j) (net j) = Inl e" by (simp add: slot_ok_def)
  then obtain e' where "net j = Inl e'" "Inl e = segment_of_answer et (reqs ! j) (Inl e')" by (cases "net j") (auto simp: segment_of_answer_def)
  with j propagate show ?case by (auto simp: batch_inv_def slot_ok_def)
next
  case (aborted B i)
  then show ?case by (intro store_inv) simp_all
qed

lemma batch_reach_inv:
  "(batch_step et reqs net why)\<^sup>*\<^sup>* (batch_start (length reqs)) B \<Longrightarrow> batch_inv et reqs net why B"
proof (induction rule: rtranclp_induct)
  case base
  then show ?case by (simp add: batch_inv_def slot_ok_def batch_start_def)
qed (rule batch_step_inv)

lemma pending_update:
  "i < length xs \<Longrightarrow> xs ! i = None \<Longrightarrow> Suc (length (filter (\<lambda>s. s = None) (xs[i := Some a]))) = length (filter (\<lambda>s. s = None) xs)"
proof (induction xs arbitrary: i)
  case (Cons x xs)
  then show ?case by (cases i) auto
qed simp

lemma batch_step_open: "batch_step et reqs net why B C \<Longrightarrow> steps_open C < steps_open B"
proof (induction rule: batch_step.induct)
  case (answered i B)
  then show ?case using pending_update [OF answered] by (simp add: steps_open_def store_def less_eq_Suc_le)
next
  case (aborted B i)
  then show ?case using pending_update [OF aborted(2,3)] by (simp add: steps_open_def store_def less_eq_Suc_le)
qed (simp add: steps_open_def)

lemma batch_progress: "\<not> all_stored B \<Longrightarrow> \<exists>C. batch_step et reqs net why B C"
  by (auto simp: all_stored_def in_set_conv_nth) (metis answered)

interpretation goroutines: ending_process "batch_step et reqs net why" "\<lambda>_. True" all_stored steps_open for et reqs net why
  by unfold_locales (simp_all add: batch_step_open batch_progress)

section \<open>The outcome of a batch\<close>

text \<open>The answers a finished batch has stored: what the network gave, or the abortion that a failure elsewhere caused.\<close>

lemma stored_answers:
  assumes "batch_inv et reqs net why B" "all_stored B"
  obtains ans where "map the (bt_slots B) = map (\<lambda>i. segment_of_answer et (reqs ! i) (ans i)) [0..<length reqs]"
    "\<forall>i<length reqs. ans i = net i \<or> ans i = Inl why \<and> (\<exists>j<length reqs. j \<noteq> i \<and> (\<exists>e. net j = Inl e))"
proof -
  define ans where "ans i = (if bt_slots B ! i = Some (segment_of_answer et (reqs ! i) (net i)) then net i else Inl why)" for i
  have len: "length (bt_slots B) = length reqs" using assms(1) by (simp add: batch_inv_def)
  have slot: "bt_slots B ! i = Some (segment_of_answer et (reqs ! i) (net i))
      \<or> bt_cancelled B \<and> bt_slots B ! i = Some (segment_of_answer et (reqs ! i) (Inl why))" if "i < length reqs" for i
  proof -
    have "bt_slots B ! i \<in> set (bt_slots B)" using that len by simp
    then have "bt_slots B ! i \<noteq> None" using assms(2) unfolding all_stored_def by metis
    moreover have "slot_ok et reqs net why B i" using assms(1) that by (simp add: batch_inv_def)
    ultimately show ?thesis unfolding slot_ok_def by argo
  qed
  have cause: "\<exists>j<length reqs. j \<noteq> i \<and> (\<exists>e. net j = Inl e)" if "bt_cancelled B" "ans i \<noteq> net i" for i
  proof -
    from assms(1) that(1) obtain j e where j: "j < length reqs" "net j = Inl e" "bt_slots B ! j = Some (segment_of_answer et (reqs ! j) (Inl e))"
      by (auto simp: batch_inv_def)
    then have "ans j = net j" by (simp add: ans_def)
    with that(2) have "j \<noteq> i" by metis
    with j show ?thesis by blast
  qed
  have at: "bt_slots B ! i = Some (segment_of_answer et (reqs ! i) (ans i)) \<and> (ans i = net i \<or> ans i = Inl why \<and> bt_cancelled B)" if "i < length reqs" for i
    by (cases "bt_slots B ! i = Some (segment_of_answer et (reqs ! i) (net i))") (use slot [OF that] in \<open>simp_all add: ans_def\<close>)
  show thesis
  proof (rule that [of ans])
    show "map the (bt_slots B) = map (\<lambda>i. segment_of_answer et (reqs ! i) (ans i)) [0..<length reqs]"
      by (rule nth_equalityI) (simp_all add: len at)
    show "\<forall>i<length reqs. ans i = net i \<or> ans i = Inl why \<and> (\<exists>j<length reqs. j \<noteq> i \<and> (\<exists>e. net j = Inl e))"
      using at cause by blast
  qed
qed

text \<open>What the loop over the errors makes of a list of answers.\<close>

lemma collect_answers:
  obtains (all) "\<And>i. i < n \<Longrightarrow> \<exists>a. ans i = Inr a"
      "collect_all 0 (map (\<lambda>i. segment_of_answer et (reqs ! i) (ans i)) [0..<n]) = Inr (map (\<lambda>i. projr (segment_of_answer et (reqs ! i) (ans i))) [0..<n])"
  | (failed) i e where "i < n" "ans i = Inl e" "\<And>k. k < i \<Longrightarrow> \<exists>a. ans k = Inr a" "collect_all 0 (map (\<lambda>i. segment_of_answer et (reqs ! i) (ans i)) [0..<n])
      = Inl (i, ''emulated '' @ et_kind et @ '' fetch '' @ build_segment_url (et_url et) (req_id (reqs ! i)) @ '': '' @ e)"
proof (cases rule: collect_all_cases [of "map (\<lambda>i. segment_of_answer et (reqs ! i) (ans i)) [0..<n]" 0])
  case (all ys)
  have "\<exists>a. ans i = Inr a" if "i < n" for i
  proof -
    have "segment_of_answer et (reqs ! i) (ans i) = Inr (ys ! i)"
      using that arg_cong [OF all(1), of "\<lambda>l. l ! i"] arg_cong [OF all(1), of length] by simp
    then show ?thesis using segment_of_answer_Inr by blast
  qed
  moreover have "ys = map projr (map (\<lambda>i. segment_of_answer et (reqs ! i) (ans i)) [0..<n])" by (simp add: all(1) comp_def)
  ultimately show thesis using that(1) all(2) by (simp add: comp_def)
next
  case (failed ys e zs)
  have i: "length ys < n" using arg_cong [OF failed(1), of length] by simp
  have "segment_of_answer et (reqs ! length ys) (ans (length ys)) = Inl e" using arg_cong [OF failed(1), of "\<lambda>l. l ! length ys"] i by (simp add: nth_append)
  then obtain e' where "ans (length ys) = Inl e'" "e = ''emulated '' @ et_kind et @ '' fetch '' @ build_segment_url (et_url et) (req_id (reqs ! length ys)) @ '': '' @ e'"
    by (auto simp: segment_of_answer_def split: sum.splits)
  moreover have "\<exists>a. ans k = Inr a" if "k < length ys" for k
  proof -
    have "segment_of_answer et (reqs ! k) (ans k) = Inr (ys ! k)"
      using that i arg_cong [OF failed(1), of "\<lambda>l. l ! k"] by (simp add: nth_append)
    then show ?thesis using segment_of_answer_Inr by blast
  qed
  ultimately show thesis using i failed(2) that(2) by simp
qed

text \<open>C18: A batch whatever the order of its goroutines. Every interleaving ends, after at most a step per request and one more. When the network
  answers every request, the result is all the answers in the order of the requests, in every interleaving; when it fails one, the
  result is an error, which names the request with the least index that has one: all before it were answered and stored their answers, and it is
  either a request the network failed, or one that was aborted because another was failed. What the caller gets is what \<open>emu_fetch\<close> makes of the answers so stored.\<close>

theorem batch_any_order:
  assumes "(batch_step et reqs net why)\<^sup>*\<^sup>* (batch_start (length reqs)) B"
  shows "(all_stored B \<longrightarrow> (if \<forall>i<length reqs. \<exists>a. net i = Inr a
        then batch_result et B = Inr (map (\<lambda>i. projr (segment_of_answer et (reqs ! i) (net i))) [0..<length reqs])
        else \<exists>i<length reqs. \<exists>e j. batch_result et B = Inl (''emulated '' @ et_kind et @ '' concurrent (req '' @ itoa (int i) @ '' of ''
              @ itoa (int (length reqs)) @ ''): emulated '' @ et_kind et @ '' fetch '' @ build_segment_url (et_url et) (req_id (reqs ! i)) @ '': '' @ e)
            \<and> (net i = Inl e \<or> e = why \<and> j < length reqs \<and> j \<noteq> i \<and> (\<exists>e'. net j = Inl e'))
            \<and> bt_slots B ! i = Some (segment_of_answer et (reqs ! i) (Inl e))
            \<and> (\<forall>k<i. \<exists>a. net k = Inr a \<and> bt_slots B ! k = Some (segment_of_answer et (reqs ! k) (Inr a))))
      \<and> (\<exists>ans. (\<forall>i<length reqs. ans i = net i \<or> ans i = Inl why)
          \<and> (\<forall>N ctx n n'. net_get N (et_tls et) ctx (map (\<lambda>r. build_segment_url (et_url et) (req_id r)) reqs) n = (ans, n')
              \<longrightarrow> emu_fetch N et ctx reqs n = (batch_result et B, n'))))
    \<and> (\<exists>C. (batch_step et reqs net why)\<^sup>*\<^sup>* B C \<and> all_stored C)
    \<and> steps_open B \<le> length reqs + 1 \<and> (\<forall>C. batch_step et reqs net why B C \<longrightarrow> steps_open C < steps_open B)"
proof (intro conjI impI allI)
  note inv = batch_reach_inv [OF assms]
  have len: "length (bt_slots B) = length reqs" using inv by (simp add: batch_inv_def)
  show "\<exists>C. (batch_step et reqs net why)\<^sup>*\<^sup>* B C \<and> all_stored C" using goroutines.runs_end by blast
  show "steps_open B \<le> length reqs + 1" using len length_filter_le [of "\<lambda>s. s = None" "bt_slots B"] by (simp add: steps_open_def)
  show "steps_open C < steps_open B" if "batch_step et reqs net why B C" for C using that by (rule batch_step_open)
  assume "all_stored B"
  obtain ans where xs: "map the (bt_slots B) = map (\<lambda>i. segment_of_answer et (reqs ! i) (ans i)) [0..<length reqs]"
    and ans: "\<forall>i<length reqs. ans i = net i \<or> ans i = Inl why \<and> (\<exists>j<length reqs. j \<noteq> i \<and> (\<exists>e. net j = Inl e))" by (rule stored_answers [OF inv \<open>all_stored B\<close>])
  have emu: "emu_fetch N et ctx reqs n = (batch_result et B, n')"
    if "net_get N (et_tls et) ctx (map (\<lambda>r. build_segment_url (et_url et) (req_id r)) reqs) n = (ans, n')" for N and ctx and n n'
    by (simp add: emu_fetch_def that batch_result_def xs len split: sum.split prod.split)
  have "\<forall>i<length reqs. ans i = net i \<or> ans i = Inl why" using ans by metis
  then show "\<exists>ans. (\<forall>i<length reqs. ans i = net i \<or> ans i = Inl why)
      \<and> (\<forall>N ctx n n'. net_get N (et_tls et) ctx (map (\<lambda>r. build_segment_url (et_url et) (req_id r)) reqs) n = (ans, n')
          \<longrightarrow> emu_fetch N et ctx reqs n = (batch_result et B, n'))"
    by (intro exI [of _ ans] conjI allI impI) (simp, erule emu)
  show "if \<forall>i<length reqs. \<exists>a. net i = Inr a
        then batch_result et B = Inr (map (\<lambda>i. projr (segment_of_answer et (reqs ! i) (net i))) [0..<length reqs])
        else \<exists>i<length reqs. \<exists>e j. batch_result et B = Inl (''emulated '' @ et_kind et @ '' concurrent (req '' @ itoa (int i) @ '' of ''
              @ itoa (int (length reqs)) @ ''): emulated '' @ et_kind et @ '' fetch '' @ build_segment_url (et_url et) (req_id (reqs ! i)) @ '': '' @ e)
            \<and> (net i = Inl e \<or> e = why \<and> j < length reqs \<and> j \<noteq> i \<and> (\<exists>e'. net j = Inl e'))
            \<and> bt_slots B ! i = Some (segment_of_answer et (reqs ! i) (Inl e))
            \<and> (\<forall>k<i. \<exists>a. net k = Inr a \<and> bt_slots B ! k = Some (segment_of_answer et (reqs ! k) (Inr a)))"
  proof (cases rule: collect_answers [of "length reqs" ans et reqs])
    case all
    then have same: "ans i = net i" if "i < length reqs" for i using ans that by fastforce
    then have "\<forall>i<length reqs. \<exists>a. net i = Inr a" using all(1) by metis
    with same show ?thesis by (simp add: batch_result_def xs all(2))
  next
    case (failed i e)
    have cause: "\<exists>j. net i = Inl e \<or> e = why \<and> j < length reqs \<and> j \<noteq> i \<and> (\<exists>e'. net j = Inl e')"
      using ans failed(1,2) by fastforce
    then have n: "\<not> (\<forall>i<length reqs. \<exists>a. net i = Inr a)" using failed(1) by fastforce
    have st: "bt_slots B ! k = Some (segment_of_answer et (reqs ! k) (ans k))" if "k < length reqs" for k
    proof -
      have "bt_slots B ! k \<in> set (bt_slots B)" using that len by simp
      then have "bt_slots B ! k \<noteq> None" using \<open>all_stored B\<close> unfolding all_stored_def by metis
      then show ?thesis using arg_cong [OF xs, of "\<lambda>l. l ! k"] that len by auto
    qed
    have before: "\<exists>a. net k = Inr a \<and> bt_slots B ! k = Some (segment_of_answer et (reqs ! k) (Inr a))" if "k < i" for k
    proof -
      from failed(3) [OF that] obtain a where a: "ans k = Inr a" by blast
      have k: "k < length reqs" using that failed(1) by simp
      with ans have "ans k = net k \<or> ans k = Inl why" by blast
      with a have "net k = Inr a" by auto
      with st [OF k] a show ?thesis by simp
    qed
    from cause obtain j where "net i = Inl e \<or> e = why \<and> j < length reqs \<and> j \<noteq> i \<and> (\<exists>e'. net j = Inl e')" ..
    moreover have "batch_result et B = Inl (''emulated '' @ et_kind et @ '' concurrent (req '' @ itoa (int i) @ '' of '' @ itoa (int (length reqs))
        @ ''): emulated '' @ et_kind et @ '' fetch '' @ build_segment_url (et_url et) (req_id (reqs ! i)) @ '': '' @ e)"
      unfolding batch_result_def xs failed(4) sum.case prod.case len by simp
    ultimately show ?thesis unfolding if_not_P [OF n] using failed(1) before st [OF failed(1), unfolded failed(2)] by blast
  qed
qed

text \<open>The error of the caller need not tell what went wrong: two requests, of which the network fails the second, can end with the first one
  named, whose request was aborted for it.\<close>

lemma cause_hidden:
  assumes "net 0 = Inr a" "net 1 = Inl e"
  shows "\<exists>B. (batch_step et [r, s] net why)\<^sup>*\<^sup>* (batch_start 2) B \<and> all_stored B
    \<and> batch_result et B = Inl (''emulated '' @ et_kind et @ '' concurrent (req 0 of 2): emulated '' @ et_kind et @ '' fetch '' @ build_segment_url (et_url et) (req_id r) @ '': '' @ why)"
proof -
  let ?step = "batch_step et [r, s] net why"
  define fail where "fail = segment_of_answer et s (Inl e)"
  define abort where "abort = segment_of_answer et r (Inl why)"
  obtain m where m: "fail = Inl m" by (simp add: fail_def segment_of_answer_def)
  have "?step (batch_start 2) \<lparr>bt_slots = [None, Some fail], bt_cancelled = False\<rparr>"
    using batch_step.answered [of 1 "batch_start 2" et "[r, s]" net why] by (simp add: batch_start_def store_def fail_def assms(2) [unfolded One_nat_def] numeral_2_eq_2)
  moreover have "?step \<lparr>bt_slots = [None, Some fail], bt_cancelled = False\<rparr> \<lparr>bt_slots = [None, Some fail], bt_cancelled = True\<rparr>"
    using batch_step.propagate [of "\<lparr>bt_slots = [None, Some fail], bt_cancelled = False\<rparr>" m] by (simp add: m)
  moreover have "?step \<lparr>bt_slots = [None, Some fail], bt_cancelled = True\<rparr> \<lparr>bt_slots = [Some abort, Some fail], bt_cancelled = True\<rparr>"
    using batch_step.aborted [of "\<lparr>bt_slots = [None, Some fail], bt_cancelled = True\<rparr>" 0 et "[r, s]" net why] by (simp add: store_def abort_def)
  ultimately have "?step\<^sup>*\<^sup>* (batch_start 2) \<lparr>bt_slots = [Some abort, Some fail], bt_cancelled = True\<rparr>"
    by (meson rtranclp.rtrancl_refl rtranclp.rtrancl_into_rtrancl)
  moreover have "itoa 0 = ''0''" "itoa 2 = ''2''" by code_simp+
  ultimately show ?thesis
    by (intro exI [of _ "\<lparr>bt_slots = [Some abort, Some fail], bt_cancelled = True\<rparr>"])
      (simp add: all_stored_def batch_result_def abort_def segment_of_answer_def)
qed

theorem batch_any_order_witness:
  "let et = new_emulated_quic ''u'' \<lparr>tls_min_version = tls13, tls_roots = (None :: unit option), tls_insecure = True, tls_protos = []\<rparr>;
      reqs = [\<lparr>req_id = ''a'', req_bitrate = 400, req_size = 10\<rparr>, \<lparr>req_id = ''b'', req_bitrate = 400, req_size = 10\<rparr>];
      net = (\<lambda>i. if i = 0 then Inr \<lparr>na_bytes = 10, na_ttfb = 1, na_total = 2, na_cpu = 0\<rparr> else Inl ''refused'')
    in \<exists>B e. (batch_step et reqs net ''cancelled'')\<^sup>*\<^sup>* (batch_start (length reqs)) B \<and> all_stored B \<and> batch_result et B = Inl e"
proof -
  define et :: "unit emu_transport" where "et = new_emulated_quic ''u'' \<lparr>tls_min_version = tls13, tls_roots = None, tls_insecure = True, tls_protos = []\<rparr>"
  define net where "net = (\<lambda>i. if i = (0::nat) then Inr \<lparr>na_bytes = 10, na_ttfb = 1, na_total = 2, na_cpu = 0\<rparr> else Inl ''refused'')"
  define reqs where "reqs = [\<lparr>req_id = ''a'', req_bitrate = 400, req_size = 10\<rparr>, \<lparr>req_id = ''b'', req_bitrate = 400, req_size = 10\<rparr>]"
  obtain B where B: "(batch_step et reqs net ''cancelled'')\<^sup>*\<^sup>* (batch_start (length reqs)) B" "all_stored B" using goroutines.runs_end by blast
  have "\<not> (\<forall>i<length reqs. \<exists>a. net i = Inr a)" by (auto simp: net_def reqs_def intro!: exI [of _ 1])
  with batch_any_order [OF B(1)] B(2) obtain e where "batch_result et B = Inl e" by auto
  with B show ?thesis unfolding Let_def et_def net_def reqs_def by blast
qed

end
