(* ===== verification/Spec2Isabelle.thy ===== *)
theory Spec2Isabelle
  imports Lru Arc_Policy Arc_Lists Transports Bandwidth Abr Shield Playback Routing Serverapi EdgeConc RankSum Warmup Emulated Sockets Sweep Reference Servers Report Cli Sweep_Files Lifecycle Batch
begin

text \<open>
  A model of the video streaming CDN simulator. The program plays adaptive video sessions of many clients
  over a content delivery network, once over TCP with HTTP/2 and once over QUIC with HTTP/3, and compares the two. In the modeled
  mode the network is simulated; in the emulated mode the same sessions fetch their segments from real edge and origin servers.

  \<^bold>\<open>Parts and theories.\<close>
  \<^item> \<open>Prelude\<close>, \<open>Rand\<close>, \<open>Float64\<close>, \<open>GoStrings\<close>: values of Go that occur everywhere: durations, the generator interface of
    \<open>math/rand\<close>, \<open>float64\<close> as reals rounded after every operation, and the string functions the code calls. \<open>Process\<close>: concurrent parts that come to an end.
  \<^item> \<open>internal/cache\<close>: \<open>Cache\<close> holds items, counters, element lists and the interface as a locale; \<open>Lru\<close> and \<open>Arc\<close> the two
    caches, \<open>Arc_Policy\<close> what the second guarantees and \<open>Arc_Lists\<close> the algorithm on plain lists it refines. The Zipf popularity is in \<open>Population\<close>.
  \<^item> \<open>internal/transport\<close>: \<open>Transport\<close> (requests, responses, profiles, jitter and the transport interface), \<open>Loss\<close>,
    \<open>Congestion\<close>, \<open>Bandwidth\<close> and \<open>Modeled\<close> (the modeled TCP and QUIC transports), with \<open>Transports\<close> for what they guarantee.
  \<^item> \<open>internal/video\<close>: \<open>Manifest\<close>, \<open>Abr\<close>, \<open>Player\<close> (the loop of \<open>RunPlayback\<close> over a cache, a shield and a transport) and
    \<open>Playback\<close> for its theorems.
  \<^item> \<open>internal/cdn\<close>: \<open>Shield\<close>. \<open>internal/routing\<close>: \<open>Routing\<close>, the four policies.
  \<^item> \<open>internal/analysis\<close> and \<open>internal/metrics\<close>: \<open>Statistics\<close>, \<open>RankSum\<close>, \<open>Metrics\<close> (collector, aggregation, legacy
    comparison) and \<open>Comparison\<close> (enhanced comparison, verdict, findings).
  \<^item> \<open>internal/experiment\<close>: \<open>Config\<close> (schema, \<open>Validate\<close>), \<open>Population\<close> (clients, seeds, contents), \<open>Runner\<close> (\<open>Run\<close>, \<open>runOne\<close>),
    \<open>Runs\<close> and \<open>Warmup\<close> for the theorems about runs, \<open>Sweep\<close>, \<open>Reference\<close> (\<open>reference.go\<close>, \<open>validate.go\<close>), \<open>Tls\<close> and \<open>Emulated\<close>
    (\<open>emulated.go\<close> and \<open>internal/transport/emulated\<close>), whose concurrent batches are interleaved goroutines in \<open>Batch\<close> and whose
    transports are followed to their closing in \<open>Sockets\<close>.
  \<^item> \<open>internal/serverapi\<close>, \<open>cmd/origin-server\<close>, \<open>cmd/edge-server\<close>: \<open>Serverapi\<close> (URL paths, payloads, the origin's segment
    handler) and \<open>Edge\<close> (the edge's handlers over its LRU cache and the map of payloads); \<open>EdgeConc\<close> splits the handlers into the steps
    between which others run, and \<open>Servers\<close> puts player, edge and origin together, with the URL parser and the multiplexer in between.
  \<^item> \<open>Report\<close> (\<open>reporter.go\<close>, \<open>summary_pretty.go\<close>): the CSV and JSON files and the summaries. \<open>Cli\<close> (\<open>cmd/cdnsim\<close>): flags, loading of
    scenarios, the four commands. \<open>Sweep_Files\<close> is the sweep with the disk it writes to. \<open>Hosts\<close>: certificates (\<open>internal/servertls\<close>), the upstream client of the edge, and processor and TCP statistics.
    \<open>Lifecycle\<close>: the mains of the two servers, from their options to their exit, as a step relation.

  \<^bold>\<open>How the parts meet.\<close> The runner of \<open>Runner\<close> builds clients, caches, a policy and transports from a validated configuration,
  routes every client, and plays its session with \<open>run_playback\<close>, which is a function of the records of operations \<open>cache_ops\<close>,
  \<open>abr_ops\<close> and \<open>transport_ops\<close>, as the Go code is of its interfaces. The laws of an interface are the assumptions of a locale
  (\<open>cache_iface\<close>, the transport contract, the loss interface, the policy contract, \<open>counted_transport\<close>, \<open>ending_process\<close>), each interpreted on the
  model's own implementations. Results flow through the collector into aggregation, comparison, sweeps and the checks of \<open>Reference\<close>.

  \<^bold>\<open>What the lemmas show.\<close> Both caches keep their lists, indices and counters consistent and within the byte budget, LRU refines an
  abstract recency list, ARC the algorithm on four plain lists, and a hit returns what was stored last. The transfer model takes exactly the rounds of slow start without
  losses, is slowed by losses, and terminates; a loss on TCP holds all streams, on QUIC only its own. A session ends without error,
  reports every segment once and in order, and its clock adds up as stated (including the stalls it counts twice). A run plays all its
  sessions, keeps the capacities, and pairs the TCP and QUIC sessions; an experiment reports one session per client, run and
  protocol. The statistics equal their textbook definitions, the verdicts follow from the significant improvements, the sweep lists
  every combination once under its own label, and the emulated client, the edge and the origin agree on URLs and bodies, however
  requests interleave at the edge. However it ends, an emulated run has closed the sockets of its QUIC transports, and a sweep that succeeds leaves the
    results of every combination in a directory of their own. The CSV file reads back, the printed summary is complete, a run exits with 0 exactly with all its
  reports written, a server finds the certificate it has
  generated, edge and origin trust the same one, and a server that is told to stop does.

  \<^bold>\<open>Machine values.\<close> Go's \<open>int\<close> and \<open>int64\<close> are unbounded integers where the theorems bound them otherwise; seeds and hashes are words,
  where wrap-around matters. Floats are reals rounded to 53 bits after each operation, with an unbounded exponent and no NaN or
  infinity. Durations are integers in nanoseconds.

  \<^bold>\<open>Bounds and fuel.\<close> The trace generator runs on fuel of one unit per second of trace; an interval has at least a second, so the
  fuel is enough (\<open>synthetic_trace_covers\<close>). The odometer of the sweep is a \<open>partial_function\<close>, proved to return. Theorems about
  the modeled transports assume round trips of at most ten seconds (\<open>profile_ok\<close>) and batches of at most \<open>10^9\<close> bytes, within which
  no float overflows an integer; percentiles are exact up to \<open>2^45\<close> samples and rank sums up to \<open>2^25\<close>.

  \<^bold>\<open>Parameters.\<close> What is not under \<open>src/\<close> is an argument of the definitions that use it: the generator (\<open>rand_ops\<close>), the elementary
  functions (\<open>libm\<close>), SHA-256, the Zipf sampler and the clock (\<open>env\<close>), the network of the emulated transports, the upstream of the
  edge, the file system, the crypto libraries, the JSON and YAML encoders and decoders, and the shortest float format of a sweep.

  \<^bold>\<open>Not modelled.\<close> The encoders of JSON and YAML and the crypto libraries (third-party or library code), how the servers' flags
  are written, the time the origin's processing delay takes, logging, wall-clock durations, and a context that is cancelled while a
  run is in progress (\<open>cdnsim\<close> runs everything in the background context, which never is).
\<close>

end
